(* ===== verification/FxPrelude.thy ===== *)
theory FxPrelude
  imports Main "HOL-Library.Word" "HOL-Library.Monad_Syntax" "HOL-Library.Sublist"
begin

unbundle bit_operations_syntax

text \<open>
  Shared notions of the host models: the machine types of the C code, C strings and their
  character access, fixed-size C arrays, and the reading of undefined behaviour.

  An operation of the C code that may hit undefined behaviour (a read past the terminator
  of a string, an index outside an array, a dereference of a dead or wrongly typed pointer)
  is a function into \<open>'a option\<close>: \<open>None\<close> is undefined behaviour (for the
  recursive teardown also: the call does not return), \<open>Some\<close> is the C result. A
  theorem of the form \<open>\<exists>y. f x = Some y\<close> is then a memory-safety statement.
\<close>

section \<open>Machine types\<close>

type_synonym addr = "64 word"
type_synonym i64 = "64 word"
type_synonym usize = "64 word"
type_synonym i32 = "32 word"
type_synonym u32 = "32 word"

text \<open>A \<open>const char *\<close> argument: \<open>None\<close> is NULL.\<close>

type_synonym cptr = "string option"

named_theorems array_simps
named_theorems bind_iff

section \<open>The option monad of possibly undefined computations\<close>

lemma bind_Some_iff [bind_iff]: "Option.bind m f = Some y \<longleftrightarrow> (\<exists>x. m = Some x \<and> f x = Some y)"
  by (cases m) auto

lemma bind_eq_SomeE:
  assumes "Option.bind m f = Some y"
  obtains x where "m = Some x" "f x = Some y"
  using assms by (cases m) auto

text \<open>A C \<open>for\<close> loop that runs a state transformer over the items of a table.\<close>

fun foldM :: "('a \<Rightarrow> 's \<Rightarrow> 's option) \<Rightarrow> 'a list \<Rightarrow> 's \<Rightarrow> 's option" where
  "foldM f [] s = Some s"
| "foldM f (x # xs) s = do { s' \<leftarrow> f x s; foldM f xs s' }"

lemma foldM_invariant:
  assumes "foldM f xs s = Some s'" and "P s"
    and "\<And>x s s'. x \<in> set xs \<Longrightarrow> P s \<Longrightarrow> f x s = Some s' \<Longrightarrow> P s'"
  shows "P s'"
  using assms by (induction xs arbitrary: s) (auto simp: bind_iff)

section \<open>Fixed-size arrays\<close>

definition aget :: "'a list \<Rightarrow> nat \<Rightarrow> 'a option" where
  "aget xs i = (if i < length xs then Some (xs ! i) else None)"

definition aset :: "'a list \<Rightarrow> nat \<Rightarrow> 'a \<Rightarrow> 'a list option" where
  "aset xs i v = (if i < length xs then Some (xs[i := v]) else None)"

text \<open>\<open>memcpy(buf + i, xs, n)\<close>, which has to stay inside \<open>buf\<close>.\<close>

definition memcpy_at :: "char list \<Rightarrow> nat \<Rightarrow> char list \<Rightarrow> char list option" where
  "memcpy_at buf i xs =
     (if i + length xs \<le> length buf then Some (take i buf @ xs @ drop (i + length xs) buf) else None)"

lemma aget_in [array_simps]: "i < length xs \<Longrightarrow> aget xs i = Some (xs ! i)"
  by (simp add: aget_def)

lemma aset_in [array_simps]: "i < length xs \<Longrightarrow> aset xs i v = Some (xs[i := v])"
  by (simp add: aset_def)

lemma aset_Some [bind_iff]: "aset xs i v = Some ys \<longleftrightarrow> i < length xs \<and> ys = xs[i := v]"
  by (auto simp: aset_def)

lemma aget_Some [bind_iff]: "aget xs i = Some y \<longleftrightarrow> i < length xs \<and> y = xs ! i"
  by (auto simp: aget_def)

lemma take_update_last:
  "i < length xs \<Longrightarrow> take (Suc i) (xs[i := v]) = take i xs @ [v]"
  using take_Suc_conv_app_nth [of i "xs[i := v]"] by simp

section \<open>C strings\<close>

abbreviation NUL :: char where "NUL \<equiv> CHR 0x00"

definition cstr :: "string \<Rightarrow> bool" where
  "cstr s \<longleftrightarrow> NUL \<notin> set s"

text \<open>
  \<open>p[i]\<close> for a NUL-terminated \<open>p\<close>: the terminator may be read, nothing behind it.
\<close>

definition char_at :: "string \<Rightarrow> nat \<Rightarrow> char option" where
  "char_at s i = (if i < length s then Some (s ! i) else if i = length s then Some NUL else None)"

definition strlen :: "string \<Rightarrow> nat" where
  "strlen s = length (takeWhile (\<lambda>c. c \<noteq> NUL) s)"

definition chd :: "string \<Rightarrow> char" where
  "chd s = (case s of [] \<Rightarrow> NUL | c # _ \<Rightarrow> c)"

definition char_diff :: "char \<Rightarrow> char \<Rightarrow> int" where
  "char_diff c d = of_char c - of_char d"

fun strncmp :: "string \<Rightarrow> string \<Rightarrow> nat \<Rightarrow> int" where
  "strncmp a b 0 = 0"
| "strncmp a b (Suc n) =
     (if chd a \<noteq> chd b then char_diff (chd a) (chd b)
      else if chd a = NUL then 0
      else strncmp (tl a) (tl b) n)"

definition strcmp :: "string \<Rightarrow> string \<Rightarrow> int" where
  "strcmp a b = strncmp a b (Suc (max (length a) (length b)))"

lemma cstr_simps [simp]:
  "cstr []"
  "cstr (c # s) \<longleftrightarrow> c \<noteq> NUL \<and> cstr s"
  "cstr (s @ t) \<longleftrightarrow> cstr s \<and> cstr t"
  by (auto simp: cstr_def)

lemma strlen_cstr [simp]: "cstr s \<Longrightarrow> strlen s = length s"
  unfolding strlen_def cstr_def by (induction s) auto

lemma char_at_in [array_simps]: "i < length s \<Longrightarrow> char_at s i = Some (s ! i)"
  by (simp add: char_at_def)

lemma char_at_end [simp]: "char_at s (length s) = Some NUL"
  by (simp add: char_at_def)

lemma char_at_append [simp]: "char_at (s @ t) (length s) = char_at t 0"
  by (cases t) (auto simp: char_at_def)

lemma char_at_0 [simp]: "char_at s 0 = Some (chd s)"
  by (cases s) (auto simp: char_at_def chd_def)

lemma chd_simps [simp]: "chd [] = NUL" "chd (c # s) = c"
  by (simp_all add: chd_def)

lemma char_diff_eq_0 [simp]: "char_diff c d = 0 \<longleftrightarrow> c = d"
  unfolding char_diff_def by (simp only: right_minus_eq of_char_eq_iff)

lemma strncmp_prefix:
  assumes "cstr r" and "cstr p"
  shows "strncmp p r (length r) = 0 \<longleftrightarrow> (\<exists>t. p = r @ t)"
  using assms
proof (induction r arbitrary: p)
  case Nil
  then show ?case by simp
next
  case (Cons c r)
  then show ?case by (cases p) auto
qed

lemma strncmp_all:
  assumes "cstr a" and "cstr b" and "length a < n" and "length b < n"
  shows "strncmp a b n = 0 \<longleftrightarrow> a = b"
  using assms
proof (induction n arbitrary: a b)
  case 0
  then show ?case by simp
next
  case (Suc n)
  then show ?case by (cases a; cases b) auto
qed

lemma strcmp_eq: "cstr a \<Longrightarrow> cstr b \<Longrightarrow> strcmp a b = 0 \<longleftrightarrow> a = b"
  unfolding strcmp_def by (rule strncmp_all) auto

end
