(* ===== verification/PathGuard.thy ===== *)
theory PathGuard
  imports FxPrelude
begin

text \<open>
  The path guard of \<open>host/cap/fx_cap_runtime.c\<close>: copying a root into the fixed buffer of
  a capability (\<open>mint_root\<close>), the search for two adjacent dots (\<open>has_dotdot\<close>) and
  the decision \<open>path_allowed\<close>. Every read of a string goes through \<open>char_at\<close>, so the
  lemmas below show also that no read leaves the string. The meaning of a path is its
  lexical resolution: the list of components under the working directory.
\<close>

section \<open>The code\<close>

definition FX_ROOT_SIZE :: nat where
  "FX_ROOT_SIZE = 512"

text \<open>\<open>mint_root\<close>: the contents of the destination buffer, or None for the C result 0.\<close>

definition mint_root :: "nat \<Rightarrow> cptr \<Rightarrow> string option" where
  "mint_root dst_sz root_dir =
     (case root_dir of
        None \<Rightarrow> None
      | Some r \<Rightarrow>
          if chd r = NUL then None
          else if strlen r \<ge> dst_sz then None
          else Some (take (strlen r) r))"

function has_dotdot_from :: "string \<Rightarrow> nat \<Rightarrow> bool option" where
  "has_dotdot_from path i =
     do { c \<leftarrow> char_at path i;
          if c = NUL then Some False
          else if c = CHR ''.'' then
            do { d \<leftarrow> char_at path (i + 1);
                 if d = CHR ''.'' then Some True else has_dotdot_from path (i + 1) }
          else has_dotdot_from path (i + 1) }"
  by pat_completeness auto
termination
  by (relation "measure (\<lambda>(p, i). length p - i)") (auto simp: char_at_def split: if_splits)

declare has_dotdot_from.simps [simp del]

definition has_dotdot :: "string \<Rightarrow> bool option" where
  "has_dotdot path = has_dotdot_from path 0"

definition is_sep :: "char \<Rightarrow> bool" where
  "is_sep c \<longleftrightarrow> c = CHR ''/'' \<or> c = CHR 0x5C"

definition path_allowed :: "cptr \<Rightarrow> bool \<Rightarrow> cptr \<Rightarrow> bool option" where
  "path_allowed root live path =
     (if \<not> live then Some False
      else case root of None \<Rightarrow> Some False | Some r \<Rightarrow>
       case path of None \<Rightarrow> Some False | Some p \<Rightarrow>
        do { c0 \<leftarrow> char_at p 0;
             if c0 = NUL then Some False
             else if is_sep c0 then Some False
             else do {
               c1 \<leftarrow> char_at p 1;
               if c1 = CHR '':'' then Some False
               else do {
                 dd \<leftarrow> has_dotdot p;
                 if dd then Some False
                 else let root_len = strlen r in
                  if strncmp p r root_len \<noteq> 0 then Some False
                  else do {
                    sep \<leftarrow> char_at p root_len;
                    if sep = NUL then Some False
                    else if \<not> is_sep sep then
                      (if root_len > 0
                       then do { last \<leftarrow> char_at r (root_len - 1); Some (is_sep last) }
                       else Some True)
                    else Some True }}}})"

section \<open>What the guard decides\<close>

definition dotdot_free :: "string \<Rightarrow> bool" where
  "dotdot_free p \<longleftrightarrow> \<not> sublist ''..'' p"

definition path_under_root :: "string \<Rightarrow> string \<Rightarrow> bool" where
  "path_under_root r p \<longleftrightarrow>
     p \<noteq> [] \<and> \<not> is_sep (hd p) \<and> chd (tl p) \<noteq> CHR '':'' \<and> dotdot_free p \<and>
     (\<exists>t. p = r @ t \<and> t \<noteq> [] \<and> (is_sep (hd t) \<or> r = [] \<or> is_sep (last r)))"

lemma sublist_two_Cons:
  "sublist [a, b] (c # p) \<longleftrightarrow> (c = a \<and> p \<noteq> [] \<and> hd p = b) \<or> sublist [a, b] p"
  by (cases p) (auto simp: sublist_Cons_right prefix_Cons)

lemma has_dotdot_from_eq:
  assumes "cstr p" and "i \<le> length p"
  shows "has_dotdot_from p i = Some (sublist ''..'' (drop i p))"
  using assms(2)
proof (induction "length p - i" arbitrary: i)
  case 0
  then have "i = length p" by simp
  then show ?case by (simp add: has_dotdot_from.simps)
next
  case (Suc n)
  then have i: "i < length p" by simp
  from assms(1) i have c: "p ! i \<noteq> NUL"
    unfolding cstr_def by (metis nth_mem)
  have IH: "has_dotdot_from p (Suc i) = Some (sublist ''..'' (drop (Suc i) p))"
    using Suc.hyps(1) [of "Suc i"] Suc.hyps(2) i by simp
  have d: "drop i p = p ! i # drop (Suc i) p"
    using i by (simp add: Cons_nth_drop_Suc)
  show ?case
  proof (cases "Suc i < length p")
    case True
    then have "hd (drop (Suc i) p) = p ! Suc i" by (simp add: hd_drop_conv_nth)
    with True i c IH show ?thesis
      by (subst has_dotdot_from.simps) (auto simp: array_simps d sublist_two_Cons)
  next
    case False
    with i have "Suc i = length p" by simp
    with i c IH show ?thesis
      by (subst has_dotdot_from.simps) (auto simp: array_simps d sublist_two_Cons)
  qed
qed

lemma has_dotdot_eq: "cstr p \<Longrightarrow> has_dotdot p = Some (\<not> dotdot_free p)"
  by (simp add: has_dotdot_def dotdot_free_def has_dotdot_from_eq)

lemma char_at_1: "p \<noteq> [] \<Longrightarrow> char_at p (Suc 0) = Some (chd (tl p))"
  by (cases p rule: remdups_adj.cases) (auto simp: char_at_def)

lemma cstr_chd_NUL: "cstr p \<Longrightarrow> chd p = NUL \<longleftrightarrow> p = []"
  by (cases p) auto

lemma chd_hd: "p \<noteq> [] \<Longrightarrow> chd p = hd p"
  by (cases p) auto

lemma last_sep_at: "r \<noteq> [] \<Longrightarrow> char_at r (length r - Suc 0) = Some (last r)"
  by (simp add: char_at_def last_conv_nth)

lemma path_allowed_eq:
  assumes "cstr r" and "cstr p"
  shows "path_allowed (Some r) live (Some p) = Some (live \<and> path_under_root r p)"
proof (cases "live \<and> p \<noteq> [] \<and> (\<exists>t. p = r @ t)")
  case False
  with assms show ?thesis
    by (auto simp: path_allowed_def path_under_root_def cstr_chd_NUL char_at_1
      has_dotdot_eq strncmp_prefix)
next
  case True
  then obtain t where live: "live" and p: "p = r @ t" "p \<noteq> []" by blast
  with assms have t: "cstr t" by simp
  have pre: "strncmp p r (length r) = 0"
    using assms p by (auto simp: strncmp_prefix)
  have sep: "char_at p (length r) = Some (chd t)" by (simp add: p)
  have hd: "chd p = hd p" using p(2) by (rule chd_hd)
  have nn: "hd p \<noteq> NUL" using hd cstr_chd_NUL [OF assms(2)] p(2) by simp
  have core: "path_under_root r p \<longleftrightarrow> \<not> is_sep (hd p) \<and> chd (tl p) \<noteq> CHR '':'' \<and> dotdot_free p
      \<and> t \<noteq> [] \<and> (is_sep (chd t) \<or> r = [] \<or> is_sep (last r))"
    using p by (cases t) (auto simp: path_under_root_def)
  show ?thesis
    using live assms p t pre hd nn unfolding core
    by (simp add: path_allowed_def cstr_chd_NUL char_at_1 has_dotdot_eq sep last_sep_at Let_def)
qed

lemma path_allowed_null [simp]:
  "path_allowed root live None = Some False"
  "path_allowed None live path = Some False"
  "path_allowed root False path = Some False"
  by (auto simp: path_allowed_def split: option.splits)

section \<open>Lexical resolution and containment\<close>

text \<open>
  The components of a path are the strings between separators. Empty and \<open>.\<close>
  components stay where they are, \<open>..\<close> goes up, everything else goes down. The
  resolution is \<open>None\<close> when the path climbs above the directory it starts from. The
  separators are a parameter, because Windows separates at both slashes and POSIX at
  \<open>/\<close> only.
\<close>

fun split_on :: "(char \<Rightarrow> bool) \<Rightarrow> string \<Rightarrow> string list" where
  "split_on P [] = [[]]"
| "split_on P (c # cs) =
     (if P c then [] # split_on P cs
      else (case split_on P cs of [] \<Rightarrow> [[c]] | s # ss \<Rightarrow> (c # s) # ss))"

fun resolve_from :: "string list \<Rightarrow> string list \<Rightarrow> string list option" where
  "resolve_from dirs [] = Some dirs"
| "resolve_from dirs (s # ss) =
     (if s = [] \<or> s = ''.'' then resolve_from dirs ss
      else if s = ''..'' then (if dirs = [] then None else resolve_from (butlast dirs) ss)
      else resolve_from (dirs @ [s]) ss)"

definition resolve :: "(char \<Rightarrow> bool) \<Rightarrow> string \<Rightarrow> string list option" where
  "resolve P p = resolve_from [] (split_on P p)"

definition is_slash :: "char \<Rightarrow> bool" where
  "is_slash c \<longleftrightarrow> c = CHR ''/''"

lemma split_on_not_Nil [simp]: "split_on P p \<noteq> []"
  by (cases p) (auto split: list.splits)

lemma split_on_sep: "P c \<Longrightarrow> split_on P (r @ c # t) = split_on P r @ split_on P t"
  by (induction r) (auto split: list.splits)

lemma split_on_sublist: "s \<in> set (split_on P p) \<Longrightarrow> sublist s p"
proof -
  have "(\<forall>s \<in> set (split_on P p). sublist s p) \<and> prefix (hd (split_on P p)) p"
  proof (induction p)
    case (Cons c p)
    then show ?case
      by (cases "split_on P p") (auto simp: sublist_Cons_right)
  qed simp
  then show "s \<in> set (split_on P p) \<Longrightarrow> sublist s p" by blast
qed

lemma resolve_from_no_up:
  "''..'' \<notin> set ss \<Longrightarrow> resolve_from dirs ss = Some (dirs @ filter (\<lambda>s. s \<noteq> [] \<and> s \<noteq> ''.'') ss)"
  by (induction ss arbitrary: dirs) auto

lemma resolve_dotdot_free:
  assumes "dotdot_free p"
  shows "resolve P p = Some (filter (\<lambda>s. s \<noteq> [] \<and> s \<noteq> ''.'') (split_on P p))"
proof -
  have "''..'' \<notin> set (split_on P p)"
    using assms split_on_sublist by (auto simp: dotdot_free_def)
  then show ?thesis by (simp add: resolve_def resolve_from_no_up)
qed

lemma dotdot_free_prefix: "dotdot_free (r @ t) \<Longrightarrow> dotdot_free r"
  unfolding dotdot_free_def by (meson prefixI prefix_imp_sublist sublist_order.order_trans)

lemma split_on_snoc_sep: "P c \<Longrightarrow> split_on P (r @ [c]) = split_on P r @ [[]]"
  by (simp add: split_on_sep)

text \<open>
  A path lies under a directory when both resolve and the path's components begin with the
  directory's.
\<close>

definition lies_under :: "(char \<Rightarrow> bool) \<Rightarrow> string \<Rightarrow> string \<Rightarrow> bool" where
  "lies_under P r p = (case (resolve P r, resolve P p) of
     (Some base, Some place) \<Rightarrow> prefix base place | _ \<Rightarrow> False)"

lemma lies_under_iff:
  "lies_under P r p \<longleftrightarrow> (\<exists>base rest. resolve P r = Some base \<and> resolve P p = Some (base @ rest))"
  by (auto simp: lies_under_def prefix_def split: option.splits)

text \<open>Whatever separates components: a continuation that starts at a boundary stays inside.\<close>

lemma continuation_resolves:
  assumes p: "p = r @ t" and t: "t \<noteq> []" and cut: "P (hd t) \<or> r = [] \<or> P (last r)" and dd: "dotdot_free p"
  shows "lies_under P r p"
proof -
  let ?real = "\<lambda>s::string. s \<noteq> [] \<and> s \<noteq> ''.''"
  have r: "resolve P r = Some (filter ?real (split_on P r))"
    using dd p by (intro resolve_dotdot_free) (auto dest: dotdot_free_prefix)
  have "\<exists>rest. filter ?real (split_on P p) = filter ?real (split_on P r) @ rest"
  proof (cases "P (hd t)")
    case True
    with t p have "split_on P p = split_on P r @ split_on P (tl t)"
      by (cases t) (auto simp: split_on_sep)
    then show ?thesis by auto
  next
    case False
    show ?thesis
    proof (cases r rule: rev_cases)
      case Nil
      then show ?thesis by simp
    next
      case (snoc r' c)
      with cut False have "P c" by auto
      with snoc p have "split_on P p = split_on P r' @ split_on P t"
        and "split_on P r = split_on P r' @ [[]]"
        by (simp_all add: split_on_sep)
      then show ?thesis by auto
    qed
  qed
  with r show ?thesis
    using resolve_dotdot_free [OF dd, of P] by (auto simp: lies_under_iff)
qed

text \<open>
  The guard takes both slashes for a boundary. Where both separate, what it admits lies under
  the root; where only \<open>/\<close> does, unless the boundary it found is a backslash.
\<close>

definition backslash_cut :: "string \<Rightarrow> string \<Rightarrow> bool" where
  "backslash_cut r p \<longleftrightarrow> r \<noteq> [] \<and> (last r = CHR 0x5C \<or> hd (drop (length r) p) = CHR 0x5C)"

lemma path_under_root_resolves: "path_under_root r p \<Longrightarrow> lies_under is_sep r p"
  using continuation_resolves by (auto simp: path_under_root_def)

lemma path_under_root_resolves_posix:
  assumes "path_under_root r p" and "\<not> backslash_cut r p"
  shows "lies_under is_slash r p"
proof -
  from assms(1) obtain t where t: "p = r @ t" "t \<noteq> []" "is_sep (hd t) \<or> r = [] \<or> is_sep (last r)" "dotdot_free p"
    by (auto simp: path_under_root_def)
  with assms(2) have "is_slash (hd t) \<or> r = [] \<or> is_slash (last r)"
    by (auto simp: backslash_cut_def is_sep_def is_slash_def)
  with t show ?thesis by (intro continuation_resolves)
qed

text \<open>A guard over a root whose first character is a separator admits nothing.\<close>

lemma absolute_root_empty:
  assumes "r \<noteq> []" and "is_sep (hd r)"
  shows "\<not> path_under_root r p"
  using assms by (auto simp: path_under_root_def)

section \<open>The contract of a guard\<close>

text \<open>
  What a host may rely on, whoever wrote the guard: NULL is denied, and the answer for a string
  is whether it lies under the guard's root. The host's lemma is that what is admitted stays
  inside.
\<close>

locale path_guard =
  fixes guard :: "cptr \<Rightarrow> bool option" and root :: string
  assumes denies_null: "guard None = Some False"
    and decides: "cstr p \<Longrightarrow> guard (Some p) = Some (path_under_root root p)"
begin

lemma answers: "(\<And>p. path = Some p \<Longrightarrow> cstr p) \<Longrightarrow> guard path \<noteq> None"
  by (cases path) (simp_all add: denies_null decides)

lemma admits_inside:
  assumes "cstr p" and "guard (Some p) = Some True"
  shows "lies_under is_sep root p" and "lies_under is_slash root p \<or> backslash_cut root p"
  using assms path_under_root_resolves path_under_root_resolves_posix by (auto simp: decides)

end

lemma runtime_path_guard: "cstr r \<Longrightarrow> path_guard (path_allowed (Some r) True) r"
  by unfold_locales (simp_all add: path_allowed_eq)

end
