(* ===== verification/CapHeap.thy ===== *)
theory CapHeap
  imports PathGuard
begin

text \<open>
  The memory of the capability runtime (\<open>host/cap/fx_cap_runtime.h\<close>): the structs as
  records, one heap of typed objects addressed by the 64-bit handles the API passes around,
  and \<open>calloc\<close> / \<open>free\<close> over an arbitrary allocator. A handle is a pointer bit pattern,
  so the conversions \<open>fx_*_to_handle\<close> and \<open>fx_*_from_handle\<close> are the identity on
  \<open>64 word\<close>; dereferencing an address that holds no object of the type is undefined
  behaviour, \<open>None\<close>.
\<close>

section \<open>Constants and structs\<close>

definition FX_CAP_OK :: int where "FX_CAP_OK = 0"
definition FX_CAP_IO_ERR :: int where "FX_CAP_IO_ERR = 2"
definition FX_CAP_DENIED :: int where "FX_CAP_DENIED = 5"
definition FX_GUEST_MAX_CAPS :: nat where "FX_GUEST_MAX_CAPS = 16"
definition FX_GUEST_MAX_CHILDREN :: nat where "FX_GUEST_MAX_CHILDREN = 8"
definition FX_GUEST_DEFAULT_ARENA :: usize where "FX_GUEST_DEFAULT_ARENA = 64 * 1024"
definition FX_NET_HOST_SIZE :: nat where "FX_NET_HOST_SIZE = 256"

record FxFsCap =
  fs_root :: string
  fs_live :: bool

record FxOutCap =
  out_root :: string
  out_live :: bool

record FxAllocCap =
  al_ctx :: addr
  al_budget :: i64
  al_live :: bool

record FxFuelCap =
  fu_ctx :: addr
  fu_units :: i64
  fu_live :: bool

record FxNetCap =
  net_host :: string
  net_port_min :: i32
  net_port_max :: i32
  net_live :: bool

text \<open>A pair of struct members \<open>T *x[MAX]; int x_n\<close> of \<open>FxGuestCtx\<close>.\<close>

record captab =
  ct_arr :: "addr list"
  ct_n :: nat

record FxGuestCtx =
  g_root :: string
  g_arena :: addr
  g_arena_size :: usize
  g_arena_used :: usize
  g_fs :: captab
  g_out :: captab
  g_alloc :: captab
  g_fuel :: captab
  g_net :: captab
  g_parent :: addr
  g_children :: captab
  g_live :: bool

definition empty_tab :: "nat \<Rightarrow> captab" where
  "empty_tab n = \<lparr>ct_arr = replicate n 0, ct_n = 0\<rparr>"

text \<open>The zeroed \<open>FxGuestCtx\<close> that \<open>calloc\<close> returns.\<close>

definition zero_ctx :: FxGuestCtx where
  "zero_ctx = \<lparr>g_root = [], g_arena = 0, g_arena_size = 0, g_arena_used = 0,
     g_fs = empty_tab FX_GUEST_MAX_CAPS, g_out = empty_tab FX_GUEST_MAX_CAPS,
     g_alloc = empty_tab FX_GUEST_MAX_CAPS, g_fuel = empty_tab FX_GUEST_MAX_CAPS,
     g_net = empty_tab FX_GUEST_MAX_CAPS, g_parent = 0,
     g_children = empty_tab FX_GUEST_MAX_CHILDREN, g_live = False\<rparr>"

text \<open>The first \<open>n\<close> slots, which every loop over a table reads in order.\<close>

definition tab_items :: "captab \<Rightarrow> addr list" where
  "tab_items t = take (ct_n t) (ct_arr t)"

definition tab_read :: "captab \<Rightarrow> addr list option" where
  "tab_read t = (if ct_n t \<le> length (ct_arr t) then Some (tab_items t) else None)"

text \<open>\<open>x[x_n++] = v\<close>.\<close>

definition tab_push :: "addr \<Rightarrow> captab \<Rightarrow> captab option" where
  "tab_push v t =
     do { arr \<leftarrow> aset (ct_arr t) (ct_n t) v;
          Some \<lparr>ct_arr = arr, ct_n = ct_n t + 1\<rparr> }"

definition tab_ok :: "nat \<Rightarrow> captab \<Rightarrow> bool" where
  "tab_ok cap t \<longleftrightarrow> length (ct_arr t) = cap \<and> ct_n t \<le> cap"

lemma tab_ok_read [simp]: "tab_ok cap t \<Longrightarrow> tab_read t = Some (tab_items t)"
  by (simp add: tab_ok_def tab_read_def)

lemma tab_push_room:
  assumes "tab_ok cap t" and "ct_n t < cap"
  obtains t' where "tab_push v t = Some t'" "tab_ok cap t'" "tab_items t' = tab_items t @ [v]"
proof -
  let ?t = "\<lparr>ct_arr = (ct_arr t)[ct_n t := v], ct_n = ct_n t + 1\<rparr>"
  have "tab_push v t = Some ?t" and "tab_ok cap ?t"
    using assms by (simp_all add: tab_push_def tab_ok_def array_simps)
  moreover have "tab_items ?t = tab_items t @ [v]"
    using assms by (simp add: tab_items_def tab_ok_def take_update_last)
  ultimately show ?thesis by (rule that)
qed

lemma empty_tab_simps [simp]:
  "tab_ok n (empty_tab n)" "tab_items (empty_tab n) = []" "ct_n (empty_tab n) = 0"
  by (simp_all add: tab_ok_def tab_items_def empty_tab_def)

section \<open>The heap\<close>

datatype cobj =
    FsObj FxFsCap
  | OutObj FxOutCap
  | AllocObj FxAllocCap
  | FuelObj FxFuelCap
  | NetObj FxNetCap
  | CtxObj FxGuestCtx
  | ArenaObj usize

type_synonym cheap = "addr \<rightharpoonup> cobj"

text \<open>
  The runtime's state: the heap, the addresses the allocator will propose (in order; an
  exhausted list is an allocator out of memory), and \<open>g_last_text\<close>: the bytes of the block it
  points to, if any, and the number of such blocks so far, which names the block. A pointer to
  a block that was freed meanwhile keeps its old number.
\<close>

record cmem =
  heap :: cheap
  avail :: "addr list"
  last_text :: cptr
  text_no :: nat

fun sizeof_obj :: "cobj \<Rightarrow> usize" where
  "sizeof_obj (FsObj _) = 516"
| "sizeof_obj (OutObj _) = 516"
| "sizeof_obj (AllocObj _) = 24"
| "sizeof_obj (FuelObj _) = 24"
| "sizeof_obj (NetObj _) = 268"
| "sizeof_obj (CtxObj _) = 1296"
| "sizeof_obj (ArenaObj n) = n"

text \<open>
  \<open>calloc\<close>: a proposal that is NULL, in use, not 16-byte aligned or too close to the end of
  the address space counts as a failure (result 0). What is left is what the C standard
  promises of a successful call; which address it is, and when it fails, is arbitrary.
\<close>

definition usable :: "cheap \<Rightarrow> addr \<Rightarrow> usize \<Rightarrow> bool" where
  "usable H a n \<longleftrightarrow> a \<noteq> 0 \<and> H a = None \<and> unat a mod 16 = 0 \<and> unat a + unat n < 2 ^ 64"

definition calloc :: "cobj \<Rightarrow> cmem \<Rightarrow> addr \<times> cmem" where
  "calloc ob s =
     (case avail s of
        [] \<Rightarrow> (0, s)
      | a # as \<Rightarrow>
          if usable (heap s) a (sizeof_obj ob)
          then (a, s\<lparr>heap := (heap s)(a \<mapsto> ob), avail := as\<rparr>)
          else (0, s\<lparr>avail := as\<rparr>))"

definition c_free :: "addr \<Rightarrow> cmem \<Rightarrow> cmem option" where
  "c_free a s =
     (if a = 0 then Some s
      else if heap s a = None then None
      else Some (s\<lparr>heap := (heap s)(a := None)\<rparr>))"

definition put :: "addr \<Rightarrow> cobj \<Rightarrow> cmem \<Rightarrow> cmem" where
  "put a ob s = s\<lparr>heap := (heap s)(a \<mapsto> ob)\<rparr>"

text \<open>Typed dereference.\<close>

definition fs_at :: "cheap \<Rightarrow> addr \<Rightarrow> FxFsCap option" where
  "fs_at H a = (case H a of Some (FsObj c) \<Rightarrow> Some c | _ \<Rightarrow> None)"

definition out_at :: "cheap \<Rightarrow> addr \<Rightarrow> FxOutCap option" where
  "out_at H a = (case H a of Some (OutObj c) \<Rightarrow> Some c | _ \<Rightarrow> None)"

definition alloc_at :: "cheap \<Rightarrow> addr \<Rightarrow> FxAllocCap option" where
  "alloc_at H a = (case H a of Some (AllocObj c) \<Rightarrow> Some c | _ \<Rightarrow> None)"

definition fuel_at :: "cheap \<Rightarrow> addr \<Rightarrow> FxFuelCap option" where
  "fuel_at H a = (case H a of Some (FuelObj c) \<Rightarrow> Some c | _ \<Rightarrow> None)"

definition net_at :: "cheap \<Rightarrow> addr \<Rightarrow> FxNetCap option" where
  "net_at H a = (case H a of Some (NetObj c) \<Rightarrow> Some c | _ \<Rightarrow> None)"

definition ctx_at :: "cheap \<Rightarrow> addr \<Rightarrow> FxGuestCtx option" where
  "ctx_at H a = (case H a of Some (CtxObj g) \<Rightarrow> Some g | _ \<Rightarrow> None)"

lemmas at_defs = fs_at_def out_at_def alloc_at_def fuel_at_def net_at_def ctx_at_def

lemma at_iff:
  "fs_at H a = Some fc \<longleftrightarrow> H a = Some (FsObj fc)"
  "out_at H a = Some oc \<longleftrightarrow> H a = Some (OutObj oc)"
  "alloc_at H a = Some ac \<longleftrightarrow> H a = Some (AllocObj ac)"
  "fuel_at H a = Some uc \<longleftrightarrow> H a = Some (FuelObj uc)"
  "net_at H a = Some nc \<longleftrightarrow> H a = Some (NetObj nc)"
  "ctx_at H a = Some g \<longleftrightarrow> H a = Some (CtxObj g)"
  by (auto simp: at_defs split: option.splits cobj.splits)

lemma ctx_at_upd [simp]:
  "ctx_at (H(a \<mapsto> CtxObj g)) h = (if h = a then Some g else ctx_at H h)"
  by (simp add: ctx_at_def)

lemma ctx_at_upd_other:
  "(\<And>g. ob \<noteq> CtxObj g) \<Longrightarrow> ctx_at H a = None \<Longrightarrow> ctx_at (H(a \<mapsto> ob)) h = ctx_at H h"
  by (auto simp: ctx_at_def split: option.splits cobj.splits)

lemma put_simps [simp]:
  "heap (put a ob s) = (heap s)(a \<mapsto> ob)"
  "avail (put a ob s) = avail s"
  "last_text (put a ob s) = last_text s"
  by (simp_all add: put_def)

lemma callocE:
  assumes "calloc ob s = (a, s')"
  obtains (fail) "a = 0" "heap s' = heap s" "last_text s' = last_text s"
  | (ok) "usable (heap s) a (sizeof_obj ob)" "heap s' = (heap s)(a \<mapsto> ob)"
      "last_text s' = last_text s"
proof (cases "avail s")
  case Nil
  then show ?thesis using assms fail by (simp add: calloc_def)
next
  case (Cons b bs)
  show ?thesis
  proof (cases "usable (heap s) b (sizeof_obj ob)")
    case True
    then show ?thesis using assms Cons ok by (auto simp: calloc_def)
  next
    case False
    then show ?thesis using assms Cons fail by (auto simp: calloc_def)
  qed
qed

end
