(* ===== verification/CapRuntime.thy ===== *)
theory CapRuntime
  imports CapHeap
begin

text \<open>
  The operations of \<open>host/cap/fx_cap_runtime.c\<close> that do not tear a session down: minting
  and freeing capabilities, beginning a session and a nested session, the arena's bump
  allocator, the budgeted AllocCap and FuelCap, and NetCap. Each takes the memory and
  returns its C result with the new memory, or None for undefined behaviour.
\<close>

section \<open>Stand-alone capabilities\<close>

definition clear_last_text :: "cmem \<Rightarrow> cmem" where
  "clear_last_text s = s\<lparr>last_text := None\<rparr>"

definition fx_fscap_mint :: "cptr \<Rightarrow> cmem \<Rightarrow> (addr \<times> cmem) option" where
  "fx_fscap_mint root_dir s =
     (let (cap, s) = calloc (FsObj \<lparr>fs_root = [], fs_live = False\<rparr>) s in
      if cap = 0 then Some (0, s)
      else case mint_root FX_ROOT_SIZE root_dir of
          None \<Rightarrow> do { s \<leftarrow> c_free cap s; Some (0, s) }
        | Some r \<Rightarrow> Some (cap, put cap (FsObj \<lparr>fs_root = r, fs_live = True\<rparr>) s))"

definition fx_fscap_free :: "addr \<Rightarrow> cmem \<Rightarrow> cmem option" where
  "fx_fscap_free cap s =
     (if cap = 0 then Some s
      else do {
        c \<leftarrow> fs_at (heap s) cap;
        s \<leftarrow> c_free cap (put cap (FsObj (c\<lparr>fs_live := False\<rparr>)) s);
        Some (clear_last_text s) })"

definition fx_outcap_mint :: "cptr \<Rightarrow> cmem \<Rightarrow> (addr \<times> cmem) option" where
  "fx_outcap_mint root_dir s =
     (let (cap, s) = calloc (OutObj \<lparr>out_root = [], out_live = False\<rparr>) s in
      if cap = 0 then Some (0, s)
      else case mint_root FX_ROOT_SIZE root_dir of
          None \<Rightarrow> do { s \<leftarrow> c_free cap s; Some (0, s) }
        | Some r \<Rightarrow> Some (cap, put cap (OutObj \<lparr>out_root = r, out_live = True\<rparr>) s))"

definition fx_outcap_free :: "addr \<Rightarrow> cmem \<Rightarrow> cmem option" where
  "fx_outcap_free cap s =
     (if cap = 0 then Some s
      else do {
        c \<leftarrow> out_at (heap s) cap;
        c_free cap (put cap (OutObj (c\<lparr>out_live := False\<rparr>)) s) })"

definition fx_fscap_path_allowed :: "addr \<Rightarrow> cptr \<Rightarrow> cmem \<Rightarrow> bool option" where
  "fx_fscap_path_allowed cap path s =
     (if cap = 0 then Some False
      else do { c \<leftarrow> fs_at (heap s) cap; path_allowed (Some (fs_root c)) (fs_live c) path })"

definition fx_outcap_path_allowed :: "addr \<Rightarrow> cptr \<Rightarrow> cmem \<Rightarrow> bool option" where
  "fx_outcap_path_allowed cap path s =
     (if cap = 0 then Some False
      else do { c \<leftarrow> out_at (heap s) cap; path_allowed (Some (out_root c)) (out_live c) path })"

section \<open>Handles\<close>

text \<open>
  A handle is the bit pattern of a pointer, through \<open>intptr_t\<close>. Nothing in it says what kind of
  object it points to: converting a handle of another kind back is only found out when the
  pointer is used.
\<close>

definition fx_fscap_to_handle :: "addr \<Rightarrow> i64" where [simp]: "fx_fscap_to_handle cap = cap"

definition fx_fscap_from_handle :: "i64 \<Rightarrow> addr" where [simp]: "fx_fscap_from_handle handle = handle"

definition fx_outcap_to_handle :: "addr \<Rightarrow> i64" where [simp]: "fx_outcap_to_handle cap = cap"

definition fx_outcap_from_handle :: "i64 \<Rightarrow> addr" where [simp]: "fx_outcap_from_handle handle = handle"

definition fx_guest_to_handle :: "addr \<Rightarrow> i64" where [simp]: "fx_guest_to_handle ctx = ctx"

definition fx_guest_from_handle :: "i64 \<Rightarrow> addr" where [simp]: "fx_guest_from_handle handle = handle"

definition fx_alloccap_to_handle :: "addr \<Rightarrow> i64" where [simp]: "fx_alloccap_to_handle cap = cap"

definition fx_alloccap_from_handle :: "i64 \<Rightarrow> addr" where [simp]: "fx_alloccap_from_handle handle = handle"

definition fx_fuelcap_to_handle :: "addr \<Rightarrow> i64" where [simp]: "fx_fuelcap_to_handle cap = cap"

definition fx_fuelcap_from_handle :: "i64 \<Rightarrow> addr" where [simp]: "fx_fuelcap_from_handle handle = handle"

definition fx_netcap_to_handle :: "addr \<Rightarrow> i64" where [simp]: "fx_netcap_to_handle cap = cap"

definition fx_netcap_from_handle :: "i64 \<Rightarrow> addr" where [simp]: "fx_netcap_from_handle handle = handle"

section \<open>Beginning a session\<close>

definition fx_guest_is_live :: "i64 \<Rightarrow> cmem \<Rightarrow> bool option" where
  "fx_guest_is_live ctx_handle s =
     (let h = fx_guest_from_handle ctx_handle in
      if h = 0 then Some False else do { g \<leftarrow> ctx_at (heap s) h; Some (g_live g) })"

definition nonempty_root :: "cptr \<Rightarrow> bool" where
  "nonempty_root root = (case root of None \<Rightarrow> False | Some r \<Rightarrow> chd r \<noteq> NUL)"

definition arena_bytes_of :: "i64 \<Rightarrow> usize" where
  "arena_bytes_of arena_bytes = (if 0 < sint arena_bytes then arena_bytes else FX_GUEST_DEFAULT_ARENA)"

text \<open>
  The common tail of \<open>fx_guest_begin\<close> and \<open>fx_guest_begin_nested\<close>: allocate the arena for
  the context \<open>g\<close> that already holds its root, or give the context back.
\<close>

definition guest_open :: "addr \<Rightarrow> FxGuestCtx \<Rightarrow> i64 \<Rightarrow> cmem \<Rightarrow> (i64 \<times> cmem) option" where
  "guest_open h g arena_bytes s =
     (let nbytes = arena_bytes_of arena_bytes;
          (arena, s) = calloc (ArenaObj nbytes) s in
      if arena = 0 then do { s \<leftarrow> c_free h s; Some (0, s) }
      else Some (fx_guest_to_handle h, put h (CtxObj (g\<lparr>g_arena := arena, g_arena_size := nbytes,
                                      g_arena_used := 0, g_live := True\<rparr>)) s))"

definition fx_guest_begin :: "cptr \<Rightarrow> i64 \<Rightarrow> cmem \<Rightarrow> (i64 \<times> cmem) option" where
  "fx_guest_begin root arena_bytes s =
     (let (h, s) = calloc (CtxObj zero_ctx) s in
      if h = 0 then Some (0, s)
      else if nonempty_root root then
        (case mint_root FX_ROOT_SIZE root of
           None \<Rightarrow> do { s \<leftarrow> c_free h s; Some (0, s) }
         | Some r \<Rightarrow> guest_open h (zero_ctx\<lparr>g_root := r\<rparr>) arena_bytes s)
      else guest_open h zero_ctx arena_bytes s)"

definition fx_guest_begin_nested ::
  "i64 \<Rightarrow> cptr \<Rightarrow> i64 \<Rightarrow> cmem \<Rightarrow> (i64 \<times> cmem) option" where
  "fx_guest_begin_nested parent_ctx root arena_bytes s =
     (let p = fx_guest_from_handle parent_ctx in
      if p = 0 then Some (0, s)
      else do {
        parent \<leftarrow> ctx_at (heap s) p;
        if \<not> g_live parent then Some (0, s)
        else if ct_n (g_children parent) \<ge> FX_GUEST_MAX_CHILDREN then Some (0, s)
        else let (h, s) = calloc (CtxObj zero_ctx) s in
          if h = 0 then Some (0, s)
          else let use_root = (if nonempty_root root then root
                               else if chd (g_root parent) \<noteq> NUL then Some (g_root parent)
                               else None) in
            case (case use_root of None \<Rightarrow> Some zero_ctx
                  | Some r \<Rightarrow> map_option (\<lambda>r. zero_ctx\<lparr>g_root := r\<rparr>) (mint_root FX_ROOT_SIZE (Some r)))
            of None \<Rightarrow> do { s \<leftarrow> c_free h s; Some (0, s) }
             | Some g \<Rightarrow> do {
                 (r, s) \<leftarrow> guest_open h (g\<lparr>g_parent := p\<rparr>) arena_bytes s;
                 if r = 0 then Some (0, s)
                 else do {
                   parent \<leftarrow> ctx_at (heap s) p;
                   t \<leftarrow> tab_push h (g_children parent);
                   Some (fx_guest_to_handle h, put p (CtxObj (parent\<lparr>g_children := t\<rparr>)) s) } } })"

section \<open>Minting into a session\<close>

definition mint_root_or_default :: "FxGuestCtx \<Rightarrow> cptr \<Rightarrow> cptr" where
  "mint_root_or_default g root =
     (if nonempty_root root then root
      else if chd (g_root g) \<noteq> NUL then Some (g_root g) else None)"

definition fx_guest_mint_fscap :: "i64 \<Rightarrow> cptr \<Rightarrow> cmem \<Rightarrow> (i64 \<times> cmem) option" where
  "fx_guest_mint_fscap ctx_handle root s =
     (let h = fx_guest_from_handle ctx_handle in
      if h = 0 then Some (0, s)
      else do {
        g \<leftarrow> ctx_at (heap s) h;
        if \<not> g_live g then Some (0, s)
        else if ct_n (g_fs g) \<ge> FX_GUEST_MAX_CAPS then Some (0, s)
        else case mint_root_or_default g root of
            None \<Rightarrow> Some (0, s)
          | Some r \<Rightarrow> do {
              (cap, s) \<leftarrow> fx_fscap_mint (Some r) s;
              if cap = 0 then Some (0, s)
              else do {
                g \<leftarrow> ctx_at (heap s) h;
                t \<leftarrow> tab_push cap (g_fs g);
                Some (fx_fscap_to_handle cap, put h (CtxObj (g\<lparr>g_fs := t\<rparr>)) s) } } })"

definition fx_guest_mint_outcap :: "i64 \<Rightarrow> cptr \<Rightarrow> cmem \<Rightarrow> (i64 \<times> cmem) option" where
  "fx_guest_mint_outcap ctx_handle root s =
     (let h = fx_guest_from_handle ctx_handle in
      if h = 0 then Some (0, s)
      else do {
        g \<leftarrow> ctx_at (heap s) h;
        if \<not> g_live g then Some (0, s)
        else if ct_n (g_out g) \<ge> FX_GUEST_MAX_CAPS then Some (0, s)
        else case mint_root_or_default g root of
            None \<Rightarrow> Some (0, s)
          | Some r \<Rightarrow> do {
              (cap, s) \<leftarrow> fx_outcap_mint (Some r) s;
              if cap = 0 then Some (0, s)
              else do {
                g \<leftarrow> ctx_at (heap s) h;
                t \<leftarrow> tab_push cap (g_out g);
                Some (fx_outcap_to_handle cap, put h (CtxObj (g\<lparr>g_out := t\<rparr>)) s) } } })"

definition fx_guest_mint_alloccap :: "i64 \<Rightarrow> i64 \<Rightarrow> cmem \<Rightarrow> (i64 \<times> cmem) option" where
  "fx_guest_mint_alloccap ctx_handle budget_bytes s =
     (let h = fx_guest_from_handle ctx_handle in
      if h = 0 then Some (0, s)
      else do {
        g \<leftarrow> ctx_at (heap s) h;
        if \<not> g_live g then Some (0, s)
        else if sint budget_bytes \<le> 0 then Some (0, s)
        else if ct_n (g_alloc g) \<ge> FX_GUEST_MAX_CAPS then Some (0, s)
        else let (cap, s) = calloc (AllocObj \<lparr>al_ctx = 0, al_budget = 0, al_live = False\<rparr>) s in
          if cap = 0 then Some (0, s)
          else do {
            s \<leftarrow> Some (put cap (AllocObj \<lparr>al_ctx = h, al_budget = budget_bytes, al_live = True\<rparr>) s);
            g \<leftarrow> ctx_at (heap s) h;
            t \<leftarrow> tab_push cap (g_alloc g);
            Some (fx_alloccap_to_handle cap, put h (CtxObj (g\<lparr>g_alloc := t\<rparr>)) s) } })"

definition fx_guest_mint_fuelcap :: "i64 \<Rightarrow> i64 \<Rightarrow> cmem \<Rightarrow> (i64 \<times> cmem) option" where
  "fx_guest_mint_fuelcap ctx_handle units s =
     (let h = fx_guest_from_handle ctx_handle in
      if h = 0 then Some (0, s)
      else do {
        g \<leftarrow> ctx_at (heap s) h;
        if \<not> g_live g then Some (0, s)
        else if sint units \<le> 0 then Some (0, s)
        else if ct_n (g_fuel g) \<ge> FX_GUEST_MAX_CAPS then Some (0, s)
        else let (cap, s) = calloc (FuelObj \<lparr>fu_ctx = 0, fu_units = 0, fu_live = False\<rparr>) s in
          if cap = 0 then Some (0, s)
          else do {
            s \<leftarrow> Some (put cap (FuelObj \<lparr>fu_ctx = h, fu_units = units, fu_live = True\<rparr>) s);
            g \<leftarrow> ctx_at (heap s) h;
            t \<leftarrow> tab_push cap (g_fuel g);
            Some (fx_fuelcap_to_handle cap, put h (CtxObj (g\<lparr>g_fuel := t\<rparr>)) s) } })"

definition fx_guest_mint_netcap ::
  "i64 \<Rightarrow> cptr \<Rightarrow> i32 \<Rightarrow> i32 \<Rightarrow> cmem \<Rightarrow> (i64 \<times> cmem) option" where
  "fx_guest_mint_netcap ctx_handle allow_host port_min port_max s =
     (let h = fx_guest_from_handle ctx_handle in
      if h = 0 then Some (0, s)
      else do {
        g \<leftarrow> ctx_at (heap s) h;
        if \<not> g_live g then Some (0, s)
        else case allow_host of None \<Rightarrow> Some (0, s) | Some host \<Rightarrow>
          if chd host = NUL then Some (0, s)
          else if sint port_min < 1 \<or> 65535 < sint port_max \<or> sint port_max < sint port_min
          then Some (0, s)
          else if ct_n (g_net g) \<ge> FX_GUEST_MAX_CAPS then Some (0, s)
          else if strlen host \<ge> FX_NET_HOST_SIZE then Some (0, s)
          else let (cap, s) = calloc (NetObj \<lparr>net_host = [], net_port_min = 0,
                                              net_port_max = 0, net_live = False\<rparr>) s in
            if cap = 0 then Some (0, s)
            else do {
              s \<leftarrow> Some (put cap (NetObj \<lparr>net_host = take (strlen host) host,
                     net_port_min = port_min, net_port_max = port_max, net_live = True\<rparr>) s);
              g \<leftarrow> ctx_at (heap s) h;
              t \<leftarrow> tab_push cap (g_net g);
              Some (fx_netcap_to_handle cap, put h (CtxObj (g\<lparr>g_net := t\<rparr>)) s) } })"

section \<open>Allocation, fuel and the network allowlist\<close>

definition ALIGN :: usize where "ALIGN = 8"

definition bump_padded :: "usize \<Rightarrow> usize" where
  "bump_padded used = (used + (ALIGN - 1)) AND (NOT (ALIGN - 1))"

definition guest_bump_alloc :: "addr \<Rightarrow> i64 \<Rightarrow> cmem \<Rightarrow> (i64 \<times> cmem) option" where
  "guest_bump_alloc h nbytes s =
     (if h = 0 then Some (0, s)
      else do {
        g \<leftarrow> ctx_at (heap s) h;
        if \<not> g_live g \<or> g_arena g = 0 then Some (0, s)
        else if sint nbytes \<le> 0 then Some (0, s)
        else let padded = bump_padded (g_arena_used g) in
          if padded > g_arena_size g \<or> nbytes > g_arena_size g - padded then Some (0, s)
          else Some (g_arena g + padded,
                     put h (CtxObj (g\<lparr>g_arena_used := padded + nbytes\<rparr>)) s) })"

definition fx_guest_alloc :: "i64 \<Rightarrow> i64 \<Rightarrow> cmem \<Rightarrow> (i64 \<times> cmem) option" where
  "fx_guest_alloc ctx_handle nbytes s = guest_bump_alloc (fx_guest_from_handle ctx_handle) nbytes s"

definition fx_alloccap_alloc :: "i64 \<Rightarrow> i64 \<Rightarrow> cmem \<Rightarrow> (i64 \<times> cmem) option" where
  "fx_alloccap_alloc alloc_handle nbytes s =
     (let a = fx_alloccap_from_handle alloc_handle in
      if a = 0 then Some (0, s)
      else do {
        cap \<leftarrow> alloc_at (heap s) a;
        if \<not> al_live cap then Some (0, s)
        else if sint nbytes \<le> 0 \<or> sint nbytes > sint (al_budget cap) then Some (0, s)
        else do {
          (p, s) \<leftarrow> guest_bump_alloc (al_ctx cap) nbytes s;
          if p = 0 then Some (0, s)
          else do {
            cap \<leftarrow> alloc_at (heap s) a;
            Some (p, put a (AllocObj (cap\<lparr>al_budget := al_budget cap - nbytes\<rparr>)) s) } } })"

definition fx_fuelcap_burn :: "i64 \<Rightarrow> i64 \<Rightarrow> cmem \<Rightarrow> (bool \<times> cmem) option" where
  "fx_fuelcap_burn fuel_handle units s =
     (let f = fx_fuelcap_from_handle fuel_handle in
      if f = 0 then Some (False, s)
      else do {
        cap \<leftarrow> fuel_at (heap s) f;
        if \<not> fu_live cap then Some (False, s)
        else if sint units \<le> 0 \<or> sint units > sint (fu_units cap) then Some (False, s)
        else Some (True, put f (FuelObj (cap\<lparr>fu_units := fu_units cap - units\<rparr>)) s) })"

definition fx_netcap_host_port_allowed :: "addr \<Rightarrow> cptr \<Rightarrow> i32 \<Rightarrow> cmem \<Rightarrow> bool option" where
  "fx_netcap_host_port_allowed n host port s =
     (if n = 0 then Some False
      else do {
        cap \<leftarrow> net_at (heap s) n;
        if \<not> net_live cap then Some False
        else case host of None \<Rightarrow> Some False | Some hs \<Rightarrow>
          if chd hs = NUL then Some False
          else if sint port < sint (net_port_min cap) \<or> sint port > sint (net_port_max cap)
          then Some False
          else Some (strcmp (net_host cap) hs = 0) })"

definition fx_netcap_allows :: "i64 \<Rightarrow> cptr \<Rightarrow> i32 \<Rightarrow> cmem \<Rightarrow> bool option" where
  "fx_netcap_allows net_handle host port s =
     fx_netcap_host_port_allowed (fx_netcap_from_handle net_handle) host port s"

end
