(* ===== verification/GuestInv.thy ===== *)
theory GuestInv
  imports CapRuntime
begin

text \<open>
  The session-graph invariant of the guest runtime: what every operation of
  \<open>host/cap/fx_cap_runtime.c\<close> keeps true between the structs it allocates. The rank
  function is the ghost that makes the graph a forest: a child ranks below its parent.
\<close>

section \<open>The invariant\<close>

definition children :: "FxGuestCtx \<Rightarrow> addr list" where
  "children g = tab_items (g_children g)"

definition owned :: "FxGuestCtx \<Rightarrow> addr set" where
  "owned g = set (tab_items (g_fs g)) \<union> set (tab_items (g_out g)) \<union> set (tab_items (g_alloc g))
     \<union> set (tab_items (g_fuel g)) \<union> set (tab_items (g_net g))"

definition tabs_ok :: "cheap \<Rightarrow> FxGuestCtx \<Rightarrow> bool" where
  "tabs_ok H g \<longleftrightarrow>
     tab_ok FX_GUEST_MAX_CAPS (g_fs g) \<and> tab_ok FX_GUEST_MAX_CAPS (g_out g) \<and>
     tab_ok FX_GUEST_MAX_CAPS (g_alloc g) \<and> tab_ok FX_GUEST_MAX_CAPS (g_fuel g) \<and>
     tab_ok FX_GUEST_MAX_CAPS (g_net g) \<and> tab_ok FX_GUEST_MAX_CHILDREN (g_children g) \<and>
     (\<forall>a \<in> set (tab_items (g_fs g)). fs_at H a \<noteq> None) \<and>
     (\<forall>a \<in> set (tab_items (g_out g)). out_at H a \<noteq> None) \<and>
     (\<forall>a \<in> set (tab_items (g_alloc g)). alloc_at H a \<noteq> None) \<and>
     (\<forall>a \<in> set (tab_items (g_fuel g)). fuel_at H a \<noteq> None) \<and>
     (\<forall>a \<in> set (tab_items (g_net g)). net_at H a \<noteq> None) \<and>
     distinct (children g)"

definition arena_ok :: "cheap \<Rightarrow> FxGuestCtx \<Rightarrow> bool" where
  "arena_ok H g \<longleftrightarrow>
     H (g_arena g) = Some (ArenaObj (g_arena_size g)) \<and>
     unat (g_arena_used g) \<le> unat (g_arena_size g) \<and>
     unat (g_arena_size g) < 2 ^ 63 \<and>
     unat (g_arena g) mod 16 = 0 \<and>
     unat (g_arena g) + unat (g_arena_size g) < 2 ^ 64"

definition wf_tabs :: "cheap \<Rightarrow> bool" where
  "wf_tabs H \<longleftrightarrow> (\<forall>h g. ctx_at H h = Some g \<longrightarrow> tabs_ok H g)"

definition wf_arena :: "cheap \<Rightarrow> bool" where
  "wf_arena H \<longleftrightarrow> (\<forall>h g. ctx_at H h = Some g \<longrightarrow> g_live g \<longrightarrow> arena_ok H g)"

definition wf_dead :: "cheap \<Rightarrow> bool" where
  "wf_dead H \<longleftrightarrow>
     (\<forall>h g. ctx_at H h = Some g \<longrightarrow> \<not> g_live g \<longrightarrow> children g = [] \<and> g_parent g = 0)"

definition wf_down :: "(addr \<Rightarrow> nat) \<Rightarrow> cheap \<Rightarrow> bool" where
  "wf_down r H \<longleftrightarrow>
     (\<forall>h g c. ctx_at H h = Some g \<longrightarrow> c \<in> set (children g) \<longrightarrow>
        (\<exists>gc. ctx_at H c = Some gc \<and> g_live gc \<and> g_parent gc = h \<and> r c < r h))"

definition wf_up :: "cheap \<Rightarrow> bool" where
  "wf_up H \<longleftrightarrow>
     (\<forall>h g. ctx_at H h = Some g \<longrightarrow> g_parent g \<noteq> 0 \<longrightarrow>
        (\<exists>gp. ctx_at H (g_parent g) = Some gp \<and> g_live gp \<and> h \<in> set (children gp)))"

definition wf_arenas :: "cheap \<Rightarrow> bool" where
  "wf_arenas H \<longleftrightarrow>
     (\<forall>h h' g g'. ctx_at H h = Some g \<longrightarrow> ctx_at H h' = Some g' \<longrightarrow> g_live g \<longrightarrow> g_live g' \<longrightarrow>
        h \<noteq> h' \<longrightarrow> g_arena g \<noteq> g_arena g')"

definition wf_alloc :: "cheap \<Rightarrow> bool" where
  "wf_alloc H \<longleftrightarrow>
     (\<forall>a c. alloc_at H a = Some c \<longrightarrow> al_live c \<longrightarrow>
        (\<exists>g. ctx_at H (al_ctx c) = Some g \<and> g_live g \<and> a \<in> set (tab_items (g_alloc g))))"

definition wf_owned :: "cheap \<Rightarrow> bool" where
  "wf_owned H \<longleftrightarrow>
     (\<forall>h h' g g'. ctx_at H h = Some g \<longrightarrow> ctx_at H h' = Some g' \<longrightarrow> h \<noteq> h' \<longrightarrow>
        owned g \<inter> owned g' = {})"

text \<open>Whether the capability at an address still grants anything.\<close>

fun obj_live :: "cobj \<Rightarrow> bool" where
  "obj_live (FsObj c) = fs_live c"
| "obj_live (OutObj c) = out_live c"
| "obj_live (AllocObj c) = al_live c"
| "obj_live (FuelObj c) = fu_live c"
| "obj_live (NetObj c) = net_live c"
| "obj_live (CtxObj _) = False"
| "obj_live (ArenaObj _) = False"

definition cap_live :: "cheap \<Rightarrow> addr \<Rightarrow> bool" where
  "cap_live H a = (case H a of None \<Rightarrow> False | Some ob \<Rightarrow> obj_live ob)"

definition wf_revoked :: "cheap \<Rightarrow> bool" where
  "wf_revoked H \<longleftrightarrow>
     (\<forall>h g. ctx_at H h = Some g \<longrightarrow> \<not> g_live g \<longrightarrow> (\<forall>a \<in> owned g. \<not> cap_live H a))"

definition wf_r :: "(addr \<Rightarrow> nat) \<Rightarrow> cheap \<Rightarrow> bool" where
  "wf_r r H \<longleftrightarrow> H 0 = None \<and> wf_tabs H \<and> wf_arena H \<and> wf_dead H \<and> wf_down r H \<and> wf_up H
     \<and> wf_arenas H \<and> wf_alloc H \<and> wf_owned H \<and> wf_revoked H"

definition wf :: "cheap \<Rightarrow> bool" where
  "wf H \<longleftrightarrow> (\<exists>r. wf_r r H)"

lemmas wf_defs = wf_tabs_def wf_arena_def wf_dead_def wf_down_def wf_up_def wf_arenas_def
  wf_alloc_def wf_owned_def wf_revoked_def

lemma wf_empty: "wf_r r Map.empty"
  by (simp add: wf_r_def wf_defs at_defs)

lemma wf_tabsD: "wf_r r H \<Longrightarrow> ctx_at H h = Some g \<Longrightarrow> tabs_ok H g"
  by (simp add: wf_r_def wf_tabs_def)

lemma wf_arenaD: "wf_r r H \<Longrightarrow> ctx_at H h = Some g \<Longrightarrow> g_live g \<Longrightarrow> arena_ok H g"
  by (simp add: wf_r_def wf_arena_def)

lemma wf_deadD:
  "wf_r r H \<Longrightarrow> ctx_at H h = Some g \<Longrightarrow> \<not> g_live g \<Longrightarrow> children g = [] \<and> g_parent g = 0"
  by (simp add: wf_r_def wf_dead_def)

lemma wf_downD:
  "wf_r r H \<Longrightarrow> ctx_at H h = Some g \<Longrightarrow> c \<in> set (children g) \<Longrightarrow>
   \<exists>gc. ctx_at H c = Some gc \<and> g_live gc \<and> g_parent gc = h \<and> r c < r h"
  by (simp add: wf_r_def wf_down_def)

lemma wf_upD:
  "wf_r r H \<Longrightarrow> ctx_at H h = Some g \<Longrightarrow> g_parent g \<noteq> 0 \<Longrightarrow>
   \<exists>gp. ctx_at H (g_parent g) = Some gp \<and> g_live gp \<and> h \<in> set (children gp)"
  by (simp add: wf_r_def wf_up_def)

lemma wf_allocD:
  "wf_r r H \<Longrightarrow> alloc_at H a = Some c \<Longrightarrow> al_live c \<Longrightarrow>
   \<exists>g. ctx_at H (al_ctx c) = Some g \<and> g_live g \<and> a \<in> set (tab_items (g_alloc g))"
  by (simp add: wf_r_def wf_alloc_def)

lemma wf_revokedD:
  "wf_r r H \<Longrightarrow> ctx_at H h = Some g \<Longrightarrow> \<not> g_live g \<Longrightarrow> a \<in> owned g \<Longrightarrow> \<not> cap_live H a"
  by (simp add: wf_r_def wf_revoked_def)

lemma wf_zeroD: "wf_r r H \<Longrightarrow> H 0 = None"
  by (simp add: wf_r_def)

lemma at_nonzero:
  "wf_r r H \<Longrightarrow> ctx_at H h = Some g \<Longrightarrow> h \<noteq> 0"
  "wf_r r H \<Longrightarrow> fs_at H h = Some fc \<Longrightarrow> h \<noteq> 0"
  "wf_r r H \<Longrightarrow> out_at H h = Some oc \<Longrightarrow> h \<noteq> 0"
  "wf_r r H \<Longrightarrow> alloc_at H h = Some ac \<Longrightarrow> h \<noteq> 0"
  "wf_r r H \<Longrightarrow> fuel_at H h = Some uc \<Longrightarrow> h \<noteq> 0"
  "wf_r r H \<Longrightarrow> net_at H h = Some nc \<Longrightarrow> h \<noteq> 0"
  by (auto simp: wf_r_def at_iff)

lemma owned_kind:
  assumes "tabs_ok H g" and "a \<in> owned g"
  shows "fs_at H a \<noteq> None \<or> out_at H a \<noteq> None \<or> alloc_at H a \<noteq> None \<or> fuel_at H a \<noteq> None \<or>
    net_at H a \<noteq> None"
  using assms unfolding tabs_ok_def owned_def by blast

lemma owned_used: "tabs_ok H g \<Longrightarrow> a \<in> owned g \<Longrightarrow> H a \<noteq> None"
  by (drule (1) owned_kind) (auto simp: at_iff)

lemma owned_not_ctx: "tabs_ok H g \<Longrightarrow> a \<in> owned g \<Longrightarrow> ctx_at H a = None"
  by (drule (1) owned_kind) (simp add: at_defs split: option.splits cobj.splits)

section \<open>Updates that keep it\<close>

text \<open>
  A heap with the same contexts in which objects of each type may have appeared, arenas are
  as before, and no AllocCap came to life.
\<close>

definition extends :: "cheap \<Rightarrow> cheap \<Rightarrow> bool" where
  "extends H H' \<longleftrightarrow> H' 0 = None \<and> ctx_at H' = ctx_at H \<and>
     (\<forall>a. (fs_at H a \<noteq> None \<longrightarrow> fs_at H' a \<noteq> None) \<and> (out_at H a \<noteq> None \<longrightarrow> out_at H' a \<noteq> None) \<and>
          (alloc_at H a \<noteq> None \<longrightarrow> alloc_at H' a \<noteq> None) \<and> (fuel_at H a \<noteq> None \<longrightarrow> fuel_at H' a \<noteq> None) \<and>
          (net_at H a \<noteq> None \<longrightarrow> net_at H' a \<noteq> None)) \<and>
     (\<forall>a n. H a = Some (ArenaObj n) \<longrightarrow> H' a = Some (ArenaObj n)) \<and>
     (\<forall>a. cap_live H' a \<longrightarrow> H a = None \<or> cap_live H a) \<and>
     (\<forall>a c. alloc_at H' a = Some c \<longrightarrow> al_live c \<longrightarrow>
        (\<exists>c0. alloc_at H a = Some c0 \<and> al_live c0 \<and> al_ctx c0 = al_ctx c))"

lemma extends_at:
  assumes "extends H H'"
  shows "fs_at H a \<noteq> None \<Longrightarrow> fs_at H' a \<noteq> None" "out_at H a \<noteq> None \<Longrightarrow> out_at H' a \<noteq> None"
    "alloc_at H a \<noteq> None \<Longrightarrow> alloc_at H' a \<noteq> None" "fuel_at H a \<noteq> None \<Longrightarrow> fuel_at H' a \<noteq> None"
    "net_at H a \<noteq> None \<Longrightarrow> net_at H' a \<noteq> None"
  using assms unfolding extends_def by (simp_all del: not_None_eq)

lemma tabs_ok_mono: "extends H H' \<Longrightarrow> tabs_ok H g \<Longrightarrow> tabs_ok H' g"
  unfolding tabs_ok_def by (simp del: not_None_eq add: extends_at)

lemma wf_extends:
  assumes "wf_r r H" and "extends H H'"
  shows "wf_r r H'"
proof -
  have c: "ctx_at H' = ctx_at H" and z: "H' 0 = None" using assms(2) by (auto simp: extends_def)
  have "wf_tabs H'"
    using assms tabs_ok_mono unfolding wf_r_def wf_tabs_def c by blast
  moreover have "wf_arena H'"
    using assms unfolding wf_r_def wf_arena_def arena_ok_def extends_def by auto
  moreover have "wf_alloc H'"
    unfolding wf_alloc_def
  proof (intro allI impI)
    fix a ac assume a: "alloc_at H' a = Some ac" "al_live ac"
    then obtain c0 where "alloc_at H a = Some c0" "al_live c0" "al_ctx c0 = al_ctx ac"
      using assms(2) unfolding extends_def by blast
    then show "\<exists>g. ctx_at H' (al_ctx ac) = Some g \<and> g_live g \<and> a \<in> set (tab_items (g_alloc g))"
      using wf_allocD [OF assms(1)] c by metis
  qed
  moreover have "wf_revoked H'"
    unfolding wf_revoked_def c
    using assms owned_used [OF wf_tabsD [OF assms(1)]] wf_revokedD [OF assms(1)]
    unfolding extends_def by metis
  moreover have "wf_dead H'" "wf_down r H'" "wf_up H'" "wf_arenas H'" "wf_owned H'"
    using assms(1) c unfolding wf_r_def wf_dead_def wf_down_def wf_up_def wf_arenas_def wf_owned_def
    by simp_all
  ultimately show ?thesis using z by (simp add: wf_r_def)
qed

lemma at_ctx_upd:
  assumes "ctx_at H h = Some g"
  shows "fs_at (H(h \<mapsto> CtxObj g')) = fs_at H" "out_at (H(h \<mapsto> CtxObj g')) = out_at H"
    "alloc_at (H(h \<mapsto> CtxObj g')) = alloc_at H" "fuel_at (H(h \<mapsto> CtxObj g')) = fuel_at H"
    "net_at (H(h \<mapsto> CtxObj g')) = net_at H"
  using assms by (auto simp: at_defs fun_eq_iff split: option.splits cobj.splits)

lemma tabs_ok_ctx_upd:
  "ctx_at H h = Some g \<Longrightarrow> tabs_ok (H(h \<mapsto> CtxObj g')) = tabs_ok H"
  by (simp add: tabs_ok_def at_ctx_upd fun_eq_iff)

lemma arena_ok_ctx_upd:
  "ctx_at H h = Some g \<Longrightarrow> arena_ok (H(h \<mapsto> CtxObj g')) x = arena_ok H x"
  by (auto simp: arena_ok_def at_iff)

text \<open>
  A context may change its tables and its bump pointer, as long as it keeps its place in
  the graph and its new table entries belong to nobody else.
\<close>

lemma wf_ctx_update:
  assumes wf: "wf_r r H" and g: "ctx_at H h = Some g"
    and same: "g_parent g' = g_parent g" "g_children g' = g_children g" "g_live g' = g_live g"
      "g_arena g' = g_arena g"
    and tabs: "tabs_ok H g'" and arena: "arena_ok H g'" and live: "g_live g"
    and new: "\<And>x gx. x \<noteq> h \<Longrightarrow> ctx_at H x = Some gx \<Longrightarrow> owned g' \<inter> owned gx = {}"
    and allocs: "set (tab_items (g_alloc g)) \<subseteq> set (tab_items (g_alloc g'))"
  shows "wf_r r (H(h \<mapsto> CtxObj g'))"
proof -
  let ?H = "H(h \<mapsto> CtxObj g')"
  have ch: "children g' = children g" by (simp add: children_def same)
  have "wf_tabs ?H"
    using wf tabs by (auto simp: wf_tabs_def tabs_ok_ctx_upd [OF g] dest: wf_tabsD)
  moreover have "wf_arena ?H"
    using wf arena same by (auto simp: wf_arena_def arena_ok_ctx_upd [OF g] dest: wf_arenaD)
  moreover have "wf_dead ?H"
    using wf_deadD [OF wf] g ch same by (auto simp: wf_dead_def)
  moreover have "wf_down r ?H"
    using wf_downD [OF wf] g ch same by (fastforce simp: wf_down_def)
  moreover have "wf_up ?H"
    using wf_upD [OF wf] g ch same by (fastforce simp: wf_up_def)
  moreover have "wf_arenas ?H"
    using wf g same unfolding wf_r_def wf_arenas_def by (auto split: if_splits)
  moreover have "wf_alloc ?H"
    using wf_allocD [OF wf] g allocs same by (fastforce simp: wf_alloc_def at_ctx_upd [OF g])
  moreover have "wf_owned ?H"
    unfolding wf_owned_def
  proof (intro allI impI)
    fix x y gx gy
    assume a: "ctx_at ?H x = Some gx" "ctx_at ?H y = Some gy" "x \<noteq> y"
    have old: "owned a \<inter> owned b = {}" if "ctx_at H x = Some a" "ctx_at H y = Some b" for a b
      using wf that a(3) unfolding wf_r_def wf_owned_def by blast
    show "owned gx \<inter> owned gy = {}"
      using a old new [of y] new [of x] by (cases "x = h"; cases "y = h") (auto split: if_splits)
  qed
  moreover have "cap_live ?H a = cap_live H a" for a
    using g by (auto simp: cap_live_def at_iff)
  then have "wf_revoked ?H"
    using wf_revokedD [OF wf] live same by (auto simp: wf_revoked_def)
  moreover have "?H 0 = None"
    using wf_zeroD [OF wf] at_nonzero(1) [OF wf g] by simp
  ultimately show ?thesis by (simp add: wf_r_def)
qed

end
