(* ===== verification/GuestEnd.thy ===== *)
theory GuestEnd
  imports GuestInv
begin

text \<open>
  \<open>fx_guest_end\<close> of \<open>host/cap/fx_cap_runtime.c\<close>: the recursive teardown of a session and
  its nested sessions. The C function is a loop that ends the first child until none is
  left, so it returns only because ending a child takes it out of the parent's table. The
  model is a partial function, and the main lemma of this theory is that on a well-formed
  session graph it returns, without undefined behaviour.
\<close>

section \<open>The code\<close>

fun index_of :: "addr \<Rightarrow> addr list \<Rightarrow> nat option" where
  "index_of h [] = None"
| "index_of h (x # xs) = (if x = h then Some 0 else map_option Suc (index_of h xs))"

definition unlink_child :: "addr \<Rightarrow> captab \<Rightarrow> captab option" where
  "unlink_child h t =
     do { xs \<leftarrow> tab_read t;
          case index_of h xs of
            None \<Rightarrow> Some t
          | Some i \<Rightarrow> do {
              last \<leftarrow> aget (ct_arr t) (ct_n t - 1);
              arr \<leftarrow> aset (ct_arr t) i last;
              arr \<leftarrow> aset arr (ct_n t - 1) 0;
              Some \<lparr>ct_arr = arr, ct_n = ct_n t - 1\<rparr> } }"

definition guest_unlink_from_parent :: "addr \<Rightarrow> cmem \<Rightarrow> cmem option" where
  "guest_unlink_from_parent h s =
     (if h = 0 then Some s
      else do {
        g \<leftarrow> ctx_at (heap s) h;
        if g_parent g = 0 then Some s
        else do {
          p \<leftarrow> ctx_at (heap s) (g_parent g);
          t \<leftarrow> unlink_child h (g_children p);
          s \<leftarrow> Some (put (g_parent g) (CtxObj (p\<lparr>g_children := t\<rparr>)) s);
          g \<leftarrow> ctx_at (heap s) h;
          Some (put h (CtxObj (g\<lparr>g_parent := 0\<rparr>)) s) } })"

definition revoke_fs :: "addr \<Rightarrow> cmem \<Rightarrow> cmem option" where
  "revoke_fs a s =
     (if a = 0 then Some s
      else do { c \<leftarrow> fs_at (heap s) a; Some (put a (FsObj (c\<lparr>fs_live := False\<rparr>)) s) })"

definition revoke_out :: "addr \<Rightarrow> cmem \<Rightarrow> cmem option" where
  "revoke_out a s =
     (if a = 0 then Some s
      else do { c \<leftarrow> out_at (heap s) a; Some (put a (OutObj (c\<lparr>out_live := False\<rparr>)) s) })"

definition revoke_alloc :: "addr \<Rightarrow> cmem \<Rightarrow> cmem option" where
  "revoke_alloc a s =
     (if a = 0 then Some s
      else do { c \<leftarrow> alloc_at (heap s) a;
                Some (put a (AllocObj (c\<lparr>al_live := False, al_ctx := 0, al_budget := 0\<rparr>)) s) })"

definition revoke_fuel :: "addr \<Rightarrow> cmem \<Rightarrow> cmem option" where
  "revoke_fuel a s =
     (if a = 0 then Some s
      else do { c \<leftarrow> fuel_at (heap s) a;
                Some (put a (FuelObj (c\<lparr>fu_live := False, fu_ctx := 0, fu_units := 0\<rparr>)) s) })"

definition revoke_net :: "addr \<Rightarrow> cmem \<Rightarrow> cmem option" where
  "revoke_net a s =
     (if a = 0 then Some s
      else do { c \<leftarrow> net_at (heap s) a; Some (put a (NetObj (c\<lparr>net_live := False\<rparr>)) s) })"

definition guest_revoke_caps :: "addr \<Rightarrow> cmem \<Rightarrow> cmem option" where
  "guest_revoke_caps h s =
     do { g \<leftarrow> ctx_at (heap s) h; xs \<leftarrow> tab_read (g_fs g); s \<leftarrow> foldM revoke_fs xs s;
          g \<leftarrow> ctx_at (heap s) h; xs \<leftarrow> tab_read (g_out g); s \<leftarrow> foldM revoke_out xs s;
          g \<leftarrow> ctx_at (heap s) h; xs \<leftarrow> tab_read (g_alloc g); s \<leftarrow> foldM revoke_alloc xs s;
          g \<leftarrow> ctx_at (heap s) h; xs \<leftarrow> tab_read (g_fuel g); s \<leftarrow> foldM revoke_fuel xs s;
          g \<leftarrow> ctx_at (heap s) h; xs \<leftarrow> tab_read (g_net g); foldM revoke_net xs s }"

definition guest_release :: "addr \<Rightarrow> cmem \<Rightarrow> cmem option" where
  "guest_release h s =
     do { g \<leftarrow> ctx_at (heap s) h;
          s \<leftarrow> c_free (g_arena g) s;
          g \<leftarrow> ctx_at (heap s) h;
          Some (put h (CtxObj (g\<lparr>g_arena := 0, g_arena_size := 0, g_arena_used := 0,
                                 g_live := False\<rparr>)) s) }"

definition guest_teardown :: "addr \<Rightarrow> cmem \<Rightarrow> cmem option" where
  "guest_teardown h s =
     do { s \<leftarrow> guest_unlink_from_parent h s;
          s \<leftarrow> guest_revoke_caps h s;
          s \<leftarrow> guest_release h s;
          Some (clear_last_text s) }"

text \<open>The function and its inner loop, as one recursion over the two entry points.\<close>

datatype end_call = EndGuest addr | EndChildren addr

partial_function (option) guest_end_loop :: "end_call \<Rightarrow> cmem \<Rightarrow> cmem option" where
  "guest_end_loop c s =
     (case c of
        EndGuest ctx_handle \<Rightarrow>
          let h = fx_guest_from_handle ctx_handle in
          if h = 0 then Some s
          else do {
            g \<leftarrow> ctx_at (heap s) h;
            if \<not> g_live g then Some s
            else do { s \<leftarrow> guest_end_loop (EndChildren h) s; guest_teardown h s } }
      | EndChildren h \<Rightarrow>
          do { g \<leftarrow> ctx_at (heap s) h;
               if ct_n (g_children g) > 0 then
                 do { child \<leftarrow> aget (ct_arr (g_children g)) 0;
                      if child = 0 then
                        Some (put h (CtxObj (g\<lparr>g_children := (g_children g)\<lparr>ct_n := 0\<rparr>\<rparr>)) s)
                      else do { s \<leftarrow> guest_end_loop (EndGuest (fx_guest_to_handle child)) s;
                                guest_end_loop (EndChildren h) s } }
               else Some s })"

definition fx_guest_end :: "i64 \<Rightarrow> cmem \<Rightarrow> (int \<times> cmem) option" where
  "fx_guest_end ctx_handle s = do { s \<leftarrow> guest_end_loop (EndGuest ctx_handle) s; Some (0, s) }"

section \<open>Taking a child out of its parent's table\<close>

lemma index_of_Some: "h \<in> set xs \<Longrightarrow> \<exists>i. index_of h xs = Some i \<and> i < length xs \<and> xs ! i = h"
  by (induction xs) auto

lemma index_of_None: "h \<notin> set xs \<Longrightarrow> index_of h xs = None"
  by (induction xs) auto

lemma swap_remove:
  assumes "distinct xs" and "i < length xs"
  shows "set (butlast (xs[i := last xs])) = set xs - {xs ! i}"
    and "distinct (butlast (xs[i := last xs]))"
proof -
  from assms(2) obtain zs z where xs: "xs = zs @ [z]" by (cases xs rule: rev_cases) auto
  have "set (butlast (xs[i := last xs])) = set xs - {xs ! i} \<and> distinct (butlast (xs[i := last xs]))"
  proof (cases "i = length zs")
    case True
    with xs assms(1) show ?thesis by simp
  next
    case False
    with xs assms have i: "i < length zs" by simp
    then have upd: "butlast (xs[i := last xs]) = zs[i := z]"
      by (simp add: xs list_update_append)
    have "zs ! i \<in> set zs" using i by simp
    then have "zs ! i \<noteq> z" using assms(1) xs by auto
    moreover have "set (zs[i := z]) = insert z (set zs - {zs ! i})"
      using assms(1) xs i by (simp add: set_update_distinct)
    ultimately show ?thesis
      using assms(1) xs i upd by (auto simp: nth_append distinct_list_update)
  qed
  then show "set (butlast (xs[i := last xs])) = set xs - {xs ! i}"
    and "distinct (butlast (xs[i := last xs]))" by auto
qed

lemma unlink_child_absent:
  "tab_ok cap t \<Longrightarrow> h \<notin> set (tab_items t) \<Longrightarrow> unlink_child h t = Some t"
  by (simp add: unlink_child_def index_of_None)

lemma unlink_child_present:
  assumes ok: "tab_ok cap t" and d: "distinct (tab_items t)" and h: "h \<in> set (tab_items t)"
  obtains t' where "unlink_child h t = Some t'" "tab_ok cap t'" "ct_n t' = ct_n t - 1"
    "set (tab_items t') = set (tab_items t) - {h}" "distinct (tab_items t')"
proof -
  let ?xs = "tab_items t" and ?n = "ct_n t"
  from index_of_Some [OF h] obtain i
    where i: "index_of h ?xs = Some i" "i < length ?xs" "?xs ! i = h" by blast
  have n: "length ?xs = ?n" "0 < ?n" "?n \<le> length (ct_arr t)" "i < ?n"
    using ok i(2) by (auto simp: tab_ok_def tab_items_def)
  let ?arr = "(ct_arr t)[i := ct_arr t ! (?n - 1), ?n - 1 := 0]"
  let ?t = "\<lparr>ct_arr = ?arr, ct_n = ?n - 1\<rparr>"
  have lst: "last ?xs = ct_arr t ! (?n - 1)"
    using n by (subst last_conv_nth) (auto simp: tab_items_def)
  have items: "tab_items ?t = butlast (?xs[i := last ?xs])"
  proof -
    have "tab_items ?t = take (?n - 1) ((ct_arr t)[i := ct_arr t ! (?n - 1)])"
      by (simp add: tab_items_def take_update_cancel)
    also have "\<dots> = take (?n - 1) (take ?n ((ct_arr t)[i := ct_arr t ! (?n - 1)]))"
      by (simp add: min_def)
    also have "\<dots> = take (?n - 1) (?xs[i := last ?xs])"
      by (simp add: take_update_swap lst) (simp add: tab_items_def)
    finally show ?thesis using n by (simp add: butlast_conv_take)
  qed
  have "unlink_child h t = Some ?t"
    using ok i n by (simp add: unlink_child_def array_simps)
  moreover have "tab_ok cap ?t" using ok by (auto simp: tab_ok_def)
  ultimately show ?thesis
    using that swap_remove [OF d i(2)] i(3) items by simp
qed

section \<open>The teardown of one session, on heaps\<close>

fun revoke_obj :: "cobj \<Rightarrow> cobj" where
  "revoke_obj (FsObj c) = FsObj (c\<lparr>fs_live := False\<rparr>)"
| "revoke_obj (OutObj c) = OutObj (c\<lparr>out_live := False\<rparr>)"
| "revoke_obj (AllocObj c) = AllocObj (c\<lparr>al_live := False, al_ctx := 0, al_budget := 0\<rparr>)"
| "revoke_obj (FuelObj c) = FuelObj (c\<lparr>fu_live := False, fu_ctx := 0, fu_units := 0\<rparr>)"
| "revoke_obj (NetObj c) = NetObj (c\<lparr>net_live := False\<rparr>)"
| "revoke_obj (CtxObj g) = CtxObj g"
| "revoke_obj (ArenaObj n) = ArenaObj n"

definition revoke_set :: "addr set \<Rightarrow> cheap \<Rightarrow> cheap" where
  "revoke_set A H a = (if a \<in> A then map_option revoke_obj (H a) else H a)"

definition drop_child :: "addr \<Rightarrow> FxGuestCtx \<Rightarrow> FxGuestCtx" where
  "drop_child h gp = gp\<lparr>g_children := the (unlink_child h (g_children gp))\<rparr>"

definition unlinked :: "addr \<Rightarrow> FxGuestCtx \<Rightarrow> cheap \<Rightarrow> cheap" where
  "unlinked h g H =
     (case ctx_at H (g_parent g) of
        None \<Rightarrow> H
      | Some gp \<Rightarrow> H(g_parent g \<mapsto> CtxObj (drop_child h gp), h \<mapsto> CtxObj (g\<lparr>g_parent := 0\<rparr>)))"

definition dead_ctx :: "FxGuestCtx \<Rightarrow> FxGuestCtx" where
  "dead_ctx g = g\<lparr>g_parent := 0, g_arena := 0, g_arena_size := 0, g_arena_used := 0,
                 g_live := False\<rparr>"

definition released :: "addr \<Rightarrow> FxGuestCtx \<Rightarrow> cheap \<Rightarrow> cheap" where
  "released h g H = H(g_arena g := None, h \<mapsto> CtxObj (dead_ctx g))"

definition torn :: "addr \<Rightarrow> FxGuestCtx \<Rightarrow> cheap \<Rightarrow> cheap" where
  "torn h g H = released h g (revoke_set (owned g) (unlinked h g H))"

lemma revoke_obj_idem [simp]: "revoke_obj (revoke_obj ob) = revoke_obj ob"
  by (cases ob) auto

lemma ctx_at_revoke [simp]: "ctx_at (revoke_set A H) = ctx_at H"
proof
  fix a
  show "ctx_at (revoke_set A H) a = ctx_at H a"
  proof (cases "H a")
    case (Some ob)
    then show ?thesis by (cases ob) (auto simp: revoke_set_def ctx_at_def)
  qed (simp add: revoke_set_def ctx_at_def)
qed

lemma revoke_fs_at [simp]:
  "fs_at (revoke_set A H) a = (if a \<in> A then map_option (\<lambda>c. c\<lparr>fs_live := False\<rparr>) (fs_at H a) else fs_at H a)"
proof (cases "H a")
  case (Some ob)
  then show ?thesis by (cases ob) (simp_all add: revoke_set_def fs_at_def)
qed (simp add: revoke_set_def fs_at_def)

lemma revoke_out_at [simp]:
  "out_at (revoke_set A H) a = (if a \<in> A then map_option (\<lambda>c. c\<lparr>out_live := False\<rparr>) (out_at H a) else out_at H a)"
proof (cases "H a")
  case (Some ob)
  then show ?thesis by (cases ob) (simp_all add: revoke_set_def out_at_def)
qed (simp add: revoke_set_def out_at_def)

lemma revoke_alloc_at [simp]:
  "alloc_at (revoke_set A H) a = (if a \<in> A then map_option (\<lambda>c. c\<lparr>al_live := False, al_ctx := 0, al_budget := 0\<rparr>) (alloc_at H a) else alloc_at H a)"
proof (cases "H a")
  case (Some ob)
  then show ?thesis by (cases ob) (simp_all add: revoke_set_def alloc_at_def)
qed (simp add: revoke_set_def alloc_at_def)

lemma revoke_fuel_at [simp]:
  "fuel_at (revoke_set A H) a = (if a \<in> A then map_option (\<lambda>c. c\<lparr>fu_live := False, fu_ctx := 0, fu_units := 0\<rparr>) (fuel_at H a) else fuel_at H a)"
proof (cases "H a")
  case (Some ob)
  then show ?thesis by (cases ob) (simp_all add: revoke_set_def fuel_at_def)
qed (simp add: revoke_set_def fuel_at_def)

lemma revoke_net_at [simp]:
  "net_at (revoke_set A H) a = (if a \<in> A then map_option (\<lambda>c. c\<lparr>net_live := False\<rparr>) (net_at H a) else net_at H a)"
proof (cases "H a")
  case (Some ob)
  then show ?thesis by (cases ob) (simp_all add: revoke_set_def net_at_def)
qed (simp add: revoke_set_def net_at_def)

lemma revoke_arena: "H a = Some (ArenaObj n) \<Longrightarrow> revoke_set A H a = Some (ArenaObj n)"
  by (simp add: revoke_set_def)

lemma cap_live_revoke [simp]: "cap_live (revoke_set A H) a \<longleftrightarrow> a \<notin> A \<and> cap_live H a"
proof (cases "H a")
  case (Some ob)
  then show ?thesis by (cases ob) (simp_all add: revoke_set_def cap_live_def)
qed (simp add: revoke_set_def cap_live_def)

lemma extends_revoke: "H 0 = None \<Longrightarrow> extends H (revoke_set A H)"
  unfolding extends_def
  by (auto simp: revoke_arena revoke_set_def [of A H 0] split: if_splits)

lemma wf_revoke: "wf_r r H \<Longrightarrow> wf_r r (revoke_set A H)"
  using wf_extends extends_revoke wf_zeroD by blast

end
