(* ===== verification/GuestTeardown.thy ===== *)
theory GuestTeardown
  imports GuestEnd
begin

text \<open>
  The three stages of ending one session (leave the parent's table, revoke the session's
  capabilities, release the arena and die) each keep the session-graph invariant, and the
  code of \<open>guest_teardown\<close> computes exactly the heap they describe.
\<close>

section \<open>The stages keep the invariant\<close>

lemma drop_child_simps [simp]:
  "g_parent (drop_child h gp) = g_parent gp" "g_live (drop_child h gp) = g_live gp"
  "g_arena (drop_child h gp) = g_arena gp" "g_arena_size (drop_child h gp) = g_arena_size gp"
  "g_arena_used (drop_child h gp) = g_arena_used gp" "owned (drop_child h gp) = owned gp"
  "g_alloc (drop_child h gp) = g_alloc gp" "g_root (drop_child h gp) = g_root gp"
  "g_fs (drop_child h gp) = g_fs gp" "g_out (drop_child h gp) = g_out gp"
  "g_fuel (drop_child h gp) = g_fuel gp" "g_net (drop_child h gp) = g_net gp"
  by (simp_all add: drop_child_def owned_def)

lemma drop_child_children:
  assumes "tabs_ok H gp"
  shows "tabs_ok H (drop_child h gp)" and "set (children (drop_child h gp)) = set (children gp) - {h}"
    and "h \<in> set (children gp) \<Longrightarrow> ct_n (g_children (drop_child h gp)) = ct_n (g_children gp) - 1"
    and "h \<notin> set (children gp) \<Longrightarrow> drop_child h gp = gp"
    and "\<exists>t. unlink_child h (g_children gp) = Some t"
proof -
  have ok: "tab_ok FX_GUEST_MAX_CHILDREN (g_children gp)" "distinct (tab_items (g_children gp))"
    using assms by (auto simp: tabs_ok_def children_def)
  have "\<exists>t. unlink_child h (g_children gp) = Some t \<and> tab_ok FX_GUEST_MAX_CHILDREN t
      \<and> distinct (tab_items t) \<and> set (tab_items t) = set (children gp) - {h}
      \<and> (h \<in> set (children gp) \<longrightarrow> ct_n t = ct_n (g_children gp) - 1)
      \<and> (h \<notin> set (children gp) \<longrightarrow> t = g_children gp)"
  proof (cases "h \<in> set (children gp)")
    case True
    then have "h \<in> set (tab_items (g_children gp))" by (simp add: children_def)
    from unlink_child_present [OF ok this] obtain t where "unlink_child h (g_children gp) = Some t"
      "tab_ok FX_GUEST_MAX_CHILDREN t" "ct_n t = ct_n (g_children gp) - 1"
      "set (tab_items t) = set (tab_items (g_children gp)) - {h}" "distinct (tab_items t)" .
    with True show ?thesis by (simp add: children_def)
  next
    case False
    with ok show ?thesis using unlink_child_absent [OF ok(1)] by (simp add: children_def)
  qed
  then obtain t where t: "unlink_child h (g_children gp) = Some t" "tab_ok FX_GUEST_MAX_CHILDREN t"
    "distinct (tab_items t)" "set (tab_items t) = set (children gp) - {h}"
    "h \<in> set (children gp) \<longrightarrow> ct_n t = ct_n (g_children gp) - 1"
    "h \<notin> set (children gp) \<longrightarrow> t = g_children gp" by blast
  have d: "drop_child h gp = gp\<lparr>g_children := t\<rparr>" by (simp add: drop_child_def t(1))
  show "tabs_ok H (drop_child h gp)" using assms t by (simp add: d tabs_ok_def children_def)
  show "set (children (drop_child h gp)) = set (children gp) - {h}"
    using t by (simp add: d children_def)
  show "h \<in> set (children gp) \<Longrightarrow> ct_n (g_children (drop_child h gp)) = ct_n (g_children gp) - 1"
    using t by (simp add: d)
  show "h \<notin> set (children gp) \<Longrightarrow> drop_child h gp = gp" using t by (simp add: d)
  show "\<exists>t. unlink_child h (g_children gp) = Some t" using t by blast
qed

lemma tabs_ok_graph [simp]:
  "tabs_ok H (g\<lparr>g_parent := p\<rparr>) = tabs_ok H g" "tabs_ok H (dead_ctx g) = tabs_ok H g"
  by (simp_all add: tabs_ok_def children_def dead_ctx_def)

lemma rank_parent:
  assumes "wf_r r H" and "ctx_at H h = Some g" and "g_parent g \<noteq> 0"
  shows "r h < r (g_parent g)"
  using wf_upD [OF assms] wf_downD [OF assms(1)] by blast

lemma ctx_at_unlinked:
  assumes wf: "wf_r r H" and g: "ctx_at H h = Some g"
  shows "ctx_at (unlinked h g H) x =
    (if x = h then Some (g\<lparr>g_parent := 0\<rparr>)
     else if x = g_parent g then map_option (drop_child h) (ctx_at H x) else ctx_at H x)"
proof (cases "g_parent g = 0")
  case True
  have "ctx_at H 0 = None" using wf_zeroD [OF wf] by (simp add: ctx_at_def)
  moreover have "g\<lparr>g_parent := 0\<rparr> = g" using True by simp
  ultimately show ?thesis using g True by (simp add: unlinked_def)
next
  case False
  from wf_upD [OF wf g False] obtain gp where "ctx_at H (g_parent g) = Some gp" by blast
  then show ?thesis by (simp add: unlinked_def)
qed

lemma at_unlinked:
  assumes wf: "wf_r r H" and g: "ctx_at H h = Some g"
  shows "fs_at (unlinked h g H) = fs_at H" "out_at (unlinked h g H) = out_at H"
    "alloc_at (unlinked h g H) = alloc_at H" "fuel_at (unlinked h g H) = fuel_at H"
    "net_at (unlinked h g H) = net_at H"
    "unlinked h g H a = Some (ArenaObj n) \<longleftrightarrow> H a = Some (ArenaObj n)"
proof -
  have "fs_at (unlinked h g H) = fs_at H \<and> out_at (unlinked h g H) = out_at H
    \<and> alloc_at (unlinked h g H) = alloc_at H \<and> fuel_at (unlinked h g H) = fuel_at H
    \<and> net_at (unlinked h g H) = net_at H
    \<and> (unlinked h g H a = Some (ArenaObj n) \<longleftrightarrow> H a = Some (ArenaObj n))"
  proof (cases "ctx_at H (g_parent g)")
    case (Some gp)
    define H1 where "H1 = H(g_parent g \<mapsto> CtxObj (drop_child h gp))"
    have u: "unlinked h g H = H1(h \<mapsto> CtxObj (g\<lparr>g_parent := 0\<rparr>))"
      by (simp add: unlinked_def Some H1_def)
    obtain g1 where "ctx_at H1 h = Some g1"
      using g by (cases "h = g_parent g") (auto simp: H1_def)
    note a1 = at_ctx_upd [OF Some, of "drop_child h gp", folded H1_def]
      and a2 = at_ctx_upd [OF this, of "g\<lparr>g_parent := 0\<rparr>"]
    have "H (g_parent g) = Some (CtxObj gp)" "H h = Some (CtxObj g)" using Some g by (simp_all add: at_iff)
    then have "(H1(h \<mapsto> CtxObj (g\<lparr>g_parent := 0\<rparr>))) a = Some (ArenaObj n) \<longleftrightarrow> H a = Some (ArenaObj n)"
      by (auto simp: H1_def)
    then show ?thesis by (simp add: u a1 a2)
  qed (simp add: unlinked_def)
  then show "fs_at (unlinked h g H) = fs_at H" "out_at (unlinked h g H) = out_at H"
    "alloc_at (unlinked h g H) = alloc_at H" "fuel_at (unlinked h g H) = fuel_at H"
    "net_at (unlinked h g H) = net_at H"
    "unlinked h g H a = Some (ArenaObj n) \<longleftrightarrow> H a = Some (ArenaObj n)" by blast+
qed

lemma cap_live_unlinked:
  assumes wf: "wf_r r H" and g: "ctx_at H h = Some g"
  shows "cap_live (unlinked h g H) = cap_live H"
proof
  fix a
  show "cap_live (unlinked h g H) a = cap_live H a"
    using g by (auto simp: unlinked_def cap_live_def at_iff split: option.splits)
qed

lemma tabs_ok_unlinked:
  "wf_r r H \<Longrightarrow> ctx_at H h = Some g \<Longrightarrow> tabs_ok (unlinked h g H) = tabs_ok H"
  by (simp add: tabs_ok_def at_unlinked fun_eq_iff)

lemma unlinked_sources:
  assumes wf: "wf_r r H" and g: "ctx_at H h = Some g" and x: "ctx_at (unlinked h g H) x = Some gx"
  obtains g0 where "ctx_at H x = Some g0" "g_live gx = g_live g0" "owned gx = owned g0"
    "g_arena gx = g_arena g0" "g_arena_size gx = g_arena_size g0" "g_arena_used gx = g_arena_used g0"
    "g_alloc gx = g_alloc g0" "g_parent gx = (if x = h then 0 else g_parent g0)"
    "set (children gx) = set (children g0) - (if x = g_parent g then {h} else {})"
proof -
  have hp: "x = g_parent g \<Longrightarrow> x \<noteq> h"
    using rank_parent [OF wf g] at_nonzero(1) [OF wf g] by (metis less_irrefl)
  show ?thesis
  proof (cases "x = h")
    case True
    with x g hp show ?thesis
      by (intro that [of g]) (auto simp: ctx_at_unlinked [OF wf g] owned_def children_def)
  next
    case False
    show ?thesis
    proof (cases "x = g_parent g")
      case True
      with x False obtain g0 where "ctx_at H x = Some g0" "gx = drop_child h g0"
        by (auto simp: ctx_at_unlinked [OF wf g])
      with True False show ?thesis
        by (intro that [of g0]) (auto simp: drop_child_children(2) [OF wf_tabsD [OF wf]])
    next
      case other: False
      with x False show ?thesis by (intro that [of gx]) (auto simp: ctx_at_unlinked [OF wf g])
    qed
  qed
qed

lemma unlinked_down:
  assumes wf: "wf_r r H" and g: "ctx_at H h = Some g" and live: "g_live g"
  shows "wf_down r (unlinked h g H)"
  unfolding wf_down_def
proof (intro allI impI)
  note ctx = ctx_at_unlinked [OF wf g] and src = unlinked_sources [OF wf g]
  fix x gx c assume x: "ctx_at (unlinked h g H) x = Some gx" and c: "c \<in> set (children gx)"
  from x obtain g0 where g0: "ctx_at H x = Some g0"
    and sub: "set (children gx) = set (children g0) - (if x = g_parent g then {h} else {})"
    by (rule src) auto
  from c sub have "c \<in> set (children g0)" by blast
  from wf_downD [OF wf g0 this] obtain gc
    where gc: "ctx_at H c = Some gc" "g_live gc" "g_parent gc = x" "r c < r x" by blast
  moreover have "c \<noteq> h" using gc(1,3) g c sub by auto
  ultimately show "\<exists>gc. ctx_at (unlinked h g H) c = Some gc \<and> g_live gc \<and> g_parent gc = x \<and> r c < r x"
    by (auto simp: ctx)
qed

lemma unlinked_up:
  assumes wf: "wf_r r H" and g: "ctx_at H h = Some g" and live: "g_live g"
  shows "wf_up (unlinked h g H)"
  unfolding wf_up_def
proof (intro allI impI)
  note ctx = ctx_at_unlinked [OF wf g] and src = unlinked_sources [OF wf g]
  fix x gx assume x: "ctx_at (unlinked h g H) x = Some gx" and p: "g_parent gx \<noteq> 0"
  from x obtain g0 where g0: "ctx_at H x = Some g0" and par: "g_parent gx = (if x = h then 0 else g_parent g0)"
    by (rule src) auto
  with p have xh: "x \<noteq> h" and p0: "g_parent gx = g_parent g0" "g_parent g0 \<noteq> 0" by (auto split: if_splits)
  from wf_upD [OF wf g0 p0(2)] obtain gp
    where gp: "ctx_at H (g_parent g0) = Some gp" "g_live gp" "x \<in> set (children gp)" by blast
  show "\<exists>gp. ctx_at (unlinked h g H) (g_parent gx) = Some gp \<and> g_live gp \<and> x \<in> set (children gp)"
    using gp xh g live drop_child_children(2) [OF wf_tabsD [OF wf gp(1)]]
    by (auto simp: ctx p0(1) children_def)
qed

lemma wf_unlinked:
  assumes wf: "wf_r r H" and g: "ctx_at H h = Some g" and live: "g_live g"
  shows "wf_r r (unlinked h g H)"
proof -
  let ?H = "unlinked h g H"
  note ctx = ctx_at_unlinked [OF wf g] and src = unlinked_sources [OF wf g]
  have "tabs_ok H gx" if "ctx_at ?H x = Some gx" for x gx
    using that wf_tabsD [OF wf] g drop_child_children(1)
    by (auto simp: ctx split: if_splits)
  then have "wf_tabs ?H"
    by (simp add: wf_tabs_def tabs_ok_unlinked [OF wf g])
  moreover have "wf_arena ?H"
    unfolding wf_arena_def
    by (auto simp: arena_ok_def at_unlinked [OF wf g] elim!: src dest!: wf_arenaD [OF wf])
  moreover have "wf_dead ?H"
    unfolding wf_dead_def
  proof (intro allI impI)
    fix x gx assume x: "ctx_at ?H x = Some gx" "\<not> g_live gx"
    from x(1) show "children gx = [] \<and> g_parent gx = 0"
      by (rule src) (use wf_deadD [OF wf] x(2) in fastforce)
  qed
  moreover note unlinked_down [OF assms]
  moreover note unlinked_up [OF assms]
  moreover have "wf_arenas ?H"
    unfolding wf_arenas_def
  proof (intro allI impI)
    fix x y gx gy
    assume x: "ctx_at ?H x = Some gx" and y: "ctx_at ?H y = Some gy"
      and l: "g_live gx" "g_live gy" "x \<noteq> y"
    from x obtain g0 where "ctx_at H x = Some g0" "g_live gx = g_live g0" "g_arena gx = g_arena g0"
      by (rule src) auto
    moreover from y obtain g1 where "ctx_at H y = Some g1" "g_live gy = g_live g1" "g_arena gy = g_arena g1"
      by (rule src) auto
    ultimately show "g_arena gx \<noteq> g_arena gy" using wf l unfolding wf_r_def wf_arenas_def by metis
  qed
  moreover have "wf_alloc ?H"
    using wf_allocD [OF wf] g
    by (fastforce simp: wf_alloc_def at_unlinked [OF wf g] ctx)
  moreover have "wf_owned ?H"
    unfolding wf_owned_def
  proof (intro allI impI)
    fix x y gx gy
    assume x: "ctx_at ?H x = Some gx" and y: "ctx_at ?H y = Some gy" and xy: "x \<noteq> y"
    from x obtain g0 where "ctx_at H x = Some g0" "owned gx = owned g0" by (rule src) auto
    moreover from y obtain g1 where "ctx_at H y = Some g1" "owned gy = owned g1" by (rule src) auto
    ultimately show "owned gx \<inter> owned gy = {}" using wf xy unfolding wf_r_def wf_owned_def by metis
  qed
  moreover have "wf_revoked ?H"
    unfolding wf_revoked_def cap_live_unlinked [OF wf g]
  proof (intro allI impI)
    fix x gx assume x: "ctx_at ?H x = Some gx" and d: "\<not> g_live gx"
    from x obtain g0 where "ctx_at H x = Some g0" "owned gx = owned g0" "g_live gx = g_live g0"
      by (rule src) auto
    with d show "\<forall>a \<in> owned gx. \<not> cap_live H a" using wf_revokedD [OF wf] by blast
  qed
  moreover have "?H 0 = None"
    using wf_zeroD [OF wf] at_nonzero(1) [OF wf g] at_nonzero(1) [OF wf]
    by (auto simp: unlinked_def split: option.splits)
  ultimately show ?thesis by (simp add: wf_r_def)
qed

lemma at_released:
  assumes g: "ctx_at H h = Some g" and a: "H (g_arena g) = Some (ArenaObj n)"
  shows "fs_at (released h g H) = fs_at H" "out_at (released h g H) = out_at H"
    "alloc_at (released h g H) = alloc_at H" "fuel_at (released h g H) = fuel_at H"
    "net_at (released h g H) = net_at H"
    "ctx_at (released h g H) = (ctx_at H)(h \<mapsto> dead_ctx g)"
    "cap_live (released h g H) = cap_live H"
proof -
  have h: "H h = Some (CtxObj g)" using g by (simp add: at_iff)
  show "fs_at (released h g H) = fs_at H" "out_at (released h g H) = out_at H"
    "alloc_at (released h g H) = alloc_at H" "fuel_at (released h g H) = fuel_at H"
    "net_at (released h g H) = net_at H"
    "ctx_at (released h g H) = (ctx_at H)(h \<mapsto> dead_ctx g)"
    "cap_live (released h g H) = cap_live H"
    using h a by (auto simp: released_def at_defs cap_live_def fun_eq_iff)
qed

lemma dead_ctx_simps [simp]:
  "g_live (dead_ctx g) = False" "g_parent (dead_ctx g) = 0" "owned (dead_ctx g) = owned g"
  "children (dead_ctx g) = children g" "g_root (dead_ctx g) = g_root g"
  "g_alloc (dead_ctx g) = g_alloc g" "dead_ctx (g\<lparr>g_parent := p\<rparr>) = dead_ctx g"
  by (simp_all add: dead_ctx_def owned_def children_def)

lemma released_down:
  assumes wf: "wf_r r H" and g: "ctx_at H h = Some g" and live: "g_live g"
    and leaf: "children g = []" and orphan: "g_parent g = 0"
  shows "wf_down r (released h g H)"
  unfolding wf_down_def
proof (intro allI impI)
  have ar: "H (g_arena g) = Some (ArenaObj (g_arena_size g))"
    using wf_arenaD [OF wf g live] by (simp add: arena_ok_def)
  note at = at_released [OF g ar]
  fix x gx c assume x: "ctx_at (released h g H) x = Some gx" and c: "c \<in> set (children gx)"
  then have "x \<noteq> h" using leaf by (auto simp: at)
  with x have "ctx_at H x = Some gx" by (simp add: at)
  from wf_downD [OF wf this c] obtain gc
    where gc: "ctx_at H c = Some gc" "g_live gc" "g_parent gc = x" "r c < r x" by blast
  have "x \<noteq> 0" using \<open>ctx_at H x = Some gx\<close> at_nonzero(1) [OF wf] by blast
  then have "c \<noteq> h" using gc g orphan by auto
  with gc show "\<exists>gc. ctx_at (released h g H) c = Some gc \<and> g_live gc \<and> g_parent gc = x \<and> r c < r x"
    by (simp add: at)
qed

lemma released_up:
  assumes wf: "wf_r r H" and g: "ctx_at H h = Some g" and live: "g_live g"
    and leaf: "children g = []" and orphan: "g_parent g = 0"
  shows "wf_up (released h g H)"
  unfolding wf_up_def
proof (intro allI impI)
  have ar: "H (g_arena g) = Some (ArenaObj (g_arena_size g))"
    using wf_arenaD [OF wf g live] by (simp add: arena_ok_def)
  note at = at_released [OF g ar]
  fix x gx assume x: "ctx_at (released h g H) x = Some gx" and p: "g_parent gx \<noteq> 0"
  then have x0: "ctx_at H x = Some gx" by (auto simp: at split: if_splits)
  from wf_upD [OF wf x0 p] obtain gp
    where gp: "ctx_at H (g_parent gx) = Some gp" "g_live gp" "x \<in> set (children gp)" by blast
  then have "g_parent gx \<noteq> h" using g leaf by auto
  with gp show "\<exists>gp. ctx_at (released h g H) (g_parent gx) = Some gp \<and> g_live gp \<and> x \<in> set (children gp)"
    by (simp add: at)
qed

lemma wf_released:
  assumes wf: "wf_r r H" and g: "ctx_at H h = Some g" and live: "g_live g"
    and leaf: "children g = []" and orphan: "g_parent g = 0"
    and revoked: "\<And>a. a \<in> owned g \<Longrightarrow> \<not> cap_live H a"
  shows "wf_r r (released h g H)"
proof -
  let ?H = "released h g H"
  have ar: "H (g_arena g) = Some (ArenaObj (g_arena_size g))"
    using wf_arenaD [OF wf g live] by (simp add: arena_ok_def)
  note at = at_released [OF g ar]
  have tabs: "tabs_ok ?H = tabs_ok H" by (simp add: tabs_ok_def at fun_eq_iff)
  have "wf_tabs ?H" using wf_tabsD [OF wf] g by (auto simp: wf_tabs_def tabs at)
  moreover have "wf_arena ?H"
    unfolding wf_arena_def
  proof (intro allI impI)
    fix x gx assume x: "ctx_at ?H x = Some gx" "g_live gx"
    then have xh: "x \<noteq> h" and x0: "ctx_at H x = Some gx" by (auto simp: at split: if_splits)
    have "g_arena gx \<noteq> g_arena g"
      using wf x0 g xh x(2) live unfolding wf_r_def wf_arenas_def by blast
    moreover have "g_arena gx \<noteq> h"
      using wf_arenaD [OF wf x0 x(2)] g by (auto simp: arena_ok_def at_iff)
    ultimately show "arena_ok ?H gx"
      using wf_arenaD [OF wf x0 x(2)] by (simp add: arena_ok_def released_def)
  qed
  moreover have "wf_dead ?H"
    using wf_deadD [OF wf] leaf by (auto simp: wf_dead_def at)
  moreover note released_down [OF wf g live leaf orphan]
  moreover note released_up [OF wf g live leaf orphan]
  moreover have "wf_arenas ?H"
    using wf unfolding wf_r_def wf_arenas_def by (auto simp: at split: if_splits)
  moreover have "wf_alloc ?H"
    unfolding wf_alloc_def
  proof (intro allI impI)
    fix a c assume a: "alloc_at ?H a = Some c" "al_live c"
    then have a0: "alloc_at H a = Some c" by (simp add: at)
    from wf_allocD [OF wf a0 a(2)] obtain gc
      where gc: "ctx_at H (al_ctx c) = Some gc" "g_live gc" "a \<in> set (tab_items (g_alloc gc))" by blast
    have "cap_live H a" using a0 a(2) by (simp add: cap_live_def at_iff)
    then have "al_ctx c \<noteq> h" using gc g revoked by (auto simp: owned_def)
    with gc show "\<exists>g. ctx_at ?H (al_ctx c) = Some g \<and> g_live g \<and> a \<in> set (tab_items (g_alloc g))"
      by (simp add: at)
  qed
  moreover have "wf_owned ?H"
    using wf g unfolding wf_r_def wf_owned_def by (auto simp: at split: if_splits)
  moreover have "wf_revoked ?H"
    using wf_revokedD [OF wf] revoked by (auto simp: wf_revoked_def at)
  moreover have "?H 0 = None"
    using wf_zeroD [OF wf] at_nonzero(1) [OF wf g] by (simp add: released_def)
  ultimately show ?thesis by (simp add: wf_r_def)
qed

lemma wf_torn:
  assumes wf: "wf_r r H" and g: "ctx_at H h = Some g" and live: "g_live g" and leaf: "children g = []"
  shows "wf_r r (torn h g H)"
proof -
  let ?g = "g\<lparr>g_parent := 0\<rparr>" and ?H = "revoke_set (owned g) (unlinked h g H)"
  have "torn h g H = released h ?g ?H" by (simp add: torn_def released_def)
  moreover have "wf_r r (released h ?g ?H)"
    using live leaf
    by (intro wf_released wf_revoke wf_unlinked [OF wf g live])
      (simp_all add: ctx_at_unlinked [OF wf g] children_def owned_def)
  ultimately show ?thesis by simp
qed

section \<open>The code computes the stages\<close>

definition set_heap :: "cheap \<Rightarrow> cmem \<Rightarrow> cmem" where
  "set_heap H s = s\<lparr>heap := H\<rparr>"

lemma set_heap_simps [simp]:
  "heap (set_heap H s) = H" "avail (set_heap H s) = avail s"
  "last_text (set_heap H s) = last_text s" "set_heap H (set_heap H' s) = set_heap H s"
  "set_heap (heap s) s = s" "put a ob (set_heap H s) = set_heap (H(a \<mapsto> ob)) s"
  by (simp_all add: set_heap_def put_def)

lemma put_set_heap: "put a ob s = set_heap ((heap s)(a \<mapsto> ob)) s"
  by (simp add: put_def set_heap_def)

lemma unlink_code:
  assumes wf: "wf_r r H" and g: "ctx_at H h = Some g"
  shows "guest_unlink_from_parent h (set_heap H s) = Some (set_heap (unlinked h g H) s)"
proof (cases "g_parent g = 0")
  case True
  have "ctx_at H 0 = None" using wf_zeroD [OF wf] by (simp add: ctx_at_def)
  with True g at_nonzero(1) [OF wf g] show ?thesis
    by (simp add: guest_unlink_from_parent_def unlinked_def)
next
  case False
  from wf_upD [OF wf g False] obtain gp where gp: "ctx_at H (g_parent g) = Some gp" by blast
  from drop_child_children(5) [OF wf_tabsD [OF wf gp]] obtain t
    where t: "unlink_child h (g_children gp) = Some t" by blast
  have "g_parent g \<noteq> h" using rank_parent [OF wf g False] by auto
  with t gp g False at_nonzero(1) [OF wf g] show ?thesis
    by (simp add: guest_unlink_from_parent_def unlinked_def drop_child_def)
qed

text \<open>
  Each revoking loop turns exactly the listed objects into dead ones. The loop body is
  given by its effect on one non-null, well-typed address.
\<close>

lemma revoke_set_insert: "revoke_set A (revoke_set {x} H) = revoke_set (insert x A) H"
  by (auto simp: revoke_set_def fun_eq_iff map_option.compositionality comp_def)

lemma revoke_set_Un: "revoke_set A (revoke_set B H) = revoke_set (A \<union> B) H"
  by (auto simp: revoke_set_def fun_eq_iff map_option.compositionality comp_def)

lemma revoke_one: "H a = Some ob \<Longrightarrow> H(a \<mapsto> revoke_obj ob) = revoke_set {a} H"
  by (auto simp: revoke_set_def fun_eq_iff)

lemma revoke_body:
  "a \<noteq> 0 \<Longrightarrow> fs_at H a \<noteq> None \<Longrightarrow> revoke_fs a (set_heap H s) = Some (set_heap (revoke_set {a} H) s)"
  "a \<noteq> 0 \<Longrightarrow> out_at H a \<noteq> None \<Longrightarrow> revoke_out a (set_heap H s) = Some (set_heap (revoke_set {a} H) s)"
  "a \<noteq> 0 \<Longrightarrow> alloc_at H a \<noteq> None \<Longrightarrow> revoke_alloc a (set_heap H s) = Some (set_heap (revoke_set {a} H) s)"
  "a \<noteq> 0 \<Longrightarrow> fuel_at H a \<noteq> None \<Longrightarrow> revoke_fuel a (set_heap H s) = Some (set_heap (revoke_set {a} H) s)"
  "a \<noteq> 0 \<Longrightarrow> net_at H a \<noteq> None \<Longrightarrow> revoke_net a (set_heap H s) = Some (set_heap (revoke_set {a} H) s)"
  by (auto simp: revoke_fs_def revoke_out_def revoke_alloc_def revoke_fuel_def revoke_net_def
      at_iff at_iff [THEN iffD2] simp flip: revoke_one)

lemma foldM_revoke:
  assumes body: "\<And>a H. a \<noteq> 0 \<Longrightarrow> P H a \<Longrightarrow> f a (set_heap H s) = Some (set_heap (revoke_set {a} H) s)"
    and stable: "\<And>a b H. P H a \<Longrightarrow> P (revoke_set {b} H) a"
    and ok: "\<And>a. a \<in> set xs \<Longrightarrow> a \<noteq> 0 \<and> P H a"
  shows "foldM f xs (set_heap H s) = Some (set_heap (revoke_set (set xs) H) s)"
  using ok
proof (induction xs arbitrary: H)
  case Nil
  then show ?case by (simp add: revoke_set_def fun_eq_iff)
next
  case (Cons x xs)
  have "f x (set_heap H s) = Some (set_heap (revoke_set {x} H) s)" using Cons.prems body by simp
  moreover have "foldM f xs (set_heap (revoke_set {x} H) s)
      = Some (set_heap (revoke_set (set xs) (revoke_set {x} H)) s)"
    using Cons.prems stable by (intro Cons.IH) simp
  ultimately show ?case by (simp add: revoke_set_insert)
qed

lemmas revoke_loops =
  foldM_revoke [where P = "\<lambda>H a. fs_at H a \<noteq> None" and f = revoke_fs, OF revoke_body(1)]
  foldM_revoke [where P = "\<lambda>H a. out_at H a \<noteq> None" and f = revoke_out, OF revoke_body(2)]
  foldM_revoke [where P = "\<lambda>H a. alloc_at H a \<noteq> None" and f = revoke_alloc, OF revoke_body(3)]
  foldM_revoke [where P = "\<lambda>H a. fuel_at H a \<noteq> None" and f = revoke_fuel, OF revoke_body(4)]
  foldM_revoke [where P = "\<lambda>H a. net_at H a \<noteq> None" and f = revoke_net, OF revoke_body(5)]

lemma at_typed:
  "wf_r r H \<Longrightarrow> fs_at H a \<noteq> None \<Longrightarrow> a \<noteq> 0" "wf_r r H \<Longrightarrow> out_at H a \<noteq> None \<Longrightarrow> a \<noteq> 0"
  "wf_r r H \<Longrightarrow> alloc_at H a \<noteq> None \<Longrightarrow> a \<noteq> 0" "wf_r r H \<Longrightarrow> fuel_at H a \<noteq> None \<Longrightarrow> a \<noteq> 0"
  "wf_r r H \<Longrightarrow> net_at H a \<noteq> None \<Longrightarrow> a \<noteq> 0"
  by (auto dest: at_nonzero)

lemma revoke_caps_code:
  assumes wf: "wf_r r H" and g: "ctx_at H h = Some g"
  shows "guest_revoke_caps h (set_heap H s) = Some (set_heap (revoke_set (owned g) H) s)"
proof -
  have ok: "tabs_ok H g" by (rule wf_tabsD [OF wf g])
  let ?fs = "set (tab_items (g_fs g))" and ?out = "set (tab_items (g_out g))"
    and ?al = "set (tab_items (g_alloc g))" and ?fu = "set (tab_items (g_fuel g))"
    and ?net = "set (tab_items (g_net g))"
  have reads: "tab_read (g_fs g) = Some (tab_items (g_fs g))" "tab_read (g_out g) = Some (tab_items (g_out g))"
    "tab_read (g_alloc g) = Some (tab_items (g_alloc g))" "tab_read (g_fuel g) = Some (tab_items (g_fuel g))"
    "tab_read (g_net g) = Some (tab_items (g_net g))"
    using ok by (auto simp: tabs_ok_def intro: tab_ok_read)
  have typed: "a \<in> ?fs \<Longrightarrow> a \<noteq> 0 \<and> fs_at H a \<noteq> None" "a \<in> ?out \<Longrightarrow> a \<noteq> 0 \<and> out_at H a \<noteq> None"
    "a \<in> ?al \<Longrightarrow> a \<noteq> 0 \<and> alloc_at H a \<noteq> None" "a \<in> ?fu \<Longrightarrow> a \<noteq> 0 \<and> fuel_at H a \<noteq> None"
    "a \<in> ?net \<Longrightarrow> a \<noteq> 0 \<and> net_at H a \<noteq> None" for a
    using ok at_typed [OF wf, of a] unfolding tabs_ok_def by blast+
  have l1: "foldM revoke_fs (tab_items (g_fs g)) (set_heap H s) = Some (set_heap (revoke_set ?fs H) s)"
    using typed(1) by (intro revoke_loops(1)) auto
  have l2: "foldM revoke_out (tab_items (g_out g)) (set_heap (revoke_set A H) s)
      = Some (set_heap (revoke_set (?out \<union> A) H) s)" for A
    using typed(2) by (subst revoke_loops(2)) (auto simp: revoke_set_Un)
  have l3: "foldM revoke_alloc (tab_items (g_alloc g)) (set_heap (revoke_set A H) s)
      = Some (set_heap (revoke_set (?al \<union> A) H) s)" for A
    using typed(3) by (subst revoke_loops(3)) (auto simp: revoke_set_Un)
  have l4: "foldM revoke_fuel (tab_items (g_fuel g)) (set_heap (revoke_set A H) s)
      = Some (set_heap (revoke_set (?fu \<union> A) H) s)" for A
    using typed(4) by (subst revoke_loops(4)) (auto simp: revoke_set_Un)
  have l5: "foldM revoke_net (tab_items (g_net g)) (set_heap (revoke_set A H) s)
      = Some (set_heap (revoke_set (?net \<union> A) H) s)" for A
    using typed(5) by (subst revoke_loops(5)) (auto simp: revoke_set_Un)
  have "?net \<union> (?fu \<union> (?al \<union> (?out \<union> ?fs))) = owned g" by (auto simp: owned_def)
  then show ?thesis
    by (simp add: guest_revoke_caps_def g reads l1 l2 l3 l4 l5)
qed

lemma release_code:
  assumes g: "ctx_at H h = Some g" and a: "H (g_arena g) = Some (ArenaObj n)" and z: "g_arena g \<noteq> 0"
    and p: "g_parent g = 0"
  shows "guest_release h (set_heap H s) = Some (set_heap (released h g H) s)"
proof -
  have "g_arena g \<noteq> h" using g a by (auto simp: at_iff)
  then have "ctx_at (H(g_arena g := None)) h = Some g" using g by (simp add: at_iff)
  moreover have "dead_ctx g = g\<lparr>g_arena := 0, g_arena_size := 0, g_arena_used := 0, g_live := False\<rparr>"
    using p by (simp add: dead_ctx_def)
  ultimately show ?thesis
    using g a z by (simp add: guest_release_def c_free_def released_def set_heap_def put_def)
qed

lemma teardown_code:
  assumes wf: "wf_r r H" and g: "ctx_at H h = Some g" and live: "g_live g"
  shows "guest_teardown h (set_heap H s) = Some (set_heap (torn h g H) (clear_last_text s))"
proof -
  let ?g = "g\<lparr>g_parent := 0\<rparr>" and ?H1 = "unlinked h g H"
  have wf1: "wf_r r ?H1" by (rule wf_unlinked [OF wf g live])
  have g1: "ctx_at ?H1 h = Some ?g" by (simp add: ctx_at_unlinked [OF wf g])
  have ow: "owned ?g = owned g" by (simp add: owned_def)
  let ?H2 = "revoke_set (owned g) ?H1"
  have ar: "arena_ok ?H1 ?g" using wf_arenaD [OF wf1 g1] live by simp
  then have a2: "?H2 (g_arena ?g) = Some (ArenaObj (g_arena_size g))"
    by (intro revoke_arena) (simp add: arena_ok_def)
  have z: "g_arena ?g \<noteq> 0" using ar wf_zeroD [OF wf1] by (auto simp: arena_ok_def)
  have g2: "ctx_at ?H2 h = Some ?g" by (simp add: g1)
  have "released h ?g ?H2 = torn h g H" by (simp add: torn_def released_def)
  then show ?thesis
    using release_code [OF g2 a2 z, of s] unlink_code [OF wf g, of s] revoke_caps_code [OF wf1 g1, of s]
    by (simp add: guest_teardown_def ow clear_last_text_def set_heap_def)
qed

end
