(* ===== verification/GuestForest.thy ===== *)
theory GuestForest
  imports GuestTeardown
begin

text \<open>
  Ending a session of a well-formed graph: the recursion of \<open>fx_guest_end\<close> returns, kills
  exactly the session and its nested sessions, revokes exactly their capabilities, and
  leaves every other object as it was (but for the parent's table). The proof is an
  induction on the rank of the session, with an inner induction over the parent's loop.
\<close>

section \<open>What ending a session may change\<close>

definition ctx_shrinks :: "FxGuestCtx \<Rightarrow> FxGuestCtx \<Rightarrow> bool" where
  "ctx_shrinks g g' \<longleftrightarrow> owned g' = owned g \<and> g_root g' = g_root g \<and>
     (g_live g' \<longrightarrow> g_live g \<and> (\<exists>t. g' = g\<lparr>g_children := t\<rparr>) \<and> set (children g') \<subseteq> set (children g))"

fun obj_shrinks :: "cobj option \<Rightarrow> cobj option \<Rightarrow> bool" where
  "obj_shrinks None o' \<longleftrightarrow> o' = None"
| "obj_shrinks (Some (CtxObj g)) o' \<longleftrightarrow> (\<exists>g'. o' = Some (CtxObj g') \<and> ctx_shrinks g g')"
| "obj_shrinks (Some (ArenaObj n)) o' \<longleftrightarrow> o' = Some (ArenaObj n) \<or> o' = None"
| "obj_shrinks (Some ob) o' \<longleftrightarrow> o' = Some ob \<or> o' = Some (revoke_obj ob)"

definition shrinks :: "cheap \<Rightarrow> cheap \<Rightarrow> bool" where
  "shrinks H H' \<longleftrightarrow> (\<forall>a. obj_shrinks (H a) (H' a))"

text \<open>The sessions nested in a live session, itself included.\<close>

inductive desc :: "cheap \<Rightarrow> addr \<Rightarrow> addr \<Rightarrow> bool" for H where
  desc_self: "ctx_at H h = Some g \<Longrightarrow> g_live g \<Longrightarrow> desc H h h"
| desc_child: "desc H h x \<Longrightarrow> ctx_at H x = Some gx \<Longrightarrow> c \<in> set (children gx) \<Longrightarrow> desc H h c"

definition region :: "cheap \<Rightarrow> addr \<Rightarrow> addr \<Rightarrow> bool" where
  "region H h a \<longleftrightarrow>
     (\<exists>x gx. desc H h x \<and> ctx_at H x = Some gx \<and> (a = x \<or> a \<in> owned gx \<or> a = g_arena gx))"

lemma ctx_shrinks_refl [simp]: "ctx_shrinks g g"
  by (auto simp: ctx_shrinks_def intro: exI [of _ "g_children g"])

lemma ctx_shrinks_trans:
  assumes "ctx_shrinks g g'" and "ctx_shrinks g' g''"
  shows "ctx_shrinks g g''"
proof (cases "g_live g''")
  case True
  with assms(2) obtain t' where t': "g'' = g'\<lparr>g_children := t'\<rparr>" and l: "g_live g'"
    by (auto simp: ctx_shrinks_def)
  with assms(1) obtain t where "g' = g\<lparr>g_children := t\<rparr>" by (auto simp: ctx_shrinks_def)
  with t' have "g'' = g\<lparr>g_children := t'\<rparr>" by simp
  then have "\<exists>t. g'' = g\<lparr>g_children := t\<rparr>" by blast
  moreover have "owned g'' = owned g" "g_root g'' = g_root g"
    using assms by (simp_all add: ctx_shrinks_def)
  moreover have "g_live g" "set (children g') \<subseteq> set (children g)"
    using assms(1) l unfolding ctx_shrinks_def by blast+
  moreover have "set (children g'') \<subseteq> set (children g')"
    using assms(2) True unfolding ctx_shrinks_def by blast
  ultimately show ?thesis unfolding ctx_shrinks_def by blast
next
  case False
  with assms show ?thesis by (simp add: ctx_shrinks_def)
qed

lemma obj_shrinks_refl: "obj_shrinks ob ob"
  by (cases "(ob, ob)" rule: obj_shrinks.cases) auto

lemma obj_shrinks_trans:
  assumes "obj_shrinks x y" and "obj_shrinks y z"
  shows "obj_shrinks x z"
proof (cases x)
  case (Some ob)
  show ?thesis
  proof (cases "\<exists>g. ob = CtxObj g")
    case True
    with Some assms(1) obtain g g' where x: "x = Some (CtxObj g)" and y: "y = Some (CtxObj g')"
      and g: "ctx_shrinks g g'" by auto
    from y assms(2) obtain g'' where "z = Some (CtxObj g'')" "ctx_shrinks g' g''" by auto
    then show ?thesis using x ctx_shrinks_trans [OF g] by simp
  next
    case False
    with Some assms show ?thesis by (cases ob) auto
  qed
qed (use assms in auto)

lemma shrinks_refl: "shrinks H H"
  by (simp add: shrinks_def obj_shrinks_refl)

lemma shrinks_trans: "shrinks H H' \<Longrightarrow> shrinks H' H'' \<Longrightarrow> shrinks H H''"
  unfolding shrinks_def by (blast intro: obj_shrinks_trans)

lemma shrinks_ctx:
  assumes "shrinks H H'"
  shows "ctx_at H' x = Some g' \<Longrightarrow> \<exists>g. ctx_at H x = Some g \<and> ctx_shrinks g g'"
    and "ctx_at H x = Some g \<Longrightarrow> \<exists>g'. ctx_at H' x = Some g' \<and> ctx_shrinks g g'"
proof -
  have s: "obj_shrinks (H x) (H' x)" using assms by (simp add: shrinks_def)
  show "\<exists>g'. ctx_at H' x = Some g' \<and> ctx_shrinks g g'" if "ctx_at H x = Some g"
    using s that by (auto simp: at_iff)
  show "\<exists>g. ctx_at H x = Some g \<and> ctx_shrinks g g'" if "ctx_at H' x = Some g'"
    using s that by (cases "(H x, H' x)" rule: obj_shrinks.cases) (auto simp: at_iff)
qed

lemma desc_live: "wf_r r H \<Longrightarrow> desc H h x \<Longrightarrow> \<exists>g. ctx_at H x = Some g \<and> g_live g"
  by (rotate_tac 1, induction rule: desc.induct) (auto dest: wf_downD)

lemma desc_trans: "desc H c x \<Longrightarrow> desc H h c \<Longrightarrow> desc H h x"
  by (induction rule: desc.induct) (auto intro: desc.intros)

lemma desc_mono:
  assumes "desc H' h x" and "shrinks H H'" and "wf_r r H'"
  shows "desc H h x"
  using assms(1)
proof (induction rule: desc.induct)
  case (desc_self h g)
  then show ?case
    using shrinks_ctx(1) [OF assms(2)] by (metis ctx_shrinks_def desc.desc_self)
next
  case (desc_child h x gx c)
  from shrinks_ctx(1) [OF assms(2) desc_child.hyps(2)] obtain g
    where g: "ctx_at H x = Some g" "ctx_shrinks g gx" by blast
  have "g_live gx" using desc_child.hyps(2,3) wf_deadD [OF assms(3)] by force
  then have "c \<in> set (children g)" using g(2) desc_child.hyps(3) by (auto simp: ctx_shrinks_def)
  then show ?case using desc.desc_child [OF desc_child.IH g(1)] by blast
qed

lemma region_mono:
  assumes "region H' h a" and "shrinks H H'" and "wf_r r H'"
  shows "region H h a"
proof -
  from assms(1) obtain x gx where x: "desc H' h x" "ctx_at H' x = Some gx"
    and a: "a = x \<or> a \<in> owned gx \<or> a = g_arena gx" by (auto simp: region_def)
  from desc_live [OF assms(3) x(1)] x(2) have "g_live gx" by simp
  with shrinks_ctx(1) [OF assms(2) x(2)] obtain g t
    where "ctx_at H x = Some g" "owned gx = owned g" "gx = g\<lparr>g_children := t\<rparr>"
    by (auto simp: ctx_shrinks_def)
  with a desc_mono [OF x(1) assms(2,3)] show ?thesis by (auto simp: region_def)
qed

lemma region_trans: "desc H h c \<Longrightarrow> region H c a \<Longrightarrow> region H h a"
  by (auto simp: region_def intro: desc_trans)

section \<open>One teardown\<close>

lemma torn_at:
  assumes wf: "wf_r r H" and g: "ctx_at H h = Some g" and live: "g_live g"
  shows "torn h g H h = Some (CtxObj (dead_ctx g))"
    and "a \<noteq> h \<Longrightarrow> torn h g H a =
      (if a = g_arena g then None
       else if a \<in> owned g then map_option revoke_obj (H a)
       else if a = g_parent g then map_option (\<lambda>gp. CtxObj (drop_child h gp)) (ctx_at H a)
       else H a)"
proof -
  show "torn h g H h = Some (CtxObj (dead_ctx g))" by (simp add: torn_def released_def)
  have own: "b \<in> owned g \<Longrightarrow> b \<noteq> h \<and> ctx_at H b = None" for b
    using owned_not_ctx [OF wf_tabsD [OF wf g]] g by auto
  have z: "ctx_at H 0 = None" "H 0 = None" using wf_zeroD [OF wf] by (auto simp: ctx_at_def)
  assume a: "a \<noteq> h"
  show "torn h g H a =
      (if a = g_arena g then None
       else if a \<in> owned g then map_option revoke_obj (H a)
       else if a = g_parent g then map_option (\<lambda>gp. CtxObj (drop_child h gp)) (ctx_at H a)
       else H a)"
  proof (cases "g_parent g = 0")
    case True
    then show ?thesis using a own z by (auto simp: torn_def released_def unlinked_def revoke_set_def)
  next
    case False
    from wf_upD [OF wf g False] obtain gp where gp: "ctx_at H (g_parent g) = Some gp" by blast
    then show ?thesis
      using a own [of a] by (auto simp: torn_def released_def unlinked_def revoke_set_def)
  qed
qed

lemma ctx_at_torn:
  assumes wf: "wf_r r H" and g: "ctx_at H h = Some g" and live: "g_live g"
    and x: "x \<noteq> h" and gx: "ctx_at H x = Some gx"
  shows "ctx_at (torn h g H) x = Some (drop_child h gx)"
proof -
  have "x \<notin> owned g" using owned_not_ctx [OF wf_tabsD [OF wf g]] gx by auto
  moreover have "x \<noteq> g_arena g"
    using wf_arenaD [OF wf g live] gx by (auto simp: arena_ok_def at_iff)
  moreover have "drop_child h gx = gx" if "x \<noteq> g_parent g"
    using that wf_downD [OF wf gx, of h] g drop_child_children(4) [OF wf_tabsD [OF wf gx]] by fastforce
  ultimately show ?thesis
    using x gx torn_at(2) [OF wf g live x] by (auto simp: at_iff)
qed

lemma ctx_shrinks_drop: "tabs_ok H gp \<Longrightarrow> ctx_shrinks gp (drop_child h gp)"
proof -
  assume "tabs_ok H gp"
  then have "set (children (drop_child h gp)) \<subseteq> set (children gp)"
    by (auto simp: drop_child_children(2))
  moreover have "\<exists>t. drop_child h gp = gp\<lparr>g_children := t\<rparr>" by (auto simp: drop_child_def)
  ultimately show ?thesis by (simp add: ctx_shrinks_def)
qed

lemma shrinks_torn:
  assumes wf: "wf_r r H" and g: "ctx_at H h = Some g" and live: "g_live g"
  shows "shrinks H (torn h g H)"
  unfolding shrinks_def
proof
  fix a
  show "obj_shrinks (H a) (torn h g H a)"
  proof (cases "ctx_at H a")
    case (Some gx)
    have "ctx_at (torn h g H) a = Some (if a = h then dead_ctx g else drop_child h gx)"
      using ctx_at_torn [OF wf g live _ Some] torn_at(1) [OF wf g live] by (auto simp: at_iff)
    moreover have "ctx_shrinks gx (if a = h then dead_ctx g else drop_child h gx)"
      using Some g ctx_shrinks_drop [OF wf_tabsD [OF wf Some]] by (auto simp: ctx_shrinks_def)
    ultimately show ?thesis using Some by (auto simp: at_iff)
  next
    case None
    then have "a \<noteq> h" using g by auto
    note t = torn_at(2) [OF wf g live this]
    have "H (g_arena g) = Some (ArenaObj (g_arena_size g))"
      using wf_arenaD [OF wf g live] by (simp add: arena_ok_def)
    moreover have "H a = None" if "a = g_parent g"
      using that None wf_upD [OF wf g] wf_zeroD [OF wf] by fastforce
    moreover have "obj_shrinks (H a) (map_option revoke_obj (H a))"
      using None by (cases "(H a, H a)" rule: obj_shrinks.cases) (auto simp: at_defs)
    ultimately show ?thesis using t None obj_shrinks_refl [of "H a"] by auto
  qed
qed

lemma torn_region:
  assumes wf: "wf_r r H" and g: "ctx_at H h = Some g" and live: "g_live g"
    and a: "torn h g H a \<noteq> H a"
  shows "a = g_parent g \<or> region H h a"
proof (cases "a = h")
  case True
  with g live show ?thesis by (auto simp: region_def intro: desc_self)
next
  case False
  with a torn_at(2) [OF wf g live False] have "a = g_parent g \<or> a \<in> owned g \<or> a = g_arena g"
    by (auto split: if_splits)
  with desc_self [OF g live] g show ?thesis by (auto simp: region_def)
qed

section \<open>The recursion returns\<close>

lemma loop_EndGuest:
  "h \<noteq> 0 \<Longrightarrow> ctx_at (heap s) h = Some g \<Longrightarrow> g_live g \<Longrightarrow>
   guest_end_loop (EndGuest h) s = do { s \<leftarrow> guest_end_loop (EndChildren h) s; guest_teardown h s }"
  "h \<noteq> 0 \<Longrightarrow> ctx_at (heap s) h = Some g \<Longrightarrow> \<not> g_live g \<Longrightarrow> guest_end_loop (EndGuest h) s = Some s"
  "guest_end_loop (EndGuest 0) s = Some s"
  by (simp_all add: guest_end_loop.simps [of "EndGuest h"] guest_end_loop.simps [of "EndGuest 0"])

lemma loop_EndChildren_none:
  "ctx_at (heap s) h = Some g \<Longrightarrow> ct_n (g_children g) = 0 \<Longrightarrow>
   guest_end_loop (EndChildren h) s = Some s"
  by (simp add: guest_end_loop.simps [of "EndChildren h"])

lemma loop_EndChildren_some:
  "ctx_at (heap s) h = Some g \<Longrightarrow> ct_n (g_children g) > 0 \<Longrightarrow>
   ct_arr (g_children g) = c # cs \<Longrightarrow> c \<noteq> 0 \<Longrightarrow>
   guest_end_loop (EndChildren h) s =
     do { s \<leftarrow> guest_end_loop (EndGuest c) s; guest_end_loop (EndChildren h) s }"
  by (subst guest_end_loop.simps) (simp add: array_simps)

definition end_post :: "(addr \<Rightarrow> nat) \<Rightarrow> addr \<Rightarrow> FxGuestCtx \<Rightarrow> cheap \<Rightarrow> cheap \<Rightarrow> bool" where
  "end_post r h g H H' \<longleftrightarrow> wf_r r H' \<and> shrinks H H' \<and>
     (\<exists>g'. ctx_at H' h = Some g' \<and> \<not> g_live g') \<and>
     (\<forall>x gx. ctx_at H x = Some gx \<longrightarrow> x \<noteq> h \<longrightarrow> r h \<le> r x \<longrightarrow> ctx_at H' x = Some (drop_child h gx)) \<and>
     (\<forall>a. H' a \<noteq> H a \<longrightarrow> a = g_parent g \<or> region H h a)"

definition kids_post :: "(addr \<Rightarrow> nat) \<Rightarrow> addr \<Rightarrow> FxGuestCtx \<Rightarrow> cheap \<Rightarrow> cheap \<Rightarrow> bool" where
  "kids_post r h g H H' \<longleftrightarrow> wf_r r H' \<and> shrinks H H' \<and>
     (\<exists>t. ctx_at H' h = Some (g\<lparr>g_children := t\<rparr>) \<and> tab_items t = []) \<and>
     (\<forall>x gx. ctx_at H x = Some gx \<longrightarrow> x \<noteq> h \<longrightarrow> r h \<le> r x \<longrightarrow> ctx_at H' x = Some gx) \<and>
     (\<forall>a. H' a \<noteq> H a \<longrightarrow> region H h a)"

lemma drop_other:
  assumes "wf_r r H" and "ctx_at H x = Some gx" and "ctx_at H c = Some gc" and "g_parent gc \<noteq> x"
  shows "drop_child c gx = gx"
  using wf_downD [OF assms(1,2), of c] assms(3,4)
    drop_child_children(4) [OF wf_tabsD [OF assms(1,2)]] by fastforce

lemma kids_loop:
  assumes IH: "\<And>c gc H s. r c < r h \<Longrightarrow> wf_r r H \<Longrightarrow> ctx_at H c = Some gc \<Longrightarrow> g_live gc \<Longrightarrow>
      \<exists>H'. guest_end_loop (EndGuest c) (set_heap H s) = Some (set_heap H' (clear_last_text s))
        \<and> end_post r c gc H H'"
    and "wf_r r H" and "ctx_at H h = Some g" and "g_live g"
  shows "\<exists>H' s'. guest_end_loop (EndChildren h) (set_heap H s) = Some (set_heap H' s')
      \<and> clear_last_text s' = clear_last_text s \<and> kids_post r h g H H'"
  using assms(2-4)
proof (induction "ct_n (g_children g)" arbitrary: g H s)
  case 0
  then have "guest_end_loop (EndChildren h) (set_heap H s) = Some (set_heap H s)"
    by (simp add: loop_EndChildren_none)
  moreover have "kids_post r h g H H"
    using 0 by (auto simp: kids_post_def shrinks_refl tab_items_def intro!: exI [of _ "g_children g"])
  ultimately show ?case by blast
next
  case (Suc n)
  note wf = Suc.prems(1) and g = Suc.prems(2) and live = Suc.prems(3)
  have tabs: "tabs_ok H g" by (rule wf_tabsD [OF wf g])
  then have n: "0 < ct_n (g_children g)" "ct_n (g_children g) \<le> length (ct_arr (g_children g))"
    using Suc.hyps(2) by (auto simp: tabs_ok_def tab_ok_def)
  then obtain c cs where arr: "ct_arr (g_children g) = c # cs"
    by (cases "ct_arr (g_children g)") auto
  with n have c_in: "c \<in> set (children g)" by (simp add: children_def tab_items_def take_Cons')
  from wf_downD [OF wf g c_in] obtain gc
    where gc: "ctx_at H c = Some gc" "g_live gc" "g_parent gc = h" "r c < r h" by blast
  have c0: "c \<noteq> 0" using at_nonzero(1) [OF wf gc(1)] .
  from IH [OF gc(4) wf gc(1,2), of s] obtain H1
    where run1: "guest_end_loop (EndGuest c) (set_heap H s) = Some (set_heap H1 (clear_last_text s))"
      and post1: "end_post r c gc H H1" by blast
  let ?g1 = "drop_child c g"
  have wf1: "wf_r r H1" and sh1: "shrinks H H1" using post1 by (auto simp: end_post_def)
  have "h \<noteq> c" using gc(4) by auto
  then have g1: "ctx_at H1 h = Some ?g1" using post1 g gc(4) by (auto simp: end_post_def)
  have "n = ct_n (g_children ?g1)" using drop_child_children(3) [OF tabs c_in] Suc.hyps(2) by simp
  from Suc.hyps(1) [OF this wf1 g1, of "clear_last_text s"] live obtain H2 s'
    where run2: "guest_end_loop (EndChildren h) (set_heap H1 (clear_last_text s)) = Some (set_heap H2 s')"
      and clr: "clear_last_text s' = clear_last_text s" and post2: "kids_post r h ?g1 H1 H2"
    by (auto simp: clear_last_text_def)
  have "guest_end_loop (EndChildren h) (set_heap H s) = Some (set_heap H2 s')"
    using run1 run2 g n arr c0 by (simp add: loop_EndChildren_some)
  moreover have "kids_post r h g H H2"
    unfolding kids_post_def
  proof (intro conjI allI impI)
    show "wf_r r H2" "shrinks H H2"
      using post2 sh1 by (auto simp: kids_post_def intro: shrinks_trans)
    show "\<exists>t. ctx_at H2 h = Some (g\<lparr>g_children := t\<rparr>) \<and> tab_items t = []"
      using post2 by (auto simp: kids_post_def drop_child_def)
    fix x gx assume x: "ctx_at H x = Some gx" "x \<noteq> h" "r h \<le> r x"
    then have "x \<noteq> c" "r c \<le> r x" using gc(4) by auto
    with x post1 have "ctx_at H1 x = Some (drop_child c gx)" by (auto simp: end_post_def)
    moreover have "drop_child c gx = gx" using drop_other [OF wf x(1) gc(1)] gc(3) x(2) by auto
    ultimately show "ctx_at H2 x = Some gx" using post2 x by (auto simp: kids_post_def)
  next
    fix a assume a: "H2 a \<noteq> H a"
    have dc: "desc H h c" using desc_child [OF desc_self [OF g live] g c_in] .
    show "region H h a"
    proof (cases "H1 a = H a")
      case True
      with a post2 have "region H1 h a" by (auto simp: kids_post_def)
      then show ?thesis by (rule region_mono [OF _ sh1 wf1])
    next
      case False
      with post1 gc(3) have "a = h \<or> region H c a" by (auto simp: end_post_def)
      then show ?thesis
        using region_trans [OF dc] desc_self [OF g live] g by (auto simp: region_def)
    qed
  qed
  ultimately show ?case using clr by blast
qed

lemma end_live:
  assumes "wf_r r H" and "ctx_at H h = Some g" and "g_live g"
  shows "\<exists>H'. guest_end_loop (EndGuest h) (set_heap H s) = Some (set_heap H' (clear_last_text s))
      \<and> end_post r h g H H'"
  using assms
proof (induction "r h" arbitrary: h g H s rule: less_induct)
  case less
  note wf = less.prems(1) and g = less.prems(2) and live = less.prems(3)
  have "\<exists>H' s'. guest_end_loop (EndChildren h) (set_heap H s) = Some (set_heap H' s')
      \<and> clear_last_text s' = clear_last_text s \<and> kids_post r h g H H'"
    using less.hyps by (intro kids_loop wf g live) blast
  then obtain H1 s' t
    where run1: "guest_end_loop (EndChildren h) (set_heap H s) = Some (set_heap H1 s')"
      and clr: "clear_last_text s' = clear_last_text s" and post1: "kids_post r h g H H1"
      and t: "ctx_at H1 h = Some (g\<lparr>g_children := t\<rparr>)" "tab_items t = []"
    by (auto simp: kids_post_def)
  let ?g = "g\<lparr>g_children := t\<rparr>" and ?H = "torn h (g\<lparr>g_children := t\<rparr>) H1"
  have wf1: "wf_r r H1" and sh1: "shrinks H H1" using post1 by (auto simp: kids_post_def)
  have live1: "g_live ?g" using live by simp
  have "guest_end_loop (EndGuest h) (set_heap H s) = Some (set_heap ?H (clear_last_text s))"
    using run1 g live at_nonzero(1) [OF wf g] teardown_code [OF wf1 t(1) live1, of s'] clr
    by (simp add: loop_EndGuest)
  moreover have "end_post r h g H ?H"
    unfolding end_post_def
  proof (intro conjI allI impI)
    show "wf_r r ?H" by (rule wf_torn [OF wf1 t(1) live1]) (simp add: children_def t(2))
    show "shrinks H ?H" by (rule shrinks_trans [OF sh1 shrinks_torn [OF wf1 t(1) live1]])
    show "\<exists>g'. ctx_at ?H h = Some g' \<and> \<not> g_live g'"
      using torn_at(1) [OF wf1 t(1) live1] by (auto simp: at_iff)
    fix x gx assume x: "ctx_at H x = Some gx" "x \<noteq> h" "r h \<le> r x"
    then have "ctx_at H1 x = Some gx" using post1 by (auto simp: kids_post_def)
    then show "ctx_at ?H x = Some (drop_child h gx)" by (rule ctx_at_torn [OF wf1 t(1) live1 x(2)])
  next
    fix a assume a: "?H a \<noteq> H a"
    show "a = g_parent g \<or> region H h a"
    proof (cases "H1 a = H a")
      case True
      with a torn_region [OF wf1 t(1) live1] have "a = g_parent g \<or> region H1 h a" by auto
      then show ?thesis using region_mono [OF _ sh1 wf1] by blast
    next
      case False
      then show ?thesis using post1 by (auto simp: kids_post_def)
    qed
  qed
  ultimately show ?case by blast
qed

end
