(* ===== verification/GuestOps.thy ===== *)
theory GuestOps
  imports GuestForest
begin

text \<open>
  Every operation of the guest runtime on a good memory: it returns without undefined
  behaviour, the memory is good again, and it has evolved only in the ways a holder of old
  handles may rely on (contexts and capabilities keep their identity, nothing dead comes
  back to life, budgets only go down).
\<close>

section \<open>Good memories and their evolution\<close>

fun obj_str_ok :: "cobj \<Rightarrow> bool" where
  "obj_str_ok (FsObj c) \<longleftrightarrow> cstr (fs_root c) \<and> length (fs_root c) < FX_ROOT_SIZE"
| "obj_str_ok (OutObj c) \<longleftrightarrow> cstr (out_root c) \<and> length (out_root c) < FX_ROOT_SIZE"
| "obj_str_ok (NetObj c) \<longleftrightarrow> cstr (net_host c) \<and> length (net_host c) < FX_NET_HOST_SIZE"
| "obj_str_ok (CtxObj g) \<longleftrightarrow> cstr (g_root g) \<and> length (g_root g) < FX_ROOT_SIZE"
| "obj_str_ok _ \<longleftrightarrow> True"

definition strings_ok :: "cheap \<Rightarrow> bool" where
  "strings_ok H \<longleftrightarrow> (\<forall>a ob. H a = Some ob \<longrightarrow> obj_str_ok ob)"

definition good :: "cheap \<Rightarrow> bool" where
  "good H \<longleftrightarrow> wf H \<and> strings_ok H"

definition ctx_evolves :: "FxGuestCtx \<Rightarrow> FxGuestCtx \<Rightarrow> bool" where
  "ctx_evolves g g' \<longleftrightarrow> g_root g' = g_root g \<and> owned g \<subseteq> owned g' \<and>
     (g_live g' \<longrightarrow> g_live g \<and> g_parent g' = g_parent g \<and> g_arena g' = g_arena g \<and>
        g_arena_size g' = g_arena_size g \<and> unat (g_arena_used g) \<le> unat (g_arena_used g'))"

fun obj_evolves :: "cobj option \<Rightarrow> cobj option \<Rightarrow> bool" where
  "obj_evolves None o' \<longleftrightarrow> True"
| "obj_evolves (Some (CtxObj g)) o' \<longleftrightarrow> (\<exists>g'. o' = Some (CtxObj g') \<and> ctx_evolves g g')"
| "obj_evolves (Some (ArenaObj n)) o' \<longleftrightarrow> True"
| "obj_evolves (Some (FsObj c)) o' \<longleftrightarrow>
     (\<exists>c'. o' = Some (FsObj c') \<and> fs_root c' = fs_root c \<and> (fs_live c' \<longrightarrow> fs_live c))"
| "obj_evolves (Some (OutObj c)) o' \<longleftrightarrow>
     (\<exists>c'. o' = Some (OutObj c') \<and> out_root c' = out_root c \<and> (out_live c' \<longrightarrow> out_live c))"
| "obj_evolves (Some (AllocObj c)) o' \<longleftrightarrow>
     (\<exists>c'. o' = Some (AllocObj c') \<and>
        (al_live c' \<longrightarrow> al_live c \<and> al_ctx c' = al_ctx c \<and> sint (al_budget c') \<le> sint (al_budget c)))"
| "obj_evolves (Some (FuelObj c)) o' \<longleftrightarrow>
     (\<exists>c'. o' = Some (FuelObj c') \<and>
        (fu_live c' \<longrightarrow> fu_live c \<and> fu_ctx c' = fu_ctx c \<and> sint (fu_units c') \<le> sint (fu_units c)))"
| "obj_evolves (Some (NetObj c)) o' \<longleftrightarrow>
     (\<exists>c'. o' = Some (NetObj c') \<and> net_host c' = net_host c \<and> net_port_min c' = net_port_min c \<and>
        net_port_max c' = net_port_max c \<and> (net_live c' \<longrightarrow> net_live c))"

definition evolves :: "cheap \<Rightarrow> cheap \<Rightarrow> bool" where
  "evolves H H' \<longleftrightarrow> (\<forall>a. obj_evolves (H a) (H' a))"

lemma ctx_evolves_refl [simp]: "ctx_evolves g g"
  by (simp add: ctx_evolves_def)

lemma ctx_evolves_trans: "ctx_evolves g g' \<Longrightarrow> ctx_evolves g' g'' \<Longrightarrow> ctx_evolves g g''"
  unfolding ctx_evolves_def by (metis order_trans)

lemma obj_evolves_refl [simp]: "obj_evolves ob ob"
  by (cases "(ob, ob)" rule: obj_evolves.cases) auto

lemma obj_evolves_trans:
  assumes "obj_evolves x y" and "obj_evolves y z"
  shows "obj_evolves x z"
proof (cases x)
  case (Some ob)
  show ?thesis
  proof (cases "\<exists>g. ob = CtxObj g")
    case True
    with Some assms(1) obtain g g' where x: "x = Some (CtxObj g)" and y: "y = Some (CtxObj g')"
      and g: "ctx_evolves g g'" by auto
    from y assms(2) obtain g'' where "z = Some (CtxObj g'')" "ctx_evolves g' g''" by auto
    then show ?thesis using x ctx_evolves_trans [OF g] by simp
  next
    case False
    with Some assms show ?thesis by (cases ob) auto
  qed
qed simp

lemma evolves_refl [simp]: "evolves H H"
  by (simp add: evolves_def)

lemma evolves_trans: "evolves H H' \<Longrightarrow> evolves H' H'' \<Longrightarrow> evolves H H''"
  unfolding evolves_def by (blast intro: obj_evolves_trans)

lemma evolves_upd: "obj_evolves (H a) (Some ob) \<Longrightarrow> evolves H (H(a \<mapsto> ob))"
  by (simp add: evolves_def)

lemma evolves_shrinks: "shrinks H H' \<Longrightarrow> evolves H H'"
proof -
  have "obj_evolves x y" if "obj_shrinks x y" for x y
  proof (cases x)
    case (Some ob)
    with that show ?thesis by (cases ob) (auto simp: ctx_shrinks_def ctx_evolves_def)
  qed simp
  then show "shrinks H H' \<Longrightarrow> evolves H H'" by (simp add: shrinks_def evolves_def)
qed

lemma strings_ok_upd: "strings_ok H \<Longrightarrow> obj_str_ok ob \<Longrightarrow> strings_ok (H(a \<mapsto> ob))"
  by (simp add: strings_ok_def)

lemma strings_ok_shrinks: "strings_ok H \<Longrightarrow> shrinks H H' \<Longrightarrow> strings_ok H'"
proof -
  have "obj_str_ok ob'" if "obj_shrinks (Some ob) (Some ob')" "obj_str_ok ob" for ob ob'
    using that by (cases ob) (auto simp: ctx_shrinks_def)
  then show "strings_ok H \<Longrightarrow> shrinks H H' \<Longrightarrow> strings_ok H'"
    unfolding strings_ok_def shrinks_def by (metis not_None_eq obj_shrinks.simps(1))
qed

section \<open>Building blocks: new objects, new table entries, new edges\<close>

lemma extends_fresh:
  assumes "H a = None" and "a \<noteq> 0" and "H 0 = None" and "\<And>g. ob \<noteq> CtxObj g"
    and "\<And>c. ob = AllocObj c \<Longrightarrow> \<not> al_live c"
  shows "extends H (H(a \<mapsto> ob))"
proof -
  have "ctx_at (H(a \<mapsto> ob)) = ctx_at H"
    using assms(1,4) by (auto simp: ctx_at_def fun_eq_iff split: option.splits cobj.splits)
  then show ?thesis
    using assms by (auto simp: extends_def at_defs cap_live_def split: option.splits cobj.splits)
qed

lemma wf_push:
  assumes wf: "wf_r r H" and g: "ctx_at H h = Some g" and live: "g_live g"
    and a: "H a = None" "a \<noteq> 0" and ob: "\<And>g. ob \<noteq> CtxObj g" "\<And>c. ob = AllocObj c \<Longrightarrow> \<not> al_live c"
    and same: "g_parent g' = g_parent g" "g_children g' = g_children g" "g_live g' = g_live g"
      "g_arena g' = g_arena g" "g_arena_size g' = g_arena_size g" "g_arena_used g' = g_arena_used g"
    and own: "owned g' = insert a (owned g)" and tabs: "tabs_ok (H(a \<mapsto> ob)) g'"
    and allocs: "set (tab_items (g_alloc g)) \<subseteq> set (tab_items (g_alloc g'))"
  shows "wf_r r (H(a \<mapsto> ob, h \<mapsto> CtxObj g'))"
proof -
  have ext: "extends H (H(a \<mapsto> ob))" using extends_fresh [OF a wf_zeroD [OF wf] ob] .
  then have wf1: "wf_r r (H(a \<mapsto> ob))" by (rule wf_extends [OF wf])
  have ctx: "ctx_at (H(a \<mapsto> ob)) = ctx_at H" using ext by (simp add: extends_def)
  show ?thesis
  proof (rule wf_ctx_update [OF wf1 _ same(1-4) tabs])
    show "ctx_at (H(a \<mapsto> ob)) h = Some g" by (simp add: ctx g)
    show "arena_ok (H(a \<mapsto> ob)) g'"
      using wf_arenaD [OF wf g live] a by (auto simp: arena_ok_def same)
    fix x gx assume x: "x \<noteq> h" "ctx_at (H(a \<mapsto> ob)) x = Some gx"
    then have gx: "ctx_at H x = Some gx" by (simp add: ctx)
    have "owned g \<inter> owned gx = {}" using wf g gx x(1) unfolding wf_r_def wf_owned_def by blast
    moreover have "a \<notin> owned gx" using owned_used [OF wf_tabsD [OF wf gx]] a by blast
    ultimately show "owned g' \<inter> owned gx = {}" by (simp add: own)
  qed (use live allocs in auto)
qed

lemma wf_alloc_put:
  assumes wf: "wf_r r H" and a: "alloc_at H a = Some c0" and g: "ctx_at H (al_ctx c) = Some g"
    and live: "g_live g" and mem: "a \<in> set (tab_items (g_alloc g))"
  shows "wf_r r (H(a \<mapsto> AllocObj c))"
proof -
  let ?H = "H(a \<mapsto> AllocObj c)"
  have Ha: "H a = Some (AllocObj c0)" using a by (simp add: at_iff)
  then have at: "ctx_at ?H = ctx_at H" "fs_at ?H = fs_at H" "out_at ?H = out_at H"
    "fuel_at ?H = fuel_at H" "net_at ?H = net_at H" "alloc_at ?H = (alloc_at H)(a \<mapsto> c)"
    by (auto simp: at_defs fun_eq_iff)
  have "tabs_ok H gx \<Longrightarrow> tabs_ok ?H gx" for gx using a by (simp add: tabs_ok_def at)
  then have "wf_tabs ?H" using wf_tabsD [OF wf] by (simp add: wf_tabs_def at)
  moreover have "wf_arena ?H"
    using wf_arenaD [OF wf] Ha by (fastforce simp: wf_arena_def at arena_ok_def)
  moreover have "wf_alloc ?H" using wf_allocD [OF wf] g live mem by (auto simp: wf_alloc_def at)
  moreover have "wf_revoked ?H"
    unfolding wf_revoked_def at
  proof (intro allI impI ballI)
    fix x gx b assume x: "ctx_at H x = Some gx" "\<not> g_live gx" "b \<in> owned gx"
    have "a \<in> owned g" using mem by (simp add: owned_def)
    moreover have "x \<noteq> al_ctx c" using x g live by auto
    ultimately have "b \<noteq> a" using wf x g unfolding wf_r_def wf_owned_def by blast
    then show "\<not> cap_live ?H b" using wf_revokedD [OF wf x] by (simp add: cap_live_def)
  qed
  moreover have "wf_dead ?H" "wf_down r ?H" "wf_up ?H" "wf_arenas ?H" "wf_owned ?H" "?H 0 = None"
    using wf at_nonzero(4) [OF wf a]
    unfolding wf_r_def wf_dead_def wf_down_def wf_up_def wf_arenas_def wf_owned_def at by simp_all
  ultimately show ?thesis by (simp add: wf_r_def)
qed

text \<open>A new session: a context with empty tables and its arena, at two new addresses.\<close>

definition new_ctx :: "FxGuestCtx \<Rightarrow> bool" where
  "new_ctx g \<longleftrightarrow> g_parent g = 0 \<and> g_fs g = empty_tab FX_GUEST_MAX_CAPS \<and>
     g_out g = empty_tab FX_GUEST_MAX_CAPS \<and> g_alloc g = empty_tab FX_GUEST_MAX_CAPS \<and>
     g_fuel g = empty_tab FX_GUEST_MAX_CAPS \<and> g_net g = empty_tab FX_GUEST_MAX_CAPS \<and>
     g_children g = empty_tab FX_GUEST_MAX_CHILDREN"

lemma new_ctx_simps:
  assumes "new_ctx g"
  shows "tabs_ok H g" "owned g = {}" "children g = []" "g_parent g = 0"
  using assms by (auto simp: new_ctx_def tabs_ok_def owned_def children_def)

lemma wf_new:
  assumes wf: "wf_r r H" and h: "H h = None" "h \<noteq> 0" and ar: "H (g_arena g) = None" "g_arena g \<noteq> 0"
    and ne: "h \<noteq> g_arena g" and g: "new_ctx g"
    and arena: "arena_ok (H(h \<mapsto> CtxObj g, g_arena g \<mapsto> ArenaObj (g_arena_size g))) g"
  shows "wf_r r (H(h \<mapsto> CtxObj g, g_arena g \<mapsto> ArenaObj (g_arena_size g)))"
proof -
  let ?H = "H(h \<mapsto> CtxObj g, g_arena g \<mapsto> ArenaObj (g_arena_size g))"
  have at: "fs_at ?H = fs_at H" "out_at ?H = out_at H" "alloc_at ?H = alloc_at H"
    "fuel_at ?H = fuel_at H" "net_at ?H = net_at H" "ctx_at ?H = (ctx_at H)(h \<mapsto> g)"
    "cap_live ?H = cap_live H"
    using h ar ne by (auto simp: at_defs cap_live_def fun_eq_iff)
  note n = new_ctx_simps [OF g]
  have hc: "ctx_at H h = None" using h by (simp add: ctx_at_def)
  have old: "arena_ok ?H gx" "g_arena gx \<noteq> g_arena g" if "ctx_at H x = Some gx" "g_live gx" for x gx
    using wf_arenaD [OF wf that] h ar by (auto simp: arena_ok_def)
  have "wf_tabs ?H"
    using wf_tabsD [OF wf] n(1) by (simp add: wf_tabs_def tabs_ok_def at)
  moreover have "wf_arena ?H" using old(1) arena by (auto simp: wf_arena_def at)
  moreover have "wf_dead ?H" using wf_deadD [OF wf] n by (auto simp: wf_dead_def at)
  moreover have "wf_down r ?H" using wf_downD [OF wf] n hc by (fastforce simp: wf_down_def at)
  moreover have "wf_up ?H" using wf_upD [OF wf] n hc by (fastforce simp: wf_up_def at)
  moreover have "wf_arenas ?H"
    using wf old(2) unfolding wf_r_def wf_arenas_def at by (auto split: if_splits) metis+
  moreover have "wf_alloc ?H" using wf_allocD [OF wf] hc by (fastforce simp: wf_alloc_def at)
  moreover have "wf_owned ?H" using wf n unfolding wf_r_def wf_owned_def at by (auto split: if_splits)
  moreover have "wf_revoked ?H" using wf_revokedD [OF wf] n by (auto simp: wf_revoked_def at)
  moreover have "?H 0 = None" using wf_zeroD [OF wf] h ar by simp
  ultimately show ?thesis by (simp add: wf_r_def)
qed

text \<open>Ranks can be shifted to make room below every session for a new leaf.\<close>

lemma wf_lower:
  assumes wf: "wf_r r H" and h: "ctx_at H h = None"
  shows "wf_r (\<lambda>x. if x = h then 0 else r x + 1) H"
proof -
  have "wf_down (\<lambda>x. if x = h then 0 else r x + 1) H"
    using wf_downD [OF wf] h by (fastforce simp: wf_down_def)
  with wf show ?thesis by (simp add: wf_r_def)
qed

lemma link_down:
  assumes wf: "wf_r r H" and h: "ctx_at H h = Some g" "g_live g" "g_parent g = 0"
    and p: "ctx_at H p = Some gp" "g_live gp" and rank: "r h < r p"
    and t: "tab_ok FX_GUEST_MAX_CHILDREN t" "tab_items t = children gp @ [h]"
  defines "H' \<equiv> H(p \<mapsto> CtxObj (gp\<lparr>g_children := t\<rparr>), h \<mapsto> CtxObj (g\<lparr>g_parent := p\<rparr>))"
  shows "wf_down r H'"
  unfolding wf_down_def
proof (intro allI impI)
  have ne: "p \<noteq> h" using rank by auto
  have nchild: "h \<notin> set (children gx)" if "ctx_at H x = Some gx" for x gx
    using wf_downD [OF wf that, of h] h at_nonzero(1) [OF wf that] by auto
  have ctx: "ctx_at H' = (ctx_at H)(p \<mapsto> gp\<lparr>g_children := t\<rparr>, h \<mapsto> g\<lparr>g_parent := p\<rparr>)"
    by (auto simp: H'_def fun_eq_iff)
  fix x gx c assume x: "ctx_at H' x = Some gx" and c: "c \<in> set (children gx)"
  have new: "x = p \<and> c = h \<or> (\<exists>g0. ctx_at H x = Some g0 \<and> c \<in> set (children g0))"
    using x c h p t ne by (auto simp: ctx children_def split: if_splits)
  then show "\<exists>gc. ctx_at H' c = Some gc \<and> g_live gc \<and> g_parent gc = x \<and> r c < r x"
  proof
    assume "x = p \<and> c = h"
    then show ?thesis using h rank by (simp add: ctx)
  next
    assume "\<exists>g0. ctx_at H x = Some g0 \<and> c \<in> set (children g0)"
    then obtain g0 where g0: "ctx_at H x = Some g0" "c \<in> set (children g0)" by blast
    with nchild have "c \<noteq> h" by auto
    with wf_downD [OF wf g0] p show ?thesis by (auto simp: ctx)
  qed
qed

lemma link_up:
  assumes wf: "wf_r r H" and h: "ctx_at H h = Some g" "g_live g" "g_parent g = 0"
    and p: "ctx_at H p = Some gp" "g_live gp" and rank: "r h < r p"
    and t: "tab_ok FX_GUEST_MAX_CHILDREN t" "tab_items t = children gp @ [h]"
  defines "H' \<equiv> H(p \<mapsto> CtxObj (gp\<lparr>g_children := t\<rparr>), h \<mapsto> CtxObj (g\<lparr>g_parent := p\<rparr>))"
  shows "wf_up H'"
  unfolding wf_up_def
proof (intro allI impI)
  have ne: "p \<noteq> h" using rank by auto
  have ctx: "ctx_at H' = (ctx_at H)(p \<mapsto> gp\<lparr>g_children := t\<rparr>, h \<mapsto> g\<lparr>g_parent := p\<rparr>)"
    by (auto simp: H'_def fun_eq_iff)
  fix x gx assume x: "ctx_at H' x = Some gx" and px: "g_parent gx \<noteq> 0"
  show "\<exists>gp. ctx_at H' (g_parent gx) = Some gp \<and> g_live gp \<and> x \<in> set (children gp)"
  proof (cases "x = h")
    case True
    with x p t ne show ?thesis by (auto simp: ctx children_def)
  next
    case False
    with x p obtain g0 where g0: "ctx_at H x = Some g0" "g_parent g0 = g_parent gx"
      by (auto simp: ctx split: if_splits)
    with px wf_upD [OF wf g0(1)] obtain gq
      where "ctx_at H (g_parent gx) = Some gq" "g_live gq" "x \<in> set (children gq)" by auto
    then show ?thesis using h p t by (auto simp: ctx children_def)
  qed
qed

lemma wf_link:
  assumes wf: "wf_r r H" and h: "ctx_at H h = Some g" "g_live g" "g_parent g = 0"
    and p: "ctx_at H p = Some gp" "g_live gp" and rank: "r h < r p"
    and t: "tab_ok FX_GUEST_MAX_CHILDREN t" "tab_items t = children gp @ [h]"
  shows "wf_r r (H(p \<mapsto> CtxObj (gp\<lparr>g_children := t\<rparr>), h \<mapsto> CtxObj (g\<lparr>g_parent := p\<rparr>)))"
proof -
  let ?gp = "gp\<lparr>g_children := t\<rparr>" and ?g = "g\<lparr>g_parent := p\<rparr>"
  let ?H = "H(p \<mapsto> CtxObj ?gp, h \<mapsto> CtxObj ?g)"
  have ne: "p \<noteq> h" using rank by auto
  have p1: "ctx_at (H(p \<mapsto> CtxObj ?gp)) h = Some g" using h ne by simp
  note a1 = at_ctx_upd [OF p(1), of ?gp] and a2 = at_ctx_upd [OF p1, of ?g]
  have Hp: "H p = Some (CtxObj gp)" "H h = Some (CtxObj g)" using p h by (simp_all add: at_iff)
  have cl: "cap_live ?H = cap_live H" using Hp by (auto simp: cap_live_def fun_eq_iff)
  have ctx: "ctx_at ?H = (ctx_at H)(p \<mapsto> ?gp, h \<mapsto> ?g)" by (auto simp: fun_eq_iff)
  have p0: "p \<noteq> 0" using at_nonzero(1) [OF wf p(1)] .
  have nchild: "h \<notin> set (children gx)" if "ctx_at H x = Some gx" for x gx
    using wf_downD [OF wf that, of h] h at_nonzero(1) [OF wf that] by auto
  have tabs: "tabs_ok ?H = tabs_ok H" by (simp add: tabs_ok_def a1 a2 fun_eq_iff)
  have own: "owned ?gp = owned gp" "owned ?g = owned g" by (simp_all add: owned_def)
  have gpt: "tabs_ok H ?gp"
    using wf_tabsD [OF wf p(1)] t nchild [OF p(1)] by (simp add: tabs_ok_def children_def)
  have "wf_tabs ?H"
    using wf_tabsD [OF wf] h gpt by (auto simp: wf_tabs_def tabs ctx)
  moreover have "arena_ok ?H gx = arena_ok H gx" for gx using Hp by (auto simp: arena_ok_def)
  then have "wf_arena ?H"
    using wf_arenaD [OF wf] p h by (fastforce simp: wf_arena_def ctx arena_ok_def)
  moreover have "wf_dead ?H" using wf_deadD [OF wf] p h by (auto simp: wf_dead_def ctx)
  moreover note link_down [OF assms]
  moreover note link_up [OF assms]
  moreover have "wf_arenas ?H"
    using wf h p unfolding wf_r_def wf_arenas_def ctx by (auto split: if_splits)
  moreover have "wf_alloc ?H"
    using wf_allocD [OF wf] h p by (fastforce simp: wf_alloc_def a1 a2 ctx)
  moreover have "wf_owned ?H"
    using wf h p unfolding wf_r_def wf_owned_def ctx by (auto simp: own split: if_splits)
  moreover have "wf_revoked ?H"
    using wf_revokedD [OF wf] h p by (auto simp: wf_revoked_def ctx cl)
  moreover have "?H 0 = None" using wf_zeroD [OF wf] p0 at_nonzero(1) [OF wf h(1)] by simp
  ultimately show ?thesis by (simp add: wf_r_def)
qed

end
