(* ===== verification/GuestSteps.thy ===== *)
theory GuestSteps
  imports GuestOps
begin

text \<open>
  What the step lemmas of the operations of \<open>host/cap/fx_cap_runtime.c\<close> share. There is one
  per operation: from a good memory and a handle that is NULL or of the right type the
  operation returns, keeps the memory good, evolves it, and does what its branch says. Here:
  parts of a good memory, the two stand-alone mints, and pushing a fresh object into a table
  of a session (\<open>good_push\<close>).
\<close>

section \<open>Parts of a good memory\<close>

lemma good_wf: "good H \<Longrightarrow> \<exists>r. wf_r r H"
  by (simp add: good_def wf_def)

lemma good_strings: "good H \<Longrightarrow> strings_ok H"
  by (simp add: good_def)

lemma good_zero: "good H \<Longrightarrow> H 0 = None"
  using good_wf wf_zeroD by blast

lemma good_tabs: "good H \<Longrightarrow> ctx_at H h = Some g \<Longrightarrow> tabs_ok H g"
  using good_wf wf_tabsD by blast

lemma mint_root_Some:
  assumes "mint_root n root = Some r"
  shows "cstr r" "length r < n" "r \<noteq> []" "\<exists>s. root = Some s \<and> r = takeWhile (\<lambda>c. c \<noteq> NUL) s"
proof -
  from assms obtain s where s: "root = Some s" "chd s \<noteq> NUL" "strlen s < n" "r = take (strlen s) s"
    by (auto simp: mint_root_def split: option.splits if_splits)
  then have r: "r = takeWhile (\<lambda>c. c \<noteq> NUL) s" by (simp add: strlen_def flip: takeWhile_eq_take)
  then show "cstr r" unfolding cstr_def by (auto dest: set_takeWhileD)
  show "length r < n" using s r by (simp add: strlen_def)
  show "r \<noteq> []" using s(2) unfolding r by (cases s) auto
  show "\<exists>s. root = Some s \<and> r = takeWhile (\<lambda>c. c \<noteq> NUL) s" using s r by blast
qed

lemma strings_ok_ctx:
  "strings_ok H \<Longrightarrow> ctx_at H h = Some g \<Longrightarrow> cstr (g_root g) \<and> length (g_root g) < FX_ROOT_SIZE"
  by (fastforce simp: strings_ok_def at_iff)

lemma take_strlen: "take (strlen s) s = takeWhile (\<lambda>c. c \<noteq> NUL) s"
  by (simp add: strlen_def flip: takeWhile_eq_take)

lemma fscap_mint_cases:
  obtains (fail) s' where "fx_fscap_mint root s = Some (0, s')" "heap s' = heap s" "last_text s' = last_text s"
  | (ok) cap r s' where "fx_fscap_mint root s = Some (cap, s')" "cap \<noteq> 0" "heap s cap = None"
      "mint_root FX_ROOT_SIZE root = Some r" "last_text s' = last_text s"
      "heap s' = (heap s)(cap \<mapsto> FsObj \<lparr>fs_root = r, fs_live = True\<rparr>)"
proof -
  obtain cap s1 where c: "calloc (FsObj \<lparr>fs_root = [], fs_live = False\<rparr>) s = (cap, s1)"
    by (cases "calloc (FsObj \<lparr>fs_root = [], fs_live = False\<rparr>) s")
  from c show ?thesis
  proof (cases rule: callocE)
    case fail
    with c that(1) show ?thesis by (simp add: fx_fscap_mint_def)
  next
    case ok
    then have n: "cap \<noteq> 0" "heap s cap = None" by (auto simp: usable_def)
    show ?thesis
    proof (cases "mint_root FX_ROOT_SIZE root")
      case None
      with c ok n that(1) show ?thesis by (simp add: fx_fscap_mint_def c_free_def fun_upd_idem)
    next
      case (Some r)
      with c ok n that(2) show ?thesis by (simp add: fx_fscap_mint_def)
    qed
  qed
qed

lemma outcap_mint_cases:
  obtains (fail) s' where "fx_outcap_mint root s = Some (0, s')" "heap s' = heap s" "last_text s' = last_text s"
  | (ok) cap r s' where "fx_outcap_mint root s = Some (cap, s')" "cap \<noteq> 0" "heap s cap = None"
      "mint_root FX_ROOT_SIZE root = Some r" "last_text s' = last_text s"
      "heap s' = (heap s)(cap \<mapsto> OutObj \<lparr>out_root = r, out_live = True\<rparr>)"
proof -
  obtain cap s1 where c: "calloc (OutObj \<lparr>out_root = [], out_live = False\<rparr>) s = (cap, s1)"
    by (cases "calloc (OutObj \<lparr>out_root = [], out_live = False\<rparr>) s")
  from c show ?thesis
  proof (cases rule: callocE)
    case fail
    with c that(1) show ?thesis by (simp add: fx_outcap_mint_def)
  next
    case ok
    then have n: "cap \<noteq> 0" "heap s cap = None" by (auto simp: usable_def)
    show ?thesis
    proof (cases "mint_root FX_ROOT_SIZE root")
      case None
      with c ok n that(1) show ?thesis by (simp add: fx_outcap_mint_def c_free_def fun_upd_idem)
    next
      case (Some r)
      with c ok n that(2) show ?thesis by (simp add: fx_outcap_mint_def)
    qed
  qed
qed

lemma good_push:
  assumes good: "good H" and g: "ctx_at H h = Some g" and live: "g_live g"
    and a: "H a = None" "a \<noteq> 0" and ob: "\<And>g. ob \<noteq> CtxObj g" "\<And>c. ob = AllocObj c \<Longrightarrow> \<not> al_live c"
    and str: "obj_str_ok ob"
    and same: "g_parent g' = g_parent g" "g_children g' = g_children g" "g_live g' = g_live g"
      "g_arena g' = g_arena g" "g_arena_size g' = g_arena_size g" "g_arena_used g' = g_arena_used g"
      "g_root g' = g_root g"
    and own: "owned g' = insert a (owned g)"
    and tabs: "tabs_ok (H(a \<mapsto> ob)) g \<Longrightarrow> tabs_ok (H(a \<mapsto> ob)) g'"
    and allocs: "set (tab_items (g_alloc g)) \<subseteq> set (tab_items (g_alloc g'))"
  shows "good (H(a \<mapsto> ob, h \<mapsto> CtxObj g'))" and "evolves H (H(a \<mapsto> ob, h \<mapsto> CtxObj g'))"
proof -
  from good_wf [OF good] obtain r where wf: "wf_r r H" by blast
  have "tabs_ok (H(a \<mapsto> ob)) g"
    using tabs_ok_mono [OF extends_fresh [OF a wf_zeroD [OF wf] ob]] wf_tabsD [OF wf g] by blast
  from wf_push [OF wf g live a ob same(1-6) own tabs [OF this] allocs]
  have "wf (H(a \<mapsto> ob, h \<mapsto> CtxObj g'))" by (auto simp: wf_def)
  moreover have "strings_ok (H(a \<mapsto> ob, h \<mapsto> CtxObj g'))"
    using good_strings [OF good] strings_ok_ctx [OF good_strings [OF good] g] str same(7)
    by (intro strings_ok_upd) simp_all
  ultimately show "good (H(a \<mapsto> ob, h \<mapsto> CtxObj g'))" by (simp add: good_def)
  have "h \<noteq> a" using g a by (auto simp: at_iff)
  then show "evolves H (H(a \<mapsto> ob, h \<mapsto> CtxObj g'))"
    using g a same own by (auto simp: evolves_def at_iff ctx_evolves_def)
qed

lemma tabs_ok_append:
  assumes "tabs_ok H g" and "tab_ok FX_GUEST_MAX_CAPS t"
  shows "tab_items t = tab_items (g_fs g) @ [a] \<Longrightarrow> fs_at H a = Some fc \<Longrightarrow> tabs_ok H (g\<lparr>g_fs := t\<rparr>)"
    and "tab_items t = tab_items (g_out g) @ [a] \<Longrightarrow> out_at H a = Some oc \<Longrightarrow> tabs_ok H (g\<lparr>g_out := t\<rparr>)"
    and "tab_items t = tab_items (g_alloc g) @ [a] \<Longrightarrow> alloc_at H a = Some ac \<Longrightarrow> tabs_ok H (g\<lparr>g_alloc := t\<rparr>)"
    and "tab_items t = tab_items (g_fuel g) @ [a] \<Longrightarrow> fuel_at H a = Some uc \<Longrightarrow> tabs_ok H (g\<lparr>g_fuel := t\<rparr>)"
    and "tab_items t = tab_items (g_net g) @ [a] \<Longrightarrow> net_at H a = Some nc \<Longrightarrow> tabs_ok H (g\<lparr>g_net := t\<rparr>)"
  using assms by (simp_all add: tabs_ok_def children_def)

lemma ctx_at_fresh:
  "H a = None \<Longrightarrow> (\<And>g. ob \<noteq> CtxObj g) \<Longrightarrow> ctx_at (H(a \<mapsto> ob)) h = ctx_at H h"
  by (auto simp: ctx_at_def split: cobj.splits)

end
