(* ===== verification/GuestMints.thy ===== *)
theory GuestMints
  imports GuestSteps
begin

text \<open>
  The five mints of \<open>host/cap/fx_cap_runtime.c\<close> share one contract: a live session with room in
  the table of the kind, an admissible request, a fresh object, its handle pushed into the
  table. The contract is the locale \<open>minting\<close>, what a mint does is proved in it once, and each
  mint is an interpretation.
\<close>

section \<open>The contract\<close>

text \<open>
  \<open>admit\<close> is the test of the request, whose result is what \<open>make\<close> builds the object from;
  \<open>ob\<close> is that object, None where \<open>make\<close> refuses.
\<close>

locale minting =
  fixes mint :: "addr \<Rightarrow> cmem \<Rightarrow> (addr \<times> cmem) option"
    and tab :: "FxGuestCtx \<Rightarrow> captab" and set_tab :: "captab \<Rightarrow> FxGuestCtx \<Rightarrow> FxGuestCtx"
    and admit :: "FxGuestCtx \<Rightarrow> 'q option"
    and make :: "addr \<Rightarrow> 'q \<Rightarrow> cmem \<Rightarrow> (addr \<times> cmem) option"
    and ob :: "addr \<Rightarrow> 'q \<Rightarrow> cobj option"
  assumes null: "mint 0 s = Some (0, s)"
    and denied: "h \<noteq> 0 \<Longrightarrow> ctx_at (heap s) h = Some g \<Longrightarrow>
      \<not> (g_live g \<and> ct_n (tab g) < FX_GUEST_MAX_CAPS \<and> admit g \<noteq> None) \<Longrightarrow> mint h s = Some (0, s)"
    and granted: "h \<noteq> 0 \<Longrightarrow> ctx_at (heap s) h = Some g \<Longrightarrow> g_live g \<Longrightarrow> ct_n (tab g) < FX_GUEST_MAX_CAPS \<Longrightarrow>
      admit g = Some q \<Longrightarrow> mint h s = do {
        (cap, s) \<leftarrow> make h q s;
        if cap = 0 then Some (0, s)
        else do { g \<leftarrow> ctx_at (heap s) h; t \<leftarrow> tab_push cap (tab g); Some (cap, put h (CtxObj (set_tab t g)) s) } }"
    and made: "\<exists>cap s'. make h q s = Some (cap, s') \<and> last_text s' = last_text s \<and>
      (if cap = 0 then heap s' = heap s
       else heap s cap = None \<and> (\<exists>x. ob h q = Some x \<and> heap s' = (heap s)(cap \<mapsto> x)))"
    and object: "admit g = Some q \<Longrightarrow> ob h q = Some x \<Longrightarrow> obj_live x \<and> x \<noteq> ArenaObj n"
    and fields: "tab_items t = tab_items (tab g) @ [a] \<Longrightarrow> g_parent (set_tab t g) = g_parent g \<and>
      g_root (set_tab t g) = g_root g \<and> g_live (set_tab t g) = g_live g \<and> owned (set_tab t g) = insert a (owned g)"
    and table: "tabs_ok H g \<Longrightarrow> tab_ok FX_GUEST_MAX_CAPS (tab g)"
    and pushed: "good H \<Longrightarrow> ctx_at H h = Some g \<Longrightarrow> g_live g \<Longrightarrow> H a = None \<Longrightarrow> a \<noteq> 0 \<Longrightarrow>
      admit g = Some q \<Longrightarrow> ob h q = Some x \<Longrightarrow> tab_ok FX_GUEST_MAX_CAPS t \<Longrightarrow> tab_items t = tab_items (tab g) @ [a] \<Longrightarrow>
      good (H(a \<mapsto> x, h \<mapsto> CtxObj (set_tab t g))) \<and> evolves H (H(a \<mapsto> x, h \<mapsto> CtxObj (set_tab t g)))"
begin

lemma no_ctx: "admit g = Some q \<Longrightarrow> ob h q = Some x \<Longrightarrow> x \<noteq> CtxObj g'"
  using object by fastforce

lemma mint_step:
  assumes "good (heap s)" and "h = 0 \<or> ctx_at (heap s) h \<noteq> None"
  obtains (fail) s' where "mint h s = Some (0, s')" "heap s' = heap s" "last_text s' = last_text s"
  | (ok) g q x t cap s' where "mint h s = Some (cap, s')" "cap \<noteq> 0" "heap s cap = None"
      "ctx_at (heap s) h = Some g" "g_live g" "admit g = Some q" "ob h q = Some x"
      "tab_items t = tab_items (tab g) @ [cap]" "last_text s' = last_text s"
      "heap s' = (heap s)(cap \<mapsto> x, h \<mapsto> CtxObj (set_tab t g))" "good (heap s')" "evolves (heap s) (heap s')"
proof (cases "h = 0")
  case True
  then show ?thesis using fail [of s] null by simp
next
  case False
  then obtain g where g: "ctx_at (heap s) h = Some g" using assms(2) by auto
  show ?thesis
  proof (cases "g_live g \<and> ct_n (tab g) < FX_GUEST_MAX_CAPS \<and> admit g \<noteq> None")
    case no: False
    show ?thesis using fail [of s] denied [OF False g no] by simp
  next
    case True
    then obtain q where q: "g_live g" "ct_n (tab g) < FX_GUEST_MAX_CAPS" "admit g = Some q" by blast
    note run = granted [OF False g q]
    from made [of h q s] obtain cap s' where m: "make h q s = Some (cap, s')" "last_text s' = last_text s"
      "if cap = 0 then heap s' = heap s else heap s cap = None \<and> (\<exists>x. ob h q = Some x \<and> heap s' = (heap s)(cap \<mapsto> x))"
      by blast
    show ?thesis
    proof (cases "cap = 0")
      case True
      then show ?thesis using fail [of s'] run m by simp
    next
      case cap: False
      then obtain x where x: "heap s cap = None" "ob h q = Some x" "heap s' = (heap s)(cap \<mapsto> x)" using m(3) by auto
      obtain t where t: "tab_push cap (tab g) = Some t" "tab_ok FX_GUEST_MAX_CAPS t" "tab_items t = tab_items (tab g) @ [cap]"
        using tab_push_room [OF table [OF good_tabs [OF assms(1) g]] q(2), of cap] by blast
      have "ctx_at (heap s') h = Some g" using ctx_at_fresh [of "heap s" cap x h] x g no_ctx [OF q(3)] by simp
      then have "mint h s = Some (cap, put h (CtxObj (set_tab t g)) s')" using run m(1) cap t(1) by simp
      with pushed [OF assms(1) g q(1) x(1) cap q(3) x(2) t(2,3)] show ?thesis
        using ok [of cap "put h (CtxObj (set_tab t g)) s'" g q x t] cap x g q t(3) m(2) by simp
    qed
  qed
qed

end

section \<open>The five mints\<close>

text \<open>A fresh object that is zero first and then filled in.\<close>

definition fresh_obj :: "cobj \<Rightarrow> cobj \<Rightarrow> cmem \<Rightarrow> (addr \<times> cmem) option" where
  "fresh_obj z x s = (let (cap, s) = calloc z s in Some (cap, if cap = 0 then s else put cap x s))"

lemma fresh_obj_made:
  "\<exists>cap s'. fresh_obj z x s = Some (cap, s') \<and> last_text s' = last_text s \<and>
     (if cap = 0 then heap s' = heap s else heap s cap = None \<and> (\<exists>y. Some x = Some y \<and> heap s' = (heap s)(cap \<mapsto> y)))"
proof -
  obtain cap s1 where c: "calloc z s = (cap, s1)" by (cases "calloc z s")
  from c show ?thesis by (cases rule: callocE) (use c in \<open>auto simp: fresh_obj_def usable_def\<close>)
qed

lemma good_alloc_put:
  assumes good: "good H" and a: "alloc_at H a = Some c0" and g: "ctx_at H (al_ctx c) = Some g"
    and live: "g_live g" and mem: "a \<in> set (tab_items (g_alloc g))"
  shows "good (H(a \<mapsto> AllocObj c))"
proof -
  from good_wf [OF good] obtain r where "wf_r r H" by blast
  from wf_alloc_put [OF this a g live mem] have "wf (H(a \<mapsto> AllocObj c))" by (auto simp: wf_def)
  then show ?thesis using good_strings [OF good] by (simp add: good_def strings_ok_upd)
qed

lemma cstr_take_strlen: "cstr (take (strlen s) s)"
  unfolding take_strlen cstr_def by (auto dest: set_takeWhileD)

interpretation fs_mint: minting "\<lambda>h. fx_guest_mint_fscap h root" g_fs "\<lambda>t g. g\<lparr>g_fs := t\<rparr>"
  "\<lambda>g. mint_root_or_default g root" "\<lambda>h use. fx_fscap_mint (Some use)"
  "\<lambda>h use. map_option (\<lambda>r. FsObj \<lparr>fs_root = r, fs_live = True\<rparr>) (mint_root FX_ROOT_SIZE (Some use))" for root
proof (unfold_locales, goal_cases)
  case (4 h use s)
  show ?case by (cases rule: fscap_mint_cases [of "Some use" s]) auto
next
  case (8 H h g a q x t)
  then show ?case
    by (intro conjI good_push [OF 8(1,2,3,4,5)])
      (auto simp: owned_def fs_at_def dest: mint_root_Some intro!: tabs_ok_append(1) [where a = a])
qed (auto simp: fx_guest_mint_fscap_def tabs_ok_def owned_def split: option.splits cong: if_cong)

interpretation out_mint: minting "\<lambda>h. fx_guest_mint_outcap h root" g_out "\<lambda>t g. g\<lparr>g_out := t\<rparr>"
  "\<lambda>g. mint_root_or_default g root" "\<lambda>h use. fx_outcap_mint (Some use)"
  "\<lambda>h use. map_option (\<lambda>r. OutObj \<lparr>out_root = r, out_live = True\<rparr>) (mint_root FX_ROOT_SIZE (Some use))" for root
proof (unfold_locales, goal_cases)
  case (4 h use s)
  show ?case by (cases rule: outcap_mint_cases [of "Some use" s]) auto
next
  case (8 H h g a q x t)
  then show ?case
    by (intro conjI good_push [OF 8(1,2,3,4,5)])
      (auto simp: owned_def out_at_def dest: mint_root_Some intro!: tabs_ok_append(2) [where a = a])
qed (auto simp: fx_guest_mint_outcap_def tabs_ok_def owned_def split: option.splits cong: if_cong)

interpretation fuel_mint: minting "\<lambda>h. fx_guest_mint_fuelcap h units" g_fuel "\<lambda>t g. g\<lparr>g_fuel := t\<rparr>"
  "\<lambda>g. if 0 < sint units then Some units else None"
  "\<lambda>h units. fresh_obj (FuelObj \<lparr>fu_ctx = 0, fu_units = 0, fu_live = False\<rparr>)
     (FuelObj \<lparr>fu_ctx = h, fu_units = units, fu_live = True\<rparr>)"
  "\<lambda>h units. Some (FuelObj \<lparr>fu_ctx = h, fu_units = units, fu_live = True\<rparr>)" for units
proof (unfold_locales, goal_cases)
  case (4 h units s)
  show ?case by (rule fresh_obj_made)
next
  case (8 H h g a q x t)
  then show ?case
    by (intro conjI good_push [OF 8(1,2,3,4,5)])
      (auto simp: owned_def fuel_at_def intro!: tabs_ok_append(4) [where a = a])
qed (auto simp: fx_guest_mint_fuelcap_def fresh_obj_def tabs_ok_def owned_def split: prod.splits if_splits)

interpretation net_mint: minting "\<lambda>h. fx_guest_mint_netcap h allow_host port_min port_max" g_net
  "\<lambda>t g. g\<lparr>g_net := t\<rparr>"
  "\<lambda>g. case allow_host of None \<Rightarrow> None | Some host \<Rightarrow>
     if chd host \<noteq> NUL \<and> strlen host < FX_NET_HOST_SIZE \<and> 1 \<le> sint port_min \<and> sint port_min \<le> sint port_max \<and>
       sint port_max \<le> 65535 then Some host else None"
  "\<lambda>h host. fresh_obj (NetObj \<lparr>net_host = [], net_port_min = 0, net_port_max = 0, net_live = False\<rparr>)
     (NetObj \<lparr>net_host = take (strlen host) host, net_port_min = port_min, net_port_max = port_max, net_live = True\<rparr>)"
  "\<lambda>h host. Some (NetObj \<lparr>net_host = take (strlen host) host, net_port_min = port_min,
     net_port_max = port_max, net_live = True\<rparr>)" for allow_host port_min port_max
proof (unfold_locales, goal_cases)
  case (4 h host s)
  show ?case by (rule fresh_obj_made)
next
  case (8 H h g a host x t)
  then have "obj_str_ok x" by (auto simp: cstr_take_strlen split: option.splits if_splits)
  with 8 show ?case
    by (intro conjI good_push [OF 8(1,2,3,4,5)])
      (auto simp: owned_def net_at_def simp del: obj_str_ok.simps intro!: tabs_ok_append(5) [where a = a])
qed (auto simp: fx_guest_mint_netcap_def fresh_obj_def tabs_ok_def owned_def split: prod.splits if_splits option.splits)

text \<open>An AllocCap is live only when its session's table names it: first the table, then the object.\<close>

interpretation alloc_mint: minting "\<lambda>h. fx_guest_mint_alloccap h budget" g_alloc "\<lambda>t g. g\<lparr>g_alloc := t\<rparr>"
  "\<lambda>g. if 0 < sint budget then Some budget else None"
  "\<lambda>h budget. fresh_obj (AllocObj \<lparr>al_ctx = 0, al_budget = 0, al_live = False\<rparr>)
     (AllocObj \<lparr>al_ctx = h, al_budget = budget, al_live = True\<rparr>)"
  "\<lambda>h budget. Some (AllocObj \<lparr>al_ctx = h, al_budget = budget, al_live = True\<rparr>)" for budget
proof (unfold_locales, goal_cases)
  case (4 h budget s)
  show ?case by (rule fresh_obj_made)
next
  case (8 H h g a q x t)
  let ?z = "\<lparr>al_ctx = 0, al_budget = 0, al_live = False\<rparr>" and ?g = "g\<lparr>g_alloc := t\<rparr>"
  let ?H1 = "H(a \<mapsto> AllocObj ?z, h \<mapsto> CtxObj ?g)" and ?H2 = "H(a \<mapsto> x, h \<mapsto> CtxObj ?g)"
  have ne: "a \<noteq> h" using 8(2,4) by (auto simp: at_iff)
  have g1: "good ?H1"
    using 8(5,8,9) by (intro good_push(1) [OF 8(1,2,3,4,5)])
      (auto simp: owned_def alloc_at_def intro!: tabs_ok_append(3) [where a = a])
  have "good (?H1(a \<mapsto> AllocObj \<lparr>al_ctx = h, al_budget = q, al_live = True\<rparr>))"
    by (rule good_alloc_put [OF g1, of _ ?z _ ?g]) (use ne 8(3,9) in \<open>auto simp: alloc_at_def ctx_at_def\<close>)
  then have "good (?H1(a \<mapsto> x))" using 8(7) by simp
  moreover have "?H2 = ?H1(a \<mapsto> x)" using ne by (auto simp: fun_eq_iff)
  moreover have "evolves H ?H2"
    using 8(2,3,4,5,9) by (auto simp: evolves_def at_iff ctx_evolves_def owned_def)
  ultimately show ?case by simp
qed (auto simp: fx_guest_mint_alloccap_def fresh_obj_def tabs_ok_def owned_def split: prod.splits if_splits)

section \<open>What a mint does\<close>

lemma mint_fscap_step:
  assumes good: "good (heap s)" and h: "h = 0 \<or> ctx_at (heap s) h \<noteq> None"
  obtains (fail) s' where "fx_guest_mint_fscap h root s = Some (0, s')" "heap s' = heap s"
      "last_text s' = last_text s"
  | (ok) g r t cap s' where "fx_guest_mint_fscap h root s = Some (cap, s')" "cap \<noteq> 0"
      "heap s cap = None" "ctx_at (heap s) h = Some g" "g_live g"
      "mint_root FX_ROOT_SIZE (mint_root_or_default g root) = Some r"
      "tab_items t = tab_items (g_fs g) @ [cap]" "last_text s' = last_text s"
      "heap s' = (heap s)(cap \<mapsto> FsObj \<lparr>fs_root = r, fs_live = True\<rparr>, h \<mapsto> CtxObj (g\<lparr>g_fs := t\<rparr>))"
      "good (heap s')" "evolves (heap s) (heap s')"
  using assms by (cases rule: fs_mint.mint_step [of s h root]) (auto intro: that)

lemma mint_outcap_step:
  assumes good: "good (heap s)" and h: "h = 0 \<or> ctx_at (heap s) h \<noteq> None"
  obtains (fail) s' where "fx_guest_mint_outcap h root s = Some (0, s')" "heap s' = heap s"
      "last_text s' = last_text s"
  | (ok) g r t cap s' where "fx_guest_mint_outcap h root s = Some (cap, s')" "cap \<noteq> 0"
      "heap s cap = None" "ctx_at (heap s) h = Some g" "g_live g"
      "mint_root FX_ROOT_SIZE (mint_root_or_default g root) = Some r"
      "tab_items t = tab_items (g_out g) @ [cap]" "last_text s' = last_text s"
      "heap s' = (heap s)(cap \<mapsto> OutObj \<lparr>out_root = r, out_live = True\<rparr>, h \<mapsto> CtxObj (g\<lparr>g_out := t\<rparr>))"
      "good (heap s')" "evolves (heap s) (heap s')"
  using assms by (cases rule: out_mint.mint_step [of s h root]) (auto intro: that)

lemma mint_fuelcap_step:
  assumes good: "good (heap s)" and h: "h = 0 \<or> ctx_at (heap s) h \<noteq> None"
  obtains (fail) s' where "fx_guest_mint_fuelcap h units s = Some (0, s')" "heap s' = heap s"
      "last_text s' = last_text s"
  | (ok) g t cap s' where "fx_guest_mint_fuelcap h units s = Some (cap, s')" "cap \<noteq> 0"
      "heap s cap = None" "ctx_at (heap s) h = Some g" "g_live g" "0 < sint units"
      "tab_items t = tab_items (g_fuel g) @ [cap]" "last_text s' = last_text s"
      "heap s' = (heap s)(cap \<mapsto> FuelObj \<lparr>fu_ctx = h, fu_units = units, fu_live = True\<rparr>,
                          h \<mapsto> CtxObj (g\<lparr>g_fuel := t\<rparr>))"
      "good (heap s')" "evolves (heap s) (heap s')"
  using assms by (cases rule: fuel_mint.mint_step [of s h units]) (auto intro: that split: if_splits)

lemma mint_netcap_step:
  assumes good: "good (heap s)" and h: "h = 0 \<or> ctx_at (heap s) h \<noteq> None"
  obtains (fail) s' where "fx_guest_mint_netcap h allow_host port_min port_max s = Some (0, s')"
      "heap s' = heap s" "last_text s' = last_text s"
  | (ok) g host t cap s' where "fx_guest_mint_netcap h allow_host port_min port_max s = Some (cap, s')"
      "cap \<noteq> 0" "heap s cap = None" "ctx_at (heap s) h = Some g" "g_live g"
      "allow_host = Some host" "chd host \<noteq> NUL" "strlen host < FX_NET_HOST_SIZE"
      "1 \<le> sint port_min" "sint port_min \<le> sint port_max" "sint port_max \<le> 65535"
      "tab_items t = tab_items (g_net g) @ [cap]" "last_text s' = last_text s"
      "heap s' = (heap s)(cap \<mapsto> NetObj \<lparr>net_host = take (strlen host) host, net_port_min = port_min,
                            net_port_max = port_max, net_live = True\<rparr>,
                          h \<mapsto> CtxObj (g\<lparr>g_net := t\<rparr>))"
      "good (heap s')" "evolves (heap s) (heap s')"
  using assms by (cases rule: net_mint.mint_step [of s h allow_host port_min port_max])
    (auto intro: that split: option.splits if_splits)

lemma mint_alloccap_step:
  assumes good: "good (heap s)" and h: "h = 0 \<or> ctx_at (heap s) h \<noteq> None"
  obtains (fail) s' where "fx_guest_mint_alloccap h budget s = Some (0, s')" "heap s' = heap s"
      "last_text s' = last_text s"
  | (ok) g t cap s' where "fx_guest_mint_alloccap h budget s = Some (cap, s')" "cap \<noteq> 0"
      "heap s cap = None" "ctx_at (heap s) h = Some g" "g_live g" "0 < sint budget"
      "tab_items t = tab_items (g_alloc g) @ [cap]" "last_text s' = last_text s"
      "heap s' = (heap s)(cap \<mapsto> AllocObj \<lparr>al_ctx = h, al_budget = budget, al_live = True\<rparr>,
                          h \<mapsto> CtxObj (g\<lparr>g_alloc := t\<rparr>))"
      "good (heap s')" "evolves (heap s) (heap s')"
  using assms by (cases rule: alloc_mint.mint_step [of s h budget]) (auto intro: that split: if_splits)

end
