(* ===== verification/GuestAlloc.thy ===== *)
theory GuestAlloc
  imports GuestMints
begin

text \<open>
  The steps of the allocation operations: the arena's bump allocator, the budgeted AllocCap
  and the FuelCap, with their 64-bit arithmetic.
\<close>

section \<open>64-bit arithmetic\<close>

lemma sint_diff_nonneg:
  fixes a b :: "'a::len word"
  assumes "0 \<le> sint b" and "sint b \<le> sint a"
  shows "sint (a - b) = sint a - sint b"
proof -
  have "sint a < 2 ^ (LENGTH('a) - 1)" by (rule sint_lt)
  then have "signed_take_bit (LENGTH('a) - Suc 0) (sint a - sint b) = sint a - sint b"
    using assms by (intro signed_take_bit_int_eq_self) auto
  then show ?thesis by (simp add: sint_word_ariths)
qed

lemma unat_nonneg_sint: "0 \<le> sint (x :: 64 word) \<Longrightarrow> int (unat x) = sint x"
proof -
  assume a: "0 \<le> sint x"
  have "sint x < 2 ^ 63" using sint_lt [of x] by simp
  moreover have "uint x = sint x mod 2 ^ 64" using uint_sint [of x] by (simp add: take_bit_eq_mod)
  ultimately show ?thesis using a by simp
qed

lemma and_not_mask_shift: "(x :: 64 word) AND NOT (mask n) = push_bit n (drop_bit n x)"
  by (auto intro!: bit_eqI simp: bit_simps)

lemma unat_and_not_7: "unat ((x :: 64 word) AND NOT (mask 3)) = 8 * (unat x div 8)"
proof -
  have "unat x < 2 ^ 64" using unsigned_less [of x] by simp
  then have "8 * (unat x div 8) < 2 ^ 64" by linarith
  then show ?thesis
    by (simp add: and_not_mask_shift push_bit_eq_mult drop_bit_eq_div unat_word_ariths unat_div)
qed

lemma bump_padded_mask: "bump_padded u = (u + 7) AND NOT (mask 3)"
proof -
  have "ALIGN - 1 = 7" "ALIGN - 1 = mask 3" by (simp_all add: mask_eq_exp_minus_1 ALIGN_def)
  then show ?thesis unfolding bump_padded_def by metis
qed

lemma bump_padded_bounds:
  assumes "unat u < 2 ^ 63"
  shows "unat (bump_padded u) mod 8 = 0" "unat u \<le> unat (bump_padded u)" "unat (bump_padded u) < unat u + 8"
proof -
  have "unat (u + 7) = unat u + 7" using assms by (simp add: unat_word_ariths)
  then have "unat (bump_padded u) = 8 * ((unat u + 7) div 8)"
    by (simp add: bump_padded_mask unat_and_not_7)
  then show "unat (bump_padded u) mod 8 = 0" "unat u \<le> unat (bump_padded u)" "unat (bump_padded u) < unat u + 8"
    by (simp, linarith, linarith)
qed

section \<open>The bump allocator\<close>

lemma bump_alloc_step:
  assumes good: "good (heap s)" and h: "h = 0 \<or> ctx_at (heap s) h \<noteq> None"
  obtains (fail) "guest_bump_alloc h n s = Some (0, s)"
  | (ok) g p s' where "guest_bump_alloc h n s = Some (g_arena g + p, s')"
      "p = bump_padded (g_arena_used g)" "ctx_at (heap s) h = Some g" "g_live g" "0 < sint n"
      "g_arena g + p \<noteq> 0" "unat (g_arena g + p) = unat (g_arena g) + unat p"
      "unat p mod 8 = 0" "unat (g_arena_used g) \<le> unat p" "unat p + unat n \<le> unat (g_arena_size g)"
      "unat (p + n) = unat p + unat n"
      "last_text s' = last_text s"
      "heap s' = (heap s)(h \<mapsto> CtxObj (g\<lparr>g_arena_used := p + n\<rparr>))"
      "good (heap s')" "evolves (heap s) (heap s')"
proof -
  consider (zero) "h = 0" | (ctx) g where "h \<noteq> 0" "ctx_at (heap s) h = Some g" using h by auto
  then show ?thesis
  proof cases
    case zero
    then show ?thesis by (intro fail) (simp add: guest_bump_alloc_def)
  next
    case (ctx g)
    define p where "p = bump_padded (g_arena_used g)"
    show ?thesis
    proof (cases "g_live g \<and> g_arena g \<noteq> 0 \<and> 0 < sint n \<and> p \<le> g_arena_size g
        \<and> n \<le> g_arena_size g - p")
      case False
      with ctx show ?thesis
        by (intro fail) (auto simp: guest_bump_alloc_def Let_def not_less simp flip: p_def)
    next
      case True
      from good_wf [OF good] obtain r where wf: "wf_r r (heap s)" by blast
      have ar: "arena_ok (heap s) g" using wf_arenaD [OF wf ctx(2)] True by blast
      then have sz: "unat (g_arena_used g) \<le> unat (g_arena_size g)" "unat (g_arena_size g) < 2 ^ 63"
        "unat (g_arena g) + unat (g_arena_size g) < 2 ^ 64" by (auto simp: arena_ok_def)
      then have "unat (g_arena_used g) < 2 ^ 63" by linarith
      note pad = bump_padded_bounds [OF this, folded p_def]
      have "unat p \<le> unat (g_arena_size g)" "unat n \<le> unat (g_arena_size g - p)"
        using True by (auto simp: word_le_nat_alt)
      moreover have "unat (g_arena_size g - p) = unat (g_arena_size g) - unat p"
        using True by (auto intro: unat_sub)
      ultimately have fits: "unat p + unat n \<le> unat (g_arena_size g)" by linarith
      have add: "unat (x + y) = unat x + unat y" if "unat x + unat y < 2 ^ 64" for x y :: usize
        using that by (simp add: unat_word_ariths)
      have pn: "unat (p + n) = unat p + unat n" using fits sz(2) by (intro add) simp
      have res: "unat (g_arena g + p) = unat (g_arena g) + unat p" using fits sz(3) by (intro add) linarith
      have nz: "g_arena g + p \<noteq> 0"
        using res True by (metis add_is_0 unat_eq_zero)
      let ?g = "g\<lparr>g_arena_used := p + n\<rparr>"
      have "wf_r r ((heap s)(h \<mapsto> CtxObj ?g))"
        by (rule wf_ctx_update [OF wf ctx(2)])
          (use wf_tabsD [OF wf ctx(2)] ar True fits pn wf ctx(2)
            in \<open>auto simp: tabs_ok_def arena_ok_def children_def owned_def wf_r_def wf_owned_def\<close>)
      moreover have "strings_ok ((heap s)(h \<mapsto> CtxObj ?g))"
        using good_strings [OF good] strings_ok_ctx [OF good_strings [OF good] ctx(2)]
        by (simp add: strings_ok_upd)
      ultimately have "good ((heap s)(h \<mapsto> CtxObj ?g))" by (auto simp: good_def wf_def)
      moreover have "evolves (heap s) ((heap s)(h \<mapsto> CtxObj ?g))"
        using ctx(2) pn pad by (intro evolves_upd) (auto simp: at_iff ctx_evolves_def owned_def)
      moreover have "guest_bump_alloc h n s = Some (g_arena g + p, put h (CtxObj ?g) s)"
        using ctx True by (auto simp: guest_bump_alloc_def Let_def simp flip: p_def)
      ultimately show ?thesis
        using ctx True p_def nz res pad fits pn by (intro that(2) [of g p "put h (CtxObj ?g) s"]) simp_all
    qed
  qed
qed

section \<open>Budgets\<close>

lemma cap_alloc_step:
  assumes good: "good (heap s)" and a: "a = 0 \<or> alloc_at (heap s) a \<noteq> None"
  obtains (fail) "fx_alloccap_alloc a n s = Some (0, s)"
  | (ok) c g p s' where "fx_alloccap_alloc a n s = Some (g_arena g + p, s')"
      "alloc_at (heap s) a = Some c" "al_live c" "0 < sint n" "sint n \<le> sint (al_budget c)"
      "ctx_at (heap s) (al_ctx c) = Some g" "g_live g" "a \<in> set (tab_items (g_alloc g))"
      "p = bump_padded (g_arena_used g)" "unat p + unat n \<le> unat (g_arena_size g)"
      "g_arena g + p \<noteq> 0" "last_text s' = last_text s"
      "sint (al_budget c - n) = sint (al_budget c) - sint n"
      "heap s' = (heap s)(al_ctx c \<mapsto> CtxObj (g\<lparr>g_arena_used := p + n\<rparr>),
                          a \<mapsto> AllocObj (c\<lparr>al_budget := al_budget c - n\<rparr>))"
      "good (heap s')" "evolves (heap s) (heap s')"
proof -
  consider (zero) "a = 0" | (cap) c where "a \<noteq> 0" "alloc_at (heap s) a = Some c" using a by auto
  then show ?thesis
  proof cases
    case zero
    then show ?thesis by (intro fail) (simp add: fx_alloccap_alloc_def)
  next
    case (cap c)
    show ?thesis
    proof (cases "al_live c \<and> 0 < sint n \<and> sint n \<le> sint (al_budget c)")
      case False
      with cap show ?thesis by (intro fail) (auto simp: fx_alloccap_alloc_def)
    next
      case True
      from good_wf [OF good] obtain r where wf: "wf_r r (heap s)" by blast
      from wf_allocD [OF wf cap(2)] True obtain g where g: "ctx_at (heap s) (al_ctx c) = Some g"
        "g_live g" "a \<in> set (tab_items (g_alloc g))" by blast
      have "al_ctx c = 0 \<or> ctx_at (heap s) (al_ctx c) \<noteq> None" using g by simp
      from good this show ?thesis
      proof (cases rule: bump_alloc_step [where n = n])
        case fail
        with cap True show ?thesis by (intro that(1)) (simp add: fx_alloccap_alloc_def)
      next
        case (ok g' p s')
        then have [simp]: "g' = g" using g by simp
        let ?g = "g\<lparr>g_arena_used := p + n\<rparr>" and ?c = "c\<lparr>al_budget := al_budget c - n\<rparr>"
        let ?H = "(heap s)(al_ctx c \<mapsto> CtxObj ?g, a \<mapsto> AllocObj ?c)"
        have sub: "sint (al_budget c - n) = sint (al_budget c) - sint n"
          using True by (intro sint_diff_nonneg) simp_all
        have at: "alloc_at (heap s') a = Some c"
          using ok(13) cap(2) by (simp add: at_ctx_upd [OF g(1)])
        have ne: "a \<noteq> al_ctx c" using cap(2) g(1) by (auto simp: at_iff)
        have "good ?H"
          using ok(13,14) g at ne by (auto intro!: good_alloc_put [where g = ?g])
        moreover have "evolves (heap s) ?H"
          using ok(15) evolves_upd [of "heap s'" a "AllocObj ?c"] at sub True
          by (auto simp: ok(13) at_iff intro: evolves_trans)
        moreover have "fx_alloccap_alloc a n s = Some (g_arena g + p, put a (AllocObj ?c) s')"
          using cap True ok at by (simp add: fx_alloccap_alloc_def)
        ultimately show ?thesis
          using cap True g ok sub by (intro that(2) [of g p "put a (AllocObj ?c) s'" c]) simp_all
      qed
    qed
  qed
qed

lemma burn_step:
  assumes good: "good (heap s)" and f: "f = 0 \<or> fuel_at (heap s) f \<noteq> None"
  obtains (fail) "fx_fuelcap_burn f n s = Some (False, s)"
      "\<And>c. fuel_at (heap s) f = Some c \<Longrightarrow> fu_live c \<Longrightarrow> 0 < sint n \<Longrightarrow> sint (fu_units c) < sint n"
  | (ok) c s' where "fx_fuelcap_burn f n s = Some (True, s')" "fuel_at (heap s) f = Some c"
      "fu_live c" "0 < sint n" "sint n \<le> sint (fu_units c)" "last_text s' = last_text s"
      "sint (fu_units c - n) = sint (fu_units c) - sint n"
      "heap s' = (heap s)(f \<mapsto> FuelObj (c\<lparr>fu_units := fu_units c - n\<rparr>))"
      "good (heap s')" "evolves (heap s) (heap s')"
proof -
  consider (zero) "f = 0" | (cap) c where "f \<noteq> 0" "fuel_at (heap s) f = Some c" using f by auto
  then show ?thesis
  proof cases
    case zero
    then show ?thesis
      using good_zero [OF good] by (intro fail) (simp_all add: fx_fuelcap_burn_def fuel_at_def)
  next
    case (cap c)
    show ?thesis
    proof (cases "fu_live c \<and> 0 < sint n \<and> sint n \<le> sint (fu_units c)")
      case False
      with cap show ?thesis by (intro fail) (auto simp: fx_fuelcap_burn_def)
    next
      case True
      from good_wf [OF good] obtain r where wf: "wf_r r (heap s)" by blast
      let ?c = "c\<lparr>fu_units := fu_units c - n\<rparr>"
      let ?H = "(heap s)(f \<mapsto> FuelObj ?c)"
      have Hf: "heap s f = Some (FuelObj c)" using cap by (simp add: at_iff)
      then have "extends (heap s) ?H"
        using wf_zeroD [OF wf] cap(1)
        by (auto simp: extends_def at_defs cap_live_def fun_eq_iff split: option.splits cobj.splits)
      from wf_extends [OF wf this] have "good ?H"
        using strings_ok_upd [OF good_strings [OF good], of "FuelObj ?c" f] by (auto simp: good_def wf_def)
      moreover have sub: "sint (fu_units c - n) = sint (fu_units c) - sint n"
        using True by (intro sint_diff_nonneg) simp_all
      moreover have "evolves (heap s) ?H" using Hf True sub by (intro evolves_upd) simp
      moreover have "fx_fuelcap_burn f n s = Some (True, put f (FuelObj ?c) s)"
        using cap True by (simp add: fx_fuelcap_burn_def)
      ultimately show ?thesis using cap True by (intro that(2) [of "put f (FuelObj ?c) s" c]) simp_all
    qed
  qed
qed

end
