(* ===== verification/GuestBegin.thy ===== *)
theory GuestBegin
  imports GuestAlloc
begin

text \<open>
  The steps of \<open>fx_guest_begin\<close>, \<open>fx_guest_begin_nested\<close> and \<open>fx_guest_end\<close>: opening a
  session, opening one below a live session, and ending one with everything nested in it.
\<close>

section \<open>Opening a session\<close>

lemma guest_open_cases:
  assumes H: "heap s h = Some ob" and h: "h \<noteq> 0"
  obtains (fail) s' where "guest_open h g n s = Some (0, s')" "heap s' = (heap s)(h := None)"
      "last_text s' = last_text s"
  | (ok) ar s' where "guest_open h g n s = Some (h, s')" "usable (heap s) ar (arena_bytes_of n)"
      "heap s' = (heap s)(ar \<mapsto> ArenaObj (arena_bytes_of n),
         h \<mapsto> CtxObj (g\<lparr>g_arena := ar, g_arena_size := arena_bytes_of n, g_arena_used := 0, g_live := True\<rparr>))"
      "last_text s' = last_text s"
proof -
  obtain ar s1 where c: "calloc (ArenaObj (arena_bytes_of n)) s = (ar, s1)"
    by (cases "calloc (ArenaObj (arena_bytes_of n)) s")
  from c show ?thesis
  proof (cases rule: callocE)
    case fail
    with c H h show ?thesis
      by (intro that(1) [of "s1\<lparr>heap := (heap s1)(h := None)\<rparr>"]) (simp_all add: guest_open_def c_free_def)
  next
    case ok
    then have "ar \<noteq> 0" by (auto simp: usable_def)
    with c ok show ?thesis
      by (intro that(2) [OF _ _ _ , of "put h (CtxObj (g\<lparr>g_arena := ar, g_arena_size := arena_bytes_of n,
            g_arena_used := 0, g_live := True\<rparr>)) s1" ar]) (simp_all add: guest_open_def)
  qed
qed

lemma arena_bytes_bound: "unat (arena_bytes_of n) < 2 ^ 63" "0 < unat (arena_bytes_of n)"
proof -
  show "unat (arena_bytes_of n) < 2 ^ 63"
  proof (cases "0 < sint n")
    case True
    then have "int (unat n) = sint n" by (intro unat_nonneg_sint) simp
    moreover have "sint n < 2 ^ 63" using sint_lt [of n] by simp
    ultimately have "int (unat n) < int (2 ^ 63)" by (simp only: of_nat_power of_nat_numeral)
    then show ?thesis using True unfolding arena_bytes_of_def of_nat_less_iff by simp
  qed (simp add: arena_bytes_of_def FX_GUEST_DEFAULT_ARENA_def)
  show "0 < unat (arena_bytes_of n)"
  proof (cases "0 < sint n")
    case True
    then have "n \<noteq> 0" by auto
    with True show ?thesis by (simp add: arena_bytes_of_def unat_gt_0)
  qed (simp add: arena_bytes_of_def FX_GUEST_DEFAULT_ARENA_def)
qed

text \<open>Opening a session at two new addresses keeps the memory good.\<close>

lemma good_new:
  assumes good: "good H" and h: "H h = None" "h \<noteq> 0" and ar: "usable H ar n" and ne: "h \<noteq> ar"
    and n: "unat n < 2 ^ 63" and g: "new_ctx g" and str: "cstr (g_root g)" "length (g_root g) < FX_ROOT_SIZE"
    and at: "g_arena g = ar" "g_arena_size g = n" "g_arena_used g = 0"
  shows "good (H(h \<mapsto> CtxObj g, ar \<mapsto> ArenaObj n))"
    and "wf_r r H \<Longrightarrow> wf_r r (H(h \<mapsto> CtxObj g, ar \<mapsto> ArenaObj n))"
proof -
  have u: "H ar = None" "ar \<noteq> 0" "unat ar mod 16 = 0" "unat ar + unat n < 2 ^ 64"
    using ar by (simp_all add: usable_def)
  have ok: "arena_ok (H(h \<mapsto> CtxObj g, g_arena g \<mapsto> ArenaObj (g_arena_size g))) g"
    unfolding arena_ok_def at using u n by (simp del: less_numeral_extra)
  show wf: "wf_r r (H(h \<mapsto> CtxObj g, ar \<mapsto> ArenaObj n))" if "wf_r r H" for r
    using wf_new [OF that h _ _ _ g ok] u ne by (simp add: at)
  from good_wf [OF good] obtain r where "wf_r r H" by blast
  from wf [OF this] have "wf (H(h \<mapsto> CtxObj g, ar \<mapsto> ArenaObj n))" by (auto simp: wf_def)
  moreover have "strings_ok (H(h \<mapsto> CtxObj g, ar \<mapsto> ArenaObj n))"
    using good_strings [OF good] str by (intro strings_ok_upd) simp_all
  ultimately show "good (H(h \<mapsto> CtxObj g, ar \<mapsto> ArenaObj n))" by (simp add: good_def)
qed

lemma begin_step:
  assumes good: "good (heap s)"
  obtains (fail) s' where "fx_guest_begin root n s = Some (0, s')" "heap s' = heap s"
      "last_text s' = last_text s"
  | (ok) h g s' where "fx_guest_begin root n s = Some (h, s')" "h \<noteq> 0" "heap s h = None"
      "heap s (g_arena g) = None" "h \<noteq> g_arena g" "g_live g" "new_ctx g" "g_arena_used g = 0"
      "g_arena_size g = arena_bytes_of n"
      "if nonempty_root root then mint_root FX_ROOT_SIZE root = Some (g_root g) else g_root g = []"
      "heap s' = (heap s)(h \<mapsto> CtxObj g, g_arena g \<mapsto> ArenaObj (g_arena_size g))"
      "last_text s' = last_text s" "good (heap s')" "evolves (heap s) (heap s')"
proof -
  obtain h s1 where c: "calloc (CtxObj zero_ctx) s = (h, s1)" by (cases "calloc (CtxObj zero_ctx) s")
  from c show ?thesis
  proof (cases rule: callocE)
    case fail
    with c show ?thesis by (intro that(1) [of s1]) (simp_all add: fx_guest_begin_def)
  next
    case ok
    then have h: "heap s h = None" "h \<noteq> 0" by (auto simp: usable_def)
    show ?thesis
    proof (cases "nonempty_root root \<and> mint_root FX_ROOT_SIZE root = None")
      case True
      with c ok h show ?thesis
        by (intro that(1) [of "s1\<lparr>heap := (heap s1)(h := None)\<rparr>"])
          (auto simp: fx_guest_begin_def c_free_def fun_eq_iff)
    next
      case False
      then obtain rt where rt: "if nonempty_root root then mint_root FX_ROOT_SIZE root = Some rt else rt = []"
        by (cases "nonempty_root root") auto
      have str: "cstr rt" "length rt < FX_ROOT_SIZE"
        using rt mint_root_Some [of FX_ROOT_SIZE root rt] by (auto simp: FX_ROOT_SIZE_def split: if_splits)
      let ?z = "zero_ctx\<lparr>g_root := rt\<rparr>"
      have eq: "fx_guest_begin root n s = guest_open h ?z n s1"
        using c h rt by (auto simp: fx_guest_begin_def zero_ctx_def split: if_splits)
      have H1: "heap s1 h = Some (CtxObj zero_ctx)" using ok by simp
      from H1 h(2) show ?thesis
      proof (cases rule: guest_open_cases [where g = ?z and n = n])
        case (fail s')
        with eq ok h show ?thesis by (intro that(1) [of s']) (simp_all add: fun_upd_idem)
      next
        case (ok ar s')
        let ?g = "?z\<lparr>g_arena := ar, g_arena_size := arena_bytes_of n, g_arena_used := 0, g_live := True\<rparr>"
        have u: "usable (heap s) ar (arena_bytes_of n)" "ar \<noteq> h"
          using ok(2) \<open>heap s1 = _\<close> by (auto simp: usable_def split: if_splits)
        then have ar: "heap s ar = None" by (simp add: usable_def)
        have hs: "heap s' = (heap s)(h \<mapsto> CtxObj ?g, ar \<mapsto> ArenaObj (arena_bytes_of n))"
          using ok(3) \<open>heap s1 = _\<close> u(2) by (auto simp: fun_eq_iff)
        have n: "new_ctx ?g" by (simp add: new_ctx_def zero_ctx_def)
        have gd: "good (heap s')" unfolding hs
          by (rule good_new(1) [OF good h u(1) not_sym [OF u(2)] arena_bytes_bound(1) n]) (simp_all add: str)
        have "evolves (heap s) (heap s')" unfolding hs using h ar by (simp add: evolves_def)
        with ok(1,4) eq h ar u n gd hs rt \<open>last_text s1 = _\<close> show ?thesis
          by (intro that(2) [of h s' ?g]) simp_all
      qed
    qed
  qed
qed

section \<open>Opening a nested session\<close>

lemma nested_root:
  fixes root :: cptr
  assumes gp: "cstr (g_root gp)" "length (g_root gp) < FX_ROOT_SIZE"
  defines "use \<equiv> (if nonempty_root root then root
                  else if chd (g_root gp) \<noteq> NUL then Some (g_root gp) else None)"
  defines "z \<equiv> (case use of None \<Rightarrow> Some zero_ctx
      | Some r \<Rightarrow> map_option (\<lambda>r. zero_ctx\<lparr>g_root := r\<rparr>) (mint_root FX_ROOT_SIZE (Some r)))"
  obtains (long) "z = None" "nonempty_root root" "mint_root FX_ROOT_SIZE root = None"
  | (fits) rt where "z = Some (zero_ctx\<lparr>g_root := rt\<rparr>)" "cstr rt" "length rt < FX_ROOT_SIZE"
      "if nonempty_root root then mint_root FX_ROOT_SIZE root = Some rt else rt = g_root gp"
proof (cases "nonempty_root root")
  case True
  then obtain r0 where r0: "root = Some r0" by (auto simp: nonempty_root_def split: option.splits)
  show ?thesis
  proof (cases "mint_root FX_ROOT_SIZE root")
    case None
    with True r0 show ?thesis by (intro long) (simp_all add: z_def use_def)
  next
    case (Some rt)
    with True r0 mint_root_Some [OF Some] show ?thesis
      by (intro fits [of rt]) (simp_all add: z_def use_def)
  qed
next
  case False
  have "z = Some (zero_ctx\<lparr>g_root := g_root gp\<rparr>)"
  proof (cases "g_root gp")
    case Nil
    with False show ?thesis by (simp add: z_def use_def zero_ctx_def)
  next
    case (Cons c cs)
    then have "c \<noteq> NUL" using gp(1) by simp
    with Cons False gp show ?thesis by (simp add: z_def use_def mint_root_def)
  qed
  with False gp show ?thesis by (intro fits [of "g_root gp"]) simp_all
qed

lemma upd_again:
  "h \<noteq> ar \<Longrightarrow> h \<noteq> p \<Longrightarrow> H(h \<mapsto> a, ar \<mapsto> b, p \<mapsto> c, h \<mapsto> d) = H(h \<mapsto> d, ar \<mapsto> b, p \<mapsto> c)"
  by (auto simp: fun_eq_iff)

text \<open>A new session below a live one with room.\<close>

lemma nested_linked:
  assumes good: "good H" and gp: "ctx_at H p = Some gp" "g_live gp" "p \<noteq> 0" and h: "H h = None" "h \<noteq> 0"
    and u: "usable H ar (arena_bytes_of n)" "ar \<noteq> h" and rt: "cstr rt" "length rt < FX_ROOT_SIZE"
    and t: "tab_ok FX_GUEST_MAX_CHILDREN t" "tab_items t = children gp @ [h]"
  defines "g \<equiv> zero_ctx\<lparr>g_root := rt, g_parent := p, g_arena := ar, g_arena_size := arena_bytes_of n,
      g_arena_used := 0, g_live := True\<rparr>"
  defines "H' \<equiv> H(h \<mapsto> CtxObj g, ar \<mapsto> ArenaObj (arena_bytes_of n), p \<mapsto> CtxObj (gp\<lparr>g_children := t\<rparr>))"
  shows "good H'" and "evolves H H'"
proof -
  let ?gn = "g\<lparr>g_parent := 0\<rparr>"
  let ?Hn = "H(h \<mapsto> CtxObj ?gn, ar \<mapsto> ArenaObj (arena_bytes_of n))"
  have ar: "H ar = None" using u(1) by (simp add: usable_def)
  have ne: "p \<noteq> h" "p \<noteq> ar" using gp(1) h ar by (auto simp: at_iff)
  from good_wf [OF good] obtain r where r: "wf_r r H" by blast
  let ?r = "\<lambda>x. if x = h then 0 else r x + 1"
  have r1: "wf_r ?r H" using wf_lower [OF r] h(1) by (simp add: ctx_at_def)
  have new: "new_ctx ?gn" by (simp add: new_ctx_def zero_ctx_def g_def)
  have w1: "wf_r ?r ?Hn"
    by (rule good_new(2) [OF good h u(1) not_sym [OF u(2)] arena_bytes_bound(1) new _ _ _ _ _ r1])
      (simp_all add: rt g_def)
  have "?gn\<lparr>g_parent := p\<rparr> = g" by (simp add: g_def)
  then have eq: "?Hn(p \<mapsto> CtxObj (gp\<lparr>g_children := t\<rparr>), h \<mapsto> CtxObj (?gn\<lparr>g_parent := p\<rparr>)) = H'"
    using upd_again [of h ar p H] ne u(2) unfolding H'_def by metis
  have "wf_r ?r H'" unfolding eq [symmetric]
    by (rule wf_link [OF w1]) (use gp t ne u(2) h ar in \<open>auto simp: ctx_at_def g_def\<close>)
  moreover have "strings_ok H'" unfolding H'_def
    using good_strings [OF good] rt strings_ok_ctx [OF good_strings [OF good] gp(1)]
    by (intro strings_ok_upd) (simp_all add: g_def)
  ultimately show "good H'" by (auto simp: good_def wf_def)
  show "evolves H H'" unfolding H'_def
    using h ar gp(1) by (auto simp: evolves_def at_iff ctx_evolves_def owned_def)
qed

lemma begin_nested_step:
  assumes good: "good (heap s)" and p: "p = 0 \<or> ctx_at (heap s) p \<noteq> None"
  obtains (fail) s' where "fx_guest_begin_nested p root n s = Some (0, s')" "heap s' = heap s"
      "last_text s' = last_text s"
  | (ok) h g gp t s' where "fx_guest_begin_nested p root n s = Some (h, s')" "h \<noteq> 0"
      "heap s h = None" "heap s (g_arena g) = None" "h \<noteq> g_arena g" "ctx_at (heap s) p = Some gp"
      "g_live gp" "g_live g" "g_parent g = p" "new_ctx (g\<lparr>g_parent := 0\<rparr>)" "g_arena_used g = 0"
      "g_arena_size g = arena_bytes_of n"
      "if nonempty_root root then mint_root FX_ROOT_SIZE root = Some (g_root g)
       else g_root g = g_root gp"
      "tab_items t = children gp @ [h]" "length (children gp) < FX_GUEST_MAX_CHILDREN"
      "heap s' = (heap s)(h \<mapsto> CtxObj g, g_arena g \<mapsto> ArenaObj (g_arena_size g),
                          p \<mapsto> CtxObj (gp\<lparr>g_children := t\<rparr>))"
      "last_text s' = last_text s" "good (heap s')" "evolves (heap s) (heap s')"
proof -
  consider (zero) "p = 0" | (ctx) gp where "p \<noteq> 0" "ctx_at (heap s) p = Some gp" using p by auto
  then show ?thesis
  proof cases
    case zero
    then show ?thesis by (intro fail [of s]) (simp_all add: fx_guest_begin_nested_def)
  next
    case (ctx gp)
    show ?thesis
    proof (cases "g_live gp \<and> ct_n (g_children gp) < FX_GUEST_MAX_CHILDREN")
      case False
      with ctx show ?thesis by (intro fail [of s]) (auto simp: fx_guest_begin_nested_def)
    next
      case True
      have ctabs: "tab_ok FX_GUEST_MAX_CHILDREN (g_children gp)"
        using good_tabs [OF good ctx(2)] by (simp add: tabs_ok_def)
      obtain h s1 where c: "calloc (CtxObj zero_ctx) s = (h, s1)" by (cases "calloc (CtxObj zero_ctx) s")
      from c show ?thesis
      proof (cases rule: callocE)
        case fail
        with c ctx True show ?thesis by (intro that(1) [of s1]) (simp_all add: fx_guest_begin_nested_def)
      next
        case alloc: ok
        then have h: "heap s h = None" "h \<noteq> 0" by (auto simp: usable_def)
        note rts = strings_ok_ctx [OF good_strings [OF good] ctx(2)]
        from conjunct1 [OF rts] conjunct2 [OF rts] show ?thesis
        proof (cases rule: nested_root [where root = root])
          case long
          with c ctx True h alloc show ?thesis
            by (intro that(1) [of "s1\<lparr>heap := (heap s1)(h := None)\<rparr>"])
              (simp_all add: fx_guest_begin_nested_def c_free_def fun_upd_idem)
        next
          case (fits rt)
          let ?z = "zero_ctx\<lparr>g_root := rt, g_parent := p\<rparr>"
          have H1: "heap s1 h = Some (CtxObj zero_ctx)" using alloc by simp
          from H1 h(2) show ?thesis
          proof (cases rule: guest_open_cases [where g = ?z and n = n])
            case (fail s')
            with c ctx True h alloc fits show ?thesis
              by (intro that(1) [of s']) (simp_all add: fx_guest_begin_nested_def fun_upd_idem)
          next
            case (ok ar s')
            let ?g = "?z\<lparr>g_arena := ar, g_arena_size := arena_bytes_of n, g_arena_used := 0, g_live := True\<rparr>"
            have u: "usable (heap s) ar (arena_bytes_of n)" "ar \<noteq> h"
              using ok(2) alloc by (auto simp: usable_def split: if_splits)
            then have ar: "heap s ar = None" by (simp add: usable_def)
            have ne: "p \<noteq> h" "p \<noteq> ar" using ctx(2) h ar by (auto simp: at_iff)
            from tab_push_room [OF ctabs, of h] True obtain t
              where t: "tab_push h (g_children gp) = Some t" "tab_ok FX_GUEST_MAX_CHILDREN t"
                "tab_items t = children gp @ [h]" unfolding children_def by blast
            note linked = nested_linked [OF good ctx(2) conjunct1 [OF True] ctx(1) h u fits(2,3) t(2,3)]
            have hs: "heap s' = (heap s)(h \<mapsto> CtxObj ?g, ar \<mapsto> ArenaObj (arena_bytes_of n))"
              using ok(3) alloc u(2) by (auto simp: fun_eq_iff)
            have hp: "ctx_at (heap s') p = Some gp" using ctx(2) ne by (simp add: hs ctx_at_def)
            have run: "fx_guest_begin_nested p root n s = Some (h, put p (CtxObj (gp\<lparr>g_children := t\<rparr>)) s')"
              using c ctx True h fits ok t hp by (simp add: fx_guest_begin_nested_def)
            have len: "length (children gp) < FX_GUEST_MAX_CHILDREN"
              using True by (simp add: children_def tab_items_def min_less_iff_disj)
            show ?thesis
              by (rule that(2) [OF run h(2,1), of ?g gp t])
                (use ar u ctx True fits t len hs linked ok alloc in \<open>simp_all add: new_ctx_def zero_ctx_def\<close>)
          qed
        qed
      qed
    qed
  qed
qed

section \<open>Ending a session\<close>

lemma end_step:
  assumes good: "good (heap s)" and h: "h = 0 \<or> ctx_at (heap s) h \<noteq> None"
  obtains (idle) "fx_guest_end h s = Some (0, s)"
      "\<And>g. ctx_at (heap s) h = Some g \<Longrightarrow> \<not> g_live g"
  | (ended) g r s' where "fx_guest_end h s = Some (0, s')" "ctx_at (heap s) h = Some g" "g_live g"
      "wf_r r (heap s)" "end_post r h g (heap s) (heap s')" "last_text s' = None"
      "good (heap s')" "evolves (heap s) (heap s')"
proof -
  consider (zero) "h = 0" | (dead) g where "h \<noteq> 0" "ctx_at (heap s) h = Some g" "\<not> g_live g"
    | (live) g where "ctx_at (heap s) h = Some g" "g_live g" using h by auto
  then show ?thesis
  proof cases
    case zero
    then show ?thesis
      using good_zero [OF good] by (intro idle) (simp_all add: fx_guest_end_def loop_EndGuest ctx_at_def)
  next
    case (dead g)
    then show ?thesis by (intro idle) (simp_all add: fx_guest_end_def loop_EndGuest)
  next
    case (live g)
    from good_wf [OF good] obtain r where wf: "wf_r r (heap s)" by blast
    from end_live [OF wf live, of s] obtain H
      where run: "guest_end_loop (EndGuest h) s = Some (set_heap H (clear_last_text s))"
        and post: "end_post r h g (heap s) H" by (auto simp: set_heap_def)
    from post have "wf_r r H" "shrinks (heap s) H" by (simp_all add: end_post_def)
    then have "good H" "evolves (heap s) H"
      using good_strings [OF good] by (auto simp: good_def wf_def strings_ok_shrinks evolves_shrinks)
    with live wf run post show ?thesis
      by (intro ended [of "set_heap H (clear_last_text s)" g r])
        (simp_all add: fx_guest_end_def set_heap_def clear_last_text_def)
  qed
qed

end
