(* ===== verification/CapIO.thy ===== *)
theory CapIO
  imports CapRuntime
begin

text \<open>
  The guarded file operations of \<open>host/cap/fx_cap_runtime.c\<close>: reading a whole file into the
  runtime's text buffer and writing one, each behind a capability. The disk maps paths to
  bytes; how a call of the C library fares (an open, a seek or an allocation that fails, a
  short read or write, a failing close) is a record of outcomes given with each call.
\<close>

section \<open>The C library's outcomes and the disk\<close>

type_synonym disk = "string \<rightharpoonup> string"

text \<open>
  The size \<open>ftell\<close> reports is its own outcome: the file may have changed since. The bytes
  that reach the disk are decided by \<open>io_flushed\<close> when the write or the close failed.
\<close>

record io_env =
  io_open :: bool
  io_seek_end :: bool
  io_tell :: i64
  io_seek_set :: bool
  io_malloc :: bool
  io_read :: nat
  io_wrote :: nat
  io_close :: bool
  io_flushed :: nat

definition io_fine :: "nat \<Rightarrow> io_env" where
  "io_fine n = \<lparr>io_open = True, io_seek_end = True, io_tell = of_nat n, io_seek_set = True,
     io_malloc = True, io_read = n, io_wrote = n, io_close = True, io_flushed = n\<rparr>"

section \<open>Reading\<close>

text \<open>
  \<open>read_all\<close>: the outer option is undefined behaviour (the terminator written outside the
  buffer of \<open>sz + 1\<close> bytes), the inner one the NULL result.
\<close>

definition fread_n :: "io_env \<Rightarrow> nat \<Rightarrow> string \<Rightarrow> nat" where
  "fread_n e sz bytes = min (min sz (length bytes)) (io_read e)"

definition read_all :: "io_env \<Rightarrow> disk \<Rightarrow> string \<Rightarrow> string option option" where
  "read_all e d path =
     (if \<not> io_open e then Some None
      else case d path of None \<Rightarrow> Some None | Some bytes \<Rightarrow>
        if \<not> io_seek_end e then Some None
        else let sz = sint (io_tell e) in
          if sz < 0 then Some None
          else if \<not> io_seek_set e then Some None
          else if \<not> io_malloc e then Some None
          else let n = fread_n e (nat sz) bytes;
                   raw = take n bytes @ replicate (nat sz + 1 - n) NUL in
            do { buf \<leftarrow> aset raw n NUL;
                 Some (Some (take n buf)) })"

text \<open>
  The text a read leaves is the runtime's own block: \<open>fx_io_cap_last_text\<close> hands out a pointer
  into it, and the next read, or the end of a session, frees it. A pointer argument is one to
  memory of the caller, whose string is given with it, or one to a block of the runtime. Using
  a pointer to a block that was freed is undefined; a C reader sees a block up to its first NUL.
\<close>

datatype text_ptr = Outside cptr | LastText nat

fun deref_text :: "text_ptr \<Rightarrow> cmem \<Rightarrow> cptr option" where
  "deref_text (Outside p) s = Some p"
| "deref_text (LastText k) s =
     (case last_text s of
        None \<Rightarrow> None
      | Some t \<Rightarrow> if k = text_no s then Some (Some (takeWhile (\<lambda>c. c \<noteq> NUL) t)) else None)"

definition fx_io_cap_last_text :: "cmem \<Rightarrow> text_ptr" where
  "fx_io_cap_last_text s = (case last_text s of None \<Rightarrow> Outside (Some '''') | Some t \<Rightarrow> LastText (text_no s))"

definition fx_io_cap_read_file ::
  "io_env \<Rightarrow> disk \<Rightarrow> i64 \<Rightarrow> text_ptr \<Rightarrow> cmem \<Rightarrow> (int \<times> cmem) option" where
  "fx_io_cap_read_file e d fs_handle path s =
     do { s \<leftarrow> Some (clear_last_text s);
          path \<leftarrow> deref_text path s;
          allowed \<leftarrow> fx_fscap_path_allowed (fx_fscap_from_handle fs_handle) path s;
          if \<not> allowed then Some (FX_CAP_DENIED, s)
          else case path of None \<Rightarrow> None | Some p \<Rightarrow> do {
            r \<leftarrow> read_all e d p;
            case r of
              None \<Rightarrow> Some (FX_CAP_IO_ERR, s)
            | Some bytes \<Rightarrow> Some (FX_CAP_OK, s\<lparr>last_text := Some bytes, text_no := Suc (text_no s)\<rparr>) } }"

section \<open>Writing\<close>

definition fx_io_cap_write_file ::
  "io_env \<Rightarrow> i64 \<Rightarrow> cptr \<Rightarrow> cptr \<Rightarrow> cmem \<Rightarrow> disk \<Rightarrow> (int \<times> disk) option" where
  "fx_io_cap_write_file e out_handle path data s d =
     do { allowed \<leftarrow> fx_outcap_path_allowed (fx_outcap_from_handle out_handle) path s;
          if \<not> allowed then Some (FX_CAP_DENIED, d)
          else case path of None \<Rightarrow> None | Some p \<Rightarrow>
            let data = (case data of None \<Rightarrow> '''' | Some t \<Rightarrow> t) in
            if \<not> io_open e then Some (FX_CAP_IO_ERR, d)
            else let n = strlen data;
                     wrote = min n (io_wrote e) in
              if \<not> io_close e \<or> wrote \<noteq> n
              then Some (FX_CAP_IO_ERR, d(p \<mapsto> take (min wrote (io_flushed e)) data))
              else Some (FX_CAP_OK, d(p \<mapsto> take n data)) }"

section \<open>What they do\<close>

text \<open>
  A pointer that was just handed out reads the last text up to its first NUL. Passing it on to
  the next read is undefined: that read frees the block before it looks at the path.
\<close>

lemma last_text_reads:
  "deref_text (fx_io_cap_last_text s) s =
     Some (Some (case last_text s of None \<Rightarrow> '''' | Some t \<Rightarrow> takeWhile (\<lambda>c. c \<noteq> NUL) t))"
  by (simp add: fx_io_cap_last_text_def split: option.split)

lemma read_through_last_text:
  assumes "last_text s \<noteq> None"
  shows "fx_io_cap_read_file e d h (fx_io_cap_last_text s) s = None"
  using assms by (auto simp: fx_io_cap_read_file_def fx_io_cap_last_text_def clear_last_text_def)

lemma read_all_total:
  "\<exists>r. read_all e d path = Some r"
  "read_all e d path = Some (Some bytes) \<Longrightarrow> \<exists>whole. d path = Some whole \<and> prefix bytes whole
     \<and> int (length bytes) \<le> sint (io_tell e)"
proof -
  have n: "fread_n e sz b \<le> sz \<and> fread_n e sz b \<le> length b" for sz b by (auto simp: fread_n_def min_def)
  have inb: "n < length (take n b @ replicate (sz + 1 - n) NUL)"
    and tk: "take n ((take n b @ replicate (sz + 1 - n) NUL)[n := c]) = take n b"
    if "n \<le> sz" "n \<le> length b" for n sz c and b :: string
    using that by simp_all
  show "\<exists>r. read_all e d path = Some r"
    using inb [OF conjunct1 [OF n] conjunct2 [OF n]]
    by (auto simp: read_all_def Let_def bind_iff aset_def split: option.splits)
  assume "read_all e d path = Some (Some bytes)"
  then show "\<exists>whole. d path = Some whole \<and> prefix bytes whole \<and> int (length bytes) \<le> sint (io_tell e)"
    using tk [OF conjunct1 [OF n] conjunct2 [OF n]] n [of "nat (sint (io_tell e))"]
    by (auto simp: read_all_def Let_def bind_iff take_is_prefix split: option.splits if_splits)
qed

lemma read_all_fine:
  assumes "d path = Some bytes" and "length bytes < 2 ^ 63"
  shows "read_all (io_fine (length bytes)) d path = Some (Some bytes)"
proof -
  have "sint (of_nat (length bytes) :: i64) = int (length bytes)"
    using assms(2) by (simp add: signed_of_nat signed_take_bit_int_eq_self)
  then show ?thesis
    using assms by (simp add: read_all_def io_fine_def fread_n_def aset_def)
qed

end
