(* ===== verification/CapSession.thy ===== *)
theory CapSession
  imports GuestBegin CapIO
begin

text \<open>
  Whole runs of a client of the capability runtime: every entry point that takes a handle is
  a call, a call is admissible when each handle it passes is NULL or was once handed out for
  an object of that type (dead or not) and each string is NUL-terminated, and a run is any
  sequence of admissible calls from an empty heap, with any allocator and any I/O outcomes.
  The stand-alone \<open>fx_fscap_free\<close> and \<open>fx_outcap_free\<close> are not calls: they give the memory
  back, so no handle may outlive them.
\<close>

section \<open>Calls\<close>

record world =
  w_mem :: cmem
  w_disk :: disk

datatype api_call =
    BeginGuest cptr i64
  | BeginNested addr cptr i64
  | EndSession addr
  | MintFs addr cptr
  | MintOut addr cptr
  | MintAlloc addr i64
  | MintFuel addr i64
  | MintNet addr cptr i32 i32
  | ArenaAlloc addr i64
  | BudgetAlloc addr i64
  | BurnFuel addr i64
  | IsLive addr
  | NetAllows addr cptr i32
  | ReadFile addr text_ptr io_env
  | WriteFile addr cptr cptr io_env

datatype answer = Handle addr | Flag bool | Status int

definition on_mem :: "('a \<Rightarrow> answer) \<Rightarrow> world \<Rightarrow> ('a \<times> cmem) option \<Rightarrow> (answer \<times> world) option" where
  "on_mem f w r = map_option (\<lambda>(x, s). (f x, w\<lparr>w_mem := s\<rparr>)) r"

fun exec_call :: "api_call \<Rightarrow> world \<Rightarrow> (answer \<times> world) option" where
  "exec_call (BeginGuest root n) w = on_mem Handle w (fx_guest_begin root n (w_mem w))"
| "exec_call (BeginNested p root n) w = on_mem Handle w (fx_guest_begin_nested p root n (w_mem w))"
| "exec_call (EndSession h) w = on_mem Status w (fx_guest_end h (w_mem w))"
| "exec_call (MintFs h root) w = on_mem Handle w (fx_guest_mint_fscap h root (w_mem w))"
| "exec_call (MintOut h root) w = on_mem Handle w (fx_guest_mint_outcap h root (w_mem w))"
| "exec_call (MintAlloc h budget) w = on_mem Handle w (fx_guest_mint_alloccap h budget (w_mem w))"
| "exec_call (MintFuel h units) w = on_mem Handle w (fx_guest_mint_fuelcap h units (w_mem w))"
| "exec_call (MintNet h host pmin pmax) w =
     on_mem Handle w (fx_guest_mint_netcap h host pmin pmax (w_mem w))"
| "exec_call (ArenaAlloc h n) w = on_mem Handle w (fx_guest_alloc h n (w_mem w))"
| "exec_call (BudgetAlloc a n) w = on_mem Handle w (fx_alloccap_alloc a n (w_mem w))"
| "exec_call (BurnFuel f n) w = on_mem Flag w (fx_fuelcap_burn f n (w_mem w))"
| "exec_call (IsLive h) w = map_option (\<lambda>b. (Flag b, w)) (fx_guest_is_live h (w_mem w))"
| "exec_call (NetAllows n host port) w =
     map_option (\<lambda>b. (Flag b, w)) (fx_netcap_allows n host port (w_mem w))"
| "exec_call (ReadFile c path e) w =
     on_mem Status w (fx_io_cap_read_file e (w_disk w) c path (w_mem w))"
| "exec_call (WriteFile c path data e) w =
     map_option (\<lambda>(r, d). (Status r, w\<lparr>w_disk := d\<rparr>))
       (fx_io_cap_write_file e c path data (w_mem w) (w_disk w))"

definition cptr_ok :: "cptr \<Rightarrow> bool" where
  "cptr_ok p \<longleftrightarrow> (case p of None \<Rightarrow> True | Some s \<Rightarrow> cstr s)"

fun outside_ok :: "text_ptr \<Rightarrow> bool" where
  "outside_ok (Outside p) \<longleftrightarrow> cptr_ok p"
| "outside_ok (LastText k) \<longleftrightarrow> False"

definition typed :: "(cheap \<Rightarrow> addr \<Rightarrow> 'a option) \<Rightarrow> cheap \<Rightarrow> addr \<Rightarrow> bool" where
  "typed at H a \<longleftrightarrow> a = 0 \<or> at H a \<noteq> None"

fun call_ok :: "cheap \<Rightarrow> api_call \<Rightarrow> bool" where
  "call_ok H (BeginGuest root n) \<longleftrightarrow> cptr_ok root"
| "call_ok H (BeginNested p root n) \<longleftrightarrow> typed ctx_at H p \<and> cptr_ok root"
| "call_ok H (EndSession h) \<longleftrightarrow> typed ctx_at H h"
| "call_ok H (MintFs h root) \<longleftrightarrow> typed ctx_at H h \<and> cptr_ok root"
| "call_ok H (MintOut h root) \<longleftrightarrow> typed ctx_at H h \<and> cptr_ok root"
| "call_ok H (MintAlloc h b) \<longleftrightarrow> typed ctx_at H h"
| "call_ok H (MintFuel h u) \<longleftrightarrow> typed ctx_at H h"
| "call_ok H (MintNet h host pmin pmax) \<longleftrightarrow> typed ctx_at H h \<and> cptr_ok host"
| "call_ok H (ArenaAlloc h n) \<longleftrightarrow> typed ctx_at H h"
| "call_ok H (BudgetAlloc a n) \<longleftrightarrow> typed alloc_at H a"
| "call_ok H (BurnFuel f n) \<longleftrightarrow> typed fuel_at H f"
| "call_ok H (IsLive h) \<longleftrightarrow> typed ctx_at H h"
| "call_ok H (NetAllows n host port) \<longleftrightarrow> typed net_at H n \<and> cptr_ok host"
| "call_ok H (ReadFile c path e) \<longleftrightarrow> typed fs_at H c \<and> outside_ok path"
| "call_ok H (WriteFile c path data e) \<longleftrightarrow> typed out_at H c \<and> cptr_ok path \<and> cptr_ok data"

abbreviation w_heap :: "world \<Rightarrow> cheap" where
  "w_heap w \<equiv> heap (w_mem w)"

inductive calls :: "world \<Rightarrow> world \<Rightarrow> bool" where
  calls_refl: "calls w w"
| calls_step: "calls w w1 \<Longrightarrow> call_ok (w_heap w1) c \<Longrightarrow> exec_call c w1 = Some (r, w2) \<Longrightarrow> calls w w2"

definition fresh_world :: "addr list \<Rightarrow> disk \<Rightarrow> world" where
  "fresh_world as d = \<lparr>w_mem = \<lparr>heap = Map.empty, avail = as, last_text = None, text_no = 0\<rparr>, w_disk = d\<rparr>"

definition reachable :: "world \<Rightarrow> bool" where
  "reachable w \<longleftrightarrow> (\<exists>as d. calls (fresh_world as d) w)"

section \<open>What the guards decide\<close>

text \<open>A capability grants a path when it is live and the path lies under its root.\<close>

definition fs_grants :: "cheap \<Rightarrow> addr \<Rightarrow> cptr \<Rightarrow> bool" where
  "fs_grants H c path \<longleftrightarrow>
     (case (fs_at H c, path) of (Some k, Some p) \<Rightarrow> fs_live k \<and> path_under_root (fs_root k) p
      | _ \<Rightarrow> False)"

definition out_grants :: "cheap \<Rightarrow> addr \<Rightarrow> cptr \<Rightarrow> bool" where
  "out_grants H c path \<longleftrightarrow>
     (case (out_at H c, path) of (Some k, Some p) \<Rightarrow> out_live k \<and> path_under_root (out_root k) p
      | _ \<Rightarrow> False)"

definition net_grants :: "cheap \<Rightarrow> addr \<Rightarrow> cptr \<Rightarrow> i32 \<Rightarrow> bool" where
  "net_grants H n host port \<longleftrightarrow>
     (case (net_at H n, host) of (Some k, Some hs) \<Rightarrow>
        net_live k \<and> hs \<noteq> [] \<and> net_host k = hs \<and>
        sint (net_port_min k) \<le> sint port \<and> sint port \<le> sint (net_port_max k)
      | _ \<Rightarrow> False)"

lemma fs_guard:
  assumes "good (heap s)" and "typed fs_at (heap s) c" and "cptr_ok path"
  shows "fx_fscap_path_allowed c path s = Some (fs_grants (heap s) c path)"
proof (cases "c = 0")
  case True
  then show ?thesis
    using good_zero [OF assms(1)] by (simp add: fx_fscap_path_allowed_def fs_grants_def fs_at_def)
next
  case False
  with assms(2) obtain k where k: "fs_at (heap s) c = Some k" by (auto simp: typed_def)
  then have "cstr (fs_root k)"
    using good_strings [OF assms(1)] by (fastforce simp: strings_ok_def at_iff)
  with False k assms(3) show ?thesis
    by (cases path)
      (auto simp: fx_fscap_path_allowed_def fs_grants_def cptr_ok_def path_allowed_eq path_allowed_null)
qed

lemma out_guard:
  assumes "good (heap s)" and "typed out_at (heap s) c" and "cptr_ok path"
  shows "fx_outcap_path_allowed c path s = Some (out_grants (heap s) c path)"
proof (cases "c = 0")
  case True
  then show ?thesis
    using good_zero [OF assms(1)] by (simp add: fx_outcap_path_allowed_def out_grants_def out_at_def)
next
  case False
  with assms(2) obtain k where k: "out_at (heap s) c = Some k" by (auto simp: typed_def)
  then have "cstr (out_root k)"
    using good_strings [OF assms(1)] by (fastforce simp: strings_ok_def at_iff)
  with False k assms(3) show ?thesis
    by (cases path)
      (auto simp: fx_outcap_path_allowed_def out_grants_def cptr_ok_def path_allowed_eq path_allowed_null)
qed

lemma net_guard:
  assumes "good (heap s)" and "typed net_at (heap s) n" and "cptr_ok host"
  shows "fx_netcap_allows n host port s = Some (net_grants (heap s) n host port)"
proof (cases "n = 0")
  case True
  then show ?thesis
    using good_zero [OF assms(1)]
    by (simp add: fx_netcap_allows_def fx_netcap_host_port_allowed_def net_grants_def net_at_def)
next
  case False
  with assms(2) obtain k where k: "net_at (heap s) n = Some k" by (auto simp: typed_def)
  then have c: "cstr (net_host k)"
    using good_strings [OF assms(1)] by (fastforce simp: strings_ok_def at_iff)
  have "chd hs = NUL \<longleftrightarrow> hs = []" if "cstr hs" for hs using that by (cases hs) auto
  with False k c assms(3) show ?thesis
    by (cases host) (auto simp: fx_netcap_allows_def fx_netcap_host_port_allowed_def net_grants_def
        cptr_ok_def strcmp_eq)
qed

end
