(* ===== verification/CapRuns.thy ===== *)
theory CapRuns
  imports CapSession
begin

text \<open>
  Every admissible call on a good memory returns and keeps it good, hence every run does;
  what a run may do to one object (\<open>evolves_at\<close>) is the basis of the properties that
  speak of old handles.
\<close>

section \<open>One call\<close>

definition good_step :: "world \<Rightarrow> api_call \<Rightarrow> bool" where
  "good_step w c \<longleftrightarrow> (\<exists>r w'. exec_call c w = Some (r, w') \<and> good (w_heap w') \<and>
     evolves (w_heap w) (w_heap w'))"

lemma good_step_mem:
  assumes "exec_call c w = on_mem f w m" and "m = Some (x, s')"
    and "good (heap s')" and "evolves (w_heap w) (heap s')"
  shows "good_step w c"
  using assms by (auto simp: good_step_def on_mem_def)

lemma good_step_same:
  assumes "exec_call c w = on_mem f w m" and "m = Some (x, s')" and "heap s' = w_heap w"
    and "good (w_heap w)"
  shows "good_step w c"
  using good_step_mem [OF assms(1,2)] assms(3,4) by simp

lemma good_step_pure:
  assumes "exec_call c w = Some (r, w')" and "w_heap w' = w_heap w" and "good (w_heap w)"
  shows "good_step w c"
  using assms by (auto simp: good_step_def)

lemma read_file_step:
  assumes "good (heap s)" and "typed fs_at (heap s) c" and "cptr_ok path"
  obtains (denied) "fx_io_cap_read_file e d c (Outside path) s = Some (FX_CAP_DENIED, clear_last_text s)"
      "\<not> fs_grants (heap s) c path"
  | (error) p where "fx_io_cap_read_file e d c (Outside path) s = Some (FX_CAP_IO_ERR, clear_last_text s)"
      "path = Some p" "fs_grants (heap s) c path" "read_all e d p = Some None"
  | (ok) p bytes where "fx_io_cap_read_file e d c (Outside path) s =
        Some (FX_CAP_OK, s\<lparr>last_text := Some bytes, text_no := Suc (text_no s)\<rparr>)"
      "path = Some p" "fs_grants (heap s) c path" "read_all e d p = Some (Some bytes)"
proof -
  have g: "fx_fscap_path_allowed c path (clear_last_text s) = Some (fs_grants (heap s) c path)"
    using fs_guard [of "clear_last_text s"] assms by (simp add: clear_last_text_def)
  show ?thesis
  proof (cases "fs_grants (heap s) c path")
    case False
    with g denied show ?thesis by (simp add: fx_io_cap_read_file_def)
  next
    case True
    then obtain p where p: "path = Some p" by (auto simp: fs_grants_def split: option.splits)
    from read_all_total(1) obtain r where "read_all e d p = Some r" by blast
    with g True p error ok show ?thesis
      by (cases r) (simp_all add: fx_io_cap_read_file_def clear_last_text_def)
  qed
qed

lemma write_file_step:
  assumes "good (heap s)" and "typed out_at (heap s) c" and "cptr_ok path"
  obtains (denied) "fx_io_cap_write_file e c path data s d = Some (FX_CAP_DENIED, d)"
      "\<not> out_grants (heap s) c path"
  | (granted) p st d' where "fx_io_cap_write_file e c path data s d = Some (st, d')"
      "path = Some p" "out_grants (heap s) c path" "st = FX_CAP_OK \<or> st = FX_CAP_IO_ERR"
      "\<And>q. q \<noteq> p \<Longrightarrow> d' q = d q"
      "st = FX_CAP_OK \<Longrightarrow> d' p = Some (case data of None \<Rightarrow> '''' | Some t \<Rightarrow> take (strlen t) t)"
proof -
  note g = out_guard [OF assms]
  show ?thesis
  proof (cases "out_grants (heap s) c path")
    case False
    with g denied show ?thesis by (simp add: fx_io_cap_write_file_def)
  next
    case True
    then obtain p where p: "path = Some p" by (auto simp: out_grants_def split: option.splits)
    have ne: "FX_CAP_OK \<noteq> FX_CAP_IO_ERR" by (simp add: FX_CAP_OK_def FX_CAP_IO_ERR_def)
    let ?data = "case data of None \<Rightarrow> '''' | Some t \<Rightarrow> t"
    let ?n = "strlen ?data"
    consider "\<not> io_open e" | "io_open e" "\<not> io_close e \<or> min ?n (io_wrote e) \<noteq> ?n"
      | "io_open e" "io_close e" "min ?n (io_wrote e) = ?n" by blast
    then show ?thesis
    proof cases
      case 1
      with g True p ne granted [of FX_CAP_IO_ERR d p] show ?thesis
        by (simp add: fx_io_cap_write_file_def)
    next
      case 2
      with g True p ne granted [of FX_CAP_IO_ERR
          "d(p \<mapsto> take (min (min ?n (io_wrote e)) (io_flushed e)) ?data)" p] show ?thesis
        by (simp add: fx_io_cap_write_file_def Let_def)
    next
      case 3
      with g True p ne granted [of FX_CAP_OK "d(p \<mapsto> take ?n ?data)" p] show ?thesis
        by (cases data) (simp_all add: fx_io_cap_write_file_def Let_def)
    qed
  qed
qed

lemma exec_good:
  assumes good: "good (w_heap w)" and ok: "call_ok (w_heap w) c"
  shows "good_step w c"
proof (cases c)
  case (BeginGuest root n)
  from good show ?thesis
    by (cases rule: begin_step [of "w_mem w" root n])
      (use BeginGuest good in \<open>auto intro: good_step_same good_step_mem\<close>)
next
  case (BeginNested p root n)
  have "p = 0 \<or> ctx_at (w_heap w) p \<noteq> None" using ok BeginNested by (simp add: typed_def)
  from good this show ?thesis
    by (cases rule: begin_nested_step [where root = root and n = n])
      (use BeginNested good in \<open>auto intro: good_step_same good_step_mem\<close>)
next
  case (EndSession h)
  have "h = 0 \<or> ctx_at (w_heap w) h \<noteq> None" using ok EndSession by (simp add: typed_def)
  from good this show ?thesis
    by (cases rule: end_step) (use EndSession good in \<open>auto intro: good_step_same good_step_mem\<close>)
next
  case (MintFs h root)
  have "h = 0 \<or> ctx_at (w_heap w) h \<noteq> None" using ok MintFs by (simp add: typed_def)
  from good this show ?thesis
    by (cases rule: mint_fscap_step [where root = root])
      (use MintFs good in \<open>auto intro: good_step_same good_step_mem\<close>)
next
  case (MintOut h root)
  have "h = 0 \<or> ctx_at (w_heap w) h \<noteq> None" using ok MintOut by (simp add: typed_def)
  from good this show ?thesis
    by (cases rule: mint_outcap_step [where root = root])
      (use MintOut good in \<open>auto intro: good_step_same good_step_mem\<close>)
next
  case (MintAlloc h b)
  have "h = 0 \<or> ctx_at (w_heap w) h \<noteq> None" using ok MintAlloc by (simp add: typed_def)
  from good this show ?thesis
    by (cases rule: mint_alloccap_step [where budget = b])
      (use MintAlloc good in \<open>auto intro: good_step_same good_step_mem\<close>)
next
  case (MintFuel h u)
  have "h = 0 \<or> ctx_at (w_heap w) h \<noteq> None" using ok MintFuel by (simp add: typed_def)
  from good this show ?thesis
    by (cases rule: mint_fuelcap_step [where units = u])
      (use MintFuel good in \<open>auto intro: good_step_same good_step_mem\<close>)
next
  case (MintNet h host pmin pmax)
  have "h = 0 \<or> ctx_at (w_heap w) h \<noteq> None" using ok MintNet by (simp add: typed_def)
  from good this show ?thesis
    by (cases rule: mint_netcap_step [where allow_host = host and port_min = pmin and port_max = pmax])
      (use MintNet good in \<open>auto intro: good_step_same good_step_mem\<close>)
next
  case (ArenaAlloc h n)
  have "h = 0 \<or> ctx_at (w_heap w) h \<noteq> None" using ok ArenaAlloc by (simp add: typed_def)
  from good this show ?thesis
    by (cases rule: bump_alloc_step [where n = n])
      (use ArenaAlloc good in \<open>auto simp: fx_guest_alloc_def intro: good_step_same good_step_mem\<close>)
next
  case (BudgetAlloc a n)
  have "a = 0 \<or> alloc_at (w_heap w) a \<noteq> None" using ok BudgetAlloc by (simp add: typed_def)
  from good this show ?thesis
    by (cases rule: cap_alloc_step [where n = n])
      (use BudgetAlloc good in \<open>auto intro: good_step_same good_step_mem\<close>)
next
  case (BurnFuel f n)
  have "f = 0 \<or> fuel_at (w_heap w) f \<noteq> None" using ok BurnFuel by (simp add: typed_def)
  from good this show ?thesis
    by (cases rule: burn_step [where n = n])
      (use BurnFuel good in \<open>auto intro: good_step_same good_step_mem\<close>)
next
  case (IsLive h)
  with ok have "exec_call c w \<noteq> None"
    by (auto simp: typed_def fx_guest_is_live_def)
  then obtain b where "exec_call c w = Some (Flag b, w)" using IsLive by auto
  with good show ?thesis by (auto intro: good_step_pure)
next
  case (NetAllows n host port)
  with ok good show ?thesis by (auto simp: net_guard intro!: good_step_pure)
next
  case (ReadFile k p e)
  with ok obtain path where p: "p = Outside path" and t: "typed fs_at (w_heap w) k" "cptr_ok path"
    by (cases p) simp_all
  from good t show ?thesis
    by (cases rule: read_file_step [where e = e and d = "w_disk w"])
      (use ReadFile p good in \<open>auto simp: clear_last_text_def intro!: good_step_same\<close>)
next
  case (WriteFile k path data e)
  with ok have t: "typed out_at (w_heap w) k" "cptr_ok path" by simp_all
  from good t show ?thesis
    by (cases rule: write_file_step [where e = e and d = "w_disk w" and data = data])
      (use WriteFile good in \<open>auto intro!: good_step_pure\<close>)
qed

section \<open>Runs\<close>

inductive_cases calls_stepE: "calls w w'"

lemma exec_keeps_good:
  assumes "good (w_heap w)" and "call_ok (w_heap w) c" and "exec_call c w = Some (r, w')"
  shows "good (w_heap w')" and "evolves (w_heap w) (w_heap w')"
  using exec_good [OF assms(1,2)] assms(3) by (auto simp: good_step_def)

lemma calls_good:
  assumes "calls w w'" and "good (w_heap w)"
  shows "good (w_heap w') \<and> evolves (w_heap w) (w_heap w')"
  using assms by (induction rule: calls.induct) (auto dest: exec_keeps_good intro: evolves_trans)

lemma good_fresh: "good (w_heap (fresh_world as d))"
  by (simp add: fresh_world_def good_def wf_def wf_empty strings_ok_def)

lemma reachable_good: "reachable w \<Longrightarrow> good (w_heap w)"
  unfolding reachable_def using calls_good good_fresh by blast

lemma calls_trans: "calls w1 w2 \<Longrightarrow> calls w w1 \<Longrightarrow> calls w w2"
  by (induction rule: calls.induct) (auto intro: calls.intros)

lemma reachable_calls: "reachable w \<Longrightarrow> calls w w' \<Longrightarrow> reachable w'"
  unfolding reachable_def using calls_trans by blast

lemma reachable_evolves: "reachable w \<Longrightarrow> calls w w' \<Longrightarrow> evolves (w_heap w) (w_heap w')"
  using calls_good reachable_good by blast

lemma reachable_exec:
  assumes "reachable w" and "call_ok (w_heap w) c" and "exec_call c w = Some (r, w')"
  shows "calls w w'" and "reachable w'"
proof -
  show "calls w w'" using calls_step [OF calls_refl assms(2,3)] .
  then show "reachable w'" using assms(1) reachable_calls by blast
qed

text \<open>What an evolution says of one object.\<close>

lemma evolves_at:
  assumes "evolves H H'"
  shows "ctx_at H a = Some g \<Longrightarrow> \<exists>g'. ctx_at H' a = Some g' \<and> ctx_evolves g g'"
    and "fs_at H a = Some fc \<Longrightarrow> \<exists>fc'. fs_at H' a = Some fc' \<and> fs_root fc' = fs_root fc \<and> (fs_live fc' \<longrightarrow> fs_live fc)"
    and "out_at H a = Some oc \<Longrightarrow> \<exists>oc'. out_at H' a = Some oc' \<and> out_root oc' = out_root oc \<and> (out_live oc' \<longrightarrow> out_live oc)"
    and "alloc_at H a = Some ac \<Longrightarrow> \<exists>ac'. alloc_at H' a = Some ac' \<and>
      (al_live ac' \<longrightarrow> al_live ac \<and> al_ctx ac' = al_ctx ac \<and> sint (al_budget ac') \<le> sint (al_budget ac))"
    and "fuel_at H a = Some uc \<Longrightarrow> \<exists>uc'. fuel_at H' a = Some uc' \<and>
      (fu_live uc' \<longrightarrow> fu_live uc \<and> fu_ctx uc' = fu_ctx uc \<and> sint (fu_units uc') \<le> sint (fu_units uc))"
    and "net_at H a = Some nc \<Longrightarrow> \<exists>nc'. net_at H' a = Some nc' \<and> net_host nc' = net_host nc \<and>
      net_port_min nc' = net_port_min nc \<and> net_port_max nc' = net_port_max nc \<and> (net_live nc' \<longrightarrow> net_live nc)"
proof -
  have e: "obj_evolves (H a) (H' a)" using assms by (simp add: evolves_def)
  show "ctx_at H a = Some g \<Longrightarrow> \<exists>g'. ctx_at H' a = Some g' \<and> ctx_evolves g g'"
    using e by (auto simp: at_iff)
  show "fs_at H a = Some fc \<Longrightarrow> \<exists>fc'. fs_at H' a = Some fc' \<and> fs_root fc' = fs_root fc \<and> (fs_live fc' \<longrightarrow> fs_live fc)"
    using e by (auto simp: at_iff)
  show "out_at H a = Some oc \<Longrightarrow> \<exists>oc'. out_at H' a = Some oc' \<and> out_root oc' = out_root oc \<and> (out_live oc' \<longrightarrow> out_live oc)"
    using e by (auto simp: at_iff)
  show "alloc_at H a = Some ac \<Longrightarrow> \<exists>ac'. alloc_at H' a = Some ac' \<and>
      (al_live ac' \<longrightarrow> al_live ac \<and> al_ctx ac' = al_ctx ac \<and> sint (al_budget ac') \<le> sint (al_budget ac))"
    using e by (auto simp: at_iff)
  show "fuel_at H a = Some uc \<Longrightarrow> \<exists>uc'. fuel_at H' a = Some uc' \<and>
      (fu_live uc' \<longrightarrow> fu_live uc \<and> fu_ctx uc' = fu_ctx uc \<and> sint (fu_units uc') \<le> sint (fu_units uc))"
    using e by (auto simp: at_iff)
  show "net_at H a = Some nc \<Longrightarrow> \<exists>nc'. net_at H' a = Some nc' \<and> net_host nc' = net_host nc \<and>
      net_port_min nc' = net_port_min nc \<and> net_port_max nc' = net_port_max nc \<and> (net_live nc' \<longrightarrow> net_live nc)"
    using e by (auto simp: at_iff)
qed

lemma evolves_typed:
  assumes "evolves H H'"
  shows "typed ctx_at H a \<Longrightarrow> typed ctx_at H' a" "typed fs_at H a \<Longrightarrow> typed fs_at H' a"
    "typed out_at H a \<Longrightarrow> typed out_at H' a" "typed alloc_at H a \<Longrightarrow> typed alloc_at H' a"
    "typed fuel_at H a \<Longrightarrow> typed fuel_at H' a" "typed net_at H a \<Longrightarrow> typed net_at H' a"
  using evolves_at [OF assms, of a] by (auto simp: typed_def)

lemma evolves_dead_cap:
  assumes "evolves H H'" and "H a = Some ob" and "\<not> obj_live ob" and "\<And>n. ob \<noteq> ArenaObj n"
  shows "\<not> cap_live H' a"
proof -
  have e: "obj_evolves (Some ob) (H' a)" using assms(1,2) by (metis evolves_def)
  with assms(3,4) show ?thesis by (cases ob) (auto simp: cap_live_def)
qed

section \<open>Executable runs\<close>

text \<open>A run given by its calls; it stops with None at a call that is not admissible.\<close>

fun exec_run :: "api_call list \<Rightarrow> world \<Rightarrow> (answer list \<times> world) option" where
  "exec_run [] w = Some ([], w)"
| "exec_run (c # cs) w =
     (if call_ok (w_heap w) c then
        do { (r, w) \<leftarrow> exec_call c w; (rs, w) \<leftarrow> exec_run cs w; Some (r # rs, w) }
      else None)"

lemma exec_run_calls: "exec_run cs w = Some (rs, w') \<Longrightarrow> calls w w'"
proof (induction cs arbitrary: w rs)
  case (Cons c cs)
  then obtain r rs' w1 where "call_ok (w_heap w) c" "exec_call c w = Some (r, w1)"
    "exec_run cs w1 = Some (rs', w')" by (auto simp: bind_iff split: if_splits)
  with Cons.IH calls_step [OF calls_refl] show ?case by (blast intro: calls_trans)
qed (simp add: calls_refl)

lemma exec_run_reachable: "exec_run cs (fresh_world as d) = Some (rs, w) \<Longrightarrow> reachable w"
  unfolding reachable_def using exec_run_calls by blast

text \<open>The definitions a concrete run evaluates.\<close>

lemmas run_defs = on_mem_def fx_guest_begin_def fx_guest_begin_nested_def fx_guest_mint_fscap_def
  fx_guest_mint_outcap_def fx_guest_mint_alloccap_def fx_guest_mint_fuelcap_def
  fx_guest_mint_netcap_def fx_fuelcap_burn_def fx_alloccap_alloc_def guest_bump_alloc_def
  fx_guest_alloc_def fx_guest_is_live_def fx_fscap_mint_def fx_outcap_mint_def calloc_def usable_def
  guest_open_def arena_bytes_of_def FX_GUEST_DEFAULT_ARENA_def nonempty_root_def mint_root_def
  FX_ROOT_SIZE_def FX_GUEST_MAX_CAPS_def FX_GUEST_MAX_CHILDREN_def FX_NET_HOST_SIZE_def put_def
  at_defs mint_root_or_default_def zero_ctx_def empty_tab_def tab_push_def aset_def strlen_def
  cptr_ok_def typed_def fresh_world_def bump_padded_def ALIGN_def

end
