(* ===== verification/GuardTheorems.thy ===== *)
theory GuardTheorems
  imports CapRuns
begin

text \<open>
  What the path guard of the runtime admits: containment, its exact decision, and the cases
  in which the decision is not what one would expect.
\<close>

section \<open>The path guard\<close>



text \<open>
  C34: Exactness and memory safety of the guard. On NUL-terminated strings every read of the
  guard stays inside its string, and it admits a path exactly when the capability is live
  and the path is relative, has no drive letter, no two adjacent dots, and continues the
  root with something that starts at a component boundary.
\<close>

theorem path_allowed_exact:
  assumes "cstr r" and "cstr p"
  shows "path_allowed (Some r) live (Some p) = Some (live \<and> p \<noteq> [] \<and> \<not> is_sep (hd p) \<and>
     chd (tl p) \<noteq> CHR '':'' \<and> \<not> sublist ''..'' p \<and>
     (\<exists>t. p = r @ t \<and> t \<noteq> [] \<and> (is_sep (hd t) \<or> r = [] \<or> is_sep (last r))))"
  using assms by (simp add: path_allowed_eq path_under_root_def dotdot_free_def)

theorem path_allowed_exact_witness:
  "path_allowed (Some ''out'') True (Some ''outer/x'') = Some False"
  by (subst path_allowed_exact) (auto simp: is_sep_def)

text \<open>
  An absolute root grants nothing: the guard refuses every path under a root that starts
  with a slash, although the mint accepts such a root.
\<close>

theorem absolute_root_admits_nothing:
  assumes "cstr r" and "cstr p" and "r \<noteq> []" and "is_sep (hd r)"
  shows "path_allowed (Some r) live (Some p) = Some False"
  using assms absolute_root_empty by (simp add: path_allowed_eq)

theorem absolute_root_admits_nothing_witness:
  "path_allowed (Some ''/srv'') True (Some ''/srv/a.txt'') = Some False"
  by (rule absolute_root_admits_nothing) (simp_all add: is_sep_def)

text \<open>
  The backslash escape on POSIX. With the root \<open>fixtures\<close> the guard admits the path
  whose first component is \<open>fixtures\secret\<close>; where only the slash separates components
  this is a sibling of the root directory, not a file under it.
\<close>

theorem backslash_sibling_admitted:
  "path_allowed (Some ''fixtures'') True (Some (''fixtures'' @ CHR 0x5C # ''secret'')) = Some True \<and>
   resolve is_slash ''fixtures'' = Some [''fixtures''] \<and>
   resolve is_slash (''fixtures'' @ CHR 0x5C # ''secret'') = Some [''fixtures'' @ CHR 0x5C # ''secret''] \<and>
   \<not> lies_under is_slash ''fixtures'' (''fixtures'' @ CHR 0x5C # ''secret'')"
proof -
  have "path_under_root ''fixtures'' (''fixtures'' @ CHR 0x5C # ''secret'')"
    by (auto simp: path_under_root_def is_sep_def dotdot_free_def sublist_code)
  then have "path_allowed (Some ''fixtures'') True (Some (''fixtures'' @ CHR 0x5C # ''secret'')) = Some True"
    by (subst path_allowed_eq) simp_all
  moreover have "resolve is_slash ''fixtures'' = Some [''fixtures'']" by code_simp
  moreover have "resolve is_slash (''fixtures'' @ CHR 0x5C # ''secret'')
      = Some [''fixtures'' @ CHR 0x5C # ''secret'']" by code_simp
  ultimately show ?thesis by (simp add: lies_under_def)
qed

end
