(* ===== verification/SessionTheorems.thy ===== *)
theory SessionTheorems
  imports CapRuns
begin

text \<open>
  Runs of any admissible calls: they return, the session graph stays a forest, ending a
  session ends its tree, and nothing of a dead session works again.
\<close>

section \<open>Sessions\<close>

text \<open>A concrete run: a session with one capability of each kind and a nested session.\<close>

definition demo_calls :: "api_call list" where
  "demo_calls = [BeginGuest (Some ''data'') 0, MintFs 0x1000 None, MintOut 0x1000 None,
     MintAlloc 0x1000 100, MintFuel 0x1000 5, MintNet 0x1000 (Some ''api'') 80 443,
     BeginNested 0x1000 None 0, MintFs 0x7000 None]"

definition demo_start :: world where
  "demo_start = fresh_world
     [0x1000, 0x100000, 0x2000, 0x3000, 0x4000, 0x5000, 0x6000, 0x7000, 0x200000, 0x8000]
     (\<lambda>_. None)"

definition demo :: world where
  "demo = (case exec_run demo_calls demo_start of Some (_, w) \<Rightarrow> w | None \<Rightarrow> demo_start)"

lemma take_1_replicate:
  "take (Suc 0) ((replicate 16 (0 :: addr))[0 := a]) = [a]"
  "take (Suc 0) ((replicate 8 (0 :: addr))[0 := a]) = [a]"
  by (simp_all add: numeral_eq_Suc)

lemma demo_run: "\<exists>w. exec_run demo_calls demo_start =
    Some ([Handle 0x1000, Handle 0x2000, Handle 0x3000, Handle 0x4000, Handle 0x5000,
           Handle 0x6000, Handle 0x7000, Handle 0x8000], w)
    \<and> last_text (w_mem w) = None \<and> avail (w_mem w) = [] \<and> w_disk w = (\<lambda>_. None)
    \<and> fs_at (w_heap w) 0x2000 = Some \<lparr>fs_root = ''data'', fs_live = True\<rparr>
    \<and> out_at (w_heap w) 0x3000 = Some \<lparr>out_root = ''data'', out_live = True\<rparr>
    \<and> alloc_at (w_heap w) 0x4000 = Some \<lparr>al_ctx = 0x1000, al_budget = 100, al_live = True\<rparr>
    \<and> fuel_at (w_heap w) 0x5000 = Some \<lparr>fu_ctx = 0x1000, fu_units = 5, fu_live = True\<rparr>
    \<and> net_at (w_heap w) 0x6000 =
        Some \<lparr>net_host = ''api'', net_port_min = 80, net_port_max = 443, net_live = True\<rparr>
    \<and> fs_at (w_heap w) 0x8000 = Some \<lparr>fs_root = ''data'', fs_live = True\<rparr>
    \<and> (\<exists>g. ctx_at (w_heap w) 0x1000 = Some g \<and> g_live g \<and> g_root g = ''data'' \<and>
        g_arena g = 0x100000 \<and> g_arena_size g = 65536 \<and> g_arena_used g = 0 \<and>
        children g = [0x7000] \<and> owned g = {0x6000, 0x5000, 0x4000, 0x3000, 0x2000})
    \<and> (\<exists>g. ctx_at (w_heap w) 0x7000 = Some g \<and> g_live g \<and> g_root g = ''data'' \<and>
        g_parent g = 0x1000 \<and> children g = [] \<and> owned g = {0x8000})"
  by (simp add: demo_calls_def demo_start_def run_defs children_def owned_def tab_items_def
      take_1_replicate)

lemma demo_eq: "exec_run demo_calls demo_start = Some (rs, w) \<Longrightarrow> demo = w"
  by (simp add: demo_def)

lemma demo_reachable: "reachable demo"
  using demo_run demo_eq exec_run_reachable unfolding demo_start_def by metis

lemma demo_caps:
  "fs_at (w_heap demo) 0x2000 = Some \<lparr>fs_root = ''data'', fs_live = True\<rparr>"
  "out_at (w_heap demo) 0x3000 = Some \<lparr>out_root = ''data'', out_live = True\<rparr>"
  "alloc_at (w_heap demo) 0x4000 = Some \<lparr>al_ctx = 0x1000, al_budget = 100, al_live = True\<rparr>"
  "fuel_at (w_heap demo) 0x5000 = Some \<lparr>fu_ctx = 0x1000, fu_units = 5, fu_live = True\<rparr>"
  "net_at (w_heap demo) 0x6000 =
     Some \<lparr>net_host = ''api'', net_port_min = 80, net_port_max = 443, net_live = True\<rparr>"
proof -
  from demo_run obtain rs w where w: "exec_run demo_calls demo_start = Some (rs, w)"
    "fs_at (w_heap w) 0x2000 = Some \<lparr>fs_root = ''data'', fs_live = True\<rparr>"
    "out_at (w_heap w) 0x3000 = Some \<lparr>out_root = ''data'', out_live = True\<rparr>"
    "alloc_at (w_heap w) 0x4000 = Some \<lparr>al_ctx = 0x1000, al_budget = 100, al_live = True\<rparr>"
    "fuel_at (w_heap w) 0x5000 = Some \<lparr>fu_ctx = 0x1000, fu_units = 5, fu_live = True\<rparr>"
    "net_at (w_heap w) 0x6000 =
       Some \<lparr>net_host = ''api'', net_port_min = 80, net_port_max = 443, net_live = True\<rparr>"
    by blast
  have d: "demo = w" by (rule demo_eq [OF w(1)])
  show "fs_at (w_heap demo) 0x2000 = Some \<lparr>fs_root = ''data'', fs_live = True\<rparr>" unfolding d by (rule w)
  show "out_at (w_heap demo) 0x3000 = Some \<lparr>out_root = ''data'', out_live = True\<rparr>" unfolding d by (rule w)
  show "alloc_at (w_heap demo) 0x4000 = Some \<lparr>al_ctx = 0x1000, al_budget = 100, al_live = True\<rparr>"
    unfolding d by (rule w)
  show "fuel_at (w_heap demo) 0x5000 = Some \<lparr>fu_ctx = 0x1000, fu_units = 5, fu_live = True\<rparr>"
    unfolding d by (rule w)
  show "net_at (w_heap demo) 0x6000 =
     Some \<lparr>net_host = ''api'', net_port_min = 80, net_port_max = 443, net_live = True\<rparr>"
    unfolding d by (rule w)
qed

lemma demo_sessions:
  obtains g c where "ctx_at (w_heap demo) 0x1000 = Some g" "g_live g" "g_root g = ''data''"
    "g_arena g = 0x100000" "g_arena_size g = 65536" "g_arena_used g = 0"
    "children g = [0x7000]" "owned g = {0x6000, 0x5000, 0x4000, 0x3000, 0x2000}"
    "ctx_at (w_heap demo) 0x7000 = Some c" "g_live c" "g_root c = ''data''"
    "g_parent c = 0x1000" "children c = []" "owned c = {0x8000}"
  using demo_run demo_eq by blast

text \<open>
  C6: Memory safety, termination and closure of the API. After any run, any call whose
  handles are NULL or were handed out for an object of the right type (dead or alive), and
  whose strings are NUL-terminated, returns without undefined behaviour, whatever the
  allocator and the C library do; but for one thing a caller must not do: the path of a read
  must not be the runtime's own last text, which the read frees first. What such a call does is
  undefined, as the second half states.
\<close>

theorem api_call_returns:
  assumes "reachable w" and "call_ok (w_heap w) c"
  shows "(\<exists>r w'. exec_call c w = Some (r, w') \<and> reachable w') \<and>
     (last_text (w_mem w) \<noteq> None \<longrightarrow>
       exec_call (ReadFile a (fx_io_cap_last_text (w_mem w)) e) w = None)"
proof
  show "\<exists>r w'. exec_call c w = Some (r, w') \<and> reachable w'"
    using exec_good [OF reachable_good] assms reachable_exec(2) unfolding good_step_def by blast
qed (simp add: on_mem_def read_through_last_text)

theorem api_call_returns_witness:
  "\<exists>r w'. exec_call (EndSession 0x1000) demo = Some (r, w') \<and> reachable w'"
  by (rule demo_sessions, rule conjunct1 [OF api_call_returns [OF demo_reachable]]) (simp add: typed_def)

lemma desc_rank: "desc H h x \<Longrightarrow> wf_r r H \<Longrightarrow> r x \<le> r h"
proof (induction rule: desc.induct)
  case (desc_child h x gx c)
  then show ?case using wf_downD [of r H x gx c] by fastforce
qed simp

text \<open>
  C26: The session graph. After any run each session's children are live sessions that point
  back to it, a session with a parent is in its live parent's table, the tables hold no
  duplicates and at most eight children, no session is nested in itself, a live session owns
  an arena with the bump pointer inside, and a dead one has no edges and only dead
  capabilities.
\<close>

theorem session_graph:
  assumes "reachable w" and "ctx_at (w_heap w) h = Some g"
  shows "(\<forall>c \<in> set (children g). (\<exists>gc. ctx_at (w_heap w) c = Some gc \<and> g_live gc \<and> g_parent gc = h)
           \<and> \<not> desc (w_heap w) c h) \<and>
     (g_parent g \<noteq> 0 \<longrightarrow> (\<exists>gp. ctx_at (w_heap w) (g_parent g) = Some gp \<and> g_live gp
           \<and> h \<in> set (children gp))) \<and>
     distinct (children g) \<and> length (children g) \<le> 8 \<and>
     (g_live g \<longrightarrow> arena_ok (w_heap w) g) \<and>
     (\<not> g_live g \<longrightarrow> children g = [] \<and> g_parent g = 0 \<and> (\<forall>a \<in> owned g. \<not> cap_live (w_heap w) a))"
proof -
  from good_wf [OF reachable_good [OF assms(1)]] obtain r where wf: "wf_r r (w_heap w)" by blast
  note g = assms(2)
  have down: "(\<exists>gc. ctx_at (w_heap w) c = Some gc \<and> g_live gc \<and> g_parent gc = h) \<and> \<not> desc (w_heap w) c h"
    if "c \<in> set (children g)" for c
    using wf_downD [OF wf g that] desc_rank [OF _ wf, of c h] by fastforce
  have tabs: "distinct (children g)" "length (children g) \<le> 8"
    using wf_tabsD [OF wf g]
    by (auto simp: tabs_ok_def tab_ok_def children_def tab_items_def FX_GUEST_MAX_CHILDREN_def)
  from down tabs show ?thesis
    using wf_upD [OF wf g] wf_arenaD [OF wf g] wf_deadD [OF wf g] wf_revokedD [OF wf g]
    by blast
qed

theorem session_graph_witness:
  "\<exists>g. ctx_at (w_heap demo) 0x1000 = Some g \<and> \<not> desc (w_heap demo) 0x7000 0x1000"
proof (rule demo_sessions)
  fix g assume g: "ctx_at (w_heap demo) 0x1000 = Some g" "children g = [0x7000]"
  from session_graph [OF demo_reachable g(1)] g show ?thesis by auto
qed

lemma end_kills_descendants:
  assumes wf: "wf_r r H" and wf': "wf_r r' H'" and sh: "shrinks H H'"
  shows "desc H h x \<Longrightarrow> (\<exists>g. ctx_at H' h = Some g \<and> \<not> g_live g) \<Longrightarrow>
    \<exists>gx. ctx_at H' x = Some gx \<and> \<not> g_live gx"
proof (induction rule: desc.induct)
  case (desc_child h x gx c)
  then obtain x' where x': "ctx_at H' x = Some x'" "\<not> g_live x'" by blast
  from wf_downD [OF wf desc_child.hyps(2,3)] obtain gc
    where gc: "ctx_at H c = Some gc" "g_parent gc = x" by blast
  from shrinks_ctx(2) [OF sh gc(1)] obtain gc'
    where gc': "ctx_at H' c = Some gc'" "ctx_shrinks gc gc'" by blast
  have "\<not> g_live gc'"
  proof
    assume "g_live gc'"
    with gc'(2) gc(2) have "g_parent gc' = x" by (auto simp: ctx_shrinks_def)
    moreover have "x \<noteq> 0" using at_nonzero(1) [OF wf'] x'(1) by blast
    ultimately show False using wf_upD [OF wf' gc'(1)] x' by auto
  qed
  with gc'(1) show ?case by blast
qed

lemma api_call_safe: "reachable w \<Longrightarrow> call_ok (w_heap w) c \<Longrightarrow> \<exists>r w'. exec_call c w = Some (r, w')"
  using exec_good [OF reachable_good] unfolding good_step_def by blast

lemma end_session_live:
  assumes "reachable w" and "ctx_at (w_heap w) h = Some g" and "g_live g"
    and "exec_call (EndSession h) w = Some (a, w')"
  obtains r where "a = Status 0" "wf_r r (w_heap w)" "end_post r h g (w_heap w) (w_heap w')"
    "last_text (w_mem w') = None" "w_disk w' = w_disk w"
proof -
  from reachable_good [OF assms(1)] have "good (w_heap w)" .
  moreover have "h = 0 \<or> ctx_at (w_heap w) h \<noteq> None" using assms(2) by simp
  ultimately show ?thesis
    by (cases rule: end_step) (use assms that in \<open>auto simp: on_mem_def\<close>)
qed

text \<open>
  C5: Ending a session ends the tree below it. \<open>fx_guest_end\<close> on a live session returns 0
  and drops the pending text; afterwards the session and every session nested in it is dead,
  none of their capabilities grants anything, the parent has lost exactly this child and
  nothing else, and every object outside the tree and its parent is as it was.
\<close>

theorem end_session_ends_tree:
  assumes "reachable w" and "ctx_at (w_heap w) h = Some g" and "g_live g"
    and "exec_call (EndSession h) w = Some (a, w')"
  shows "a = Status 0 \<and> last_text (w_mem w') = None \<and> w_disk w' = w_disk w \<and>
     (\<forall>x gx. desc (w_heap w) h x \<longrightarrow> ctx_at (w_heap w) x = Some gx \<longrightarrow>
        (\<exists>gx'. ctx_at (w_heap w') x = Some gx' \<and> \<not> g_live gx') \<and>
        (\<forall>b \<in> owned gx. \<not> cap_live (w_heap w') b)) \<and>
     (\<forall>gp. ctx_at (w_heap w) (g_parent g) = Some gp \<longrightarrow>
        (\<exists>t. ctx_at (w_heap w') (g_parent g) = Some (gp\<lparr>g_children := t\<rparr>) \<and>
             set (tab_items t) = set (children gp) - {h})) \<and>
     (\<forall>b. \<not> region (w_heap w) h b \<longrightarrow> b \<noteq> g_parent g \<longrightarrow> w_heap w' b = w_heap w b)"
proof -
  from end_session_live [OF assms] obtain r where a: "a = Status 0" and wf: "wf_r r (w_heap w)"
    and post: "end_post r h g (w_heap w) (w_heap w')"
    and rest: "last_text (w_mem w') = None" "w_disk w' = w_disk w" by blast
  from post have wf': "wf_r r (w_heap w')" and sh: "shrinks (w_heap w) (w_heap w')"
    and dead: "\<exists>g'. ctx_at (w_heap w') h = Some g' \<and> \<not> g_live g'" by (auto simp: end_post_def)
  have tree: "(\<exists>gx'. ctx_at (w_heap w') x = Some gx' \<and> \<not> g_live gx') \<and>
      (\<forall>b \<in> owned gx. \<not> cap_live (w_heap w') b)"
    if x: "desc (w_heap w) h x" "ctx_at (w_heap w) x = Some gx" for x gx
  proof -
    from end_kills_descendants [OF wf wf' sh x(1) dead] obtain gx'
      where gx': "ctx_at (w_heap w') x = Some gx'" "\<not> g_live gx'" by blast
    moreover have "owned gx' = owned gx"
      using shrinks_ctx(2) [OF sh x(2)] gx'(1) by (auto simp: ctx_shrinks_def)
    ultimately show ?thesis using wf_revokedD [OF wf' gx'] by auto
  qed
  have parent: "\<exists>t. ctx_at (w_heap w') (g_parent g) = Some (gp\<lparr>g_children := t\<rparr>) \<and>
      set (tab_items t) = set (children gp) - {h}" if gp: "ctx_at (w_heap w) (g_parent g) = Some gp" for gp
  proof -
    have "g_parent g \<noteq> 0" using at_nonzero(1) [OF wf gp] .
    with wf_upD [OF wf assms(2)] gp have mem: "h \<in> set (children gp)" by auto
    with wf_downD [OF wf gp] assms(2) have "r h < r (g_parent g)" by fastforce
    then have "g_parent g \<noteq> h" "r h \<le> r (g_parent g)" by auto
    with post gp have "ctx_at (w_heap w') (g_parent g) = Some (drop_child h gp)"
      unfolding end_post_def by blast
    moreover have "set (children (drop_child h gp)) = set (children gp) - {h}"
      using drop_child_children(2) [OF wf_tabsD [OF wf gp]] .
    ultimately show ?thesis by (auto simp: drop_child_def children_def)
  qed
  have frame: "w_heap w' b = w_heap w b" if "\<not> region (w_heap w) h b" "b \<noteq> g_parent g" for b
    using post that by (auto simp: end_post_def)
  from a rest tree parent frame show ?thesis by blast
qed

theorem end_session_ends_tree_witness:
  "\<exists>w'. exec_call (EndSession 0x1000) demo = Some (Status 0, w') \<and>
     \<not> cap_live (w_heap w') 0x2000 \<and> \<not> cap_live (w_heap w') 0x8000"
proof (rule demo_sessions)
  fix g c assume g: "ctx_at (w_heap demo) 0x1000 = Some g" "g_live g" "children g = [0x7000]"
    "owned g = {0x6000, 0x5000, 0x4000, 0x3000, 0x2000}"
    and c: "ctx_at (w_heap demo) 0x7000 = Some c" "owned c = {0x8000}"
  from api_call_safe [OF demo_reachable, of "EndSession 0x1000"] g obtain a w'
    where run: "exec_call (EndSession 0x1000) demo = Some (a, w')" by (auto simp: typed_def)
  note post = end_session_ends_tree [OF demo_reachable g(1,2) run]
  have "desc (w_heap demo) 0x1000 0x1000" using desc_self [OF g(1,2)] .
  moreover from this have "desc (w_heap demo) 0x1000 0x7000" by (rule desc_child) (use g in auto)
  ultimately show ?thesis using post run g c by auto
qed

text \<open>
  C25: Revocation is permanent. Once a session is dead it stays dead in every later run, and
  the capabilities it ever owned stay allocated and never grant anything again.
\<close>

theorem revocation_permanent:
  assumes "reachable w" and "ctx_at (w_heap w) h = Some g" and "\<not> g_live g" and "calls w w'"
  shows "(\<exists>g'. ctx_at (w_heap w') h = Some g' \<and> \<not> g_live g') \<and>
     (\<forall>a \<in> owned g. w_heap w' a \<noteq> None \<and> \<not> cap_live (w_heap w') a)"
proof -
  from evolves_at(1) [OF reachable_evolves [OF assms(1,4)] assms(2)] obtain g'
    where g': "ctx_at (w_heap w') h = Some g'" "ctx_evolves g g'" by blast
  then have dead: "\<not> g_live g'" and sub: "owned g \<subseteq> owned g'"
    using assms(3) by (auto simp: ctx_evolves_def)
  from good_wf [OF reachable_good [OF reachable_calls [OF assms(1,4)]]] obtain r
    where wf: "wf_r r (w_heap w')" by blast
  show ?thesis
    using g' dead sub wf_revokedD [OF wf g'(1) dead] owned_used [OF wf_tabsD [OF wf g'(1)]] by blast
qed

theorem revocation_permanent_witness:
  "\<exists>w. calls demo w \<and> (\<forall>w'. calls w w' \<longrightarrow> \<not> cap_live (w_heap w') 0x5000)"
proof (rule demo_sessions)
  fix g assume g: "ctx_at (w_heap demo) 0x1000 = Some g" "g_live g"
    "owned g = {0x6000, 0x5000, 0x4000, 0x3000, 0x2000}"
  from api_call_safe [OF demo_reachable, of "EndSession 0x1000"] g obtain a w1
    where run: "exec_call (EndSession 0x1000) demo = Some (a, w1)" by (auto simp: typed_def)
  from end_session_live [OF demo_reachable g(1,2) run] obtain r
    where post: "end_post r 0x1000 g (w_heap demo) (w_heap w1)" by blast
  then obtain g1 where g1: "ctx_at (w_heap w1) 0x1000 = Some g1" "\<not> g_live g1"
    and sh: "shrinks (w_heap demo) (w_heap w1)" by (auto simp: end_post_def)
  have own: "owned g1 = owned g" using shrinks_ctx(2) [OF sh g(1)] g1 by (auto simp: ctx_shrinks_def)
  have c: "calls demo w1" "reachable w1"
    using reachable_exec [OF demo_reachable _ run] g by (auto simp: typed_def)
  have "\<not> cap_live (w_heap w') 0x5000" if "calls w1 w'" for w'
    using revocation_permanent [OF c(2) g1 that] own g(3) by auto
  with c(1) show ?thesis by blast
qed

text \<open>
  A dead session refuses everything. Every call on a handle of an ended session (its
  tombstone) answers 0 and changes nothing: no capability, nested session or memory can be
  obtained through a stale handle, and ending it again is harmless.
\<close>

theorem dead_session_refuses:
  assumes "reachable w" and "ctx_at (w_heap w) h = Some g" and "\<not> g_live g"
  shows "exec_call (IsLive h) w = Some (Flag False, w) \<and>
     exec_call (MintFs h root) w = Some (Handle 0, w) \<and>
     exec_call (MintOut h root) w = Some (Handle 0, w) \<and>
     exec_call (MintAlloc h n) w = Some (Handle 0, w) \<and>
     exec_call (MintFuel h n) w = Some (Handle 0, w) \<and>
     exec_call (MintNet h host lo hi) w = Some (Handle 0, w) \<and>
     exec_call (BeginNested h root n) w = Some (Handle 0, w) \<and>
     exec_call (ArenaAlloc h n) w = Some (Handle 0, w) \<and>
     exec_call (EndSession h) w = Some (Status 0, w)"
proof -
  have h: "h \<noteq> 0" using good_wf [OF reachable_good [OF assms(1)]] at_nonzero(1) assms(2) by blast
  note defs = fx_guest_is_live_def fx_guest_mint_fscap_def fx_guest_mint_outcap_def
    fx_guest_mint_alloccap_def fx_guest_mint_fuelcap_def fx_guest_mint_netcap_def
    fx_guest_begin_nested_def fx_guest_alloc_def guest_bump_alloc_def fx_guest_end_def on_mem_def
  show ?thesis using h assms(2,3) by (simp add: defs loop_EndGuest)
qed

lemma dead_session_exists:
  obtains w g where "calls demo w" "reachable w" "ctx_at (w_heap w) 0x1000 = Some g" "\<not> g_live g"
    "owned g = {0x6000, 0x5000, 0x4000, 0x3000, 0x2000}"
proof (rule demo_sessions)
  fix g assume g: "ctx_at (w_heap demo) 0x1000 = Some g" "g_live g"
    "owned g = {0x6000, 0x5000, 0x4000, 0x3000, 0x2000}"
  from api_call_safe [OF demo_reachable, of "EndSession 0x1000"] g obtain a w1
    where run: "exec_call (EndSession 0x1000) demo = Some (a, w1)" by (auto simp: typed_def)
  from end_session_live [OF demo_reachable g(1,2) run] obtain r
    where post: "end_post r 0x1000 g (w_heap demo) (w_heap w1)" by blast
  then obtain g1 where g1: "ctx_at (w_heap w1) 0x1000 = Some g1" "\<not> g_live g1"
    and sh: "shrinks (w_heap demo) (w_heap w1)" by (auto simp: end_post_def)
  have own: "owned g1 = owned g" using shrinks_ctx(2) [OF sh g(1)] g1 by (auto simp: ctx_shrinks_def)
  have "calls demo w1" "reachable w1"
    using reachable_exec [OF demo_reachable _ run] g by (auto simp: typed_def)
  with g1 own g(3) show ?thesis using that by blast
qed

theorem dead_session_refuses_witness:
  "\<exists>w. reachable w \<and> exec_call (MintFs 0x1000 (Some ''x'')) w = Some (Handle 0, w)"
  by (rule dead_session_exists) (use dead_session_refuses in blast)

lemma dead_at:
  assumes "\<not> cap_live H a"
  shows "fs_at H a = Some fc \<Longrightarrow> \<not> fs_live fc" "out_at H a = Some oc \<Longrightarrow> \<not> out_live oc"
    "alloc_at H a = Some ac \<Longrightarrow> \<not> al_live ac" "fuel_at H a = Some uc \<Longrightarrow> \<not> fu_live uc"
    "net_at H a = Some nc \<Longrightarrow> \<not> net_live nc"
  using assms by (auto simp: cap_live_def at_iff)

text \<open>
  A dead capability refuses. A capability of a dead session denies every use: reads and
  writes return \<open>FX_CAP_DENIED\<close> without touching the disk, allocations return NULL, fuel
  does not burn and no host is allowed; apart from the discarded text of a previous read
  nothing changes.
\<close>

theorem dead_capability_refuses:
  assumes "reachable w" and "ctx_at (w_heap w) h = Some g" and "\<not> g_live g" and "a \<in> owned g"
    and "cptr_ok path"
  shows "(typed fs_at (w_heap w) a \<longrightarrow> exec_call (ReadFile a (Outside path) e) w =
            Some (Status FX_CAP_DENIED, w\<lparr>w_mem := clear_last_text (w_mem w)\<rparr>)) \<and>
     (typed out_at (w_heap w) a \<longrightarrow>
        exec_call (WriteFile a path data e) w = Some (Status FX_CAP_DENIED, w)) \<and>
     (typed alloc_at (w_heap w) a \<longrightarrow> exec_call (BudgetAlloc a n) w = Some (Handle 0, w)) \<and>
     (typed fuel_at (w_heap w) a \<longrightarrow> exec_call (BurnFuel a n) w = Some (Flag False, w)) \<and>
     (typed net_at (w_heap w) a \<longrightarrow> exec_call (NetAllows a path port) w = Some (Flag False, w))"
proof -
  note good = reachable_good [OF assms(1)]
  from good_wf [OF good] obtain r where wf: "wf_r r (w_heap w)" by blast
  have dead: "\<not> cap_live (w_heap w) a" using wf_revokedD [OF wf assms(2-4)] .
  have a0: "a \<noteq> 0" using owned_used [OF wf_tabsD [OF wf assms(2)] assms(4)] wf_zeroD [OF wf] by metis
  have "exec_call (ReadFile a (Outside path) e) w =
      Some (Status FX_CAP_DENIED, w\<lparr>w_mem := clear_last_text (w_mem w)\<rparr>)" if "typed fs_at (w_heap w) a"
  proof -
    have "\<not> fs_grants (w_heap w) a path"
      using dead_at(1) [OF dead] by (auto simp: fs_grants_def split: option.splits)
    with good that assms(5) show ?thesis
      by (cases rule: read_file_step [of "w_mem w" a path e "w_disk w"]) (auto simp: on_mem_def)
  qed
  moreover have "exec_call (WriteFile a path data e) w = Some (Status FX_CAP_DENIED, w)"
    if "typed out_at (w_heap w) a"
  proof -
    have "\<not> out_grants (w_heap w) a path"
      using dead_at(2) [OF dead] by (auto simp: out_grants_def split: option.splits)
    with good that assms(5) show ?thesis
      by (cases rule: write_file_step [of "w_mem w" a path e data "w_disk w"]) auto
  qed
  moreover have "exec_call (BudgetAlloc a n) w = Some (Handle 0, w)" if "typed alloc_at (w_heap w) a"
    using that dead_at(3) [OF dead] a0 by (auto simp: typed_def fx_alloccap_alloc_def on_mem_def)
  moreover have "exec_call (BurnFuel a n) w = Some (Flag False, w)" if "typed fuel_at (w_heap w) a"
    using that dead_at(4) [OF dead] a0 by (auto simp: typed_def fx_fuelcap_burn_def on_mem_def)
  moreover have "exec_call (NetAllows a path port) w = Some (Flag False, w)" if "typed net_at (w_heap w) a"
  proof -
    have "\<not> net_grants (w_heap w) a path port"
      using dead_at(5) [OF dead] by (auto simp: net_grants_def split: option.splits)
    with net_guard [OF good that assms(5)] show ?thesis by simp
  qed
  ultimately show ?thesis by blast
qed

theorem dead_capability_refuses_witness:
  "\<exists>w. reachable w \<and> exec_call (BurnFuel 0x5000 1) w = Some (Flag False, w)"
proof (rule dead_session_exists)
  fix w g assume w: "calls demo w" "reachable w" "ctx_at (w_heap w) 0x1000 = Some g" "\<not> g_live g"
    "owned g = {0x6000, 0x5000, 0x4000, 0x3000, 0x2000}"
  have "typed fuel_at (w_heap w) 0x5000"
    using evolves_typed(5) [OF reachable_evolves [OF demo_reachable w(1)], where a = "0x5000"] demo_caps(4)
    by (simp add: typed_def)
  with dead_capability_refuses [OF w(2-4), where a = "0x5000" and path = None] w show ?thesis
    by (auto simp: cptr_ok_def)
qed

end
