(* ===== verification/Budget.thy ===== *)
theory Budget
  imports FxPrelude
begin

text \<open>
  Two contracts of a system that moves through labelled steps, as their clients see them.
  \<open>budgeted\<close>: what a move spends is taken from what is left, so a whole sequence of moves
  spends no more than was left at its start. \<open>monitored\<close>: a monitor that sees only the
  labels accepts every move of a related state and stays related, so it accepts whole runs.
  Both rest on moves that keep a notion of validity.
\<close>

fun trail :: "('s \<Rightarrow> 'e \<Rightarrow> 's \<Rightarrow> bool) \<Rightarrow> 's \<Rightarrow> 'e list \<Rightarrow> 's \<Rightarrow> bool" where
  "trail move s [] s' \<longleftrightarrow> s' = s"
| "trail move s (e # es) s' \<longleftrightarrow> (\<exists>t. move s e t \<and> trail move t es s')"

lemma trail_append: "trail move s (es @ es') s' \<longleftrightarrow> (\<exists>t. trail move s es t \<and> trail move t es' s')"
  by (induction es arbitrary: s) auto

locale moving =
  fixes valid :: "'s \<Rightarrow> bool"
    and move :: "'s \<Rightarrow> 'e \<Rightarrow> 's \<Rightarrow> bool"
  assumes valid_move: "valid s \<Longrightarrow> move s e s' \<Longrightarrow> valid s'"
begin

lemma trail_valid: "valid s \<Longrightarrow> trail move s es s' \<Longrightarrow> valid s'"
  by (induction es arbitrary: s) (auto dest: valid_move)

end

locale budgeted = moving valid move
  for valid :: "'s \<Rightarrow> bool" and move :: "'s \<Rightarrow> 'e \<Rightarrow> 's \<Rightarrow> bool" +
  fixes left :: "'s \<Rightarrow> int"
    and cost :: "'e \<Rightarrow> int"
  assumes pays: "valid s \<Longrightarrow> move s e s' \<Longrightarrow> left s' + cost e \<le> left s"
    and cost_nonneg: "valid s \<Longrightarrow> move s e s' \<Longrightarrow> 0 \<le> cost e"
    and left_nonneg: "0 \<le> left s"
begin

lemma total_cost: "valid s \<Longrightarrow> trail move s es s' \<Longrightarrow> left s' + sum_list (map cost es) \<le> left s"
proof (induction es arbitrary: s)
  case (Cons e es)
  then obtain t where t: "move s e t" "trail move t es s'" by auto
  from Cons.IH [OF valid_move [OF Cons.prems(1) t(1)] t(2)] pays [OF Cons.prems(1) t(1)]
  show ?case by simp
qed simp

lemma never_overspent: "valid s \<Longrightarrow> trail move s es s' \<Longrightarrow> sum_list (map cost es) \<le> left s"
  using total_cost [of s es s'] left_nonneg [of s'] by linarith

lemma spent_out: "valid s \<Longrightarrow> left s = 0 \<Longrightarrow> move s e s' \<Longrightarrow> cost e = 0"
  using pays [of s e s'] cost_nonneg [of s e s'] left_nonneg [of s'] by linarith

end

text \<open>A monitor run: None as soon as it rejects a label.\<close>

fun monitor_run :: "('e \<Rightarrow> 'm \<Rightarrow> bool) \<Rightarrow> ('e \<Rightarrow> 'm \<Rightarrow> 'm) \<Rightarrow> 'e list \<Rightarrow> 'm \<Rightarrow> 'm option" where
  "monitor_run accepts after [] m = Some m"
| "monitor_run accepts after (e # es) m =
     (if accepts e m then monitor_run accepts after es (after e m) else None)"

lemma monitor_run_append:
  "monitor_run accepts after (es @ es') m =
     Option.bind (monitor_run accepts after es m) (monitor_run accepts after es')"
  by (induction es arbitrary: m) auto

locale monitored = moving valid move
  for valid :: "'s \<Rightarrow> bool" and move :: "'s \<Rightarrow> 'e \<Rightarrow> 's \<Rightarrow> bool" +
  fixes agrees :: "'m \<Rightarrow> 's \<Rightarrow> bool"
    and accepts :: "'e \<Rightarrow> 'm \<Rightarrow> bool"
    and after :: "'e \<Rightarrow> 'm \<Rightarrow> 'm"
  assumes accepts_move: "valid s \<Longrightarrow> agrees m s \<Longrightarrow> move s e s' \<Longrightarrow> accepts e m"
    and agrees_move: "valid s \<Longrightarrow> agrees m s \<Longrightarrow> move s e s' \<Longrightarrow> agrees (after e m) s'"
begin

lemma accepts_trail:
  "valid s \<Longrightarrow> agrees m s \<Longrightarrow> trail move s es s' \<Longrightarrow>
   \<exists>m'. monitor_run accepts after es m = Some m' \<and> agrees m' s'"
proof (induction es arbitrary: s m)
  case (Cons e es)
  then obtain t where t: "move s e t" "trail move t es s'" by auto
  from Cons.IH [OF valid_move [OF Cons.prems(1) t(1)] agrees_move [OF Cons.prems(1,2) t(1)] t(2)]
    accepts_move [OF Cons.prems(1,2) t(1)] show ?case by simp
qed simp

end

end
