(* ===== verification/BudgetTheorems.thy ===== *)
theory BudgetTheorems
  imports SessionTheorems Budget
begin

text \<open>
  What is taken from a session: arena blocks are aligned and disjoint, and the budgets of
  AllocCaps and FuelCaps are never overspent.
\<close>

section \<open>Arena memory\<close>

text \<open>
  \<open>n\<close> bytes at \<open>p\<close> were taken from session \<open>h\<close>'s arena: they lie inside it, above
  everything taken before, and the bump pointer now stands at their end.
\<close>

definition arena_grant :: "cheap \<Rightarrow> addr \<Rightarrow> i64 \<Rightarrow> addr \<Rightarrow> cheap \<Rightarrow> bool" where
  "arena_grant H h n p H' \<longleftrightarrow> (\<exists>g off g'. ctx_at H h = Some g \<and> g_live g \<and> arena_ok H g \<and>
     unat p = unat (g_arena g) + off \<and> off mod 8 = 0 \<and> unat (g_arena_used g) \<le> off \<and>
     off + unat n \<le> unat (g_arena_size g) \<and> ctx_at H' h = Some g' \<and> g_live g' \<and>
     g_arena g' = g_arena g \<and> g_arena_size g' = g_arena_size g \<and> unat (g_arena_used g') = off + unat n)"

lemma bump_grant:
  assumes good: "good (heap s)" and h: "typed ctx_at (heap s) h"
    and run: "guest_bump_alloc h n s = Some (p, s')" and p: "p \<noteq> 0"
  shows "arena_grant (heap s) h n p (heap s')"
proof -
  from good_wf [OF good] obtain r where wf: "wf_r r (heap s)" by blast
  from h have "h = 0 \<or> ctx_at (heap s) h \<noteq> None" by (simp add: typed_def)
  with good show ?thesis
  proof (cases rule: bump_alloc_step [where n = n])
    case fail
    with run p show ?thesis by simp
  next
    case (ok g off s1)
    then have eq: "p = g_arena g + off" "s' = s1" using run by simp_all
    let ?g = "g\<lparr>g_arena_used := off + n\<rparr>"
    show ?thesis
      unfolding arena_grant_def eq
      by (rule exI [of _ g], rule exI [of _ "unat off"], rule exI [of _ ?g])
        (simp add: ok(3-) wf_arenaD [OF wf ok(3,4)])
  qed
qed

text \<open>The calls that hand out \<open>n\<close> bytes of session \<open>h\<close>'s arena.\<close>

definition alloc_call :: "cheap \<Rightarrow> addr \<Rightarrow> i64 \<Rightarrow> api_call \<Rightarrow> bool" where
  "alloc_call H h n c \<longleftrightarrow> c = ArenaAlloc h n \<or>
     (\<exists>a k. c = BudgetAlloc a n \<and> alloc_at H a = Some k \<and> al_ctx k = h)"

lemma alloccap_bump:
  assumes run: "fx_alloccap_alloc a n s = Some (p, s')" and p: "p \<noteq> 0"
    and k: "alloc_at (heap s) a = Some k" and a: "a \<noteq> 0"
  obtains s1 where "al_live k" "guest_bump_alloc (al_ctx k) n s = Some (p, s1)"
    "ctx_at (heap s') = ctx_at (heap s1)"
proof -
  from run p k a obtain s1 k1 where "al_live k" and s1: "guest_bump_alloc (al_ctx k) n s = Some (p, s1)"
    "alloc_at (heap s1) a = Some k1" "s' = put a (AllocObj (k1\<lparr>al_budget := al_budget k1 - n\<rparr>)) s1"
    by (auto simp: fx_alloccap_alloc_def bind_iff split: if_splits)
  moreover from s1(2) have "ctx_at ((heap s1)(a \<mapsto> AllocObj x)) = ctx_at (heap s1)" for x
    by (auto simp: ctx_at_def at_iff fun_eq_iff)
  ultimately show ?thesis using that by simp
qed

lemma alloc_call_grant:
  assumes w: "reachable w" and ok: "call_ok (w_heap w) c" and c: "alloc_call (w_heap w) h n c"
    and run: "exec_call c w = Some (Handle p, w')" and p: "p \<noteq> 0"
  shows "arena_grant (w_heap w) h n p (w_heap w')"
proof -
  note good = reachable_good [OF w]
  from good_wf [OF good] obtain r where wf: "wf_r r (w_heap w)" by blast
  from c consider (arena) "c = ArenaAlloc h n"
    | (budget) a k where "c = BudgetAlloc a n" "alloc_at (w_heap w) a = Some k" "al_ctx k = h"
    by (auto simp: alloc_call_def)
  then show ?thesis
  proof cases
    case arena
    with ok run obtain s' where "guest_bump_alloc h n (w_mem w) = Some (p, s')" "w_mem w' = s'"
      by (auto simp: on_mem_def fx_guest_alloc_def)
    with bump_grant [OF good _ _ p, of h n s'] ok arena show ?thesis by simp
  next
    case (budget a k)
    have a: "a \<noteq> 0" using at_nonzero(4) [OF wf budget(2)] .
    from budget(1) run obtain s' where s': "fx_alloccap_alloc a n (w_mem w) = Some (p, s')" "w_mem w' = s'"
      by (auto simp: on_mem_def)
    from alloccap_bump [OF s'(1) p budget(2) a] obtain s1 where s1: "al_live k"
      "guest_bump_alloc h n (w_mem w) = Some (p, s1)" "ctx_at (heap s') = ctx_at (heap s1)"
      using budget(3) by auto
    have "typed ctx_at (w_heap w) h"
      using wf_allocD [OF wf budget(2) s1(1)] budget(3) by (auto simp: typed_def)
    from bump_grant [OF good this s1(2) p] s1(3) s'(2) show ?thesis by (simp add: arena_grant_def)
  qed
qed

text \<open>
  C28: Arena allocations are disjoint. Two successful allocations from one session, at any
  two moments of a run and each directly or through an AllocCap, return 8-byte aligned
  ranges inside the session's arena, the later one entirely above the earlier one.
\<close>

theorem arena_allocations_disjoint:
  assumes "reachable w" and "call_ok (w_heap w) c" and "alloc_call (w_heap w) h n c"
    and "exec_call c w = Some (Handle p, w1)" and "p \<noteq> 0" and "calls w1 w2"
    and "call_ok (w_heap w2) c'" and "alloc_call (w_heap w2) h n' c'"
    and "exec_call c' w2 = Some (Handle p', w3)" and "p' \<noteq> 0"
  shows "\<exists>g. ctx_at (w_heap w) h = Some g \<and> unat (g_arena g) \<le> unat p \<and>
     unat p + unat n \<le> unat p' \<and> unat p' + unat n' \<le> unat (g_arena g) + unat (g_arena_size g) \<and>
     unat p mod 8 = 0 \<and> unat p' mod 8 = 0"
proof -
  note r1 = reachable_exec(2) [OF assms(1,2,4)]
  note r2 = reachable_calls [OF r1 assms(6)]
  from alloc_call_grant [OF assms(1-5)] obtain g off g1 where 1: "ctx_at (w_heap w) h = Some g"
    "arena_ok (w_heap w) g" "unat p = unat (g_arena g) + off" "off mod 8 = 0"
    "ctx_at (w_heap w1) h = Some g1" "g_arena g1 = g_arena g" "g_arena_size g1 = g_arena_size g"
    "unat (g_arena_used g1) = off + unat n" by (auto simp: arena_grant_def)
  from alloc_call_grant [OF r2 assms(7-10)] obtain g2 off2 where 2: "ctx_at (w_heap w2) h = Some g2"
    "g_live g2" "unat p' = unat (g_arena g2) + off2" "off2 mod 8 = 0" "unat (g_arena_used g2) \<le> off2"
    "off2 + unat n' \<le> unat (g_arena_size g2)" by (auto simp: arena_grant_def)
  from evolves_at(1) [OF reachable_evolves [OF r1 assms(6)] 1(5)] 2(1,2)
  have same: "g_arena g2 = g_arena g1" "g_arena_size g2 = g_arena_size g1"
    "unat (g_arena_used g1) \<le> unat (g_arena_used g2)" by (auto simp: ctx_evolves_def)
  have "unat (g_arena g) mod 8 = 0"
    using 1(2) mod_mod_cancel [of 8 16 "unat (g_arena g)"] by (simp add: arena_ok_def)
  then have "unat p mod 8 = 0" "unat p' mod 8 = 0"
    using 1(3,4,6) 2(3,4) same(1) by (simp_all add: mod_add_eq [symmetric])
  then show ?thesis using 1 2 same by auto
qed

theorem arena_allocations_disjoint_witness:
  "\<exists>w1 w2 p p'. exec_call (ArenaAlloc 0x1000 3) demo = Some (Handle p, w1) \<and>
     exec_call (ArenaAlloc 0x1000 8) w1 = Some (Handle p', w2) \<and> unat p + 3 \<le> unat p'"
proof (rule demo_sessions)
  fix g assume g: "ctx_at (w_heap demo) 0x1000 = Some g" "g_live g" "g_arena g = 0x100000"
    "g_arena_size g = 65536" "g_arena_used g = 0"
  let ?w1 = "demo\<lparr>w_mem := put 0x1000 (CtxObj (g\<lparr>g_arena_used := 3\<rparr>)) (w_mem demo)\<rparr>"
  let ?w2 = "?w1\<lparr>w_mem := put 0x1000 (CtxObj (g\<lparr>g_arena_used := 16\<rparr>)) (w_mem ?w1)\<rparr>"
  have 1: "exec_call (ArenaAlloc 0x1000 3) demo = Some (Handle 0x100000, ?w1)"
    using g by (simp add: on_mem_def fx_guest_alloc_def guest_bump_alloc_def bump_padded_def ALIGN_def)
  have 2: "exec_call (ArenaAlloc 0x1000 8) ?w1 = Some (Handle 0x100008, ?w2)"
    using g by (simp add: on_mem_def fx_guest_alloc_def guest_bump_alloc_def bump_padded_def ALIGN_def)
  have "unat (0x100000 :: addr) + unat (3 :: i64) \<le> unat (0x100008 :: addr)"
    using arena_allocations_disjoint [OF demo_reachable _ _ 1 _ calls_refl _ _ 2, of "0x1000"] g
    by (auto simp: typed_def alloc_call_def)
  with 1 2 show ?thesis by auto
qed

section \<open>Budgets\<close>

definition api_move :: "world \<Rightarrow> api_call \<times> answer \<Rightarrow> world \<Rightarrow> bool" where
  "api_move w e w' \<longleftrightarrow> call_ok (w_heap w) (fst e) \<and> exec_call (fst e) w = Some (snd e, w')"

lemma exec_run_trail: "exec_run cs w = Some (rs, w') \<Longrightarrow> trail api_move w (zip cs rs) w'"
proof (induction cs arbitrary: w rs)
  case (Cons c cs)
  then obtain r rs' w1 where "call_ok (w_heap w) c" "exec_call c w = Some (r, w1)"
    "exec_run cs w1 = Some (rs', w')" "rs = r # rs'" by (auto simp: bind_iff split: if_splits)
  with Cons.IH show ?case by (auto simp: api_move_def)
qed simp

lemma api_move_good:
  assumes "good (w_heap w)" and "api_move w e w'"
  shows "good (w_heap w')" and "evolves (w_heap w) (w_heap w')"
  using assms exec_keeps_good unfolding api_move_def by blast+

text \<open>What a call took from the FuelCap \<open>f\<close>, and from the AllocCap \<open>a\<close>.\<close>

definition burned :: "addr \<Rightarrow> api_call \<times> answer \<Rightarrow> int" where
  "burned f e = (case e of (BurnFuel x n, Flag True) \<Rightarrow> if x = f then sint n else 0 | _ \<Rightarrow> 0)"

definition granted :: "addr \<Rightarrow> api_call \<times> answer \<Rightarrow> int" where
  "granted a e = (case e of (BudgetAlloc x n, Handle p) \<Rightarrow> if x = a \<and> p \<noteq> 0 then sint n else 0 | _ \<Rightarrow> 0)"

definition fuel_left :: "addr \<Rightarrow> world \<Rightarrow> int" where
  "fuel_left f w = (case fuel_at (w_heap w) f of
     Some c \<Rightarrow> if fu_live c then max 0 (sint (fu_units c)) else 0 | None \<Rightarrow> 0)"

definition bytes_left :: "addr \<Rightarrow> world \<Rightarrow> int" where
  "bytes_left a w = (case alloc_at (w_heap w) a of
     Some c \<Rightarrow> if al_live c then max 0 (sint (al_budget c)) else 0 | None \<Rightarrow> 0)"

lemma fuel_left_mono:
  "evolves (w_heap w) (w_heap w') \<Longrightarrow> fuel_at (w_heap w) f = Some c \<Longrightarrow> fuel_left f w' \<le> fuel_left f w"
  using evolves_at(5) [of "w_heap w" "w_heap w'" f c] by (auto simp: fuel_left_def)

lemma bytes_left_mono:
  "evolves (w_heap w) (w_heap w') \<Longrightarrow> alloc_at (w_heap w) a = Some c \<Longrightarrow> bytes_left a w' \<le> bytes_left a w"
  using evolves_at(4) [of "w_heap w" "w_heap w'" a c] by (auto simp: bytes_left_def)

lemma burn_exact:
  assumes good: "good (w_heap w)" and c: "fuel_at (w_heap w) f = Some c"
    and run: "exec_call (BurnFuel f n) w = Some (a, w')"
  shows "a = Flag (fu_live c \<and> 0 < sint n \<and> sint n \<le> sint (fu_units c)) \<and>
     fuel_left f w' = fuel_left f w - (if a = Flag True then sint n else 0)"
proof -
  have f: "f = 0 \<or> fuel_at (w_heap w) f \<noteq> None" using c by simp
  from good f show ?thesis
  proof (cases rule: burn_step [where n = n])
    case fail
    with run c fail(2) [OF c] show ?thesis by (auto simp: on_mem_def)
  next
    case (ok c' s')
    then have "c' = c" using c by simp
    with ok run c show ?thesis by (auto simp: on_mem_def fuel_left_def fuel_at_def)
  qed
qed

lemma budget_alloc_exact:
  assumes good: "good (w_heap w)" and c: "alloc_at (w_heap w) x = Some c"
    and run: "exec_call (BudgetAlloc x n) w = Some (a, w')"
  shows "bytes_left x w' + granted x (BudgetAlloc x n, a) = bytes_left x w"
proof -
  have x: "x = 0 \<or> alloc_at (w_heap w) x \<noteq> None" using c by simp
  from good x show ?thesis
  proof (cases rule: cap_alloc_step [where n = n])
    case fail
    with run show ?thesis by (auto simp: on_mem_def granted_def)
  next
    case (ok c' g p s')
    then have "c' = c" using c by simp
    with ok run c show ?thesis by (auto simp: on_mem_def bytes_left_def alloc_at_def granted_def)
  qed
qed

interpretation fuel_budget:
  budgeted "\<lambda>w. good (w_heap w) \<and> fuel_at (w_heap w) f \<noteq> None" api_move "fuel_left f" "burned f" for f
proof
  fix w e w' assume v: "good (w_heap w) \<and> fuel_at (w_heap w) f \<noteq> None" and m: "api_move w e w'"
  then obtain c where c: "fuel_at (w_heap w) f = Some c" by blast
  note g = api_move_good [OF conjunct1 [OF v] m]
  show "good (w_heap w') \<and> fuel_at (w_heap w') f \<noteq> None"
    using g(1) evolves_at(5) [OF g(2) c] by auto
  obtain k a where e: "e = (k, a)" by (cases e)
  have "0 \<le> burned f e \<and> fuel_left f w' + burned f e \<le> fuel_left f w"
  proof (cases "\<exists>n. k = BurnFuel f n")
    case True
    then obtain n where k: "k = BurnFuel f n" ..
    with m e have "exec_call (BurnFuel f n) w = Some (a, w')" by (simp add: api_move_def)
    from burn_exact [OF conjunct1 [OF v] c this] show ?thesis
      by (auto simp: e k burned_def split: bool.splits)
  next
    case False
    then have "burned f e = 0" unfolding e burned_def by (cases k; cases a) (auto split: bool.splits)
    with fuel_left_mono [OF g(2) c] show ?thesis by simp
  qed
  then show "fuel_left f w' + burned f e \<le> fuel_left f w" "0 \<le> burned f e" by simp_all
qed (auto simp: fuel_left_def split: option.splits)

interpretation alloc_budget:
  budgeted "\<lambda>w. good (w_heap w) \<and> alloc_at (w_heap w) a \<noteq> None" api_move "bytes_left a" "granted a" for a
proof
  fix w e w' assume v: "good (w_heap w) \<and> alloc_at (w_heap w) a \<noteq> None" and m: "api_move w e w'"
  then obtain c where c: "alloc_at (w_heap w) a = Some c" by blast
  note g = api_move_good [OF conjunct1 [OF v] m]
  show "good (w_heap w') \<and> alloc_at (w_heap w') a \<noteq> None"
    using g(1) evolves_at(4) [OF g(2) c] by auto
  obtain k r where e: "e = (k, r)" by (cases e)
  have "0 \<le> granted a e \<and> bytes_left a w' + granted a e \<le> bytes_left a w"
  proof (cases "\<exists>n. k = BudgetAlloc a n")
    case True
    then obtain n where k: "k = BudgetAlloc a n" ..
    have "0 \<le> granted a e"
      using m unfolding e k api_move_def granted_def fx_alloccap_alloc_def
      by (auto simp: on_mem_def fx_alloccap_alloc_def bind_iff split: answer.splits if_splits)
    moreover have "bytes_left a w' + granted a e = bytes_left a w"
      using budget_alloc_exact [of w a c n r w'] v m c by (simp add: e k api_move_def)
    ultimately show ?thesis by simp
  next
    case False
    then have "granted a e = 0" unfolding e granted_def by (cases k; cases r) auto
    with bytes_left_mono [OF g(2) c] show ?thesis by simp
  qed
  then show "bytes_left a w' + granted a e \<le> bytes_left a w" "0 \<le> granted a e" by simp_all
qed (auto simp: bytes_left_def split: option.splits)

text \<open>
  C29: Fuel is never overspent. Over any sequence of calls after any run, the units that the
  successful burns of one FuelCap took, plus what is left at the end, are at most what was
  left at the start; minting, ending sessions and every other call cannot refill it.
\<close>

theorem fuel_conserved:
  assumes "reachable w" and "fuel_at (w_heap w) f \<noteq> None" and "exec_run cs w = Some (rs, w')"
  shows "fuel_left f w' + sum_list (map (burned f) (zip cs rs)) \<le> fuel_left f w"
  by (rule fuel_budget.total_cost) (use assms reachable_good exec_run_trail in auto)

theorem fuel_conserved_witness:
  "\<exists>w. exec_run [BurnFuel 0x5000 3, BurnFuel 0x5000 3] demo = Some ([Flag True, Flag False], w) \<and>
     fuel_left 0x5000 w + 3 \<le> 5"
proof -
  let ?w = "demo\<lparr>w_mem := put 0x5000 (FuelObj \<lparr>fu_ctx = 0x1000, fu_units = 2, fu_live = True\<rparr>) (w_mem demo)\<rparr>"
  have at: "fuel_at (H(a \<mapsto> FuelObj c)) a = Some c" for H a c by (simp add: fuel_at_def)
  have run: "exec_run [BurnFuel 0x5000 3, BurnFuel 0x5000 3] demo = Some ([Flag True, Flag False], ?w)"
    using demo_caps(4) by (simp add: at typed_def on_mem_def fx_fuelcap_burn_def)
  have "fuel_left 0x5000 ?w + sum_list (map (burned 0x5000)
      (zip [BurnFuel 0x5000 3, BurnFuel 0x5000 3] [Flag True, Flag False])) \<le> fuel_left 0x5000 demo"
    by (rule fuel_conserved [OF demo_reachable _ run]) (simp add: demo_caps(4))
  then have "fuel_left 0x5000 ?w + 3 \<le> 5" by (simp add: burned_def fuel_left_def demo_caps(4))
  with run show ?thesis by blast
qed

text \<open>
  An AllocCap never grants more than its budget. Over any sequence of calls after any
  run, the bytes of the successful allocations through one AllocCap, plus what is left of its
  budget, are at most what was left at the start; a refused allocation costs nothing.
\<close>

theorem alloc_budget_conserved:
  assumes "reachable w" and "alloc_at (w_heap w) a \<noteq> None" and "exec_run cs w = Some (rs, w')"
  shows "bytes_left a w' + sum_list (map (granted a) (zip cs rs)) \<le> bytes_left a w"
  by (rule alloc_budget.total_cost) (use assms reachable_good exec_run_trail in auto)

theorem alloc_budget_conserved_witness:
  "\<exists>w. exec_run [BudgetAlloc 0x4000 101, BudgetAlloc 0x4000 0] demo = Some ([Handle 0, Handle 0], w) \<and>
     bytes_left 0x4000 w \<le> 100"
proof -
  have run: "exec_run [BudgetAlloc 0x4000 101, BudgetAlloc 0x4000 0] demo = Some ([Handle 0, Handle 0], demo)"
    using demo_caps(3) by (simp add: typed_def on_mem_def fx_alloccap_alloc_def)
  have "bytes_left 0x4000 demo + sum_list (map (granted 0x4000)
      (zip [BudgetAlloc 0x4000 101, BudgetAlloc 0x4000 0] [Handle 0, Handle 0])) \<le> bytes_left 0x4000 demo"
    by (rule alloc_budget_conserved [OF demo_reachable _ run]) (simp add: demo_caps(3))
  moreover have "bytes_left 0x4000 demo = 100" by (simp add: bytes_left_def demo_caps(3))
  ultimately show ?thesis using run by auto
qed

end
