(* ===== verification/CapTheorems.thy ===== *)
theory CapTheorems
  imports GuardTheorems BudgetTheorems
begin

text \<open>
  What allowlists bound and which files the guarded reads and writes can reach, and the
  contract of a nested session.
\<close>

section \<open>Allowlists and files\<close>

text \<open>A concrete session about to mint, on a disk with one file.\<close>

definition seed :: world where
  "seed = (case exec_run [BeginGuest (Some ''data'') 0]
       (fresh_world [0x1000, 0x100000, 0x2000, 0x200000] [''data/a'' \<mapsto> ''hello'']) of
     Some (_, w) \<Rightarrow> w | None \<Rightarrow> demo)"

lemma seed_facts:
  obtains w1 w2 w3 where "reachable seed" "typed ctx_at (w_heap seed) 0x1000"
    "exec_call (MintFs 0x1000 None) seed = Some (Handle 0x2000, w1)"
    "fs_at (w_heap w1) 0x2000 = Some \<lparr>fs_root = ''data'', fs_live = True\<rparr>"
    "w_disk w1 = [''data/a'' \<mapsto> ''hello'']"
    "exec_call (MintNet 0x1000 (Some ''api'') 80 443) seed = Some (Handle 0x2000, w2)"
    "cap_live (w_heap w2) 0x2000"
    "exec_call (BeginNested 0x1000 None 0) seed = Some (Handle 0x2000, w3)"
proof -
  have "\<exists>w w1 w2 w3. exec_run [BeginGuest (Some ''data'') 0]
       (fresh_world [0x1000, 0x100000, 0x2000, 0x200000] [''data/a'' \<mapsto> ''hello'']) = Some ([Handle 0x1000], w) \<and>
    typed ctx_at (w_heap w) 0x1000 \<and>
    exec_call (MintFs 0x1000 None) w = Some (Handle 0x2000, w1) \<and>
    fs_at (w_heap w1) 0x2000 = Some \<lparr>fs_root = ''data'', fs_live = True\<rparr> \<and>
    w_disk w1 = [''data/a'' \<mapsto> ''hello''] \<and>
    exec_call (MintNet 0x1000 (Some ''api'') 80 443) w = Some (Handle 0x2000, w2) \<and>
    cap_live (w_heap w2) 0x2000 \<and>
    exec_call (BeginNested 0x1000 None 0) w = Some (Handle 0x2000, w3)"
    by (simp add: run_defs cap_live_def)
  then obtain w w1 w2 w3 where w: "exec_run [BeginGuest (Some ''data'') 0]
       (fresh_world [0x1000, 0x100000, 0x2000, 0x200000] [''data/a'' \<mapsto> ''hello'']) = Some ([Handle 0x1000], w)"
    and rest: "typed ctx_at (w_heap w) 0x1000"
      "exec_call (MintFs 0x1000 None) w = Some (Handle 0x2000, w1)"
      "fs_at (w_heap w1) 0x2000 = Some \<lparr>fs_root = ''data'', fs_live = True\<rparr>"
      "w_disk w1 = [''data/a'' \<mapsto> ''hello'']"
      "exec_call (MintNet 0x1000 (Some ''api'') 80 443) w = Some (Handle 0x2000, w2)"
      "cap_live (w_heap w2) 0x2000"
      "exec_call (BeginNested 0x1000 None 0) w = Some (Handle 0x2000, w3)" by blast
  have "seed = w" using w by (simp add: seed_def)
  with rest exec_run_reachable [OF w] that show ?thesis by blast
qed

lemma mint_fs_result:
  assumes w: "reachable w" and ok: "call_ok (w_heap w) (MintFs h root)"
    and run: "exec_call (MintFs h root) w = Some (Handle a, w1)" and a: "a \<noteq> 0"
  obtains g r where "ctx_at (w_heap w) h = Some g" "g_live g"
    "mint_root FX_ROOT_SIZE (mint_root_or_default g root) = Some r"
    "fs_at (w_heap w1) a = Some \<lparr>fs_root = r, fs_live = True\<rparr>"
proof -
  have h: "h = 0 \<or> ctx_at (w_heap w) h \<noteq> None" using ok by (simp add: typed_def)
  from reachable_good [OF w] h show ?thesis
  proof (cases rule: mint_fscap_step [where root = root])
    case fail
    with run a show ?thesis by (simp add: on_mem_def)
  next
    case (ok g r t cap s')
    then have "cap \<noteq> h" by (auto simp: at_iff)
    with ok run that [of g r] show ?thesis by (auto simp: on_mem_def fs_at_def)
  qed
qed

lemma minted_root:
  assumes "good H" and "ctx_at H h = Some g" and "mint_root FX_ROOT_SIZE (mint_root_or_default g root) = Some r"
  shows "if nonempty_root root then mint_root FX_ROOT_SIZE root = Some r else r = g_root g"
proof (cases "nonempty_root root")
  case False
  then have "mint_root FX_ROOT_SIZE (Some (g_root g)) = Some r"
    using assms(3) by (auto simp: mint_root_or_default_def mint_root_def split: if_splits)
  with mint_root_Some(4) [of FX_ROOT_SIZE "Some (g_root g)" r] strings_ok_ctx [OF good_strings [OF assms(1)] assms(2)] False
  show ?thesis by (auto simp: cstr_def takeWhile_eq_all_conv)
qed (use assms(3) in \<open>simp add: mint_root_or_default_def\<close>)

lemma status_codes: "FX_CAP_OK \<noteq> FX_CAP_DENIED" "FX_CAP_IO_ERR \<noteq> FX_CAP_DENIED" "FX_CAP_IO_ERR \<noteq> FX_CAP_OK"
  by (simp_all add: FX_CAP_OK_def FX_CAP_DENIED_def FX_CAP_IO_ERR_def)

text \<open>What a read through an FsCap does.\<close>

lemma exec_read_result:
  assumes "good (w_heap w)" and k: "fs_at (w_heap w) a = Some k" and "cptr_ok path"
    and run: "exec_call (ReadFile a (Outside path) e) w = Some (st, w')"
  shows "w_disk w' = w_disk w \<and>
     (st = Status FX_CAP_OK \<longrightarrow> (\<exists>p whole bytes. path = Some p \<and> cap_live (w_heap w) a \<and>
        path_under_root (fs_root k) p \<and> w_disk w p = Some whole \<and>
        last_text (w_mem w') = Some bytes \<and> prefix bytes whole \<and>
        (e = io_fine (length whole) \<and> length whole < 2 ^ 63 \<longrightarrow> bytes = whole))) \<and>
     (st \<noteq> Status FX_CAP_OK \<longrightarrow> last_text (w_mem w') = None) \<and>
     (st = Status FX_CAP_DENIED \<longleftrightarrow> \<not> fs_grants (w_heap w) a path)"
proof -
  have "typed fs_at (w_heap w) a" using k by (simp add: typed_def)
  from assms(1) this assms(3) show ?thesis
  proof (cases rule: read_file_step [where e = e and d = "w_disk w"])
    case (ok p bytes)
    from read_all_total(2) [OF ok(4)] obtain whole
      where whole: "w_disk w p = Some whole" "prefix bytes whole" by blast
    have "fs_live k" and under: "path_under_root (fs_root k) p" using ok(2,3) k by (simp_all add: fs_grants_def)
    then have "cap_live (w_heap w) a" using k by (simp add: cap_live_def at_iff)
    moreover have "bytes = whole" if "e = io_fine (length whole)" "length whole < 2 ^ 63"
      using read_all_fine [of "w_disk w" p whole] whole(1) that(2) ok(4) that(1) by simp
    moreover have "st = Status FX_CAP_OK" "w_disk w' = w_disk w" "last_text (w_mem w') = Some bytes"
      using ok(1) run by (auto simp: on_mem_def)
    moreover from this have "st \<noteq> Status FX_CAP_DENIED" using status_codes(1) by simp
    ultimately show ?thesis using ok(2,3) whole under by blast
  qed (use run status_codes in \<open>auto simp: on_mem_def clear_last_text_def\<close>)
qed

text \<open>
  C2: A minted FsCap confines every later read. Whatever a client does after minting an
  FsCap with an explicit root or the session's default root, a read through it that succeeds
  was of a path that resolves under that root, the session capability was still live, and
  the text it leaves is a prefix of that one file, the whole of it when the C library
  reports no short read. A read that does not succeed leaves no text and reports denial
  exactly when the guard refuses. No read changes the disk.
\<close>

theorem minted_fscap_confines_reads:
  assumes "reachable w" and "call_ok (w_heap w) (MintFs h root)"
    and "exec_call (MintFs h root) w = Some (Handle a, w1)" and "a \<noteq> 0" and "calls w1 w2"
    and "cptr_ok path" and "exec_call (ReadFile a (Outside path) e) w2 = Some (st, w3)"
  shows "\<exists>g r. ctx_at (w_heap w) h = Some g \<and>
     (if nonempty_root root then mint_root FX_ROOT_SIZE root = Some r else r = g_root g) \<and>
     w_disk w3 = w_disk w2 \<and>
     (st = Status FX_CAP_OK \<longrightarrow> (\<exists>p whole bytes. path = Some p \<and> cap_live (w_heap w2) a \<and>
        path_under_root r p \<and> w_disk w2 p = Some whole \<and>
        last_text (w_mem w3) = Some bytes \<and> prefix bytes whole \<and>
        (e = io_fine (length whole) \<and> length whole < 2 ^ 63 \<longrightarrow> bytes = whole))) \<and>
     (st \<noteq> Status FX_CAP_OK \<longrightarrow> last_text (w_mem w3) = None) \<and>
     (st = Status FX_CAP_DENIED \<longleftrightarrow> \<not> fs_grants (w_heap w2) a path)"
proof -
  from mint_fs_result [OF assms(1-4)] obtain g r where g: "ctx_at (w_heap w) h = Some g"
    and r: "mint_root FX_ROOT_SIZE (mint_root_or_default g root) = Some r"
    and a: "fs_at (w_heap w1) a = Some \<lparr>fs_root = r, fs_live = True\<rparr>" by blast
  note w1 = reachable_exec(2) [OF assms(1-3)]
  note w2 = reachable_calls [OF w1 assms(5)]
  from evolves_at(2) [OF reachable_evolves [OF w1 assms(5)] a] obtain k
    where k: "fs_at (w_heap w2) a = Some k" "fs_root k = r" by auto
  from exec_read_result [OF reachable_good [OF w2] k(1) assms(6,7)] minted_root [OF reachable_good [OF assms(1)] g r] g
  show ?thesis unfolding k(2) by blast
qed

theorem minted_fscap_confines_reads_witness:
  "\<exists>w1 w2. exec_call (MintFs 0x1000 None) seed = Some (Handle 0x2000, w1) \<and>
     exec_call (ReadFile 0x2000 (Outside (Some ''data/a'')) (io_fine (length ''hello''))) w1 = Some (Status FX_CAP_OK, w2) \<and>
     last_text (w_mem w2) = Some ''hello''"
proof (rule seed_facts)
  fix w1 assume s: "reachable seed" "typed ctx_at (w_heap seed) 0x1000"
    and mint: "exec_call (MintFs 0x1000 None) seed = Some (Handle 0x2000, w1)"
    and at: "fs_at (w_heap w1) 0x2000 = Some \<lparr>fs_root = ''data'', fs_live = True\<rparr>"
    and d: "w_disk w1 = [''data/a'' \<mapsto> ''hello'']"
  have ok: "call_ok (w_heap seed) (MintFs 0x1000 None)" using s(2) by (simp add: cptr_ok_def)
  have t: "typed fs_at (w_heap w1) 0x2000" "cptr_ok (Some ''data/a'')"
    using at by (simp_all add: typed_def cptr_ok_def)
  have "path_under_root ''data'' ''data/a''"
    by (simp add: path_under_root_def is_sep_def dotdot_free_def sublist_code)
  with at have "fs_grants (w_heap w1) 0x2000 (Some ''data/a'')" by (simp add: fs_grants_def)
  with fs_guard [of "clear_last_text (w_mem w1)" "0x2000" "Some ''data/a''"]
    reachable_good [OF reachable_exec(2) [OF s(1) ok mint]] t
  have guard: "fx_fscap_path_allowed 0x2000 (Some ''data/a'') (clear_last_text (w_mem w1)) = Some True"
    by (simp add: clear_last_text_def)
  have "read_all (io_fine (length ''hello'')) (w_disk w1) ''data/a'' = Some (Some ''hello'')"
    using read_all_fine [of "w_disk w1" "''data/a''" "''hello''"] d by simp
  with guard obtain w2 where run:
    "exec_call (ReadFile 0x2000 (Outside (Some ''data/a'')) (io_fine (length ''hello''))) w1 = Some (Status FX_CAP_OK, w2)"
    by (simp add: on_mem_def fx_io_cap_read_file_def)
  from minted_fscap_confines_reads [OF s(1) ok mint _ calls_refl t(2) run] d
  have "last_text (w_mem w2) = Some ''hello''" by auto
  with mint run show ?thesis by blast
qed

text \<open>
  C27: Writes reach only granted files. The only call that changes the disk is a write, and
  only at its own path, through a live OutCap under whose root the path lies; a write that
  reports success has stored the data up to its terminator, and a denied one has left the
  disk as it was.
\<close>

theorem writes_confined:
  assumes "reachable w" and "call_ok (w_heap w) c" and "exec_call c w = Some (st, w')"
  shows "(\<forall>q. w_disk w' q \<noteq> w_disk w q \<longrightarrow> (\<exists>a data e k. c = WriteFile a (Some q) data e \<and>
        out_at (w_heap w) a = Some k \<and> out_live k \<and> path_under_root (out_root k) q)) \<and>
     (\<forall>a p data e. c = WriteFile a (Some p) data e \<longrightarrow> st = Status FX_CAP_OK \<longrightarrow>
        w_disk w' p = Some (case data of None \<Rightarrow> '''' | Some t \<Rightarrow> take (strlen t) t)) \<and>
     (\<forall>a path data e. c = WriteFile a path data e \<longrightarrow>
        (st = Status FX_CAP_DENIED \<longleftrightarrow> \<not> out_grants (w_heap w) a path) \<and>
        (st = Status FX_CAP_DENIED \<longrightarrow> w' = w))"
proof (cases "\<exists>a path data e. c = WriteFile a path data e")
  case False
  then have "w_disk w' = w_disk w" using assms(3) by (cases c) (auto simp: on_mem_def)
  with False show ?thesis by auto
next
  case True
  then obtain a path data e where c: "c = WriteFile a path data e" by blast
  note codes = status_codes
  from assms(2) c have t: "typed out_at (w_heap w) a" "cptr_ok path" by simp_all
  from reachable_good [OF assms(1)] t show ?thesis
  proof (cases rule: write_file_step [where e = e and data = data and d = "w_disk w"])
    case denied
    with assms(3) c codes show ?thesis by auto
  next
    case (granted p s d)
    from granted(2,3) obtain k where k: "out_at (w_heap w) a = Some k" "out_live k"
      "path_under_root (out_root k) p" by (auto simp: out_grants_def split: option.splits)
    have w': "st = Status s" "w' = w\<lparr>w_disk := d\<rparr>" using granted(1) assms(3) c by simp_all
    have "\<And>q. w_disk w' q \<noteq> w_disk w q \<Longrightarrow> q = p" using granted(5) w'(2) by auto
    moreover have "st = Status FX_CAP_OK \<Longrightarrow>
        w_disk w' p = Some (case data of None \<Rightarrow> '''' | Some t \<Rightarrow> take (strlen t) t)"
      using granted(6) w' by simp
    moreover have "st \<noteq> Status FX_CAP_DENIED" using granted(4) w'(1) codes by auto
    ultimately show ?thesis using k granted(2,3) c by blast
  qed
qed

theorem writes_confined_witness:
  "\<exists>w. exec_call (WriteFile 0x3000 (Some ''data/log'') (Some ''hi'') (io_fine 2)) demo = Some (Status FX_CAP_OK, w) \<and>
     w_disk w ''data/log'' = Some ''hi''"
proof -
  have "path_under_root ''data'' ''data/log''"
    by (simp add: path_under_root_def is_sep_def dotdot_free_def sublist_code)
  then have "fx_outcap_path_allowed 0x3000 (Some ''data/log'') (w_mem demo) = Some True"
    using out_guard [OF reachable_good [OF demo_reachable], of "0x3000" "Some ''data/log''"] demo_caps(2)
    by (simp add: typed_def cptr_ok_def out_grants_def)
  then have run: "exec_call (WriteFile 0x3000 (Some ''data/log'') (Some ''hi'') (io_fine 2)) demo
      = Some (Status FX_CAP_OK, demo\<lparr>w_disk := (w_disk demo)(''data/log'' \<mapsto> ''hi'')\<rparr>)"
    by (simp add: fx_io_cap_write_file_def io_fine_def strlen_def)
  have "call_ok (w_heap demo) (WriteFile 0x3000 (Some ''data/log'') (Some ''hi'') (io_fine 2))"
    using demo_caps(2) by (simp add: typed_def cptr_ok_def)
  from conjunct1 [OF conjunct2 [OF writes_confined [OF demo_reachable this run]]]
  have "w_disk (demo\<lparr>w_disk := (w_disk demo)(''data/log'' \<mapsto> ''hi'')\<rparr>) ''data/log'' = Some ''hi''"
    by (simp add: strlen_def)
  with run show ?thesis by blast
qed

text \<open>
  C31: A minted NetCap is an exact allowlist for ever. A NetCap is minted only for a non-empty
  host name and a port range inside 1..65535; whatever the client does afterwards, it
  allows a host and port only if the host is that name, character for character, and the
  port is in that range, and it allows all of these as long as it is live.
\<close>

theorem minted_netcap_exact:
  assumes "reachable w" and "call_ok (w_heap w) (MintNet h (Some name) lo hi)"
    and "exec_call (MintNet h (Some name) lo hi) w = Some (Handle n, w1)" and "n \<noteq> 0"
    and "calls w1 w2" and "cstr host"
  shows "1 \<le> sint lo \<and> sint lo \<le> sint hi \<and> sint hi \<le> 65535 \<and> name \<noteq> [] \<and> length name < 256 \<and>
     exec_call (NetAllows n (Some host) port) w2 =
       Some (Flag (cap_live (w_heap w2) n \<and> host = name \<and> sint lo \<le> sint port \<and> sint port \<le> sint hi), w2)"
proof -
  have h: "h = 0 \<or> ctx_at (w_heap w) h \<noteq> None" and cname: "cstr name"
    using assms(2) by (simp_all add: typed_def cptr_ok_def)
  note w1 = reachable_exec(2) [OF assms(1-3)]
  note w2 = reachable_calls [OF w1 assms(5)]
  from reachable_good [OF assms(1)] h show ?thesis
  proof (cases rule: mint_netcap_step [where allow_host = "Some name" and port_min = lo and port_max = hi])
    case fail
    with assms(3,4) show ?thesis by (simp add: on_mem_def)
  next
    case (ok g name' t cap s')
    let ?k = "\<lparr>net_host = name, net_port_min = lo, net_port_max = hi, net_live = True\<rparr>"
    have "cap \<noteq> h" using ok(3,4) by (auto simp: at_iff)
    then have at: "net_at (w_heap w1) n = Some ?k"
      using ok assms(3) cname by (auto simp: on_mem_def net_at_def)
    from evolves_at(6) [OF reachable_evolves [OF w1 assms(5)] at] obtain k where k:
      "net_at (w_heap w2) n = Some k" "net_host k = name" "net_port_min k = lo" "net_port_max k = hi"
      by auto
    have ne: "name \<noteq> []" "length name < 256"
      using ok(6,7,8) cname by (auto simp: FX_NET_HOST_SIZE_def)
    have "cap_live (w_heap w2) n = net_live k" using k(1) by (simp add: cap_live_def at_iff)
    then have "net_grants (w_heap w2) n (Some host) port \<longleftrightarrow> cap_live (w_heap w2) n \<and> host = name \<and>
        sint lo \<le> sint port \<and> sint port \<le> sint hi"
      using k ne by (auto simp: net_grants_def)
    with net_guard [OF reachable_good [OF w2], of n "Some host" port] k(1) assms(6) ok(9-11) ne
    show ?thesis by (simp add: typed_def cptr_ok_def)
  qed
qed

theorem minted_netcap_exact_witness:
  "\<exists>w. exec_call (MintNet 0x1000 (Some ''api'') 80 443) seed = Some (Handle 0x2000, w) \<and>
     exec_call (NetAllows 0x2000 (Some ''api'') 443) w = Some (Flag True, w) \<and>
     exec_call (NetAllows 0x2000 (Some ''apis'') 443) w = Some (Flag False, w)"
proof (rule seed_facts)
  fix w assume s: "reachable seed" "typed ctx_at (w_heap seed) 0x1000"
    and mint: "exec_call (MintNet 0x1000 (Some ''api'') 80 443) seed = Some (Handle 0x2000, w)"
    and live: "cap_live (w_heap w) 0x2000"
  have ok: "call_ok (w_heap seed) (MintNet 0x1000 (Some ''api'') 80 443)"
    using s(2) by (simp add: cptr_ok_def)
  from minted_netcap_exact [OF s(1) ok mint _ calls_refl] mint live show ?thesis by auto
qed

text \<open>
  C33: Nested sessions. \<open>fx_guest_begin_nested\<close> either fails and leaves every object as it
  was, or it opens, below a live parent with room in its table, a live session that owns
  nothing yet, has its own empty arena of the requested (or the default) size and the given
  root, or the parent's when none is given; the parent gains exactly this child and every
  other object is as it was.
\<close>

theorem nested_session_contract:
  assumes "reachable w" and "call_ok (w_heap w) (BeginNested p root n)"
    and "exec_call (BeginNested p root n) w = Some (Handle h, w')"
  shows "(h = 0 \<longrightarrow> w_heap w' = w_heap w) \<and>
     (h \<noteq> 0 \<longrightarrow> (\<exists>gp g t. ctx_at (w_heap w) p = Some gp \<and> g_live gp \<and> length (children gp) < 8 \<and>
        w_heap w h = None \<and> ctx_at (w_heap w') h = Some g \<and> g_live g \<and> g_parent g = p \<and>
        owned g = {} \<and> children g = [] \<and> g_arena_used g = 0 \<and> g_arena_size g = arena_bytes_of n \<and>
        (if nonempty_root root then mint_root FX_ROOT_SIZE root = Some (g_root g)
         else g_root g = g_root gp) \<and>
        ctx_at (w_heap w') p = Some (gp\<lparr>g_children := t\<rparr>) \<and> tab_items t = children gp @ [h] \<and>
        (\<forall>a. a \<notin> {h, p, g_arena g} \<longrightarrow> w_heap w' a = w_heap w a)))"
proof -
  have p: "p = 0 \<or> ctx_at (w_heap w) p \<noteq> None" using assms(2) by (simp add: typed_def)
  from reachable_good [OF assms(1)] p show ?thesis
  proof (cases rule: begin_nested_step [where root = root and n = n])
    case (fail s')
    with assms(3) show ?thesis by (auto simp: on_mem_def)
  next
    case (ok h' g gp t s')
    then have h: "h' = h" and w': "w_mem w' = s'" using ok(1) assms(3) by (auto simp: on_mem_def)
    have new: "owned g = {}" "children g = []"
      using new_ctx_simps(2,3) [OF ok(10)] by (simp_all add: owned_def children_def)
    have ne: "h \<noteq> p" "p \<noteq> g_arena g" using ok(3,4,6) h by (auto simp: at_iff)
    have at: "ctx_at (w_heap w') h = Some g" "ctx_at (w_heap w') p = Some (gp\<lparr>g_children := t\<rparr>)"
      using ok(5,16) ne h w' by (simp_all add: ctx_at_def)
    have frame: "\<forall>a. a \<notin> {h, p, g_arena g} \<longrightarrow> w_heap w' a = w_heap w a"
      using ok(16) h w' by simp
    have len: "length (children gp) < 8" using ok(15) by (simp add: FX_GUEST_MAX_CHILDREN_def)
    show ?thesis using ok(2,3,6-9,11-14) h new at frame len by blast
  qed
qed

theorem nested_session_contract_witness:
  "\<exists>w g. exec_call (BeginNested 0x1000 None 0) seed = Some (Handle 0x2000, w) \<and>
     ctx_at (w_heap w) 0x2000 = Some g \<and> g_parent g = 0x1000 \<and> g_arena_size g = 65536"
proof (rule seed_facts)
  fix w assume s: "reachable seed" "typed ctx_at (w_heap seed) 0x1000"
    and run: "exec_call (BeginNested 0x1000 None 0) seed = Some (Handle 0x2000, w)"
  have "call_ok (w_heap seed) (BeginNested 0x1000 None 0)" using s(2) by (simp add: cptr_ok_def)
  from nested_session_contract [OF s(1) this run] run show ?thesis
    by (auto simp: arena_bytes_of_def FX_GUEST_DEFAULT_ARENA_def)
qed

end
