(* ===== verification/Monitor.thy ===== *)
theory Monitor
  imports CapTheorems
begin

text \<open>
  What the capability runtime promises, without its memory: a reference monitor that sees
  only the calls and their answers. It knows the live sessions with their parents and roots,
  the live capabilities with their session and what they grant, and every handle ever given
  out. The runtime refines it: every answer is one the monitor accepts (\<open>mon_ok\<close>), and the
  monitor's next state (\<open>mon_next\<close>) is again the one the memory represents. What the monitor
  guarantees about logs of calls then holds of the runtime.
\<close>

section \<open>The monitor\<close>

datatype grant = Reads string | Writes string | Dials string i32 i32 | Bytes int | Units int

record monitor =
  mo_sess :: "addr \<rightharpoonup> addr \<times> string"
  mo_caps :: "addr \<rightharpoonup> addr \<times> grant"
  mo_used :: "addr set"

definition mon_start :: monitor where
  "mon_start = \<lparr>mo_sess = Map.empty, mo_caps = Map.empty, mo_used = {}\<rparr>"

type_synonym event = "api_call \<times> answer"

text \<open>The text of a C string argument; NULL and the empty string are the same request.\<close>

definition ctext :: "cptr \<Rightarrow> string" where
  "ctext p = (case p of None \<Rightarrow> [] | Some s \<Rightarrow> takeWhile (\<lambda>c. c \<noteq> NUL) s)"

definition or_else :: "string \<Rightarrow> string \<Rightarrow> string" where
  "or_else r d = (if r = [] then d else r)"

definition sess_root :: "monitor \<Rightarrow> addr \<Rightarrow> string" where
  "sess_root m h = (case mo_sess m h of None \<Rightarrow> [] | Some (p, r) \<Rightarrow> r)"

definition cap_grant :: "monitor \<Rightarrow> addr \<Rightarrow> grant option" where
  "cap_grant m a = map_option snd (mo_caps m a)"

text \<open>The live sessions at and below \<open>h\<close>.\<close>

inductive under :: "(addr \<rightharpoonup> addr \<times> string) \<Rightarrow> addr \<Rightarrow> addr \<Rightarrow> bool" for S h where
  under_self: "S h = Some e \<Longrightarrow> under S h h"
| under_child: "under S h x \<Longrightarrow> S c = Some (x, r) \<Longrightarrow> under S h c"

definition open_sess :: "addr \<Rightarrow> addr \<Rightarrow> string \<Rightarrow> monitor \<Rightarrow> monitor" where
  "open_sess h p r m = m\<lparr>mo_sess := (mo_sess m)(h \<mapsto> (p, r)), mo_used := insert h (mo_used m)\<rparr>"

definition add_cap :: "addr \<Rightarrow> addr \<Rightarrow> grant \<Rightarrow> monitor \<Rightarrow> monitor" where
  "add_cap a h g m = m\<lparr>mo_caps := (mo_caps m)(a \<mapsto> (h, g)), mo_used := insert a (mo_used m)\<rparr>"

definition spend :: "addr \<Rightarrow> int \<Rightarrow> monitor \<Rightarrow> monitor" where
  "spend a n m =
     (case mo_caps m a of
        Some (h, Units u) \<Rightarrow> m\<lparr>mo_caps := (mo_caps m)(a \<mapsto> (h, Units (u - n)))\<rparr>
      | Some (h, Bytes b) \<Rightarrow> m\<lparr>mo_caps := (mo_caps m)(a \<mapsto> (h, Bytes (b - n)))\<rparr>
      | _ \<Rightarrow> m)"

definition close_sess :: "addr \<Rightarrow> monitor \<Rightarrow> monitor" where
  "close_sess h m = m\<lparr>
     mo_sess := (\<lambda>x. if under (mo_sess m) h x then None else mo_sess m x),
     mo_caps := (\<lambda>a. case mo_caps m a of None \<Rightarrow> None
                     | Some (x, g) \<Rightarrow> if under (mo_sess m) h x then None else Some (x, g))\<rparr>"

fun mon_next :: "event \<Rightarrow> monitor \<Rightarrow> monitor" where
  "mon_next (BeginGuest root n, Handle h) m = (if h = 0 then m else open_sess h 0 (ctext root) m)"
| "mon_next (BeginNested p root n, Handle h) m =
     (if h = 0 then m else open_sess h p (or_else (ctext root) (sess_root m p)) m)"
| "mon_next (EndSession h, Status st) m = close_sess h m"
| "mon_next (MintFs h root, Handle a) m =
     (if a = 0 then m else add_cap a h (Reads (or_else (ctext root) (sess_root m h))) m)"
| "mon_next (MintOut h root, Handle a) m =
     (if a = 0 then m else add_cap a h (Writes (or_else (ctext root) (sess_root m h))) m)"
| "mon_next (MintAlloc h b, Handle a) m = (if a = 0 then m else add_cap a h (Bytes (sint b)) m)"
| "mon_next (MintFuel h u, Handle a) m = (if a = 0 then m else add_cap a h (Units (sint u)) m)"
| "mon_next (MintNet h host pmin pmax, Handle a) m =
     (if a = 0 then m else add_cap a h (Dials (ctext host) pmin pmax) m)"
| "mon_next (BudgetAlloc a n, Handle p) m = (if p = 0 then m else spend a (sint n) m)"
| "mon_next (BurnFuel f n, Flag b) m = (if b then spend f (sint n) m else m)"
| "mon_next _ m = m"

definition new_handle :: "monitor \<Rightarrow> addr \<Rightarrow> bool" where
  "new_handle m h \<longleftrightarrow> h \<notin> mo_used m"

definition may_read :: "monitor \<Rightarrow> addr \<Rightarrow> cptr \<Rightarrow> bool" where
  "may_read m c path \<longleftrightarrow> (case (cap_grant m c, path) of
     (Some (Reads r), Some p) \<Rightarrow> path_under_root r p | _ \<Rightarrow> False)"

definition may_write :: "monitor \<Rightarrow> addr \<Rightarrow> cptr \<Rightarrow> bool" where
  "may_write m c path \<longleftrightarrow> (case (cap_grant m c, path) of
     (Some (Writes r), Some p) \<Rightarrow> path_under_root r p | _ \<Rightarrow> False)"

definition mon_dials :: "monitor \<Rightarrow> addr \<Rightarrow> cptr \<Rightarrow> i32 \<Rightarrow> bool" where
  "mon_dials m c host port \<longleftrightarrow> (case (cap_grant m c, host) of
     (Some (Dials hs lo hi), Some x) \<Rightarrow> x \<noteq> [] \<and> hs = x \<and> sint lo \<le> sint port \<and> sint port \<le> sint hi
   | _ \<Rightarrow> False)"

definition may_burn :: "monitor \<Rightarrow> addr \<Rightarrow> i64 \<Rightarrow> bool" where
  "may_burn m f n \<longleftrightarrow> (case cap_grant m f of Some (Units u) \<Rightarrow> 0 < sint n \<and> sint n \<le> u | _ \<Rightarrow> False)"

definition may_take :: "monitor \<Rightarrow> addr \<Rightarrow> i64 \<Rightarrow> bool" where
  "may_take m a n \<longleftrightarrow> (case cap_grant m a of Some (Bytes b) \<Rightarrow> 0 < sint n \<and> sint n \<le> b | _ \<Rightarrow> False)"

text \<open>
  The answers the monitor accepts. A call that creates something may fail at any time (answer
  0); every other answer is determined by the monitor's state, but for the I/O errors of a
  file operation that was granted.
\<close>

fun mon_ok :: "event \<Rightarrow> monitor \<Rightarrow> bool" where
  "mon_ok (BeginGuest root n, Handle h) m \<longleftrightarrow> h = 0 \<or> new_handle m h"
| "mon_ok (BeginNested p root n, Handle h) m \<longleftrightarrow> h = 0 \<or> new_handle m h \<and> p \<in> dom (mo_sess m)"
| "mon_ok (EndSession h, Status st) m \<longleftrightarrow> st = 0 \<and> (h = 0 \<or> h \<in> mo_used m)"
| "mon_ok (MintFs h root, Handle a) m \<longleftrightarrow> a = 0 \<or> new_handle m a \<and> h \<in> dom (mo_sess m) \<and>
     or_else (ctext root) (sess_root m h) \<noteq> []"
| "mon_ok (MintOut h root, Handle a) m \<longleftrightarrow> a = 0 \<or> new_handle m a \<and> h \<in> dom (mo_sess m) \<and>
     or_else (ctext root) (sess_root m h) \<noteq> []"
| "mon_ok (MintAlloc h b, Handle a) m \<longleftrightarrow> a = 0 \<or> new_handle m a \<and> h \<in> dom (mo_sess m) \<and> 0 < sint b"
| "mon_ok (MintFuel h u, Handle a) m \<longleftrightarrow> a = 0 \<or> new_handle m a \<and> h \<in> dom (mo_sess m) \<and> 0 < sint u"
| "mon_ok (MintNet h host pmin pmax, Handle a) m \<longleftrightarrow> a = 0 \<or> new_handle m a \<and> h \<in> dom (mo_sess m) \<and>
     ctext host \<noteq> [] \<and> 1 \<le> sint pmin \<and> sint pmin \<le> sint pmax \<and> sint pmax \<le> 65535"
| "mon_ok (ArenaAlloc h n, Handle p) m \<longleftrightarrow> p = 0 \<or> h \<in> dom (mo_sess m) \<and> 0 < sint n"
| "mon_ok (BudgetAlloc a n, Handle p) m \<longleftrightarrow> p = 0 \<or> may_take m a n"
| "mon_ok (BurnFuel f n, Flag b) m \<longleftrightarrow> b = may_burn m f n"
| "mon_ok (IsLive h, Flag b) m \<longleftrightarrow> b = (h \<in> dom (mo_sess m))"
| "mon_ok (NetAllows c host port, Flag b) m \<longleftrightarrow> b = mon_dials m c host port"
| "mon_ok (ReadFile c (Outside path) e, Status st) m \<longleftrightarrow>
     (if may_read m c path then st = FX_CAP_OK \<or> st = FX_CAP_IO_ERR else st = FX_CAP_DENIED)"
| "mon_ok (WriteFile c path data e, Status st) m \<longleftrightarrow>
     (if may_write m c path then st = FX_CAP_OK \<or> st = FX_CAP_IO_ERR else st = FX_CAP_DENIED)"
| "mon_ok _ m \<longleftrightarrow> False"

section \<open>What a memory represents\<close>

definition sess_at :: "cheap \<Rightarrow> addr \<rightharpoonup> addr \<times> string" where
  "sess_at H h = (case ctx_at H h of
     Some g \<Rightarrow> if g_live g then Some (g_parent g, g_root g) else None | None \<Rightarrow> None)"

fun obj_grant :: "cobj \<Rightarrow> grant" where
  "obj_grant (FsObj c) = Reads (fs_root c)"
| "obj_grant (OutObj c) = Writes (out_root c)"
| "obj_grant (AllocObj c) = Bytes (sint (al_budget c))"
| "obj_grant (FuelObj c) = Units (sint (fu_units c))"
| "obj_grant (NetObj c) = Dials (net_host c) (net_port_min c) (net_port_max c)"
| "obj_grant _ = Reads []"

definition grant_at :: "cheap \<Rightarrow> addr \<rightharpoonup> grant" where
  "grant_at H a = (case H a of
     Some ob \<Rightarrow> if obj_live ob then Some (obj_grant ob) else None | None \<Rightarrow> None)"

definition is_handle :: "cheap \<Rightarrow> addr \<Rightarrow> bool" where
  "is_handle H a \<longleftrightarrow> (case H a of None \<Rightarrow> False | Some (ArenaObj n) \<Rightarrow> False | Some ob \<Rightarrow> True)"

text \<open>The live session at \<open>h\<close> has \<open>a\<close> in one of its tables.\<close>

definition owns :: "cheap \<Rightarrow> addr \<Rightarrow> addr \<Rightarrow> bool" where
  "owns H h a \<longleftrightarrow> (case ctx_at H h of Some g \<Rightarrow> g_live g \<and> a \<in> owned g | None \<Rightarrow> False)"

definition represents :: "monitor \<Rightarrow> cheap \<Rightarrow> bool" where
  "represents m H \<longleftrightarrow> mo_sess m = sess_at H \<and> cap_grant m = grant_at H \<and>
     (\<forall>a h g. mo_caps m a = Some (h, g) \<longrightarrow> owns H h a) \<and>
     mo_used m = {a. is_handle H a}"

lemma representsD:
  assumes "represents m H"
  shows "mo_sess m = sess_at H" "cap_grant m = grant_at H" "mo_used m = {a. is_handle H a}"
    and "mo_caps m a = Some (h, g) \<Longrightarrow> owns H h a"
  using assms by (auto simp: represents_def)

lemma representsI:
  "mo_sess m = sess_at H \<Longrightarrow> cap_grant m = grant_at H \<Longrightarrow> mo_used m = {a. is_handle H a} \<Longrightarrow>
   (\<And>a h g. mo_caps m a = Some (h, g) \<Longrightarrow> owns H h a) \<Longrightarrow> represents m H"
  by (simp add: represents_def)

lemma cap_grant_upd [simp]:
  "cap_grant (m\<lparr>mo_caps := (mo_caps m)(a \<mapsto> (h, g))\<rparr>) = (cap_grant m)(a \<mapsto> g)"
  "cap_grant (m\<lparr>mo_sess := S\<rparr>) = cap_grant m" "cap_grant (m\<lparr>mo_used := U\<rparr>) = cap_grant m"
  by (auto simp: cap_grant_def fun_eq_iff)

lemma cap_grant_caps: "cap_grant m a = Some g \<Longrightarrow> \<exists>h. mo_caps m a = Some (h, g)"
  by (auto simp: cap_grant_def)

lemma sess_at_ctx: "ctx_at H h = Some g \<Longrightarrow> sess_at H h = (if g_live g then Some (g_parent g, g_root g) else None)"
  by (simp add: sess_at_def)

lemma sess_at_Some: "sess_at H h = Some (p, r) \<Longrightarrow>
  \<exists>g. ctx_at H h = Some g \<and> g_live g \<and> g_parent g = p \<and> g_root g = r"
  by (auto simp: sess_at_def split: option.splits if_splits)

lemma sess_at_upd:
  "sess_at (H(a \<mapsto> CtxObj g)) = (sess_at H)(a := if g_live g then Some (g_parent g, g_root g) else None)"
  "(\<And>g. ob \<noteq> CtxObj g) \<Longrightarrow> ctx_at H a = None \<Longrightarrow> sess_at (H(a \<mapsto> ob)) = sess_at H"
  by (auto simp: sess_at_def ctx_at_upd_other fun_eq_iff)

lemma grant_at_upd:
  "grant_at (H(a \<mapsto> ob)) = (grant_at H)(a := if obj_live ob then Some (obj_grant ob) else None)"
  by (auto simp: grant_at_def fun_eq_iff)

lemma handles_upd:
  "{x. is_handle (H(a \<mapsto> ob)) x} =
     (if \<exists>n. ob = ArenaObj n then {x. is_handle H x} - {a} else insert a {x. is_handle H x})"
  by (auto simp: is_handle_def split: cobj.splits)

lemma fresh_facts:
  assumes "H a = None"
  shows "ctx_at H a = None" "sess_at H a = None" "grant_at H a = None" "\<not> is_handle H a"
  using assms by (simp_all add: ctx_at_def sess_at_def grant_at_def is_handle_def)

lemma ctx_facts:
  assumes "ctx_at H a = Some g"
  shows "grant_at H a = None" "is_handle H a"
  using assms by (simp_all add: at_iff grant_at_def is_handle_def)

text \<open>The memory updates of the operations, each with the monitor's.\<close>

lemma represents_ctx:
  assumes "represents m H" and "ctx_at H h = Some g"
    and "g_parent g' = g_parent g" "g_root g' = g_root g" "g_live g' = g_live g" "owned g' = owned g"
  shows "represents m (H(h \<mapsto> CtxObj g'))"
proof -
  note r = representsD [OF assms(1)] and s = sess_at_ctx [OF assms(2)] and c = ctx_facts [OF assms(2)]
  have o: "owns H y b \<Longrightarrow> owns (H(h \<mapsto> CtxObj g')) y b" for y b
    using assms(2,5,6) by (cases "y = h") (simp_all add: owns_def)
  have "sess_at (H(h \<mapsto> CtxObj g')) = sess_at H"
    unfolding sess_at_upd(1) assms(3-5) s [symmetric] by (rule fun_upd_triv)
  moreover have "grant_at (H(h \<mapsto> CtxObj g')) = grant_at H"
    using c(1) by (simp add: grant_at_upd fun_upd_idem)
  moreover have "{x. is_handle (H(h \<mapsto> CtxObj g')) x} = {x. is_handle H x}"
    using c(2) by (simp add: handles_upd insert_absorb)
  ultimately show ?thesis by (intro representsI) (use r o in auto)
qed

lemma represents_add_cap:
  assumes rep: "represents m H" and g: "ctx_at H h = Some g" "g_live g" and a: "H a = None"
    and ob: "\<And>g. ob \<noteq> CtxObj g" "\<And>n. ob \<noteq> ArenaObj n" "obj_live ob"
    and g': "g_parent g' = g_parent g" "g_root g' = g_root g" "g_live g'" "owned g' = insert a (owned g)"
  shows "represents (add_cap a h (obj_grant ob) m) (H(a \<mapsto> ob, h \<mapsto> CtxObj g'))"
proof -
  have ne: "a \<noteq> h" using g a by (auto simp: at_iff)
  note f = fresh_facts [where H = H and a = a, OF a] and c = ctx_facts [OF g(1)] and r = representsD [OF rep]
  have "sess_at (H(a \<mapsto> ob, h \<mapsto> CtxObj g')) = sess_at H"
    using sess_at_ctx [OF g(1)] g g' ob(1) f(1) by (simp add: sess_at_upd fun_upd_idem)
  moreover have "grant_at (H(a \<mapsto> ob, h \<mapsto> CtxObj g')) = (grant_at H)(a \<mapsto> obj_grant ob)"
    using c ne ob(3) by (auto simp: grant_at_upd fun_eq_iff)
  moreover have "{x. is_handle (H(a \<mapsto> ob, h \<mapsto> CtxObj g')) x} = insert a {x. is_handle H x}"
    using c ob(2) by (auto simp: handles_upd)
  moreover have "owns (H(a \<mapsto> ob, h \<mapsto> CtxObj g')) y b" if "owns H y b" for b y
    using that g g' ob(1) f(1) by (cases "y = h") (auto simp: ctx_at_upd_other owns_def)
  moreover have "owns (H(a \<mapsto> ob, h \<mapsto> CtxObj g')) h a" using g' by (simp add: owns_def)
  ultimately show ?thesis
    by (intro representsI) (use r in \<open>auto simp: add_cap_def split: if_splits\<close>)
qed

lemma represents_open:
  assumes rep: "represents m H" and h: "H h = None" "H ar = None" "h \<noteq> ar" and live: "g_live g"
  shows "represents (open_sess h (g_parent g) (g_root g) m) (H(h \<mapsto> CtxObj g, ar \<mapsto> ArenaObj n))"
proof -
  let ?H = "H(h \<mapsto> CtxObj g, ar \<mapsto> ArenaObj n)"
  note f = fresh_facts [where H = H and a = h, OF h(1)] and f2 = fresh_facts [where H = H and a = ar, OF h(2)] and r = representsD [OF rep]
  have c: "ctx_at ?H x = (if x = h then Some g else ctx_at H x)" for x
    using h(3) f2(1) by (auto simp: ctx_at_def)
  have "sess_at ?H = (sess_at H)(h \<mapsto> (g_parent g, g_root g))" using live by (simp add: sess_at_def c fun_eq_iff)
  moreover have "grant_at ?H = grant_at H" using f f2 by (auto simp: grant_at_upd fun_eq_iff)
  moreover have "{x. is_handle ?H x} = insert h {x. is_handle H x}"
    using f2 h(3) by (auto simp: handles_upd)
  moreover have "owns ?H y b" if "owns H y b" for b y using that f(1) by (auto simp: c owns_def)
  ultimately show ?thesis
    by (intro representsI) (use r in \<open>auto simp: open_sess_def\<close>)
qed

lemma represents_spend:
  assumes rep: "represents m H" and H: "H a = Some ob" and live: "obj_live ob" "obj_live ob'"
    and ob: "obj_grant ob = Units u \<and> obj_grant ob' = Units (u - n) \<or> obj_grant ob = Bytes u \<and> obj_grant ob' = Bytes (u - n)"
  shows "represents (spend a n m) (H(a \<mapsto> ob'))"
proof -
  note r = representsD [OF rep]
  have nc: "\<And>g. ob \<noteq> CtxObj g" "\<And>g. ob' \<noteq> CtxObj g"
    using live by auto
  have "ctx_at H a = None" using H nc(1) by (auto simp: ctx_at_def split: cobj.splits)
  then have c: "ctx_at (H(a \<mapsto> ob')) = ctx_at H" using nc(2) by (auto simp: ctx_at_upd_other fun_eq_iff)
  then have s: "sess_at (H(a \<mapsto> ob')) = sess_at H" by (simp add: sess_at_def fun_eq_iff)
  have hd: "{x. is_handle (H(a \<mapsto> ob')) x} = {x. is_handle H x}"
    using H live by (cases ob; cases ob') (auto simp: handles_upd is_handle_def)
  have "grant_at H a = Some (obj_grant ob)" using H live by (simp add: grant_at_def)
  with r(2) have "cap_grant m a = Some (obj_grant ob)" by simp
  then obtain h where caps: "mo_caps m a = Some (h, obj_grant ob)" using cap_grant_caps by blast
  with ob have sp: "spend a n m = m\<lparr>mo_caps := (mo_caps m)(a \<mapsto> (h, obj_grant ob'))\<rparr>" by (auto simp: spend_def)
  have "owns (H(a \<mapsto> ob')) = owns H" by (simp add: owns_def c fun_eq_iff)
  then show ?thesis unfolding sp
    by (intro representsI) (use r r(4) [OF caps] live s hd in \<open>auto simp: grant_at_upd split: if_splits\<close>)
qed

lemma under_root: "under S h x \<Longrightarrow> \<exists>e. S h = Some e"
  by (induction rule: under.induct) auto

text \<open>Nesting is the same in the monitor's table and in the graph of contexts.\<close>

lemma under_desc:
  assumes wf: "wf_r r H"
  shows "under (sess_at H) h x \<longleftrightarrow> desc H h x"
proof
  show "desc H h x" if "under (sess_at H) h x"
    using that
  proof (induction rule: under.induct)
    case (under_self e)
    then show ?case using sess_at_Some [of H h "fst e" "snd e"] by (auto intro: desc_self)
  next
    case (under_child x c rt)
    from sess_at_Some [OF under_child.hyps(2)] obtain g
      where g: "ctx_at H c = Some g" "g_parent g = x" by blast
    from desc_live [OF wf under_child.IH] have "x \<noteq> 0" using at_nonzero(1) [OF wf] by blast
    with wf_upD [OF wf g(1)] g(2) obtain gp where "ctx_at H x = Some gp" "c \<in> set (children gp)" by auto
    with under_child.IH show ?case by (rule desc_child)
  qed
  show "under (sess_at H) h x" if "desc H h x"
    using that
  proof (induction rule: desc.induct)
    case (desc_self h g)
    then show ?case by (auto simp: sess_at_ctx intro: under_self)
  next
    case (desc_child h x gx c)
    from wf_downD [OF wf desc_child.hyps(2,3)] obtain gc
      where "ctx_at H c = Some gc" "g_live gc" "g_parent gc = x" by blast
    then have "sess_at H c = Some (x, g_root gc)" by (simp add: sess_at_ctx)
    with desc_child.IH show ?case by (rule under_child)
  qed
qed

text \<open>Ending a session at the memory: the tree is dead, the rest is as it was.\<close>

lemma end_post_sess:
  assumes wf: "wf_r r H" and g: "ctx_at H h = Some g" "g_live g" and post: "end_post r h g H H'"
  shows "sess_at H' x = (if desc H h x then None else sess_at H x)"
proof -
  have wf': "wf_r r H'" and sh: "shrinks H H'" and dead: "\<exists>g'. ctx_at H' h = Some g' \<and> \<not> g_live g'"
    using post by (auto simp: end_post_def)
  show ?thesis
  proof (cases "desc H h x")
    case True
    with end_kills_descendants [OF wf wf' sh True dead] show ?thesis by (auto simp: sess_at_def)
  next
    case nd: False
    show ?thesis
    proof (cases "ctx_at H x")
      case None
      then have "ctx_at H' x = None" using shrinks_ctx(1) [OF sh, of x] by (cases "ctx_at H' x") auto
      with None nd show ?thesis by (simp add: sess_at_def)
    next
      case (Some gx)
      have xh: "x \<noteq> h" using nd desc_self [OF g] by blast
      have "\<not> region H h x"
      proof
        assume "region H h x"
        then obtain y gy where y: "desc H h y" "ctx_at H y = Some gy"
          "x \<in> owned gy \<or> x = g_arena gy" using nd by (auto simp: region_def)
        moreover have "g_live gy" using desc_live [OF wf y(1)] y(2) by simp
        ultimately show False
          using owned_not_ctx [OF wf_tabsD [OF wf y(2)]] wf_arenaD [OF wf y(2)] Some
          by (auto simp: arena_ok_def ctx_at_def)
      qed
      with post have same: "x \<noteq> g_parent g \<Longrightarrow> H' x = H x" by (auto simp: end_post_def)
      show ?thesis
      proof (cases "x = g_parent g")
        case True
        then have "g_parent g \<noteq> 0" using at_nonzero(1) [OF wf Some] by simp
        with wf_upD [OF wf g(1)] True Some have "h \<in> set (children gx)" by auto
        with wf_downD [OF wf Some] g have "r h \<le> r x" by fastforce
        with post Some xh have "ctx_at H' x = Some (drop_child h gx)" by (auto simp: end_post_def)
        with Some nd show ?thesis by (simp add: sess_at_def)
      next
        case False
        with same nd show ?thesis by (simp add: sess_at_def ctx_at_def)
      qed
    qed
  qed
qed

lemma shrinks_grant:
  assumes "shrinks H H'"
  shows "grant_at H' a = None \<or> grant_at H' a = grant_at H a" and "is_handle H' a = is_handle H a"
proof -
  have s: "obj_shrinks (H a) (H' a)" using assms by (simp add: shrinks_def)
  show "grant_at H' a = None \<or> grant_at H' a = grant_at H a"
    using s by (cases "(H a, H' a)" rule: obj_shrinks.cases) (auto simp: grant_at_def)
  show "is_handle H' a = is_handle H a"
    using s by (cases "(H a, H' a)" rule: obj_shrinks.cases) (auto simp: is_handle_def)
qed

lemma end_post_cap:
  assumes wf: "wf_r r H" and g: "ctx_at H h = Some g" "g_live g" and post: "end_post r h g H H'"
    and own: "owns H x a"
  shows "if desc H h x then grant_at H' a = None else grant_at H' a = grant_at H a \<and> owns H' x a"
proof -
  have wf': "wf_r r H'" and sh: "shrinks H H'" and dead: "\<exists>g'. ctx_at H' h = Some g' \<and> \<not> g_live g'"
    using post by (auto simp: end_post_def)
  from own obtain gx where gx: "ctx_at H x = Some gx" "g_live gx" "a \<in> owned gx"
    by (auto simp: owns_def split: option.splits)
  from shrinks_ctx(2) [OF sh gx(1)] obtain gx' where gx': "ctx_at H' x = Some gx'" "owned gx' = owned gx"
    by (auto simp: ctx_shrinks_def)
  show ?thesis
  proof (cases "desc H h x")
    case True
    with end_kills_descendants [OF wf wf' sh True dead] gx' have "\<not> g_live gx'" by auto
    with wf_revokedD [OF wf' gx'(1)] gx' gx have "\<not> cap_live H' a" by simp
    with True show ?thesis by (auto simp: cap_live_def grant_at_def split: option.splits)
  next
    case False
    have "\<not> region H h a"
    proof
      assume "region H h a"
      then obtain y gy where y: "desc H h y" "ctx_at H y = Some gy" "a = y \<or> a \<in> owned gy \<or> a = g_arena gy"
        by (auto simp: region_def)
      have "x \<noteq> y" using y(1) False by blast
      then have "owned gx \<inter> owned gy = {}"
        using wf gx(1) y(2) unfolding wf_r_def wf_owned_def by blast
      moreover have "g_live gy" using desc_live [OF wf y(1)] y(2) by simp
      then have "H (g_arena gy) = Some (ArenaObj (g_arena_size gy))"
        using wf_arenaD [OF wf y(2)] by (simp add: arena_ok_def)
      then have "a \<noteq> g_arena gy"
        using owned_kind [OF wf_tabsD [OF wf gx(1)] gx(3)] by (auto simp: at_defs)
      moreover have "a \<noteq> y" using owned_not_ctx [OF wf_tabsD [OF wf gx(1)] gx(3)] y(2) by auto
      ultimately show False using y(3) gx(3) by blast
    qed
    moreover have "a \<noteq> g_parent g"
      using owned_not_ctx [OF wf_tabsD [OF wf gx(1)] gx(3)] owned_used [OF wf_tabsD [OF wf gx(1)] gx(3)]
        wf_upD [OF wf g(1)] wf_zeroD [OF wf] by (cases "g_parent g = 0") auto
    ultimately have "H' a = H a" using post by (auto simp: end_post_def)
    moreover have "g_live gx'"
      using end_post_sess [OF wf g post, of x] False gx gx' by (auto simp: sess_at_def split: if_splits)
    ultimately show ?thesis using False gx gx' by (simp add: grant_at_def owns_def)
  qed
qed

lemma represents_close:
  assumes rep: "represents m H" and wf: "wf_r r H" and g: "ctx_at H h = Some g" "g_live g"
    and post: "end_post r h g H H'"
  shows "represents (close_sess h m) H'"
proof -
  note r = representsD [OF rep] and s = end_post_sess [OF wf g post] and c = end_post_cap [OF wf g post]
  have sh: "shrinks H H'" using post by (simp add: end_post_def)
  have u: "under (mo_sess m) h x \<longleftrightarrow> desc H h x" for x using under_desc [OF wf] r(1) by simp
  have "cap_grant (close_sess h m) a = grant_at H' a" for a
  proof (cases "mo_caps m a")
    case None
    then have "grant_at H a = None" using fun_cong [OF r(2), of a] by (simp add: cap_grant_def)
    with shrinks_grant(1) [OF sh, of a] None show ?thesis by (auto simp: cap_grant_def close_sess_def)
  next
    case (Some e)
    then obtain x gr where e: "mo_caps m a = Some (x, gr)" by (cases e) auto
    moreover from e have "grant_at H a = Some gr" using fun_cong [OF r(2), of a] by (simp add: cap_grant_def)
    ultimately show ?thesis using c [OF r(4) [OF e]] by (auto simp: cap_grant_def close_sess_def u split: if_splits)
  qed
  moreover have "owns H' x a" if "mo_caps (close_sess h m) a = Some (x, gr)" for a x gr
    using that c [OF r(4), of a] by (fastforce simp: close_sess_def u split: option.splits if_splits)
  moreover have "mo_sess (close_sess h m) = sess_at H'"
    unfolding fun_eq_iff by (simp add: close_sess_def u s) (simp add: r(1))
  moreover have "mo_used (close_sess h m) = {a. is_handle H' a}"
    using r(3) by (simp add: close_sess_def shrinks_grant(2) [OF sh])
  ultimately show ?thesis by (intro representsI) auto
qed

section \<open>The runtime refines the monitor\<close>

lemma chd_ctext: "chd s \<noteq> NUL \<longleftrightarrow> takeWhile (\<lambda>c. c \<noteq> NUL) s \<noteq> []"
  by (cases s) simp_all

lemma nonempty_root_ctext: "nonempty_root root \<longleftrightarrow> ctext root \<noteq> []"
  by (cases root) (simp_all add: nonempty_root_def ctext_def chd_ctext)

lemma mint_root_ctext: "mint_root n root = Some r \<Longrightarrow> r = ctext root \<and> r \<noteq> []"
  using mint_root_Some(3,4) [of n root r] by (auto simp: ctext_def)

lemma cstr_takeWhile: "cstr s \<Longrightarrow> takeWhile (\<lambda>c. c \<noteq> NUL) s = s"
  by (subst takeWhile_eq_all_conv) (auto simp: cstr_def)

lemma or_else_Nil [simp]: "or_else r [] = r"
  by (simp add: or_else_def)

lemma root_or:
  "(if nonempty_root root then mint_root n root = Some r else r = d) \<Longrightarrow> r = or_else (ctext root) d"
  by (cases "nonempty_root root") (auto simp: nonempty_root_ctext or_else_def dest: mint_root_ctext)

lemma mint_or_default:
  assumes "cstr (g_root g)" and "mint_root n (mint_root_or_default g root) = Some r"
  shows "r = or_else (ctext root) (g_root g) \<and> r \<noteq> []"
proof (cases "nonempty_root root")
  case True
  with mint_root_ctext [OF assms(2)] show ?thesis
    by (simp add: mint_root_or_default_def or_else_def nonempty_root_ctext)
next
  case False
  with mint_root_ctext [OF assms(2)] cstr_takeWhile [OF assms(1)] show ?thesis
    by (auto simp: mint_root_or_default_def or_else_def nonempty_root_ctext ctext_def split: if_splits)
qed

definition agrees_after :: "monitor \<Rightarrow> event \<Rightarrow> cheap \<Rightarrow> bool" where
  "agrees_after m e H \<longleftrightarrow> mon_ok e m \<and> represents (mon_next e m) H"

lemma represents_live:
  assumes "represents m H" and "ctx_at H h = Some g" and "g_live g"
  shows "h \<in> dom (mo_sess m)" "sess_root m h = g_root g"
  using representsD(1) [OF assms(1)] assms(2,3) by (auto simp: sess_root_def sess_at_ctx)

lemma represents_new: "represents m H \<Longrightarrow> H a = None \<Longrightarrow> new_handle m a"
  by (simp add: new_handle_def representsD(3) is_handle_def)

lemma session_root:
  assumes "good H" and "ctx_at H h = Some g" and "mint_root_or_default g rt = Some use" and "mint_root n (Some use) = Some x"
  shows "or_else (ctext rt) (g_root g) = x \<and> x \<noteq> []"
  using mint_or_default [of g n rt x] strings_ok_ctx [OF good_strings [OF assms(1)] assms(2)] assms(3,4)
  by (simp, metis)

text \<open>A mint adds the grant of its object to the monitor, whatever the kind.\<close>

context minting
begin

lemma mint_refines:
  assumes "good (heap s)" and "represents m (heap s)" and "h = 0 \<or> ctx_at (heap s) h \<noteq> None"
    and "mint h s = Some (a, s')"
  shows "a = 0 \<and> represents m (heap s') \<or> (\<exists>g q x. a \<noteq> 0 \<and> ctx_at (heap s) h = Some g \<and> admit g = Some q \<and>
    ob h q = Some x \<and> new_handle m a \<and> h \<in> dom (mo_sess m) \<and> sess_root m h = g_root g \<and>
    represents (add_cap a h (obj_grant x) m) (heap s'))"
  using assms(1,3)
proof (cases rule: mint_step)
  case (fail s1)
  then show ?thesis using assms(2,4) by simp
next
  case (ok g q x t cap s1)
  note ob = object [OF ok(6,7)] and f = fields [OF ok(8)]
  have x: "\<And>g. x \<noteq> CtxObj g" "\<And>n. x \<noteq> ArenaObj n" "obj_live x" using ob no_ctx [OF ok(6,7)] by auto
  have "represents (add_cap cap h (obj_grant x) m) (heap s1)"
    unfolding ok(10) by (rule represents_add_cap [OF assms(2) ok(4,5,3) x]) (use f ok(5) in simp_all)
  moreover have "a = cap" "s' = s1" using ok(1) assms(4) by simp_all
  ultimately show ?thesis using ok represents_new [OF assms(2) ok(3)] represents_live [OF assms(2) ok(4,5)] by auto
qed

end

text \<open>One lemma per kind of call.\<close>

lemma refine_begin:
  assumes "good (w_heap w)" and "represents m (w_heap w)" and "exec_call (BeginGuest root n) w = Some (r, w')"
  shows "agrees_after m (BeginGuest root n, r) (w_heap w')"
  using assms(1)
proof (cases rule: begin_step [of "w_mem w" root n])
  case (fail s')
  then show ?thesis using assms(2,3) by (auto simp: on_mem_def agrees_after_def)
next
  case (ok h g s')
  have rt: "g_root g = ctext root" using root_or [OF ok(10)] by simp
  have p: "g_parent g = 0" using ok(7) by (simp add: new_ctx_def)
  have "r = Handle h" "w_heap w' = heap s'" using ok(1) assms(3) by (auto simp: on_mem_def)
  then show ?thesis
    using ok(2) represents_new [OF assms(2) ok(3)] represents_open [OF assms(2) ok(3,4,5,6), of "g_arena_size g"]
    by (simp add: agrees_after_def ok(11) rt p)
qed

lemma refine_nested:
  assumes "good (w_heap w)" and "represents m (w_heap w)" and "call_ok (w_heap w) (BeginNested p root n)"
    and "exec_call (BeginNested p root n) w = Some (r, w')"
  shows "agrees_after m (BeginNested p root n, r) (w_heap w')"
proof -
  have t: "p = 0 \<or> ctx_at (w_heap w) p \<noteq> None" using assms(3) by (simp add: typed_def)
  from assms(1) t show ?thesis
  proof (cases rule: begin_nested_step [where root = root and n = n])
    case (fail s')
    then show ?thesis using assms(2,4) by (auto simp: on_mem_def agrees_after_def)
  next
    case (ok h g gp t s')
    note live = represents_live [OF assms(2) ok(6,7)]
    have rt: "g_root g = or_else (ctext root) (sess_root m p)" using root_or [OF ok(13)] live(2) by simp
    have "ctx_at ((w_heap w)(h \<mapsto> CtxObj g, g_arena g \<mapsto> ArenaObj (g_arena_size g))) p = Some gp"
      using ok(3,4,6) by (auto simp: at_iff)
    from represents_ctx [OF represents_open [OF assms(2) ok(3,4,5,8), of "g_arena_size g"] this,
        of "gp\<lparr>g_children := t\<rparr>"]
    have "represents (open_sess h p (g_root g) m) (heap s')"
      by (simp add: owned_def ok(9,16))
    moreover have "r = Handle h" "w_heap w' = heap s'" using ok(1) assms(4) by (auto simp: on_mem_def)
    ultimately show ?thesis
      using ok(2) represents_new [OF assms(2) ok(3)] live(1) by (simp add: agrees_after_def rt)
  qed
qed

lemma refine_end:
  assumes "good (w_heap w)" and "represents m (w_heap w)" and "call_ok (w_heap w) (EndSession h)"
    and "exec_call (EndSession h) w = Some (r, w')"
  shows "agrees_after m (EndSession h, r) (w_heap w')"
proof -
  have t: "h = 0 \<or> ctx_at (w_heap w) h \<noteq> None" using assms(3) by (simp add: typed_def)
  then have u: "h = 0 \<or> h \<in> mo_used m" using ctx_facts(2) representsD(3) [OF assms(2)] by auto
  from assms(1) t show ?thesis
  proof (cases rule: end_step)
    case idle
    have "mo_sess m h = None"
      unfolding representsD(1) [OF assms(2)] using idle(2) by (auto simp: sess_at_def split: option.splits)
    then have "\<not> under (mo_sess m) h x" for x using under_root by fastforce
    then have "close_sess h m = m" by (simp add: close_sess_def fun_eq_iff split: option.splits)
    then show ?thesis using idle(1) assms(2,4) u by (auto simp: on_mem_def agrees_after_def)
  next
    case (ended g rk s')
    from represents_close [OF assms(2) ended(4,2,3,5)] ended(1) assms(4) u show ?thesis
      by (auto simp: on_mem_def agrees_after_def)
  qed
qed

lemma refine_mint_fs:
  assumes "good (w_heap w)" and "represents m (w_heap w)" and "call_ok (w_heap w) (MintFs h root)"
    and "exec_call (MintFs h root) w = Some (r, w')"
  shows "agrees_after m (MintFs h root, r) (w_heap w')"
proof -
  have t: "h = 0 \<or> ctx_at (w_heap w) h \<noteq> None" using assms(3) by (simp add: typed_def)
  obtain a s' where "fx_guest_mint_fscap h root (w_mem w) = Some (a, s')" and r: "r = Handle a" "w_heap w' = heap s'"
    using assms(4) by (auto simp: on_mem_def)
  from fs_mint.mint_refines [OF assms(1,2) t this(1)] r show ?thesis
    by (auto simp: agrees_after_def assms(2) dest: session_root [OF assms(1)])
qed

lemma refine_mint_out:
  assumes "good (w_heap w)" and "represents m (w_heap w)" and "call_ok (w_heap w) (MintOut h root)"
    and "exec_call (MintOut h root) w = Some (r, w')"
  shows "agrees_after m (MintOut h root, r) (w_heap w')"
proof -
  have t: "h = 0 \<or> ctx_at (w_heap w) h \<noteq> None" using assms(3) by (simp add: typed_def)
  obtain a s' where "fx_guest_mint_outcap h root (w_mem w) = Some (a, s')" and r: "r = Handle a" "w_heap w' = heap s'"
    using assms(4) by (auto simp: on_mem_def)
  from out_mint.mint_refines [OF assms(1,2) t this(1)] r show ?thesis
    by (auto simp: agrees_after_def assms(2) dest: session_root [OF assms(1)])
qed

lemma refine_mint_budgets:
  assumes "good (w_heap w)" and "represents m (w_heap w)" and "call_ok (w_heap w) c" and "exec_call c w = Some (r, w')"
  shows "c = MintAlloc h n \<Longrightarrow> agrees_after m (c, r) (w_heap w')"
    and "c = MintFuel h n \<Longrightarrow> agrees_after m (c, r) (w_heap w')"
proof -
  have t: "h = 0 \<or> ctx_at (w_heap w) h \<noteq> None" if "c = MintAlloc h n \<or> c = MintFuel h n"
    using assms(3) that by (auto simp: typed_def)
  show "agrees_after m (c, r) (w_heap w')" if c: "c = MintAlloc h n"
  proof -
    obtain a s' where "fx_guest_mint_alloccap h n (w_mem w) = Some (a, s')" and r: "r = Handle a" "w_heap w' = heap s'"
      using assms(4) c by (auto simp: on_mem_def)
    from alloc_mint.mint_refines [OF assms(1,2) t [OF disjI1 [OF c]] this(1)] r show ?thesis
      by (auto simp: agrees_after_def assms(2) c split: if_splits)
  qed
  show "agrees_after m (c, r) (w_heap w')" if c: "c = MintFuel h n"
  proof -
    obtain a s' where "fx_guest_mint_fuelcap h n (w_mem w) = Some (a, s')" and r: "r = Handle a" "w_heap w' = heap s'"
      using assms(4) c by (auto simp: on_mem_def)
    from fuel_mint.mint_refines [OF assms(1,2) t [OF disjI2 [OF c]] this(1)] r show ?thesis
      by (auto simp: agrees_after_def assms(2) c split: if_splits)
  qed
qed

lemma refine_mint_net:
  assumes "good (w_heap w)" and "represents m (w_heap w)" and "call_ok (w_heap w) (MintNet h host pmin pmax)"
    and "exec_call (MintNet h host pmin pmax) w = Some (r, w')"
  shows "agrees_after m (MintNet h host pmin pmax, r) (w_heap w')"
proof -
  have t: "h = 0 \<or> ctx_at (w_heap w) h \<noteq> None" using assms(3) by (simp add: typed_def)
  obtain a s' where "fx_guest_mint_netcap h host pmin pmax (w_mem w) = Some (a, s')" and r: "r = Handle a" "w_heap w' = heap s'"
    using assms(4) by (auto simp: on_mem_def)
  from net_mint.mint_refines [OF assms(1,2) t this(1)] r show ?thesis
    by (auto simp: agrees_after_def assms(2) ctext_def take_strlen chd_ctext split: option.splits if_splits)
qed

lemma refine_arena:
  assumes good: "good (w_heap w)" and rep: "represents m (w_heap w)" and call: "call_ok (w_heap w) (ArenaAlloc h n)"
    and run: "exec_call (ArenaAlloc h n) w = Some (r, w')"
  shows "agrees_after m (ArenaAlloc h n, r) (w_heap w')"
proof -
  have t: "h = 0 \<or> ctx_at (w_heap w) h \<noteq> None" using call by (simp add: typed_def)
  from good t show ?thesis
  proof (cases rule: bump_alloc_step [where n = n])
    case fail
    then show ?thesis using rep run by (auto simp: on_mem_def agrees_after_def fx_guest_alloc_def)
  next
    case (ok g p s')
    have "r = Handle (g_arena g + p)" "w_heap w' = heap s'"
      using ok(1) run by (auto simp: on_mem_def fx_guest_alloc_def)
    moreover have "represents m (heap s')"
      unfolding ok(13) by (rule represents_ctx [OF rep ok(3)]) (simp_all add: owned_def)
    ultimately show ?thesis using represents_live(1) [OF rep ok(3,4)] ok(5) by (simp add: agrees_after_def)
  qed
qed

lemma refine_budget:
  assumes good: "good (w_heap w)" and rep: "represents m (w_heap w)" and call: "call_ok (w_heap w) (BudgetAlloc a n)"
    and run: "exec_call (BudgetAlloc a n) w = Some (r, w')"
  shows "agrees_after m (BudgetAlloc a n, r) (w_heap w')"
proof -
  have t: "a = 0 \<or> alloc_at (w_heap w) a \<noteq> None" using call by (simp add: typed_def)
  from good t show ?thesis
  proof (cases rule: cap_alloc_step [where n = n])
    case fail
    then show ?thesis using rep run by (auto simp: on_mem_def agrees_after_def)
  next
    case (ok c g p s')
    let ?H = "(w_heap w)(al_ctx c \<mapsto> CtxObj (g\<lparr>g_arena_used := p + n\<rparr>))"
    have rv: "r = Handle (g_arena g + p)" "w_heap w' = heap s'" using ok(1) run by (auto simp: on_mem_def)
    have "represents m ?H" by (rule represents_ctx [OF rep ok(6)]) (simp_all add: owned_def)
    moreover have "a \<noteq> al_ctx c" using ok(2,6) by (auto simp: at_iff)
    then have "?H a = Some (AllocObj c)" using ok(2) by (simp add: at_iff)
    ultimately have "represents (spend a (sint n) m) (heap s')"
      unfolding ok(14) by (rule represents_spend [where u = "sint (al_budget c)"]) (simp_all add: ok)
    moreover have "cap_grant m a = Some (Bytes (sint (al_budget c)))"
      using representsD(2) [OF rep] ok(2,3) by (simp add: grant_at_def at_iff)
    ultimately show ?thesis using rv ok(4,5,11) by (simp add: agrees_after_def may_take_def)
  qed
qed

lemma refine_burn:
  assumes good: "good (w_heap w)" and rep: "represents m (w_heap w)" and call: "call_ok (w_heap w) (BurnFuel f n)"
    and run: "exec_call (BurnFuel f n) w = Some (r, w')"
  shows "agrees_after m (BurnFuel f n, r) (w_heap w')"
proof -
  have t: "f = 0 \<or> fuel_at (w_heap w) f \<noteq> None" using call by (simp add: typed_def)
  from good t show ?thesis
  proof (cases rule: burn_step [where n = n])
    case fail
    have "\<not> may_burn m f n"
    proof
      assume "may_burn m f n"
      then obtain u where u: "grant_at (w_heap w) f = Some (Units u)" "0 < sint n" "sint n \<le> u"
        using representsD(2) [OF rep] by (auto simp: may_burn_def split: option.splits grant.splits)
      then obtain c where "fuel_at (w_heap w) f = Some c" "fu_live c" "u = sint (fu_units c)"
        using call by (auto simp: typed_def at_iff grant_at_def good_zero [OF good] split: if_splits)
      with fail(2) u show False by fastforce
    qed
    then show ?thesis using fail(1) rep run by (auto simp: on_mem_def agrees_after_def)
  next
    case (ok c s')
    have rv: "r = Flag True" "w_heap w' = heap s'" using ok(1) run by (auto simp: on_mem_def)
    have "w_heap w f = Some (FuelObj c)" using ok(2) by (simp add: at_iff)
    with rep have "represents (spend f (sint n) m) (heap s')"
      unfolding ok(8) by (rule represents_spend [where u = "sint (fu_units c)"]) (simp_all add: ok)
    moreover have "cap_grant m f = Some (Units (sint (fu_units c)))"
      using representsD(2) [OF rep] ok(2,3) by (simp add: grant_at_def at_iff)
    ultimately show ?thesis using rv ok(4,5) by (simp add: agrees_after_def may_burn_def)
  qed
qed

text \<open>The guards decide what the monitor decides.\<close>

lemma monitor_guards:
  assumes rep: "represents m H" and z: "H 0 = None"
  shows "typed fs_at H c \<Longrightarrow> may_read m c path = fs_grants H c path"
    and "typed out_at H c \<Longrightarrow> may_write m c path = out_grants H c path"
    and "typed net_at H c \<Longrightarrow> mon_dials m c host port = net_grants H c host port"
    and "h \<in> dom (mo_sess m) \<longleftrightarrow> (\<exists>g. ctx_at H h = Some g \<and> g_live g)"
proof -
  note r = representsD(1,2) [OF rep]
  have none: "grant_at H 0 = None" "fs_at H 0 = None" "out_at H 0 = None" "net_at H 0 = None"
    using z by (simp_all add: grant_at_def at_defs)
  show "may_read m c path = fs_grants H c path" if t: "typed fs_at H c"
  proof (cases "c = 0")
    case False
    with t obtain k where "fs_at H c = Some k" "H c = Some (FsObj k)" by (auto simp: typed_def at_iff)
    then show ?thesis by (auto simp: may_read_def fs_grants_def r grant_at_def split: option.splits)
  qed (simp add: may_read_def fs_grants_def r none)
  show "may_write m c path = out_grants H c path" if t: "typed out_at H c"
  proof (cases "c = 0")
    case False
    with t obtain k where "out_at H c = Some k" "H c = Some (OutObj k)" by (auto simp: typed_def at_iff)
    then show ?thesis by (auto simp: may_write_def out_grants_def r grant_at_def split: option.splits)
  qed (simp add: may_write_def out_grants_def r none)
  show "mon_dials m c host port = net_grants H c host port" if t: "typed net_at H c"
  proof (cases "c = 0")
    case False
    with t obtain k where "net_at H c = Some k" "H c = Some (NetObj k)" by (auto simp: typed_def at_iff)
    then show ?thesis by (auto simp: mon_dials_def net_grants_def r grant_at_def split: option.splits)
  qed (simp add: mon_dials_def net_grants_def r none)
  show "h \<in> dom (mo_sess m) \<longleftrightarrow> (\<exists>g. ctx_at H h = Some g \<and> g_live g)"
    by (auto simp: r sess_at_def split: option.splits if_splits)
qed

lemma exec_refines:
  assumes good: "good (w_heap w)" and rep: "represents m (w_heap w)" and call: "call_ok (w_heap w) c"
    and run: "exec_call c w = Some (r, w')"
  shows "agrees_after m (c, r) (w_heap w')"
proof (cases c)
  case (IsLive h)
  note gd = monitor_guards(4) [OF rep good_zero [OF good], of h]
  have "ctx_at (w_heap w) 0 = None" using good_zero [OF good] by (simp add: ctx_at_def)
  with IsLive run rep gd show ?thesis
    by (cases "h = 0") (auto simp: agrees_after_def fx_guest_is_live_def bind_iff)
next
  case (NetAllows n host port)
  with call have t: "typed net_at (w_heap w) n" "cptr_ok host" by simp_all
  from net_guard [OF good t] monitor_guards(3) [OF rep good_zero [OF good] t(1)] NetAllows run rep
  show ?thesis by (auto simp: agrees_after_def)
next
  case (ReadFile k p e)
  with call obtain path where p: "p = Outside path" and t: "typed fs_at (w_heap w) k" "cptr_ok path"
    by (cases p) simp_all
  note gd = monitor_guards(1) [OF rep good_zero [OF good] t(1)]
  from good t show ?thesis
    by (cases rule: read_file_step [where e = e and d = "w_disk w"])
      (use ReadFile p run rep gd in \<open>auto simp: agrees_after_def on_mem_def clear_last_text_def\<close>)
next
  case (WriteFile k path data e)
  with call have t: "typed out_at (w_heap w) k" "cptr_ok path" by simp_all
  note gd = monitor_guards(2) [OF rep good_zero [OF good] t(1)]
  from good t show ?thesis
    by (cases rule: write_file_step [where e = e and d = "w_disk w" and data = data])
      (use WriteFile run rep gd in \<open>auto simp: agrees_after_def\<close>)
qed (use refine_begin refine_nested refine_end refine_mint_fs refine_mint_out refine_mint_budgets
    refine_mint_net refine_arena refine_budget refine_burn good rep call run in \<open>auto\<close>)

interpretation runtime_monitor:
  monitored "\<lambda>w. good (w_heap w)" api_move "\<lambda>m w. represents m (w_heap w)" mon_ok mon_next
proof
  fix w e w' m assume good: "good (w_heap w)" and mv: "api_move w e w'"
  show "good (w_heap w')" by (rule api_move_good(1) [OF good mv])
  obtain c r where e: "e = (c, r)" by (cases e)
  assume rep: "represents m (w_heap w)"
  have "agrees_after m (c, r) (w_heap w')"
    by (rule exec_refines [OF good rep]) (use mv in \<open>simp_all add: api_move_def e\<close>)
  then show "mon_ok e m" "represents (mon_next e m) (w_heap w')" by (simp_all add: agrees_after_def e)
qed

end
