(* ===== verification/MonitorLog.thy ===== *)
theory MonitorLog
  imports Monitor
begin

text \<open>
  What the monitor guarantees, read off a log of calls and answers alone: which session a
  handle was opened in, what its root is, what a capability was minted for, and that no
  session above it has been ended. Every use the monitor accepts is covered by such a log,
  hence every use the runtime performs.
\<close>

section \<open>Reading a log\<close>

text \<open>\<open>h\<close> was opened in \<open>x\<close>, in a session opened in \<open>x\<close>, and so on, or is \<open>x\<close>.\<close>

inductive nested_log :: "event set \<Rightarrow> addr \<Rightarrow> addr \<Rightarrow> bool" for E x where
  nested_self: "nested_log E x x"
| nested_step: "nested_log E x p \<Longrightarrow> (BeginNested p root n, Handle h) \<in> E \<Longrightarrow> h \<noteq> 0 \<Longrightarrow> nested_log E x h"

definition still_open :: "event set \<Rightarrow> addr \<Rightarrow> bool" where
  "still_open E h \<longleftrightarrow> (\<forall>x st. (EndSession x, st) \<in> E \<longrightarrow> \<not> nested_log E x h)"

inductive log_root :: "event set \<Rightarrow> addr \<Rightarrow> string \<Rightarrow> bool" for E where
  root_begin: "(BeginGuest root n, Handle h) \<in> E \<Longrightarrow> h \<noteq> 0 \<Longrightarrow> log_root E h (ctext root)"
| root_nested: "(BeginNested p root n, Handle h) \<in> E \<Longrightarrow> h \<noteq> 0 \<Longrightarrow> log_root E p d \<Longrightarrow>
    log_root E h (or_else (ctext root) d)"

inductive log_grants :: "event set \<Rightarrow> addr \<Rightarrow> addr \<Rightarrow> grant \<Rightarrow> bool" for E where
  grants_read: "(MintFs h root, Handle a) \<in> E \<Longrightarrow> a \<noteq> 0 \<Longrightarrow> log_root E h d \<Longrightarrow>
    log_grants E a h (Reads (or_else (ctext root) d))"
| grants_write: "(MintOut h root, Handle a) \<in> E \<Longrightarrow> a \<noteq> 0 \<Longrightarrow> log_root E h d \<Longrightarrow>
    log_grants E a h (Writes (or_else (ctext root) d))"
| grants_dial: "(MintNet h host lo hi, Handle a) \<in> E \<Longrightarrow> a \<noteq> 0 \<Longrightarrow>
    log_grants E a h (Dials (ctext host) lo hi)"
| grants_bytes: "(MintAlloc h b, Handle a) \<in> E \<Longrightarrow> a \<noteq> 0 \<Longrightarrow> n \<le> sint b \<Longrightarrow> log_grants E a h (Bytes n)"
| grants_units: "(MintFuel h u, Handle a) \<in> E \<Longrightarrow> a \<noteq> 0 \<Longrightarrow> n \<le> sint u \<Longrightarrow> log_grants E a h (Units n)"

lemma log_root_mono: "log_root E h r \<Longrightarrow> E \<subseteq> E' \<Longrightarrow> log_root E' h r"
  by (induction rule: log_root.induct) (auto intro: log_root.intros)

lemma log_grants_mono: "log_grants E a h g \<Longrightarrow> E \<subseteq> E' \<Longrightarrow> log_grants E' a h g"
  by (induction rule: log_grants.induct) (auto intro: log_grants.intros log_root_mono)

section \<open>The invariant of a monitored log\<close>

definition opens :: "event \<Rightarrow> addr \<Rightarrow> addr \<Rightarrow> bool" where
  "opens e p h \<longleftrightarrow> h \<noteq> 0 \<and> (\<exists>root n. e = (BeginGuest root n, Handle h) \<and> p = 0 \<or> e = (BeginNested p root n, Handle h))"

lemma opensI:
  "h \<noteq> 0 \<Longrightarrow> opens (BeginNested p root n, Handle h) p h"
  "h \<noteq> 0 \<Longrightarrow> opens (BeginGuest root n, Handle h) 0 h"
  by (auto simp: opens_def)

definition log_inv :: "event set \<Rightarrow> monitor \<Rightarrow> bool" where
  "log_inv E m \<longleftrightarrow> 0 \<notin> mo_used m \<and> dom (mo_sess m) \<subseteq> mo_used m \<and>
     (\<forall>e p h. e \<in> E \<longrightarrow> opens e p h \<longrightarrow> h \<in> mo_used m \<and> (p = 0 \<or> p \<in> mo_used m) \<and>
        (\<forall>q r. mo_sess m h = Some (q, r) \<longrightarrow> q = p \<and> (p = 0 \<or> p \<in> dom (mo_sess m)))) \<and>
     (\<forall>p root n h. (BeginNested p root n, Handle h) \<in> E \<longrightarrow> h \<noteq> 0 \<longrightarrow> p \<noteq> 0) \<and>
     (\<forall>x st. (EndSession x, st) \<in> E \<longrightarrow> x = 0 \<or> x \<in> mo_used m) \<and>
     (\<forall>h p r. mo_sess m h = Some (p, r) \<longrightarrow> still_open E h \<and> log_root E h r) \<and>
     (\<forall>a h g. mo_caps m a = Some (h, g) \<longrightarrow> h \<in> dom (mo_sess m) \<and> log_grants E a h g)"

lemma log_invD:
  assumes "log_inv E m"
  shows "0 \<notin> mo_used m" "dom (mo_sess m) \<subseteq> mo_used m"
    and "e \<in> E \<Longrightarrow> opens e p h \<Longrightarrow> h \<in> mo_used m \<and> (p = 0 \<or> p \<in> mo_used m)"
    and "e \<in> E \<Longrightarrow> opens e p h \<Longrightarrow> mo_sess m h = Some (q, r) \<Longrightarrow> q = p \<and> (p = 0 \<or> p \<in> dom (mo_sess m))"
    and "(BeginNested p root n, Handle h) \<in> E \<Longrightarrow> h \<noteq> 0 \<Longrightarrow> p \<noteq> 0"
    and "(EndSession x, st) \<in> E \<Longrightarrow> x = 0 \<or> x \<in> mo_used m"
    and "mo_sess m h = Some (p, r) \<Longrightarrow> still_open E h \<and> log_root E h r"
    and "mo_caps m a = Some (h, g) \<Longrightarrow> h \<in> dom (mo_sess m) \<and> log_grants E a h g"
  using assms unfolding log_inv_def by blast+

lemma log_invI:
  assumes "0 \<notin> mo_used m" "dom (mo_sess m) \<subseteq> mo_used m"
    and "\<And>e p h. e \<in> E \<Longrightarrow> opens e p h \<Longrightarrow> h \<in> mo_used m \<and> (p = 0 \<or> p \<in> mo_used m)"
    and "\<And>e p h q r. e \<in> E \<Longrightarrow> opens e p h \<Longrightarrow> mo_sess m h = Some (q, r) \<Longrightarrow>
      q = p \<and> (p = 0 \<or> p \<in> dom (mo_sess m))"
    and "\<And>p root n h. (BeginNested p root n, Handle h) \<in> E \<Longrightarrow> h \<noteq> 0 \<Longrightarrow> p \<noteq> 0"
    and "\<And>x st. (EndSession x, st) \<in> E \<Longrightarrow> x = 0 \<or> x \<in> mo_used m"
    and "\<And>h p r. mo_sess m h = Some (p, r) \<Longrightarrow> still_open E h \<and> log_root E h r"
    and "\<And>a h g. mo_caps m a = Some (h, g) \<Longrightarrow> h \<in> dom (mo_sess m) \<and> log_grants E a h g"
  shows "log_inv E m"
proof -
  have "\<forall>e p h. e \<in> E \<longrightarrow> opens e p h \<longrightarrow> h \<in> mo_used m \<and> (p = 0 \<or> p \<in> mo_used m) \<and>
        (\<forall>q r. mo_sess m h = Some (q, r) \<longrightarrow> q = p \<and> (p = 0 \<or> p \<in> dom (mo_sess m)))"
    using assms(3,4) by blast
  moreover have "\<forall>p root n h. (BeginNested p root n, Handle h) \<in> E \<longrightarrow> h \<noteq> 0 \<longrightarrow> p \<noteq> 0" using assms(5) by blast
  moreover have "\<forall>x st. (EndSession x, st) \<in> E \<longrightarrow> x = 0 \<or> x \<in> mo_used m" using assms(6) by blast
  moreover have "\<forall>h p r. mo_sess m h = Some (p, r) \<longrightarrow> still_open E h \<and> log_root E h r" using assms(7) by blast
  moreover have "\<forall>a h g. mo_caps m a = Some (h, g) \<longrightarrow> h \<in> dom (mo_sess m) \<and> log_grants E a h g"
    using assms(8) by blast
  ultimately show ?thesis using assms(1,2) by (simp only: log_inv_def simp_thms)
qed

lemma log_inv_start: "log_inv {} mon_start"
  by (simp add: log_inv_def mon_start_def)

lemma nested_opens:
  assumes "nested_log (insert e E) x y" and "\<And>p h. \<not> opens e p h"
  shows "nested_log E x y"
  using assms(1)
proof (induction rule: nested_log.induct)
  case (nested_step p root n h)
  then have "opens (BeginNested p root n, Handle h) p h" by (simp add: opens_def)
  with assms(2) nested_step show ?case by (auto intro: nested_log.nested_step)
qed (rule nested_log.nested_self)

text \<open>Below a live session of a monitored log the log's nesting is the monitor's.\<close>

lemma nested_under:
  assumes inv: "log_inv E m"
  shows "nested_log E x h \<Longrightarrow> h \<in> dom (mo_sess m) \<Longrightarrow> under (mo_sess m) x h"
proof (induction rule: nested_log.induct)
  case nested_self
  then show ?case by (auto intro: under_self)
next
  case (nested_step p root n h)
  from nested_step.prems obtain q r where q: "mo_sess m h = Some (q, r)" by auto
  have o: "opens (BeginNested p root n, Handle h) p h" using nested_step.hyps(3) by (simp add: opens_def)
  from log_invD(4) [OF inv nested_step.hyps(2) o q] have p: "q = p" "p = 0 \<or> p \<in> dom (mo_sess m)" by auto
  have "p \<in> dom (mo_sess m)" using p(2) log_invD(5) [OF inv nested_step.hyps(2,3)] by simp
  from under_child [OF nested_step.IH [OF this]] q p(1) show ?case by blast
qed

lemma still_open_mono: "still_open E' h \<Longrightarrow> E \<subseteq> E' \<Longrightarrow> (\<And>x. nested_log E x h \<Longrightarrow> nested_log E' x h) \<Longrightarrow> still_open E h"
  by (auto simp: still_open_def)

text \<open>An event that opens and ends nothing.\<close>

definition calm :: "event \<Rightarrow> bool" where
  "calm e \<longleftrightarrow> (\<forall>p h. \<not> opens e p h) \<and> (\<forall>x st. e \<noteq> (EndSession x, st))"

lemma still_open_calm: "calm e \<Longrightarrow> still_open E h \<Longrightarrow> still_open (insert e E) h"
  unfolding still_open_def
proof (intro allI impI notI)
  fix x st assume q: "calm e" and o: "\<forall>x st. (EndSession x, st) \<in> E \<longrightarrow> \<not> nested_log E x h"
    and E: "(EndSession x, st) \<in> insert e E" and n: "nested_log (insert e E) x h"
  have "nested_log E x h" by (rule nested_opens [OF n]) (use q in \<open>simp add: calm_def\<close>)
  moreover have "(EndSession x, st) \<in> E" using E q by (auto simp: calm_def)
  ultimately show False using o by blast
qed

lemma log_inv_calm:
  assumes inv: "log_inv E m" and q: "calm e" and same: "mo_sess m' = mo_sess m"
    and used: "mo_used m \<subseteq> mo_used m'" "0 \<notin> mo_used m'"
    and caps: "\<And>a h g. mo_caps m' a = Some (h, g) \<Longrightarrow> h \<in> dom (mo_sess m) \<and> log_grants (insert e E) a h g"
  shows "log_inv (insert e E) m'"
proof -
  note d = log_invD [OF inv]
  have no: "\<not> opens e p h" for p h using q by (simp add: calm_def)
  have ev: "(EndSession x, st) \<noteq> e" for x st using q by (auto simp: calm_def)
  show ?thesis
  proof (rule log_invI)
    fix e' p h assume a: "e' \<in> insert e E" "opens e' p h"
    then have E: "e' \<in> E" using no by blast
    show "h \<in> mo_used m' \<and> (p = 0 \<or> p \<in> mo_used m')" using d(3) [OF E a(2)] used by blast
    show "mo_sess m' h = Some (q', r) \<Longrightarrow> q' = p \<and> (p = 0 \<or> p \<in> dom (mo_sess m'))" for q' r
      using d(4) [OF E a(2)] by (simp add: same)
  next
    fix p root n h assume a: "(BeginNested p root n, Handle h) \<in> insert e E" "h \<noteq> 0"
    with no opensI(1) [OF a(2), of p root n] have "(BeginNested p root n, Handle h) \<in> E" by auto
    then show "p \<noteq> 0" using d(5) a(2) by blast
  next
    fix h p r assume "mo_sess m' h = Some (p, r)"
    with d(7) show "still_open (insert e E) h \<and> log_root (insert e E) h r"
      unfolding same using still_open_calm [OF q] by (blast intro: log_root_mono)
  next
    fix x st assume "(EndSession x, st) \<in> insert e E"
    with ev d(6) used(1) show "x = 0 \<or> x \<in> mo_used m'" by blast
  qed (use d(2) used caps in \<open>auto simp: same\<close>)
qed

text \<open>A session is opened, at the top or in a live one.\<close>

lemma nested_new:
  assumes inv: "log_inv E m" and h: "h \<notin> mo_used m" and e: "opens e p h" and p: "p = 0 \<or> p \<in> mo_used m"
  shows "nested_log (insert e E) x y \<Longrightarrow>
    nested_log E x y \<or> y = h \<and> (\<exists>root n. e = (BeginNested p root n, Handle h)) \<and> nested_log E x p"
proof (induction rule: nested_log.induct)
  case (nested_step q root n k)
  have k: "opens (BeginNested q root n, Handle k) q k" using nested_step.hyps(3) by (simp add: opens_def)
  note d = log_invD [OF inv]
  show ?case
  proof (cases "(BeginNested q root n, Handle k) \<in> E")
    case True
    then have "q \<noteq> h" using d(3) [OF True k] h d(5) [OF True nested_step.hyps(3)] by auto
    with nested_step.IH have "nested_log E x q" by simp
    from nested_log.nested_step [OF this True nested_step.hyps(3)] show ?thesis by simp
  next
    case False
    with nested_step.hyps(2) have ek: "e = (BeginNested q root n, Handle k)" by simp
    with e have qk: "q = p" "k = h" by (auto simp: opens_def)
    have "p \<noteq> h" using p h e by (auto simp: opens_def)
    with nested_step.IH ek qk show ?thesis by auto
  qed
qed (simp add: nested_log.nested_self)

lemma new_still_open:
  assumes inv: "log_inv E m" and h: "h \<notin> mo_used m" and e: "opens e p h"
    and p: "p = 0 \<or> p \<in> dom (mo_sess m)" and nest: "\<And>root n. e = (BeginNested p root n, Handle h) \<Longrightarrow> p \<noteq> 0"
  shows "still_open (insert e E) h"
    and "still_open E y \<Longrightarrow> y \<noteq> h \<Longrightarrow> still_open (insert e E) y"
proof -
  note d = log_invD [OF inv]
  have h0: "h \<noteq> 0" using e by (simp add: opens_def)
  have "p = 0 \<or> p \<in> mo_used m" using p d(2) by blast
  note new = nested_new [OF inv h e this]
  have ev: "e \<noteq> (EndSession x, st)" for x st using e by (auto simp: opens_def)
  have old: "x = h" if "nested_log E x h" for x
    using that
  proof (cases rule: nested_log.cases)
    case (nested_step q root n)
    with d(3) [OF nested_step(2) opensI(1) [OF nested_step(3)]] h show ?thesis by simp
  qed simp
  show "still_open (insert e E) h"
    unfolding still_open_def
  proof (intro allI impI notI)
    fix x st assume "(EndSession x, st) \<in> insert e E" and n: "nested_log (insert e E) x h"
    then have E: "(EndSession x, st) \<in> E" using ev by auto
    from new [OF n] show False
    proof
      assume "nested_log E x h"
      with old d(6) [OF E] h h0 show False by auto
    next
      assume a: "h = h \<and> (\<exists>root n. e = (BeginNested p root n, Handle h)) \<and> nested_log E x p"
      then have "p \<in> dom (mo_sess m)" using p nest by blast
      then have "still_open E p" using d(7) by auto
      with E a show False unfolding still_open_def by blast
    qed
  qed
  show "still_open (insert e E) y" if "still_open E y" "y \<noteq> h"
    using that new ev unfolding still_open_def by blast
qed

lemma log_inv_open:
  assumes inv: "log_inv E m" and h: "h \<notin> mo_used m" and e: "opens e p h"
    and p: "p = 0 \<or> p \<in> dom (mo_sess m)" and nest: "\<And>root n. e = (BeginNested p root n, Handle h) \<Longrightarrow> p \<noteq> 0"
    and rt: "log_root (insert e E) h r"
  shows "log_inv (insert e E) (open_sess h p r m)"
proof -
  note d = log_invD [OF inv] and live = new_still_open [OF inv h e p nest]
  have h0: "h \<noteq> 0" using e by (simp add: opens_def)
  have pu: "p = 0 \<or> p \<in> mo_used m" using p d(2) by blast
  have ev: "e \<noteq> (EndSession x, st)" for x st using e by (auto simp: opens_def)
  have eo: "opens e q k \<Longrightarrow> q = p \<and> k = h" for q k using e by (auto simp: opens_def)
  have mono: "E \<subseteq> insert e E" by blast
  have hs: "mo_sess m h = None" using h d(2) by auto
  let ?m = "open_sess h p r m"
  have S: "mo_sess ?m = (mo_sess m)(h \<mapsto> (p, r))" "mo_used ?m = insert h (mo_used m)" "mo_caps ?m = mo_caps m"
    by (simp_all add: open_sess_def)
  show ?thesis
  proof (rule log_invI, unfold S)
    fix e' q k assume a: "e' \<in> insert e E" "opens e' q k"
    show "k \<in> insert h (mo_used m) \<and> (q = 0 \<or> q \<in> insert h (mo_used m))" using a d(3) eo pu by blast
    fix q' r' assume s: "((mo_sess m)(h \<mapsto> (p, r))) k = Some (q', r')"
    have "q' = q \<and> (q = 0 \<or> q \<in> dom (mo_sess m))"
    proof (cases "e' = e")
      case True
      with a(2) eo s p show ?thesis by fastforce
    next
      case False
      with a have "e' \<in> E" by blast
      from d(3) [OF this a(2)] h have "k \<noteq> h" by blast
      with d(4) [OF \<open>e' \<in> E\<close> a(2)] s show ?thesis by simp
    qed
    then show "q' = q \<and> (q = 0 \<or> q \<in> dom ((mo_sess m)(h \<mapsto> (p, r))))" by auto
  next
    fix q root n k assume a: "(BeginNested q root n, Handle k) \<in> insert e E" "k \<noteq> 0"
    show "q \<noteq> 0"
    proof (cases "(BeginNested q root n, Handle k) = e")
      case True
      with eo opensI(1) [OF a(2), of q root n] nest show ?thesis by blast
    next
      case False
      with a d(5) show ?thesis by blast
    qed
  next
    fix k q r' assume "((mo_sess m)(h \<mapsto> (p, r))) k = Some (q, r')"
    then show "still_open (insert e E) k \<and> log_root (insert e E) k r'"
      using live rt d(7) log_root_mono [OF _ mono] by (auto split: if_splits)
  next
    fix x st assume "(EndSession x, st) \<in> insert e E"
    with ev d(6) show "x = 0 \<or> x \<in> insert h (mo_used m)" by blast
  qed (use d(1,2) h0 d(8) log_grants_mono [OF _ mono] in auto)
qed

text \<open>A session is ended: what is left is not below it.\<close>

lemma log_inv_close:
  assumes inv: "log_inv E m" and x: "x = 0 \<or> x \<in> mo_used m"
  shows "log_inv (insert (EndSession x, st) E) (close_sess x m)"
proof -
  note d = log_invD [OF inv]
  let ?e = "(EndSession x, st)" and ?m = "close_sess x m"
  have no: "\<not> opens ?e p h" for p h by (simp add: opens_def)
  have mono: "E \<subseteq> insert ?e E" by blast
  have S: "mo_sess ?m h = (if under (mo_sess m) x h then None else mo_sess m h)" "mo_used ?m = mo_used m" for h
    by (simp_all add: close_sess_def)
  have C: "mo_caps ?m a = Some (h, g) \<Longrightarrow> mo_caps m a = Some (h, g) \<and> \<not> under (mo_sess m) x h" for a h g
    by (auto simp: close_sess_def split: option.splits if_splits)
  have up: "under (mo_sess m) x p \<Longrightarrow> mo_sess m h = Some (p, r) \<Longrightarrow> under (mo_sess m) x h" for p h r
    by (rule under_child)
  show ?thesis
  proof (rule log_invI)
    fix e p h assume a: "e \<in> insert ?e E" "opens e p h"
    then have E: "e \<in> E" using no by blast
    show "h \<in> mo_used ?m \<and> (p = 0 \<or> p \<in> mo_used ?m)" unfolding S by (rule d(3) [OF E a(2)])
    fix q r assume "mo_sess ?m h = Some (q, r)"
    then have h: "mo_sess m h = Some (q, r)" "\<not> under (mo_sess m) x h" by (auto simp: S split: if_splits)
    from d(4) [OF E a(2) h(1)] have "q = p" "p = 0 \<or> p \<in> dom (mo_sess m)" by auto
    moreover have "\<not> under (mo_sess m) x p" using up h \<open>q = p\<close> by blast
    ultimately show "q = p \<and> (p = 0 \<or> p \<in> dom (mo_sess ?m))" by (auto simp: dom_def S)
  next
    fix p root n h assume "(BeginNested p root n, Handle h) \<in> insert ?e E" "h \<noteq> 0"
    with d(5) show "p \<noteq> 0" by blast
  next
    fix y st' assume "(EndSession y, st') \<in> insert ?e E"
    with d(6) x show "y = 0 \<or> y \<in> mo_used ?m" unfolding S by blast
  next
    fix h p r assume "mo_sess ?m h = Some (p, r)"
    then have h: "mo_sess m h = Some (p, r)" "\<not> under (mo_sess m) x h" by (auto simp: S split: if_splits)
    have "still_open (insert ?e E) h"
      unfolding still_open_def
    proof (intro allI impI notI)
      fix y st' assume E: "(EndSession y, st') \<in> insert ?e E" and n: "nested_log (insert ?e E) y h"
      have n': "nested_log E y h" by (rule nested_opens [OF n no])
      have "h \<in> dom (mo_sess m)" using h(1) by blast
      with nested_under [OF inv n'] h(2) have "y \<noteq> x" by blast
      with E have "(EndSession y, st') \<in> E" by blast
      with d(7) [OF h(1)] n' show False by (auto simp: still_open_def)
    qed
    with d(7) [OF h(1)] show "still_open (insert ?e E) h \<and> log_root (insert ?e E) h r"
      using log_root_mono [OF _ mono] by blast
  next
    fix a h g assume "mo_caps ?m a = Some (h, g)"
    from C [OF this] d(8) [of a h g] show "h \<in> dom (mo_sess ?m) \<and> log_grants (insert ?e E) a h g"
      using log_grants_mono [OF _ mono] by (auto simp: dom_def S)
  next
    show "dom (mo_sess ?m) \<subseteq> mo_used ?m" using d(2) by (auto simp: dom_def S split: if_splits)
  qed (simp add: S d(1))
qed

text \<open>A capability is minted, or spent from.\<close>

lemma log_inv_cap:
  assumes inv: "log_inv E m" and q: "calm e" and h: "h \<in> dom (mo_sess m)" and a: "a \<noteq> 0"
    and g: "log_grants (insert e E) a h g"
  shows "log_inv (insert e E) (add_cap a h g m)"
proof (rule log_inv_calm [OF inv q])
  fix b k g' assume "mo_caps (add_cap a h g m) b = Some (k, g')"
  then show "k \<in> dom (mo_sess m) \<and> log_grants (insert e E) b k g'"
    using h g log_invD(8) [OF inv] by (auto simp: add_cap_def split: if_splits intro: log_grants_mono)
qed (use a log_invD(1) [OF inv] in \<open>auto simp: add_cap_def\<close>)

lemma log_inv_same:
  assumes "log_inv E m" and "calm e"
  shows "log_inv (insert e E) m"
proof (rule log_inv_calm [OF assms refl order_refl log_invD(1) [OF assms(1)]])
  fix a h g assume "mo_caps m a = Some (h, g)"
  from log_invD(8) [OF assms(1) this] show "h \<in> dom (mo_sess m) \<and> log_grants (insert e E) a h g"
    using log_grants_mono [of E a h g "insert e E"] by blast
qed

lemma log_grants_less:
  assumes "0 \<le> n"
  shows "log_grants E a h (Units u) \<Longrightarrow> log_grants E a h (Units (u - n))"
    and "log_grants E a h (Bytes u) \<Longrightarrow> log_grants E a h (Bytes (u - n))"
proof -
  show "log_grants E a h (Units (u - n))" if "log_grants E a h (Units u)"
    using that
  proof (cases rule: log_grants.cases)
    case (grants_units v)
    with assms show ?thesis by (intro log_grants.grants_units [of h v]) simp_all
  qed
  show "log_grants E a h (Bytes (u - n))" if "log_grants E a h (Bytes u)"
    using that
  proof (cases rule: log_grants.cases)
    case (grants_bytes v)
    with assms show ?thesis by (intro log_grants.grants_bytes [of h v]) simp_all
  qed
qed

lemma spend_caps:
  assumes "mo_caps (spend a n m) b = Some (k, g)"
  obtains (same) "mo_caps m b = Some (k, g)"
  | (units) u where "mo_caps m b = Some (k, Units u)" "g = Units (u - n)"
  | (bytes) u where "mo_caps m b = Some (k, Bytes u)" "g = Bytes (u - n)"
  using assms by (auto simp: spend_def split: option.splits grant.splits if_splits)

lemma spend_simps [simp]: "mo_sess (spend a n m) = mo_sess m" "mo_used (spend a n m) = mo_used m"
  by (auto simp: spend_def split: option.splits grant.splits)

lemma log_inv_spend:
  assumes inv: "log_inv E m" and q: "calm e" and n: "0 \<le> n"
  shows "log_inv (insert e E) (spend a n m)"
proof (rule log_inv_calm [OF inv q])
  fix b k g assume c: "mo_caps (spend a n m) b = Some (k, g)"
  have "k \<in> dom (mo_sess m) \<and> log_grants E b k g"
    using c by (cases rule: spend_caps) (use log_invD(8) [OF inv, of b k] log_grants_less [OF n] in blast)+
  then show "k \<in> dom (mo_sess m) \<and> log_grants (insert e E) b k g"
    using log_grants_mono [of E b k g "insert e E"] by blast
qed (use log_invD(1) [OF inv] in simp_all)

lemma calm_simps [simp]:
  "calm (MintFs h root, r)" "calm (MintOut h root, r)" "calm (MintAlloc h i, r)" "calm (MintFuel h i, r)"
  "calm (MintNet h host lo hi, r)" "calm (ArenaAlloc h i, r)" "calm (BudgetAlloc a i, r)" "calm (BurnFuel a i, r)"
  "calm (IsLive h, r)" "calm (NetAllows a host port, r)" "calm (ReadFile a p e, r)"
  "calm (WriteFile a path dt e, r)" "calm (BeginGuest root i, Handle 0)" "calm (BeginNested h root i, Handle 0)"
  by (auto simp: calm_def opens_def)

lemma sess_root_log:
  assumes "log_inv E m" and "h \<in> dom (mo_sess m)"
  shows "log_root (insert e E) h (sess_root m h)"
proof -
  from assms(2) obtain p r where "mo_sess m h = Some (p, r)" by auto
  then show ?thesis using log_invD(7) [OF assms(1)] log_root_mono [OF _ subset_insertI] by (auto simp: sess_root_def)
qed

lemma log_inv_begin:
  assumes inv: "log_inv E m" and ok: "mon_ok (c, r) m"
  shows "c = BeginGuest rt n \<Longrightarrow> log_inv (insert (c, r) E) (mon_next (c, r) m)"
    and "c = BeginNested p rt n \<Longrightarrow> log_inv (insert (c, r) E) (mon_next (c, r) m)"
proof -
  show "log_inv (insert (c, r) E) (mon_next (c, r) m)" if c: "c = BeginGuest rt n"
  proof -
    obtain h where r: "r = Handle h" "h = 0 \<or> h \<notin> mo_used m" using ok c by (cases r) (auto simp: new_handle_def)
    show ?thesis
    proof (cases "h = 0")
      case True
      then show ?thesis using log_inv_same [OF inv] by (simp add: c r)
    next
      case False
      have "log_root (insert (c, r) E) h (ctext rt)" using False by (auto simp: c r intro: root_begin)
      from log_inv_open [OF inv _ _ _ _ this, of 0] False r(2) show ?thesis by (auto simp: c r opensI)
    qed
  qed
  show "log_inv (insert (c, r) E) (mon_next (c, r) m)" if c: "c = BeginNested p rt n"
  proof -
    obtain h where r: "r = Handle h" "h = 0 \<or> h \<notin> mo_used m \<and> p \<in> dom (mo_sess m)"
      using ok c by (cases r) (auto simp: new_handle_def)
    show ?thesis
    proof (cases "h = 0")
      case True
      then show ?thesis using log_inv_same [OF inv] by (simp add: c r)
    next
      case False
      with r have h: "h \<notin> mo_used m" and p: "p \<in> dom (mo_sess m)" by auto
      then have p0: "p \<noteq> 0" using log_invD(1,2) [OF inv] by blast
      have "log_root (insert (c, r) E) h (or_else (ctext rt) (sess_root m p))"
        using root_nested [of p rt n h, OF _ False sess_root_log [OF inv p]] by (simp add: c r)
      from log_inv_open [OF inv h _ _ _ this, of p] False p p0 show ?thesis by (simp add: c r opensI)
    qed
  qed
qed

lemma log_inv_mint:
  assumes inv: "log_inv E m" and q: "calm e" and h: "a \<noteq> 0 \<Longrightarrow> h \<in> dom (mo_sess m)"
    and g: "h \<in> dom (mo_sess m) \<Longrightarrow> a \<noteq> 0 \<Longrightarrow> log_grants (insert e E) a h g"
  shows "log_inv (insert e E) (if a = 0 then m else add_cap a h g m)"
  using log_inv_same [OF inv q] log_inv_cap [OF inv q h _ g] h by (cases "a = 0") simp_all

lemma log_inv_mints:
  assumes inv: "log_inv E m" and ok: "mon_ok (c, r) m"
    and c: "c \<in> {MintFs h rt, MintOut h rt, MintAlloc h b, MintFuel h b, MintNet h host lo hi}"
  shows "log_inv (insert (c, r) E) (mon_next (c, r) m)"
proof -
  obtain a where r: "r = Handle a" using ok c by (cases r) auto
  have "a = 0 \<or> h \<in> dom (mo_sess m)" using ok c unfolding r by auto
  then have h: "a \<noteq> 0 \<Longrightarrow> h \<in> dom (mo_sess m)" by blast
  have q: "calm (c, r)" using c by auto
  have ev: "(c, r) \<in> insert (c, r) E" by simp
  note root = sess_root_log [OF inv]
  have grant: "log_inv (insert (c, r) E) (if a = 0 then m else add_cap a h g m)"
    if "h \<in> dom (mo_sess m) \<Longrightarrow> a \<noteq> 0 \<Longrightarrow> log_grants (insert (c, r) E) a h g" for g
    using that by (intro log_inv_mint [OF inv q h]) simp_all
  from c consider "c = MintFs h rt" | "c = MintOut h rt" | "c = MintAlloc h b" | "c = MintFuel h b"
    | "c = MintNet h host lo hi" by blast
  then show ?thesis
  proof cases
    case 1
    from grant [of "Reads (or_else (ctext rt) (sess_root m h))"] grants_read [OF ev [unfolded 1 r] _ root]
    show ?thesis by (simp add: 1 r)
  next
    case 2
    from grant [of "Writes (or_else (ctext rt) (sess_root m h))"] grants_write [OF ev [unfolded 2 r] _ root]
    show ?thesis by (simp add: 2 r)
  next
    case 3
    from grant [of "Bytes (sint b)"] grants_bytes [OF ev [unfolded 3 r] _ order_refl] show ?thesis by (simp add: 3 r)
  next
    case 4
    from grant [of "Units (sint b)"] grants_units [OF ev [unfolded 4 r] _ order_refl] show ?thesis by (simp add: 4 r)
  next
    case 5
    from grant [of "Dials (ctext host) lo hi"] grants_dial [OF ev [unfolded 5 r]] show ?thesis by (simp add: 5 r)
  qed
qed

lemma log_inv_next:
  assumes inv: "log_inv E m" and ok: "mon_ok e m"
  shows "log_inv (insert e E) (mon_next e m)"
proof -
  obtain c r where e: "e = (c, r)" by (cases e)
  note same = log_inv_same [OF inv] and ok' = ok [unfolded e]
  show ?thesis
  proof (cases c)
    case (EndSession h)
    with ok e obtain st where "r = Status st" "h = 0 \<or> h \<in> mo_used m" by (cases r) auto
    with log_inv_close [OF inv] show ?thesis by (simp add: e EndSession)
  next
    case (BudgetAlloc a n)
    with ok e obtain p where r: "r = Handle p" "p = 0 \<or> may_take m a n" by (cases r) auto
    then have "p \<noteq> 0 \<Longrightarrow> 0 \<le> sint n" by (auto simp: may_take_def split: option.splits grant.splits)
    then show ?thesis using same log_inv_spend [OF inv, of e "sint n" a] r by (auto simp: e BudgetAlloc)
  next
    case (BurnFuel f n)
    with ok e obtain b where r: "r = Flag b" "b = may_burn m f n" by (cases r) auto
    then have "b \<Longrightarrow> 0 \<le> sint n" by (auto simp: may_burn_def split: option.splits grant.splits)
    then show ?thesis using same log_inv_spend [OF inv, of e "sint n" f] r by (auto simp: e BurnFuel)
  qed (use log_inv_begin [OF inv ok'] log_inv_mints [OF inv ok'] same ok in \<open>auto simp: e\<close>)
qed

lemma log_inv_run:
  "monitor_run mon_ok mon_next es m = Some m' \<Longrightarrow> log_inv E m \<Longrightarrow> log_inv (E \<union> set es) m'"
proof (induction es arbitrary: m E)
  case (Cons e es)
  from Cons.prems(1) have ok: "mon_ok e m" "monitor_run mon_ok mon_next es (mon_next e m) = Some m'"
    by (auto split: if_splits)
  from Cons.IH [OF ok(2) log_inv_next [OF Cons.prems(2) ok(1)]] show ?case by simp
qed simp

section \<open>Uses\<close>

text \<open>The capability an event used with success.\<close>

fun used_cap :: "event \<Rightarrow> addr option" where
  "used_cap (ReadFile a path e, Status st) = (if st = FX_CAP_DENIED then None else Some a)"
| "used_cap (WriteFile a path dt e, Status st) = (if st = FX_CAP_DENIED then None else Some a)"
| "used_cap (NetAllows a host port, Flag b) = (if b then Some a else None)"
| "used_cap (BurnFuel a n, Flag b) = (if b then Some a else None)"
| "used_cap (BudgetAlloc a n, Handle p) = (if p = 0 then None else Some a)"
| "used_cap _ = None"

fun allows :: "grant \<Rightarrow> api_call \<Rightarrow> bool" where
  "allows (Reads rt) c \<longleftrightarrow> (case c of ReadFile a (Outside (Some p)) e \<Rightarrow> path_under_root rt p | _ \<Rightarrow> False)"
| "allows (Writes rt) c \<longleftrightarrow> (case c of WriteFile a (Some p) dt e \<Rightarrow> path_under_root rt p | _ \<Rightarrow> False)"
| "allows (Dials hs lo hi) c \<longleftrightarrow>
     (case c of NetAllows a (Some x) port \<Rightarrow> x = hs \<and> sint lo \<le> sint port \<and> sint port \<le> sint hi | _ \<Rightarrow> False)"
| "allows (Units u) c \<longleftrightarrow> (case c of BurnFuel a n \<Rightarrow> 0 < sint n \<and> sint n \<le> u | _ \<Rightarrow> False)"
| "allows (Bytes b) c \<longleftrightarrow> (case c of BudgetAlloc a n \<Rightarrow> 0 < sint n \<and> sint n \<le> b | _ \<Rightarrow> False)"

lemma mon_ok_allows:
  assumes "mon_ok (c, r) m" and "used_cap (c, r) = Some a"
  shows "\<exists>h g. mo_caps m a = Some (h, g) \<and> allows g c"
proof -
  have "\<exists>g. cap_grant m a = Some g \<and> allows g c"
  proof (cases "(c, r)" rule: used_cap.cases)
    case (1 b path e st)
    with assms show ?thesis
      by (cases path) (auto simp: may_read_def split: if_splits option.splits grant.splits)
  next
    case (2 b path dt e st)
    with assms show ?thesis
      by (auto simp: may_write_def split: if_splits option.splits grant.splits)
  next
    case (3 b host port ok)
    with assms show ?thesis
      by (auto simp: mon_dials_def split: if_splits option.splits grant.splits)
  next
    case (4 b n ok)
    with assms show ?thesis
      by (auto simp: may_burn_def split: if_splits option.splits grant.splits)
  next
    case (5 b n p)
    with assms show ?thesis
      by (auto simp: may_take_def split: if_splits option.splits grant.splits)
  qed (use assms in auto)
  then show ?thesis using cap_grant_caps by blast
qed

lemma exec_run_append:
  "exec_run cs w = Some (rs, w1) \<Longrightarrow> exec_run cs' w1 = Some (rs', w2) \<Longrightarrow> exec_run (cs @ cs') w = Some (rs @ rs', w2)"
  by (induction cs arbitrary: w rs) (auto simp: bind_iff split: if_splits)

lemma exec_run_monitored:
  assumes "exec_run cs (fresh_world as d) = Some (rs, w)"
  shows "\<exists>m. monitor_run mon_ok mon_next (zip cs rs) mon_start = Some m \<and> represents m (w_heap w)"
proof -
  have "represents mon_start (w_heap (fresh_world as d))"
    by (rule representsI) (auto simp: mon_start_def fresh_world_def sess_at_def grant_at_def cap_grant_def
        is_handle_def ctx_at_def fun_eq_iff)
  from runtime_monitor.accepts_trail [OF good_fresh this exec_run_trail [OF assms]] show ?thesis .
qed

section \<open>The properties\<close>

text \<open>
  C4: The runtime refines the reference monitor. Whatever calls are made, with any allocator
  and any I/O outcomes, the monitor, which sees only calls and answers, accepts every answer,
  and what the memory holds at the end (the live sessions with parents and roots, the live
  capabilities with their grants and remaining budgets, the handles ever given out) is
  exactly what the monitor has recorded.
\<close>

theorem runtime_refines_monitor:
  assumes "exec_run cs (fresh_world as d) = Some (rs, w)"
  shows "\<exists>m. monitor_run mon_ok mon_next (zip cs rs) mon_start = Some m \<and> represents m (w_heap w)"
  by (rule exec_run_monitored [OF assms])

theorem runtime_refines_monitor_witness:
  "\<exists>rs m. monitor_run mon_ok mon_next (zip demo_calls rs) mon_start = Some m \<and>
     mo_sess m 0x7000 = Some (0x1000, ''data'') \<and> cap_grant m 0x5000 = Some (Units 5)"
proof -
  from demo_run obtain rs w where run: "exec_run demo_calls demo_start = Some (rs, w)" by blast
  note w = demo_eq [OF run, symmetric]
  from runtime_refines_monitor [OF run [unfolded demo_start_def]] obtain m
    where m: "monitor_run mon_ok mon_next (zip demo_calls rs) mon_start = Some m" "represents m (w_heap demo)"
    by (auto simp: w)
  have "cap_grant m 0x5000 = Some (Units 5)"
    using representsD(2) [OF m(2)] demo_caps(4) by (simp add: grant_at_def at_iff)
  moreover have "mo_sess m 0x7000 = Some (0x1000, ''data'')"
    by (rule demo_sessions) (simp add: representsD(1) [OF m(2)] sess_at_def)
  ultimately show ?thesis using m(1) by blast
qed

text \<open>
  C3: Every use is authorised by the log. Whenever a call used a capability with success (a
  file read or written, or at least not denied, an address allowed, fuel burned, bytes
  granted), the calls and answers before it show a mint that returned this very handle in a
  session \<open>h\<close>, with a grant that allows the call (under the root given to the mint or
  inherited along the sessions opened before), and no call that ended \<open>h\<close> or any session it
  was nested in.
\<close>

theorem every_use_authorised:
  assumes "exec_run cs (fresh_world as d) = Some (rs, w)" and "zip cs rs = es @ e # es'"
    and "used_cap e = Some a"
  shows "\<exists>h g. log_grants (set es) a h g \<and> still_open (set es) h \<and> allows g (fst e)"
proof -
  from exec_run_monitored [OF assms(1)] obtain m
    where "monitor_run mon_ok mon_next (es @ e # es') mon_start = Some m" unfolding assms(2) by blast
  then obtain m1 where m1: "monitor_run mon_ok mon_next es mon_start = Some m1" "mon_ok e m1"
    by (auto simp: monitor_run_append bind_iff split: if_splits)
  have inv: "log_inv (set es) m1" using log_inv_run [OF m1(1) log_inv_start] by simp
  obtain c r where e: "e = (c, r)" by (cases e)
  from mon_ok_allows [of c r m1 a] m1(2) assms(3) e obtain h g
    where g: "mo_caps m1 a = Some (h, g)" "allows g c" by auto
  from log_invD(8) [OF inv g(1)] obtain p rt where h: "mo_sess m1 h = Some (p, rt)" "log_grants (set es) a h g" by auto
  have "still_open (set es) h" using log_invD(7) [OF inv h(1)] ..
  with h(2) g(2) show ?thesis unfolding e fst_conv by blast
qed

theorem every_use_authorised_witness:
  "\<exists>rs w h g. exec_run (demo_calls @ [BurnFuel 0x5000 3]) demo_start = Some (rs @ [Flag True], w) \<and>
     log_grants (set (zip demo_calls rs)) 0x5000 h g \<and> still_open (set (zip demo_calls rs)) h \<and>
     allows g (BurnFuel 0x5000 3)"
proof -
  from demo_run obtain rs w0 where run: "exec_run demo_calls demo_start = Some (rs, w0)" "length rs = 8" by auto
  note w0 = demo_eq [OF run(1)]
  let ?w = "demo\<lparr>w_mem := put 0x5000 (FuelObj \<lparr>fu_ctx = 0x1000, fu_units = 2, fu_live = True\<rparr>) (w_mem demo)\<rparr>"
  have "call_ok (w_heap demo) (BurnFuel 0x5000 3)" using demo_caps(4) by (simp add: typed_def)
  moreover have "exec_call (BurnFuel 0x5000 3) demo = Some (Flag True, ?w)"
    using demo_caps(4) by (simp add: on_mem_def fx_fuelcap_burn_def)
  ultimately have r2: "exec_run [BurnFuel 0x5000 3] w0 = Some ([Flag True], ?w)" by (simp flip: w0)
  have full: "exec_run (demo_calls @ [BurnFuel 0x5000 3]) demo_start = Some (rs @ [Flag True], ?w)"
    by (rule exec_run_append [OF run(1) r2])
  have z: "zip (demo_calls @ [BurnFuel 0x5000 3]) (rs @ [Flag True]) = zip demo_calls rs @ (BurnFuel 0x5000 3, Flag True) # []"
    using zip_append [of demo_calls rs "[BurnFuel 0x5000 3]" "[Flag True]"] run(2) by (simp add: demo_calls_def)
  from every_use_authorised [OF full [unfolded demo_start_def] z, of "0x5000"] full show ?thesis by auto
qed

end
