(* ===== verification/Decimal.thy ===== *)
theory Decimal
  imports FxPrelude
begin

text \<open>
  What \<open>printf\<close> writes for \<open>%d\<close>, shared by the components that print numbers, with a reader
  to state that nothing is lost.
\<close>

fun dec_digits :: "nat \<Rightarrow> string" where
  "dec_digits n = (if n < 10 then [char_of (48 + n)]
     else dec_digits (n div 10) @ [char_of (48 + n mod 10)])"

declare dec_digits.simps [simp del]

definition dec_int :: "int \<Rightarrow> string" where
  "dec_int i = (if i < 0 then CHR ''-'' # dec_digits (nat (- i)) else dec_digits (nat i))"

lemma dec_digits_length: "n < 10 ^ Suc k \<Longrightarrow> length (dec_digits n) \<le> Suc k"
proof (induction k arbitrary: n)
  case (Suc k)
  show ?case
  proof (cases "n < 10")
    case False
    from Suc.prems have "n div 10 < 10 ^ Suc k" by (simp add: less_mult_imp_div_less mult.commute)
    from Suc.IH [OF this] False show ?thesis by (subst dec_digits.simps) simp
  qed (subst dec_digits.simps, simp)
qed (subst dec_digits.simps, simp)

section \<open>Reading numbers back\<close>

definition digit_val :: "char \<Rightarrow> nat" where
  "digit_val c = of_char c - 48"

definition read_digits :: "string \<Rightarrow> nat" where
  "read_digits s = foldl (\<lambda>n c. 10 * n + digit_val c) 0 s"

definition read_int :: "string \<Rightarrow> int" where
  "read_int s = (case s of CHR ''-'' # t \<Rightarrow> - int (read_digits t) | _ \<Rightarrow> int (read_digits s))"

definition is_digit :: "char \<Rightarrow> bool" where
  "is_digit c \<longleftrightarrow> 48 \<le> (of_char c :: nat) \<and> (of_char c :: nat) \<le> 57"

lemma digit_char:
  assumes "d < 10"
  shows "digit_val (char_of (48 + d)) = d" and "is_digit (char_of (48 + d))"
proof -
  have "of_char (char_of (48 + d)) = (48 + d :: nat)" using assms by (simp add: of_char_of)
  then show "digit_val (char_of (48 + d)) = d" and "is_digit (char_of (48 + d))"
    using assms by (simp_all add: digit_val_def is_digit_def)
qed

lemma dec_digits_read: "read_digits (dec_digits n) = n"
proof (induction n rule: dec_digits.induct)
  case (1 n)
  show ?case
  proof (cases "n < 10")
    case True
    then show ?thesis by (subst dec_digits.simps) (simp add: read_digits_def digit_char)
  next
    case False
    then have "read_digits (dec_digits n) = 10 * read_digits (dec_digits (n div 10)) + n mod 10"
      by (subst dec_digits.simps) (simp add: read_digits_def digit_char)
    then show ?thesis using 1 False by simp
  qed
qed

lemma dec_digits_digits: "\<forall>c \<in> set (dec_digits n). is_digit c"
proof (induction n rule: dec_digits.induct)
  case (1 n)
  then show ?case by (subst dec_digits.simps) (auto simp: digit_char)
qed

lemma dec_digits_nonempty: "dec_digits n \<noteq> []"
  by (subst dec_digits.simps) simp

lemma not_digits: "\<not> is_digit CHR ''-''" "\<not> is_digit NUL" "\<not> is_digit CHR 0x0A"
  by (simp_all add: is_digit_def)

lemma dec_int_read: "read_int (dec_int i) = i"
proof (cases "i < 0")
  case True
  then show ?thesis by (simp add: dec_int_def read_int_def dec_digits_read)
next
  case False
  obtain c s where d: "dec_digits (nat i) = c # s" using dec_digits_nonempty by (cases "dec_digits (nat i)") auto
  then have "is_digit c" using dec_digits_digits [of "nat i"] by simp
  then have "c \<noteq> CHR ''-''" using not_digits(1) by auto
  then have "read_int (c # s) = int (read_digits (c # s))"
    by (auto simp: read_int_def split: list.splits char.splits bool.splits)
  then show ?thesis using False d dec_digits_read [of "nat i"] by (simp add: dec_int_def)
qed

lemma cstr_dec_int: "cstr (dec_int i)"
  using dec_digits_digits not_digits(2) by (auto simp: cstr_def dec_int_def)

lemma dec_int_length:
  assumes "\<bar>i\<bar> < 10 ^ 10"
  shows "length (dec_int i) \<le> 11"
proof -
  have "nat \<bar>i\<bar> < 10 ^ Suc 9" using assms by simp
  from dec_digits_length [OF this] show ?thesis by (auto simp: dec_int_def)
qed

end
