(* ===== verification/NetDial.thy ===== *)
theory NetDial
  imports CapRuntime Decimal
begin

text \<open>
  Dialling under a NetCap (\<open>host/cap/fx_net_dial.c\<close>, the POSIX branch). The resolver and the
  sockets are the operating system: what \<open>getaddrinfo\<close> answers, and for each address which
  descriptor \<open>socket\<close> returns and whether \<open>connect\<close> succeeds, are parameters. The state is
  the set of open descriptors, with a log of every name resolved and address connected to.
\<close>

section \<open>The operating system\<close>

type_synonym sockaddr = nat

record attempt =
  at_addr :: sockaddr
  at_socket :: i32
  at_connect :: bool

record netstate =
  open_socks :: "i32 set"
  resolved :: "(string \<times> string) list"
  connected :: "sockaddr list"

type_synonym resolver = "string \<Rightarrow> string \<Rightarrow> attempt list option"

definition FX_SOCK_INVALID :: i32 where "FX_SOCK_INVALID = - 1"

section \<open>The code\<close>

definition close_sock :: "i32 \<Rightarrow> netstate \<Rightarrow> netstate" where
  "close_sock fd s = s\<lparr>open_socks := open_socks s - {fd}\<rparr>"

text \<open>The loop over the addresses; the result is the value of \<open>sock\<close> after it.\<close>

fun dial_loop :: "attempt list \<Rightarrow> netstate \<Rightarrow> i32 \<times> netstate" where
  "dial_loop [] s = (FX_SOCK_INVALID, s)"
| "dial_loop (rp # rest) s =
     (let sock = at_socket rp in
      if sock = FX_SOCK_INVALID then dial_loop rest s
      else let s = s\<lparr>open_socks := insert sock (open_socks s), connected := connected s @ [at_addr rp]\<rparr> in
        if at_connect rp then (sock, s)
        else dial_loop rest (close_sock sock s))"

definition fx_netcap_dial ::
  "resolver \<Rightarrow> addr \<Rightarrow> cptr \<Rightarrow> i32 \<Rightarrow> i32 \<Rightarrow> cmem \<Rightarrow> netstate \<Rightarrow> (i64 \<times> netstate) option" where
  "fx_netcap_dial getaddrinfo net_handle host port want_tls m s =
     (if want_tls \<noteq> 0 then Some (0, s)
      else case host of None \<Rightarrow> Some (0, s) | Some name \<Rightarrow>
        if chd name = NUL \<or> sint port \<le> 0 \<or> 65535 < sint port then Some (0, s)
        else do {
          ok \<leftarrow> fx_netcap_allows net_handle host port m;
          if \<not> ok then Some (0, s)
          else let portbuf = dec_digits (nat (sint port));
                   s = s\<lparr>resolved := resolved s @ [(name, portbuf)]\<rparr> in
            case getaddrinfo name portbuf of
              None \<Rightarrow> Some (0, s)
            | Some res \<Rightarrow>
                let (sock, s) = dial_loop res s in
                if sock = FX_SOCK_INVALID then Some (0, s) else Some (scast sock, s) })"

text \<open>\<open>close\<close> of a descriptor that is not open fails.\<close>

definition fx_netcap_close :: "i64 \<Rightarrow> netstate \<Rightarrow> int \<times> netstate" where
  "fx_netcap_close sock_handle s =
     (if sock_handle = 0 then (1, s)
      else let fd = scast sock_handle in
        if fd \<in> open_socks s then (0, close_sock fd s) else (1, s))"

section \<open>Sockets are not leaked by the loop\<close>

text \<open>
  What POSIX promises of \<open>socket\<close>: it returns -1 or a non-negative descriptor that is not
  open. A descriptor may be used again once it was closed.
\<close>

definition fresh_socks :: "i32 set \<Rightarrow> attempt list \<Rightarrow> bool" where
  "fresh_socks fds res \<longleftrightarrow>
     (\<forall>rp \<in> set res. at_socket rp = FX_SOCK_INVALID \<or> 0 \<le> sint (at_socket rp) \<and> at_socket rp \<notin> fds)"

lemma fresh_socks_Cons:
  "fresh_socks fds (rp # res) \<longleftrightarrow> fresh_socks fds res \<and>
     (at_socket rp = FX_SOCK_INVALID \<or> 0 \<le> sint (at_socket rp) \<and> at_socket rp \<notin> fds)"
  by (auto simp: fresh_socks_def)

lemma dial_loop_result:
  assumes "fresh_socks (open_socks s) res" and "dial_loop res s = (sock, s')"
  shows "if sock = FX_SOCK_INVALID then open_socks s' = open_socks s
    else sock \<notin> open_socks s \<and> 0 \<le> sint sock \<and> open_socks s' = insert sock (open_socks s) \<and>
      (\<exists>rp \<in> set res. at_socket rp = sock \<and> at_connect rp)"
  using assms
proof (induction res arbitrary: s)
  case (Cons rp res)
  let ?s = "s\<lparr>open_socks := insert (at_socket rp) (open_socks s),
              connected := connected s @ [at_addr rp]\<rparr>"
  from Cons.prems(1) have fr: "fresh_socks (open_socks s) res" by (simp add: fresh_socks_Cons)
  consider (none) "at_socket rp = FX_SOCK_INVALID"
    | (up) "at_socket rp \<noteq> FX_SOCK_INVALID" "at_connect rp"
    | (down) "at_socket rp \<noteq> FX_SOCK_INVALID" "\<not> at_connect rp" by blast
  then show ?case
  proof cases
    case none
    with Cons.prems(2) have "dial_loop res s = (sock, s')" by simp
    from Cons.IH [OF fr this] show ?thesis by (auto split: if_splits)
  next
    case up
    with Cons.prems show ?thesis by (auto simp: fresh_socks_Cons Let_def)
  next
    case down
    then have same: "open_socks (close_sock (at_socket rp) ?s) = open_socks s"
      using Cons.prems(1) by (auto simp: close_sock_def fresh_socks_Cons)
    have run: "dial_loop res (close_sock (at_socket rp) ?s) = (sock, s')"
      using Cons.prems(2) down by (simp add: Let_def)
    from Cons.IH [OF _ run] fr show ?thesis by (auto simp: same split: if_splits)
  qed
qed simp

lemma dial_loop_addresses:
  "dial_loop res s = (sock, s') \<Longrightarrow> resolved s' = resolved s \<and>
     (\<exists>as. connected s' = connected s @ as \<and> set as \<subseteq> at_addr ` set res)"
proof (induction res arbitrary: s)
  case (Cons rp res)
  let ?s = "s\<lparr>open_socks := insert (at_socket rp) (open_socks s),
              connected := connected s @ [at_addr rp]\<rparr>"
  consider (none) "at_socket rp = FX_SOCK_INVALID"
    | (up) "at_socket rp \<noteq> FX_SOCK_INVALID" "at_connect rp"
    | (down) "at_socket rp \<noteq> FX_SOCK_INVALID" "\<not> at_connect rp" by blast
  then show ?case
  proof cases
    case none
    with Cons.prems have "dial_loop res s = (sock, s')" by simp
    from Cons.IH [OF this] show ?thesis by auto
  next
    case up
    with Cons.prems show ?thesis by (auto simp: Let_def)
  next
    case down
    with Cons.prems have "dial_loop res (close_sock (at_socket rp) ?s) = (sock, s')"
      by (simp add: Let_def)
    from Cons.IH [OF this] obtain as where "resolved s' = resolved s"
      "connected s' = connected s @ at_addr rp # as" "set as \<subseteq> at_addr ` set res"
      by (auto simp: close_sock_def)
    then show ?thesis by auto
  qed
qed simp

text \<open>The port text fits \<open>portbuf[16]\<close>.\<close>

lemma port_text_fits:
  assumes "0 \<le> p" and "p \<le> 65535"
  shows "length (dec_digits (nat p)) < 16"
proof -
  have "nat p < 10 ^ Suc 4" using assms by (simp add: nat_less_iff)
  from dec_digits_length [OF this] show ?thesis by simp
qed

end
