(* ===== verification/DialTheorems.thy ===== *)
theory DialTheorems
  imports CapTheorems NetDial
begin

text \<open>
  The properties of \<open>host/cap/fx_net_dial.c\<close>: a dial stays inside the NetCap's allowlist,
  leaks no socket, and is undone by close, with the exception of descriptor 0.
\<close>

text \<open>The decision of \<open>fx_netcap_dial\<close> before it touches the network.\<close>

definition may_dial :: "cheap \<Rightarrow> addr \<Rightarrow> cptr \<Rightarrow> i32 \<Rightarrow> i32 \<Rightarrow> bool" where
  "may_dial H n host port want_tls \<longleftrightarrow>
     want_tls = 0 \<and> 0 < sint port \<and> sint port \<le> 65535 \<and> net_grants H n host port"

lemma dial_unfold:
  assumes "good (heap m)" and "typed net_at (heap m) n" and "cptr_ok host"
  shows "fx_netcap_dial ga n host port want_tls m s =
    (if \<not> may_dial (heap m) n host port want_tls then Some (0, s)
     else let portbuf = dec_digits (nat (sint port));
              s = s\<lparr>resolved := resolved s @ [(the host, portbuf)]\<rparr> in
       case ga (the host) portbuf of None \<Rightarrow> Some (0, s)
       | Some res \<Rightarrow> let (sock, s) = dial_loop res s in
           if sock = FX_SOCK_INVALID then Some (0, s) else Some (scast sock, s))"
proof (cases host)
  case (Some name)
  have "chd name = NUL \<Longrightarrow> cptr_ok host \<Longrightarrow> name = []"
    using Some by (cases name) (auto simp: cptr_ok_def)
  then have nul: "chd name = NUL \<Longrightarrow> \<not> net_grants (heap m) n host port"
    using Some assms(3) by (auto simp: net_grants_def split: option.splits)
  show ?thesis
    using net_guard [OF assms, of port] Some nul
    by (auto simp: fx_netcap_dial_def may_dial_def Let_def)
qed (simp add: fx_netcap_dial_def may_dial_def net_grants_def split: option.splits)

lemma scast_sock: "scast (fd :: i32) = (0 :: i64) \<longleftrightarrow> fd = 0" "scast (scast (fd :: i32) :: i64) = fd"
proof -
  show s: "scast (scast (fd :: i32) :: i64) = fd" for fd
    by (rule bit_word_eqI) (auto simp: bit_simps)
  show "scast fd = (0 :: i64) \<longleftrightarrow> fd = 0" using s [of fd] by auto
qed

text \<open>A resolver with two addresses, of which the first refuses the connection.\<close>

definition demo_resolver :: resolver where
  "demo_resolver name portbuf = Some [\<lparr>at_addr = 10, at_socket = 3, at_connect = False\<rparr>,
     \<lparr>at_addr = 11, at_socket = 4, at_connect = True\<rparr>]"

definition no_socks :: netstate where
  "no_socks = \<lparr>open_socks = {}, resolved = [], connected = []\<rparr>"

lemma demo_resolver_fresh:
  "\<forall>name portbuf res. demo_resolver name portbuf = Some res \<longrightarrow> fresh_socks (open_socks no_socks) res"
  by (simp add: demo_resolver_def no_socks_def fresh_socks_def)

text \<open>
  C32: Dialling touches only the allowlist and leaks no socket. A dial always returns; unless
  plain TCP to exactly the minted host and a port in range was asked of a live NetCap, it
  returns 0 and neither resolves nor connects anything. When it may go on it resolves that
  host once, connects only to addresses of the answer, and leaves exactly one more
  descriptor open than before if the result is not 0; if the result is 0, none, or
  descriptor 0.
\<close>

theorem dial_confined:
  assumes "reachable w" and "typed net_at (w_heap w) n" and "cptr_ok host"
    and "\<forall>name portbuf res. ga name portbuf = Some res \<longrightarrow> fresh_socks (open_socks s) res"
  shows "\<exists>r s'. fx_netcap_dial ga n host port want_tls (w_mem w) s = Some (r, s') \<and>
     (\<not> may_dial (w_heap w) n host port want_tls \<longrightarrow> r = 0 \<and> s' = s) \<and>
     (may_dial (w_heap w) n host port want_tls \<longrightarrow> (\<exists>name as.
        host = Some name \<and> resolved s' = resolved s @ [(name, dec_digits (nat (sint port)))] \<and>
        connected s' = connected s @ as \<and>
        set as \<subseteq> {a. \<exists>res. ga name (dec_digits (nat (sint port))) = Some res \<and> a \<in> at_addr ` set res})) \<and>
     (r \<noteq> 0 \<longrightarrow> (\<exists>fd. r = scast fd \<and> fd \<notin> open_socks s \<and> open_socks s' = insert fd (open_socks s))) \<and>
     (r = 0 \<longrightarrow> open_socks s' = open_socks s \<or> open_socks s' = insert 0 (open_socks s))"
proof (cases "may_dial (w_heap w) n host port want_tls")
  case False
  then show ?thesis
    using dial_unfold [OF reachable_good [OF assms(1)] assms(2,3), of ga port want_tls s] by auto
next
  case True
  then obtain name where name: "host = Some name"
    by (auto simp: may_dial_def net_grants_def split: option.splits)
  let ?port = "dec_digits (nat (sint port))"
  let ?s = "s\<lparr>resolved := resolved s @ [(name, ?port)]\<rparr>"
  note run = dial_unfold [OF reachable_good [OF assms(1)] assms(2,3), of ga port want_tls s]
  show ?thesis
  proof (cases "ga name ?port")
    case None
    then have "fx_netcap_dial ga n host port want_tls (w_mem w) s = Some (0, ?s)"
      using run True name by (simp add: Let_def)
    then show ?thesis using True name by auto
  next
    case (Some res)
    obtain sock s' where loop: "dial_loop res ?s = (sock, s')" by (cases "dial_loop res ?s")
    have go: "fx_netcap_dial ga n host port want_tls (w_mem w) s =
        Some (if sock = FX_SOCK_INVALID then 0 else scast sock, s')"
      using run True name Some loop by (simp add: Let_def)
    have "fresh_socks (open_socks ?s) res" using assms(4) Some by auto
    note res = dial_loop_result [OF this loop]
    from dial_loop_addresses [OF loop] obtain as where as: "connected s' = connected s @ as"
      "set as \<subseteq> at_addr ` set res" "resolved s' = resolved s @ [(name, ?port)]" by auto
    show ?thesis
    proof (cases "sock = FX_SOCK_INVALID")
      case True
      with go res as name Some \<open>may_dial _ _ _ _ _\<close> show ?thesis by auto
    next
      case False
      then have "open_socks s' = insert sock (open_socks s)" "sock \<notin> open_socks s" using res by simp_all
      with False go as name Some \<open>may_dial _ _ _ _ _\<close> show ?thesis by (auto simp: scast_sock)
    qed
  qed
qed

theorem dial_confined_witness:
  "\<exists>r s'. fx_netcap_dial demo_resolver 0x6000 (Some ''api'') 443 0 (w_mem demo) no_socks = Some (r, s') \<and>
     resolved s' = [(''api'', ''443'')] \<and> set (connected s') \<subseteq> {10, 11}"
proof -
  have m: "may_dial (w_heap demo) 0x6000 (Some ''api'') 443 0"
    by (simp add: may_dial_def net_grants_def demo_caps(5))
  have "dec_digits 443 = ''443''" by (simp add: dec_digits.simps char_of_def bit_0)
  moreover have "{a. \<exists>res. demo_resolver nm pb = Some res \<and> a \<in> at_addr ` set res} = {10, 11}" for nm pb
    by (auto simp: demo_resolver_def)
  moreover have "resolved no_socks = []" "connected no_socks = []" by (simp_all add: no_socks_def)
  moreover have "typed net_at (w_heap demo) 0x6000" "cptr_ok (Some ''api'')"
    using demo_caps(5) by (simp_all add: typed_def cptr_ok_def)
  ultimately show ?thesis
    using m dial_confined [OF demo_reachable _ _ demo_resolver_fresh, of "0x6000" "Some ''api''" 443 0]
    by fastforce
qed

text \<open>
  Dial and close are inverse. Closing the handle a successful dial returned succeeds and
  leaves exactly the descriptors that were open before the dial.
\<close>

theorem dial_close_roundtrip:
  assumes "reachable w" and "typed net_at (w_heap w) n" and "cptr_ok host"
    and "\<forall>name portbuf res. ga name portbuf = Some res \<longrightarrow> fresh_socks (open_socks s) res"
    and "fx_netcap_dial ga n host port want_tls (w_mem w) s = Some (r, s')" and "r \<noteq> 0"
  shows "\<exists>s''. fx_netcap_close r s' = (0, s'') \<and> open_socks s'' = open_socks s"
proof -
  have "may_dial (w_heap w) n host port want_tls"
    using assms(5,6) dial_unfold [OF reachable_good [OF assms(1)] assms(2,3), of ga port want_tls s]
    by (auto split: if_splits)
  then obtain res sock where ga: "ga (the host) (dec_digits (nat (sint port))) = Some res"
    and loop: "dial_loop res (s\<lparr>resolved := resolved s @ [(the host, dec_digits (nat (sint port)))]\<rparr>) = (sock, s')"
    and r: "sock \<noteq> FX_SOCK_INVALID" "r = scast sock"
    using assms(5,6) dial_unfold [OF reachable_good [OF assms(1)] assms(2,3), of ga port want_tls s]
    by (auto simp: Let_def split: option.splits prod.splits if_splits)
  have "fresh_socks (open_socks s) res" using assms(4) ga by blast
  then have "sock \<notin> open_socks s" "open_socks s' = insert sock (open_socks s)"
    using dial_loop_result [OF _ loop] r(1) by auto
  with r assms(6) show ?thesis by (simp add: fx_netcap_close_def close_sock_def scast_sock)
qed

theorem dial_close_roundtrip_witness:
  "\<exists>s' s''. fx_netcap_dial demo_resolver 0x6000 (Some ''api'') 443 0 (w_mem demo) no_socks = Some (4, s') \<and>
     fx_netcap_close 4 s' = (0, s'') \<and> open_socks s'' = {}"
proof -
  have m: "may_dial (w_heap demo) 0x6000 (Some ''api'') 443 0"
    by (simp add: may_dial_def net_grants_def demo_caps(5))
  have t: "typed net_at (w_heap demo) 0x6000" "cptr_ok (Some ''api'')"
    using demo_caps(5) by (simp_all add: typed_def cptr_ok_def)
  have "\<exists>s'. fx_netcap_dial demo_resolver 0x6000 (Some ''api'') 443 0 (w_mem demo) no_socks = Some (4, s')"
    using m by (subst dial_unfold [OF reachable_good [OF demo_reachable] t])
      (simp add: demo_resolver_def FX_SOCK_INVALID_def close_sock_def)
  then obtain s' where run:
    "fx_netcap_dial demo_resolver 0x6000 (Some ''api'') 443 0 (w_mem demo) no_socks = Some (4, s')" ..
  with dial_close_roundtrip [OF demo_reachable t demo_resolver_fresh run] show ?thesis
    by (auto simp: no_socks_def)
qed

text \<open>
  Descriptor 0 is lost. If the operating system hands out descriptor 0, which it may
  when standard input is closed, a connected dial returns 0, the code for failure; the
  descriptor stays open, and \<open>fx_netcap_close\<close> refuses to close it.
\<close>

theorem dial_loses_descriptor_zero:
  "\<exists>s'. fx_netcap_dial (\<lambda>_ _. Some [\<lparr>at_addr = 1, at_socket = 0, at_connect = True\<rparr>])
       0x6000 (Some ''api'') 443 0 (w_mem demo) \<lparr>open_socks = {}, resolved = [], connected = []\<rparr> = Some (0, s') \<and>
     open_socks s' = {0} \<and> connected s' = [1] \<and> fx_netcap_close 0 s' = (1, s')"
proof -
  have m: "may_dial (w_heap demo) 0x6000 (Some ''api'') 443 0"
    by (simp add: may_dial_def net_grants_def demo_caps(5))
  have "fx_netcap_dial (\<lambda>_ _. Some [\<lparr>at_addr = 1, at_socket = 0, at_connect = True\<rparr>])
       0x6000 (Some ''api'') 443 0 (w_mem demo) \<lparr>open_socks = {}, resolved = [], connected = []\<rparr> =
     Some (0, \<lparr>open_socks = {0}, resolved = [(''api'', dec_digits 443)], connected = [1]\<rparr>)"
    using m demo_caps(5)
    by (subst dial_unfold [OF reachable_good [OF demo_reachable]])
      (simp_all add: typed_def cptr_ok_def FX_SOCK_INVALID_def)
  then show ?thesis by (simp add: fx_netcap_close_def)
qed

end
