(* ===== verification/NetDialWin.thy ===== *)
theory NetDialWin
  imports DialTheorems
begin

text \<open>
  The Windows branch of \<open>host/cap/fx_net_dial.c\<close>: sockets are unsigned words of pointer size,
  and the library is started by the first dial that needs it. It resolves and connects what
  the POSIX branch does, and gives a handle where that gives one; a start that fails denies
  the dial before anything is resolved, and the next dial tries again.
\<close>

section \<open>The code\<close>

record attempt_win =
  aw_addr :: sockaddr
  aw_socket :: usize
  aw_connect :: bool

record winnet =
  wn_socks :: "usize set"
  wn_resolved :: "(string \<times> string) list"
  wn_connected :: "sockaddr list"
  g_wsa_ready :: bool

type_synonym resolver_win = "string \<Rightarrow> string \<Rightarrow> attempt_win list option"

definition INVALID_SOCKET :: usize where "INVALID_SOCKET = - 1"

text \<open>\<open>started\<close> is whether \<open>WSAStartup\<close> succeeds, if it is called.\<close>

definition ensure_net :: "bool \<Rightarrow> winnet \<Rightarrow> bool \<times> winnet" where
  "ensure_net started s =
     (if g_wsa_ready s then (True, s)
      else if \<not> started then (False, s) else (True, s\<lparr>g_wsa_ready := True\<rparr>))"

definition closesocket :: "usize \<Rightarrow> winnet \<Rightarrow> winnet" where
  "closesocket fd s = s\<lparr>wn_socks := wn_socks s - {fd}\<rparr>"

fun dial_loop_win :: "attempt_win list \<Rightarrow> winnet \<Rightarrow> usize \<times> winnet" where
  "dial_loop_win [] s = (INVALID_SOCKET, s)"
| "dial_loop_win (rp # rest) s =
     (let sock = aw_socket rp in
      if sock = INVALID_SOCKET then dial_loop_win rest s
      else let s = s\<lparr>wn_socks := insert sock (wn_socks s), wn_connected := wn_connected s @ [aw_addr rp]\<rparr> in
        if aw_connect rp then (sock, s)
        else dial_loop_win rest (closesocket sock s))"

definition fx_netcap_dial_win ::
  "bool \<Rightarrow> resolver_win \<Rightarrow> addr \<Rightarrow> cptr \<Rightarrow> i32 \<Rightarrow> i32 \<Rightarrow> cmem \<Rightarrow> winnet \<Rightarrow> (i64 \<times> winnet) option" where
  "fx_netcap_dial_win started getaddrinfo net_handle host port want_tls m s =
     (if want_tls \<noteq> 0 then Some (0, s)
      else case host of None \<Rightarrow> Some (0, s) | Some name \<Rightarrow>
        if chd name = NUL \<or> sint port \<le> 0 \<or> 65535 < sint port then Some (0, s)
        else do {
          ok \<leftarrow> fx_netcap_allows net_handle host port m;
          if \<not> ok then Some (0, s)
          else let (up, s) = ensure_net started s in
            if \<not> up then Some (0, s)
            else let portbuf = dec_digits (nat (sint port));
                     s = s\<lparr>wn_resolved := wn_resolved s @ [(name, portbuf)]\<rparr> in
              case getaddrinfo name portbuf of
                None \<Rightarrow> Some (0, s)
              | Some res \<Rightarrow>
                  let (sock, s) = dial_loop_win res s in
                  if sock = INVALID_SOCKET then Some (0, s) else Some (ucast sock, s) })"

definition fx_netcap_close_win :: "i64 \<Rightarrow> winnet \<Rightarrow> int \<times> winnet" where
  "fx_netcap_close_win sock_handle s =
     (if sock_handle = 0 then (1, s)
      else let fd = ucast sock_handle in
        if fd \<in> wn_socks s then (0, closesocket fd s) else (1, s))"

section \<open>The two builds\<close>

text \<open>What the network sees, and an attempt as POSIX could have it: any descriptor but 0 and -1.\<close>

definition seen_net :: "winnet \<Rightarrow> netstate" where
  "seen_net s = \<lparr>open_socks = {}, resolved = wn_resolved s, connected = wn_connected s\<rparr>"

definition as_attempt :: "attempt_win \<Rightarrow> attempt" where
  "as_attempt a = \<lparr>at_addr = aw_addr a,
     at_socket = (if aw_socket a = INVALID_SOCKET then FX_SOCK_INVALID else 3), at_connect = aw_connect a\<rparr>"

definition posix_out :: "winnet \<Rightarrow> netstate" where
  "posix_out s = (seen_net s)\<lparr>open_socks := {3}\<rparr>"

lemma as_attempt_simps [simp]:
  "at_addr (as_attempt a) = aw_addr a" "at_connect (as_attempt a) = aw_connect a"
  "at_socket (as_attempt a) = (if aw_socket a = INVALID_SOCKET then FX_SOCK_INVALID else 3)"
  by (simp_all add: as_attempt_def)

lemma seen_simps [simp]:
  "(seen_net s)\<lparr>open_socks := insert 3 (open_socks (seen_net s)), connected := connected (seen_net s) @ [a]\<rparr> =
     posix_out (s\<lparr>wn_socks := X, wn_connected := wn_connected s @ [a]\<rparr>)"
  "close_sock 3 (posix_out s) = seen_net s" "seen_net (closesocket fd s) = seen_net s"
  "(seen_net s)\<lparr>resolved := resolved (seen_net s) @ [q]\<rparr> = seen_net (s\<lparr>wn_resolved := wn_resolved s @ [q]\<rparr>)"
  by (simp_all add: seen_net_def posix_out_def close_sock_def closesocket_def)

lemma sock_three [simp]: "3 \<noteq> FX_SOCK_INVALID"
  by (simp add: FX_SOCK_INVALID_def)

lemma dial_loop_win_eq:
  "dial_loop (map as_attempt res) (seen_net s) = (case dial_loop_win res s of
     (sock, s') \<Rightarrow> if sock = INVALID_SOCKET then (FX_SOCK_INVALID, seen_net s') else (3, posix_out s'))"
proof (induction res arbitrary: s)
  case (Cons rp res)
  let ?s = "s\<lparr>wn_socks := insert (aw_socket rp) (wn_socks s), wn_connected := wn_connected s @ [aw_addr rp]\<rparr>"
  show ?case
    using Cons.IH [of s] Cons.IH [of "closesocket (aw_socket rp) ?s"]
    by (simp add: Let_def seen_simps(1) [of s "aw_addr rp" "insert (aw_socket rp) (wn_socks s)"] del: seen_simps(1))
qed simp

lemma dial_loop_win_from:
  "dial_loop_win res s = (sock, s') \<Longrightarrow> sock = INVALID_SOCKET \<or> sock \<in> aw_socket ` set res"
  by (induction res arbitrary: s) (auto simp: Let_def split: if_splits)

lemma dial_loop_win_socks:
  assumes "\<forall>rp \<in> set res. aw_socket rp \<notin> wn_socks s" and "dial_loop_win res s = (sock, s')"
  shows "wn_socks s' = (if sock = INVALID_SOCKET then wn_socks s else insert sock (wn_socks s))"
  using assms
proof (induction res arbitrary: s)
  case (Cons rp res)
  let ?s = "s\<lparr>wn_socks := insert (aw_socket rp) (wn_socks s), wn_connected := wn_connected s @ [aw_addr rp]\<rparr>"
  have same: "wn_socks (closesocket (aw_socket rp) ?s) = wn_socks s"
    using Cons.prems(1) by (simp add: closesocket_def)
  show ?case
    using Cons.prems Cons.IH [of s] Cons.IH [of "closesocket (aw_socket rp) ?s"]
    by (auto simp: Let_def same split: if_splits)
qed simp

lemma ensure_net_seen: "seen_net (snd (ensure_net started s)) = seen_net s \<and> wn_socks (snd (ensure_net started s)) = wn_socks s"
  by (simp add: ensure_net_def seen_net_def)

text \<open>Once the library is up it stays up, and starting is tried only while it is not.\<close>

lemma ensure_net_once: "fst (ensure_net started s) \<Longrightarrow> ensure_net any (snd (ensure_net started s)) = (True, snd (ensure_net started s))"
  by (auto simp: ensure_net_def split: if_splits)

text \<open>The same names, the same addresses and the same success.\<close>

lemma windows_dial_same:
  assumes "g_wsa_ready s \<or> started"
    and "\<And>name portbuf res rp. ga name portbuf = Some res \<Longrightarrow> rp \<in> set res \<Longrightarrow> aw_socket rp \<noteq> 0"
  shows "fx_netcap_dial (\<lambda>n p. map_option (map as_attempt) (ga n p)) net host port want_tls m (seen_net s) =
    map_option (\<lambda>(r, s'). if r = 0 then (0, seen_net s') else (3, posix_out s'))
      (fx_netcap_dial_win started ga net host port want_tls m s)"
proof (cases host)
  case None
  then show ?thesis by (simp add: fx_netcap_dial_def fx_netcap_dial_win_def)
next
  case (Some name)
  define s1 where "s1 = snd (ensure_net started s)"
  have up: "ensure_net started s = (True, s1)" using assms(1) by (auto simp: ensure_net_def s1_def)
  let ?port = "dec_digits (nat (sint port))"
  let ?s = "s1\<lparr>wn_resolved := wn_resolved s1 @ [(name, ?port)]\<rparr>"
  have seen: "(seen_net s)\<lparr>resolved := resolved (seen_net s) @ [(name, ?port)]\<rparr> = seen_net ?s"
    using ensure_net_seen [of started s] by (simp add: s1_def flip: seen_simps(4))
  show ?thesis
  proof (cases "ga name ?port")
    case None
    then show ?thesis using Some up seen
      by (auto simp: fx_netcap_dial_def fx_netcap_dial_win_def Let_def split: Option.bind_splits)
  next
    case res: (Some res)
    obtain sock s' where loop: "dial_loop_win res ?s = (sock, s')" by (cases "dial_loop_win res ?s")
    have "sock = INVALID_SOCKET \<or> sock \<noteq> 0" using dial_loop_win_from [OF loop] assms(2) [OF res] by auto
    moreover have "scast (3 :: i32) = (3 :: i64)" by simp
    ultimately show ?thesis using Some up seen res loop dial_loop_win_eq [of res ?s]
      by (auto simp: fx_netcap_dial_def fx_netcap_dial_win_def Let_def split: Option.bind_splits)
  qed
qed

text \<open>A dial whose start fails touches nothing, and a later one may still succeed.\<close>

lemma windows_dial_not_started:
  "\<not> g_wsa_ready s \<Longrightarrow> fx_netcap_dial_win False ga net host port want_tls m s = Some (r, s') \<Longrightarrow> r = 0 \<and> s' = s"
  by (auto simp: fx_netcap_dial_win_def ensure_net_def Let_def bind_iff split: option.splits if_splits)

text \<open>What a dial hands out can be closed once.\<close>

lemma windows_close:
  assumes "fd \<noteq> 0" and "fd \<in> wn_socks s"
  shows "fx_netcap_close_win fd s = (0, closesocket fd s) \<and> fst (fx_netcap_close_win fd (closesocket fd s)) = 1"
  using assms by (simp add: fx_netcap_close_win_def closesocket_def)

end
