(* ===== verification/Fifo.thy ===== *)
theory Fifo
  imports FxPrelude
begin

text \<open>
  The contract of a bounded first-in first-out store, as the blocking channel uses it: the
  provider has an invariant, the items it holds, its capacity and the two partial
  operations; the client's lemmas follow histories of what went in and came out.
\<close>

locale bounded_fifo =
  fixes ok :: "'s \<Rightarrow> bool"
    and items :: "'s \<Rightarrow> 'a list"
    and capacity :: "'s \<Rightarrow> nat"
    and put_item :: "'s \<Rightarrow> 'a \<Rightarrow> 's option"
    and get_item :: "'s \<Rightarrow> ('a \<times> 's) option"
  assumes put_law: "ok s \<Longrightarrow> length (items s) < capacity s \<Longrightarrow>
      \<exists>s'. put_item s v = Some s' \<and> ok s' \<and> items s' = items s @ [v] \<and> capacity s' = capacity s"
    and get_law: "ok s \<Longrightarrow> items s = v # vs \<Longrightarrow>
      \<exists>s'. get_item s = Some (v, s') \<and> ok s' \<and> items s' = vs \<and> capacity s' = capacity s"
    and bound_law: "ok s \<Longrightarrow> length (items s) \<le> capacity s"
begin

text \<open>A history: what was put in so far is what came out so far, then what is inside.\<close>

definition history :: "'a list \<Rightarrow> 'a list \<Rightarrow> 's \<Rightarrow> bool" where
  "history sent got s \<longleftrightarrow> ok s \<and> sent = got @ items s"

lemma history_put:
  assumes "history sent got s" and "length (items s) < capacity s" and "put_item s v = Some s'"
  shows "history (sent @ [v]) got s'" and "capacity s' = capacity s"
    and "length (items s') = length (items s) + 1"
  using assms put_law [of s v] by (auto simp: history_def)

lemma history_get:
  assumes "history sent got s" and "items s \<noteq> []" and "get_item s = Some (v, s')"
  shows "history sent (got @ [v]) s'" and "capacity s' = capacity s"
    and "length (items s') + 1 = length (items s)"
proof -
  from assms(2) obtain x xs where x: "items s = x # xs" by (cases "items s") auto
  show "history sent (got @ [v]) s'" "capacity s' = capacity s" "length (items s') + 1 = length (items s)"
    using get_law [of s x xs] assms x by (auto simp: history_def)
qed

lemma history_prefix: "history sent got s \<Longrightarrow> prefix got sent"
  by (auto simp: history_def)

lemma history_bound: "history sent got s \<Longrightarrow> length sent \<le> length got + capacity s"
  using bound_law by (auto simp: history_def)

end

end
