(* ===== verification/Chan.thy ===== *)
theory Chan
  imports Fifo
begin

text \<open>
  The bounded channel of \<open>host/concur/fx_chan.c\<close>: the ring buffer and its critical sections.
  A critical section runs from taking the lock to giving it up, either by unlocking (then
  the call returns a status) or by waiting on a condition variable (then the call goes on
  when it is woken, from the test of the loop). C's \<open>int\<close> arithmetic that leaves the range
  of \<open>int\<close>, an index outside the buffer and a modulus by zero are undefined, \<open>None\<close>.

  The Windows branch of each function has the same statements between
  \<open>EnterCriticalSection\<close> and \<open>LeaveCriticalSection\<close>, so the definitions below read for both:
  \<open>Wait\<close> is \<open>SleepConditionVariableCS\<close> or \<open>pthread_cond_wait\<close>, a signal is
  \<open>WakeConditionVariable\<close> or \<open>pthread_cond_signal\<close>, a broadcast \<open>WakeAllConditionVariable\<close> on
  both conditions or its pthread counterpart. All of them may wake a thread for no reason,
  and a Windows wake-up that wakes exactly one thread is among those allowed for a signal.
\<close>

section \<open>The data\<close>

definition FX_CHAN_OK :: int where "FX_CHAN_OK = 0"
definition FX_CHAN_ERR :: int where "FX_CHAN_ERR = 1"
definition FX_CHAN_CLOSED :: int where "FX_CHAN_CLOSED = 7"
definition FX_CHAN_FULL :: int where "FX_CHAN_FULL = 8"
definition FX_CHAN_EMPTY :: int where "FX_CHAN_EMPTY = 9"

lemmas chan_codes = FX_CHAN_OK_def FX_CHAN_ERR_def FX_CHAN_CLOSED_def FX_CHAN_FULL_def FX_CHAN_EMPTY_def

definition INT_MAX :: int where "INT_MAX = 2 ^ 31 - 1"

definition int_add :: "int \<Rightarrow> int \<Rightarrow> int option" where
  "int_add a b = (if - INT_MAX - 1 \<le> a + b \<and> a + b \<le> INT_MAX then Some (a + b) else None)"

definition int_mod :: "int \<Rightarrow> int \<Rightarrow> int option" where
  "int_mod a b = (if b = 0 then None else Some (sgn a * (\<bar>a\<bar> mod \<bar>b\<bar>)))"

record FxChan =
  ch_buf :: "i64 list"
  ch_cap :: int
  ch_len :: int
  ch_head :: int
  ch_closed :: bool

text \<open>What a critical section wakes, and how it ends.\<close>

datatype wake = WakeNone | SignalNotEmpty | SignalNotFull | BroadcastAll

datatype cs_end = Wait | Ret int "i64 option" FxChan wake

section \<open>The code\<close>

text \<open>
  \<open>fx_chan_create\<close>: the two allocations and the mutex initialisation may fail; the result
  is NULL (None) or the new channel. \<open>mutex_ok\<close> is always true on Windows, where
  \<open>InitializeCriticalSection\<close> answers nothing.
\<close>

definition fx_chan_create :: "bool \<Rightarrow> bool \<Rightarrow> bool \<Rightarrow> i32 \<Rightarrow> FxChan option" where
  "fx_chan_create calloc_c calloc_buf mutex_ok capacity =
     (let capacity = (if sint capacity < 1 then 1 else capacity) in
      if \<not> calloc_c then None
      else if \<not> calloc_buf then None
      else if \<not> mutex_ok then None
      else Some \<lparr>ch_buf = replicate (nat (sint capacity)) 0, ch_cap = sint capacity,
                 ch_len = 0, ch_head = 0, ch_closed = False\<rparr>)"

definition put_tail :: "FxChan \<Rightarrow> i64 \<Rightarrow> FxChan option" where
  "put_tail c v =
     do { i \<leftarrow> int_add (ch_head c) (ch_len c);
          i \<leftarrow> int_mod i (ch_cap c);
          buf \<leftarrow> (if i < 0 then None else aset (ch_buf c) (nat i) v);
          n \<leftarrow> int_add (ch_len c) 1;
          Some (c\<lparr>ch_buf := buf, ch_len := n\<rparr>) }"

definition send_cs :: "FxChan \<Rightarrow> i64 \<Rightarrow> cs_end option" where
  "send_cs c v =
     (if ch_len c \<ge> ch_cap c \<and> \<not> ch_closed c then Some Wait
      else if ch_closed c then Some (Ret FX_CHAN_CLOSED None c WakeNone)
      else do { c \<leftarrow> put_tail c v; Some (Ret FX_CHAN_OK None c SignalNotEmpty) })"

definition take_head :: "FxChan \<Rightarrow> (i64 \<times> FxChan) option" where
  "take_head c =
     do { v \<leftarrow> (if ch_head c < 0 then None else aget (ch_buf c) (nat (ch_head c)));
          h \<leftarrow> int_add (ch_head c) 1;
          h \<leftarrow> int_mod h (ch_cap c);
          n \<leftarrow> int_add (ch_len c) (- 1);
          Some (v, c\<lparr>ch_head := h, ch_len := n\<rparr>) }"

definition recv_cs :: "FxChan \<Rightarrow> cs_end option" where
  "recv_cs c =
     (if ch_len c = 0 \<and> \<not> ch_closed c then Some Wait
      else if ch_len c = 0 \<and> ch_closed c then Some (Ret FX_CHAN_CLOSED None c WakeNone)
      else do { (v, c) \<leftarrow> take_head c; Some (Ret FX_CHAN_OK (Some v) c SignalNotFull) })"

definition try_recv_cs :: "FxChan \<Rightarrow> cs_end option" where
  "try_recv_cs c =
     (if ch_len c = 0
      then Some (Ret (if ch_closed c then FX_CHAN_CLOSED else FX_CHAN_EMPTY) None c WakeNone)
      else do { (v, c) \<leftarrow> take_head c; Some (Ret FX_CHAN_OK (Some v) c SignalNotFull) })"

definition close_cs :: "FxChan \<Rightarrow> cs_end option" where
  "close_cs c = Some (Ret FX_CHAN_OK None (c\<lparr>ch_closed := True\<rparr>) BroadcastAll)"

text \<open>The 32-bit entry points widen what they send and truncate what they receive.\<close>

definition widen_i32 :: "i32 \<Rightarrow> i64" where "widen_i32 v = scast v"
definition narrow_i64 :: "i64 \<Rightarrow> i32" where "narrow_i64 v = ucast v"

lemma narrow_widen: "narrow_i64 (widen_i32 v) = v"
  unfolding narrow_i64_def widen_i32_def by (rule bit_word_eqI) (auto simp: bit_simps)

text \<open>
  The entry points: a NULL channel or a NULL result pointer is answered with \<open>Inl\<close> the error
  status, everything else runs the critical section. What a receive stores through its
  result pointer is the second component.
\<close>

definition on_chan :: "(FxChan \<Rightarrow> cs_end option) \<Rightarrow> FxChan option \<Rightarrow> (int + cs_end) option" where
  "on_chan f p = (case p of None \<Rightarrow> Some (Inl FX_CHAN_ERR) | Some c \<Rightarrow> map_option Inr (f c))"

definition fx_chan_send_i64 :: "FxChan option \<Rightarrow> i64 \<Rightarrow> (int + cs_end) option" where
  "fx_chan_send_i64 p v = on_chan (\<lambda>c. send_cs c v) p"

definition fx_chan_recv_i64 :: "FxChan option \<Rightarrow> bool \<Rightarrow> (int + cs_end) option" where
  "fx_chan_recv_i64 p out_ptr = (if \<not> out_ptr then Some (Inl FX_CHAN_ERR) else on_chan recv_cs p)"

definition fx_chan_send :: "FxChan option \<Rightarrow> i32 \<Rightarrow> (int + cs_end) option" where
  "fx_chan_send p v = fx_chan_send_i64 p (widen_i32 v)"

definition out_i32 :: "int + cs_end \<Rightarrow> i32 option" where
  "out_i32 r = (case r of Inr (Ret st (Some v) c wk) \<Rightarrow>
     if st = FX_CHAN_OK then Some (narrow_i64 v) else None | _ \<Rightarrow> None)"

definition fx_chan_recv :: "FxChan option \<Rightarrow> bool \<Rightarrow> ((int + cs_end) \<times> i32 option) option" where
  "fx_chan_recv p out_ptr =
     (if \<not> out_ptr then Some (Inl FX_CHAN_ERR, None)
      else do { r \<leftarrow> fx_chan_recv_i64 p True; Some (r, out_i32 r) })"

definition fx_chan_try_recv :: "FxChan option \<Rightarrow> bool \<Rightarrow> ((int + cs_end) \<times> i32 option) option" where
  "fx_chan_try_recv p out_ptr =
     (if p = None \<or> \<not> out_ptr then Some (Inl FX_CHAN_ERR, None)
      else do { r \<leftarrow> on_chan try_recv_cs p; Some (r, out_i32 r) })"

definition fx_chan_close :: "FxChan option \<Rightarrow> (int + cs_end) option" where
  "fx_chan_close p = on_chan close_cs p"

section \<open>The queue a channel stands for\<close>

definition chan_ok :: "FxChan \<Rightarrow> bool" where
  "chan_ok c \<longleftrightarrow> 1 \<le> ch_cap c \<and> ch_cap c \<le> 2 ^ 30 \<and> length (ch_buf c) = nat (ch_cap c) \<and>
     0 \<le> ch_len c \<and> ch_len c \<le> ch_cap c \<and> 0 \<le> ch_head c \<and> ch_head c < ch_cap c"

definition slot :: "FxChan \<Rightarrow> nat \<Rightarrow> nat" where
  "slot c i = (nat (ch_head c) + i) mod nat (ch_cap c)"

definition chan_queue :: "FxChan \<Rightarrow> i64 list" where
  "chan_queue c = map (\<lambda>i. ch_buf c ! slot c i) [0..<nat (ch_len c)]"

lemma chan_queue_length [simp]: "length (chan_queue c) = nat (ch_len c)"
  by (simp add: chan_queue_def)

lemma int_mod_pos: "0 \<le> a \<Longrightarrow> 0 < b \<Longrightarrow> int_mod a b = Some (a mod b)"
  by (cases "a = 0") (simp_all add: int_mod_def)

lemma slot_eq:
  assumes "chan_ok c" and "i < nat (ch_cap c)"
  shows "slot c i = (if nat (ch_head c) + i < nat (ch_cap c) then nat (ch_head c) + i
                     else nat (ch_head c) + i - nat (ch_cap c))"
proof (cases "nat (ch_head c) + i < nat (ch_cap c)")
  case False
  have "nat (ch_head c) < nat (ch_cap c)" using assms(1) by (simp add: chan_ok_def)
  then have "nat (ch_head c) + i - nat (ch_cap c) < nat (ch_cap c)" using assms(2) by linarith
  with False show ?thesis unfolding slot_def by (simp add: le_mod_geq)
qed (simp add: slot_def)

lemma slot_inj:
  assumes "chan_ok c" and "i < nat (ch_cap c)" and "j < nat (ch_cap c)" and "slot c i = slot c j"
  shows "i = j"
proof -
  define h n where "h = nat (ch_head c)" and "n = nat (ch_cap c)"
  have "h < n" using assms(1) by (simp add: chan_ok_def h_def n_def)
  moreover have "i < n" "j < n" using assms(2,3) by (simp_all add: n_def)
  moreover have "(if h + i < n then h + i else h + i - n) = (if h + j < n then h + j else h + j - n)"
    unfolding h_def n_def using assms(4) slot_eq [OF assms(1,2)] slot_eq [OF assms(1,3)] by argo
  ultimately show ?thesis by (auto split: if_splits)
qed

lemma put_tail_ok:
  assumes ok: "chan_ok c" and room: "ch_len c < ch_cap c"
  shows "\<exists>c'. put_tail c v = Some c' \<and> chan_ok c' \<and> chan_queue c' = chan_queue c @ [v] \<and>
    ch_cap c' = ch_cap c \<and> ch_closed c' = ch_closed c \<and> ch_len c' = ch_len c + 1"
proof -
  let ?k = "slot c (nat (ch_len c))"
  let ?c = "c\<lparr>ch_buf := (ch_buf c)[?k := v], ch_len := ch_len c + 1\<rparr>"
  have b: "1 \<le> ch_cap c" "ch_cap c \<le> 2 ^ 30" "length (ch_buf c) = nat (ch_cap c)"
    "0 \<le> ch_len c" "0 \<le> ch_head c" "ch_head c < ch_cap c"
    using ok by (simp_all add: chan_ok_def)
  have k: "nat ((ch_head c + ch_len c) mod ch_cap c) = ?k"
    using b by (simp add: slot_def nat_mod_distrib nat_add_distrib)
  have nn: "\<not> (ch_head c + ch_len c) mod ch_cap c < 0" using b(1) by (simp add: not_less)
  have "?k < nat (ch_cap c)" using b by (simp add: slot_def)
  then have "put_tail c v = Some ?c"
    using b room by (simp add: put_tail_def int_add_def INT_MAX_def int_mod_pos array_simps k nn)
  moreover have "chan_ok ?c" using ok room by (simp add: chan_ok_def)
  moreover have "chan_queue ?c = chan_queue c @ [v]"
  proof -
    have "(ch_buf c)[?k := v] ! slot c i = ch_buf c ! slot c i" if "i < nat (ch_len c)" for i
    proof (intro nth_list_update_neq notI)
      assume eq: "?k = slot c i"
      have i: "i < nat (ch_cap c)" and n: "nat (ch_len c) < nat (ch_cap c)"
        using that room b(1,4) by linarith+
      from slot_inj [OF ok n i eq] that show False by simp
    qed
    moreover have "nat (ch_len c + 1) = Suc (nat (ch_len c))" using b by simp
    moreover have "slot ?c i = slot c i" for i by (simp add: slot_def)
    ultimately show ?thesis
      using \<open>?k < nat (ch_cap c)\<close> b(3) by (simp add: chan_queue_def)
  qed
  ultimately show ?thesis by (intro exI [of _ ?c]) simp
qed

lemma take_head_ok:
  assumes ok: "chan_ok c" and some: "0 < ch_len c"
  shows "\<exists>v c'. take_head c = Some (v, c') \<and> chan_ok c' \<and> chan_queue c = v # chan_queue c' \<and>
    ch_cap c' = ch_cap c \<and> ch_closed c' = ch_closed c \<and> ch_len c' = ch_len c - 1"
proof -
  let ?h = "(ch_head c + 1) mod ch_cap c"
  let ?c = "c\<lparr>ch_head := ?h, ch_len := ch_len c - 1\<rparr>" and ?v = "ch_buf c ! nat (ch_head c)"
  have b: "1 \<le> ch_cap c" "ch_cap c \<le> 2 ^ 30" "length (ch_buf c) = nat (ch_cap c)"
    "ch_len c \<le> ch_cap c" "0 \<le> ch_head c" "ch_head c < ch_cap c"
    using ok by (simp_all add: chan_ok_def)
  have "take_head c = Some (?v, ?c)"
    using b some by (simp add: take_head_def int_add_def INT_MAX_def int_mod_pos array_simps)
  moreover have "chan_ok ?c" using b some by (simp add: chan_ok_def)
  moreover have "chan_queue c = ?v # chan_queue ?c"
  proof -
    have s0: "slot c 0 = nat (ch_head c)" using b by (simp add: slot_def)
    have "nat ?h = (nat (ch_head c) + 1) mod nat (ch_cap c)"
      using b by (simp add: nat_mod_distrib nat_add_distrib)
    then have "slot ?c i = slot c (Suc i)" for i
      by (simp add: slot_def mod_add_left_eq)
    moreover have "nat (ch_len c) = Suc (nat (ch_len c - 1))" using some by simp
    ultimately show ?thesis
      by (simp add: chan_queue_def s0 map_upt_Suc del: upt_Suc)
  qed
  ultimately show ?thesis by (intro exI [of _ ?v] exI [of _ ?c]) simp
qed

lemma create_ok:
  assumes "fx_chan_create a b m capacity = Some c" and "sint capacity \<le> 2 ^ 30"
  shows "chan_ok c" "chan_queue c = []" "\<not> ch_closed c" "ch_cap c = max 1 (sint capacity)"
  using assms by (auto simp: fx_chan_create_def chan_ok_def chan_queue_def Let_def split: if_splits)

interpretation ring: bounded_fifo chan_ok chan_queue "\<lambda>c. nat (ch_cap c)" put_tail take_head
proof
  fix c v assume "chan_ok c" "length (chan_queue c) < nat (ch_cap c)"
  then have "ch_len c < ch_cap c" by (simp add: chan_ok_def)
  with put_tail_ok \<open>chan_ok c\<close> show "\<exists>c'. put_tail c v = Some c' \<and> chan_ok c' \<and>
      chan_queue c' = chan_queue c @ [v] \<and> nat (ch_cap c') = nat (ch_cap c)" by metis
next
  fix c v vs assume c: "chan_ok c" "chan_queue c = v # vs"
  then have "0 < nat (ch_len c)" by (metis chan_queue_length length_greater_0_conv list.discI)
  with take_head_ok [OF c(1)] c(2) show "\<exists>c'. take_head c = Some (v, c') \<and> chan_ok c' \<and>
      chan_queue c' = vs \<and> nat (ch_cap c') = nat (ch_cap c)" by fastforce
qed (auto simp: chan_ok_def)

end
