(* ===== verification/ChanSync.thy ===== *)
theory ChanSync
  imports Chan "HOL-Library.Multiset"
begin

text \<open>
  Any number of threads on one channel of \<open>host/concur/fx_chan.c\<close>. Every critical section is
  one step, because the mutex is held from its start to the unlock or the wait; between two
  sections anything may happen. A thread inside \<open>fx_chan_send_i64\<close> with value \<open>v\<close> is ready
  (it wants the lock) or blocked (in \<open>pthread_cond_wait\<close>); it is represented by its value,
  so the threads of each kind are a multiset. A signal wakes at least one blocked thread if
  there is one, a broadcast wakes all, and a blocked thread may also wake for no reason.
\<close>

section \<open>The system\<close>

record csys =
  sy_chan :: FxChan
  sy_ready_send :: "i64 multiset"
  sy_blocked_send :: "i64 multiset"
  sy_ready_recv :: nat
  sy_blocked_recv :: nat
  sy_sent :: "i64 list"
  sy_got :: "i64 list"

definition wakes :: "wake \<Rightarrow> csys \<Rightarrow> csys \<Rightarrow> bool" where
  "wakes wk s s' \<longleftrightarrow>
     (case wk of
        WakeNone \<Rightarrow> s' = s
      | SignalNotFull \<Rightarrow> \<exists>W. W \<subseteq># sy_blocked_send s \<and> (sy_blocked_send s \<noteq> {#} \<longrightarrow> W \<noteq> {#}) \<and>
          s' = s\<lparr>sy_ready_send := sy_ready_send s + W, sy_blocked_send := sy_blocked_send s - W\<rparr>
      | SignalNotEmpty \<Rightarrow> \<exists>k \<le> sy_blocked_recv s. (0 < sy_blocked_recv s \<longrightarrow> 0 < k) \<and>
          s' = s\<lparr>sy_ready_recv := sy_ready_recv s + k, sy_blocked_recv := sy_blocked_recv s - k\<rparr>
      | BroadcastAll \<Rightarrow>
          s' = s\<lparr>sy_ready_send := sy_ready_send s + sy_blocked_send s, sy_blocked_send := {#},
                 sy_ready_recv := sy_ready_recv s + sy_blocked_recv s, sy_blocked_recv := 0\<rparr>)"

inductive sys_step :: "csys \<Rightarrow> csys \<Rightarrow> bool" where
  call_send: "sys_step s (s\<lparr>sy_ready_send := add_mset v (sy_ready_send s)\<rparr>)"
| call_recv: "sys_step s (s\<lparr>sy_ready_recv := Suc (sy_ready_recv s)\<rparr>)"
| send_waits: "v \<in># sy_ready_send s \<Longrightarrow> send_cs (sy_chan s) v = Some Wait \<Longrightarrow>
    sys_step s (s\<lparr>sy_ready_send := sy_ready_send s - {#v#},
                  sy_blocked_send := add_mset v (sy_blocked_send s)\<rparr>)"
| send_returns: "v \<in># sy_ready_send s \<Longrightarrow> send_cs (sy_chan s) v = Some (Ret st out c wk) \<Longrightarrow>
    wakes wk (s\<lparr>sy_chan := c, sy_ready_send := sy_ready_send s - {#v#},
                sy_sent := sy_sent s @ (if st = FX_CHAN_OK then [v] else [])\<rparr>) s' \<Longrightarrow>
    sys_step s s'"
| recv_waits: "0 < sy_ready_recv s \<Longrightarrow> recv_cs (sy_chan s) = Some Wait \<Longrightarrow>
    sys_step s (s\<lparr>sy_ready_recv := sy_ready_recv s - 1, sy_blocked_recv := Suc (sy_blocked_recv s)\<rparr>)"
| recv_returns: "0 < sy_ready_recv s \<Longrightarrow> recv_cs (sy_chan s) = Some (Ret st out c wk) \<Longrightarrow>
    wakes wk (s\<lparr>sy_chan := c, sy_ready_recv := sy_ready_recv s - 1,
                sy_got := sy_got s @ (case out of None \<Rightarrow> [] | Some v \<Rightarrow> [v])\<rparr>) s' \<Longrightarrow>
    sys_step s s'"
| try_recv_returns: "try_recv_cs (sy_chan s) = Some (Ret st out c wk) \<Longrightarrow>
    wakes wk (s\<lparr>sy_chan := c,
                sy_got := sy_got s @ (case out of None \<Rightarrow> [] | Some v \<Rightarrow> [v])\<rparr>) s' \<Longrightarrow>
    sys_step s s'"
| close_returns: "close_cs (sy_chan s) = Some (Ret st out c wk) \<Longrightarrow>
    wakes wk (s\<lparr>sy_chan := c\<rparr>) s' \<Longrightarrow> sys_step s s'"
| spurious_send: "v \<in># sy_blocked_send s \<Longrightarrow>
    sys_step s (s\<lparr>sy_blocked_send := sy_blocked_send s - {#v#},
                  sy_ready_send := add_mset v (sy_ready_send s)\<rparr>)"
| spurious_recv: "0 < sy_blocked_recv s \<Longrightarrow>
    sys_step s (s\<lparr>sy_blocked_recv := sy_blocked_recv s - 1, sy_ready_recv := Suc (sy_ready_recv s)\<rparr>)"

inductive_cases sys_stepE: "sys_step s s'"

definition sys_init :: "FxChan \<Rightarrow> csys" where
  "sys_init c = \<lparr>sy_chan = c, sy_ready_send = {#}, sy_blocked_send = {#}, sy_ready_recv = 0,
     sy_blocked_recv = 0, sy_sent = [], sy_got = []\<rparr>"

inductive sys_reach :: "FxChan \<Rightarrow> csys \<Rightarrow> bool" for c where
  reach_init: "sys_reach c (sys_init c)"
| reach_step: "sys_reach c s \<Longrightarrow> sys_step s s' \<Longrightarrow> sys_reach c s'"

section \<open>The critical sections on a well-formed channel\<close>

lemma send_cs_cases:
  assumes "chan_ok c"
  obtains (closed) "ch_closed c" "send_cs c v = Some (Ret FX_CHAN_CLOSED None c WakeNone)"
  | (full) "\<not> ch_closed c" "ch_len c = ch_cap c" "send_cs c v = Some Wait"
  | (put) c' where "\<not> ch_closed c" "ch_len c < ch_cap c" "put_tail c v = Some c'"
      "send_cs c v = Some (Ret FX_CHAN_OK None c' SignalNotEmpty)"
      "ch_closed c' = ch_closed c" "ch_cap c' = ch_cap c" "ch_len c' = ch_len c + 1"
proof (cases "ch_closed c \<or> ch_cap c \<le> ch_len c")
  case True
  with assms closed full show ?thesis by (cases "ch_closed c") (auto simp: send_cs_def chan_ok_def)
next
  case False
  with put_tail_ok [OF assms, of v] put show ?thesis by (auto simp: send_cs_def)
qed

lemma recv_cs_cases:
  assumes "chan_ok c"
  obtains (closed) "ch_closed c" "ch_len c = 0" "recv_cs c = Some (Ret FX_CHAN_CLOSED None c WakeNone)"
      "try_recv_cs c = Some (Ret FX_CHAN_CLOSED None c WakeNone)"
  | (empty) "\<not> ch_closed c" "ch_len c = 0" "recv_cs c = Some Wait"
      "try_recv_cs c = Some (Ret FX_CHAN_EMPTY None c WakeNone)"
  | (got) v c' where "0 < ch_len c" "take_head c = Some (v, c')"
      "recv_cs c = Some (Ret FX_CHAN_OK (Some v) c' SignalNotFull)"
      "try_recv_cs c = Some (Ret FX_CHAN_OK (Some v) c' SignalNotFull)"
      "ch_closed c' = ch_closed c" "ch_cap c' = ch_cap c" "ch_len c' = ch_len c - 1"
proof (cases "ch_len c = 0")
  case True
  with closed empty show ?thesis by (cases "ch_closed c") (auto simp: recv_cs_def try_recv_cs_def)
next
  case False
  with assms have "0 < ch_len c" by (simp add: chan_ok_def)
  with take_head_ok [OF assms] False got show ?thesis by (auto simp: recv_cs_def try_recv_cs_def)
qed

section \<open>The invariant\<close>

text \<open>
  While a sender is blocked the channel is open and every free slot has a ready sender on its
  way; while a receiver is blocked every queued element has a ready receiver on its way.
\<close>

definition sys_inv :: "csys \<Rightarrow> bool" where
  "sys_inv s \<longleftrightarrow> ring.history (sy_sent s) (sy_got s) (sy_chan s) \<and>
     (sy_blocked_send s \<noteq> {#} \<longrightarrow> \<not> ch_closed (sy_chan s) \<and>
        ch_cap (sy_chan s) - ch_len (sy_chan s) \<le> int (size (sy_ready_send s))) \<and>
     (0 < sy_blocked_recv s \<longrightarrow> \<not> ch_closed (sy_chan s) \<and>
        ch_len (sy_chan s) \<le> int (sy_ready_recv s))"

lemma inv_chan_ok: "sys_inv s \<Longrightarrow> chan_ok (sy_chan s)"
  by (simp add: sys_inv_def ring.history_def)

lemma wakes_same:
  assumes "wakes wk s s'"
  shows "sy_chan s' = sy_chan s" "sy_sent s' = sy_sent s" "sy_got s' = sy_got s"
    "size (sy_ready_send s) \<le> size (sy_ready_send s')" "sy_ready_recv s \<le> sy_ready_recv s'"
    "sy_blocked_send s' \<noteq> {#} \<Longrightarrow> sy_blocked_send s \<noteq> {#}"
    "0 < sy_blocked_recv s' \<Longrightarrow> 0 < sy_blocked_recv s"
  using assms by (cases wk; auto simp: wakes_def)+

lemma wakes_signal:
  "wakes SignalNotFull s s' \<Longrightarrow> sy_blocked_send s' \<noteq> {#} \<Longrightarrow>
     size (sy_ready_send s) < size (sy_ready_send s')"
  "wakes SignalNotEmpty s s' \<Longrightarrow> 0 < sy_blocked_recv s' \<Longrightarrow> sy_ready_recv s < sy_ready_recv s'"
  "wakes BroadcastAll s s' \<Longrightarrow> sy_blocked_send s' = {#} \<and> sy_blocked_recv s' = 0"
  by (auto simp: wakes_def nonempty_has_size)

lemma code_ne [simp]: "FX_CHAN_CLOSED \<noteq> FX_CHAN_OK" "FX_CHAN_OK \<noteq> FX_CHAN_CLOSED"
  by (simp_all add: chan_codes)

text \<open>A step that hands the same queue on: nothing about the history changes.\<close>

lemma inv_send_returns:
  assumes inv: "sys_inv s" and v: "v \<in># sy_ready_send s"
    and cs: "send_cs (sy_chan s) v = Some (Ret st out c wk)"
    and wk: "wakes wk (s\<lparr>sy_chan := c, sy_ready_send := sy_ready_send s - {#v#},
        sy_sent := sy_sent s @ (if st = FX_CHAN_OK then [v] else [])\<rparr>) s'"
  shows "sys_inv s'"
  using inv_chan_ok [OF inv]
proof (cases rule: send_cs_cases [where v = v])
  case closed
  with cs wk inv show ?thesis by (auto simp: sys_inv_def wakes_def)
next
  case full
  with cs show ?thesis by simp
next
  case (put c')
  with cs have c: "st = FX_CHAN_OK" "c = c'" "wk = SignalNotEmpty" by simp_all
  note same = wakes_same [OF wk] and sig = wakes_signal(2) [OF wk [unfolded c(3)]]
  have hist: "ring.history (sy_sent s @ [v]) (sy_got s) c'"
    using inv inv_chan_ok [OF inv] put(2,3)
    by (intro ring.history_put(1)) (auto simp: sys_inv_def chan_ok_def)
  have n: "size (sy_ready_send s) = Suc (size (sy_ready_send s - {#v#}))"
    using v by (metis size_Suc_Diff1)
  show ?thesis
    using inv hist same sig put(1,5-7) n c by (auto simp: sys_inv_def)
qed

lemma inv_take:
  assumes inv: "sys_inv s" and take: "0 < ch_len (sy_chan s)" "take_head (sy_chan s) = Some (v, c')"
    and same: "ch_closed c' = ch_closed (sy_chan s)" "ch_cap c' = ch_cap (sy_chan s)"
      "ch_len c' = ch_len (sy_chan s) - 1"
    and r: "r \<le> sy_ready_recv s" "sy_ready_recv s \<le> r + 1"
    and wk: "wakes SignalNotFull (s\<lparr>sy_chan := c', sy_ready_recv := r, sy_got := sy_got s @ [v]\<rparr>) s'"
  shows "sys_inv s'"
proof -
  note keep = wakes_same [OF wk] and sig = wakes_signal(1) [OF wk]
  have "chan_queue (sy_chan s) \<noteq> []"
    using take(1) chan_queue_length [of "sy_chan s"] by (metis list.size(3) not_less_iff_gr_or_eq zero_less_nat_eq)
  then have hist: "ring.history (sy_sent s) (sy_got s @ [v]) c'"
    using inv take by (intro ring.history_get(1)) (auto simp: sys_inv_def)
  have "sy_ready_recv s' \<ge> r" using keep(5) by simp
  then show ?thesis
    using inv hist keep(1-3,6,7) sig same r by (auto simp: sys_inv_def)
qed

lemma sys_inv_step: "sys_step s s' \<Longrightarrow> sys_inv s \<Longrightarrow> sys_inv s'"
proof (induction rule: sys_step.induct)
  case (call_send s v)
  then show ?case by (auto simp: sys_inv_def)
next
  case (call_recv s)
  then show ?case by (auto simp: sys_inv_def)
next
  case (send_waits v s)
  from inv_chan_ok [OF send_waits.prems] show ?case
  proof (cases rule: send_cs_cases [where v = v])
    case full
    with send_waits show ?thesis by (auto simp: sys_inv_def)
  qed (use send_waits in auto)
next
  case (send_returns v s st out c wk s')
  then show ?case using inv_send_returns by blast
next
  case (recv_waits s)
  from inv_chan_ok [OF recv_waits.prems] show ?case
  proof (cases rule: recv_cs_cases)
    case empty
    with recv_waits show ?thesis by (auto simp: sys_inv_def)
  qed (use recv_waits in auto)
next
  case (recv_returns s st out c wk s')
  from inv_chan_ok [OF recv_returns.prems] show ?case
  proof (cases rule: recv_cs_cases)
    case closed
    with recv_returns show ?thesis by (auto simp: sys_inv_def wakes_def)
  next
    case empty
    with recv_returns show ?thesis by simp
  next
    case (got v c')
    with recv_returns(2,3) have "st = FX_CHAN_OK" "out = Some v" "c = c'" "wk = SignalNotFull" by auto
    with recv_returns(3) have "wakes SignalNotFull (s\<lparr>sy_chan := c',
        sy_ready_recv := sy_ready_recv s - 1, sy_got := sy_got s @ [v]\<rparr>) s'" by simp
    from inv_take [OF recv_returns.prems got(1,2,5-7) _ _ this] show ?thesis by simp
  qed
next
  case (try_recv_returns s st out c wk s')
  from inv_chan_ok [OF try_recv_returns.prems] show ?case
  proof (cases rule: recv_cs_cases)
    case closed
    with try_recv_returns show ?thesis by (auto simp: sys_inv_def wakes_def)
  next
    case empty
    with try_recv_returns show ?thesis by (auto simp: sys_inv_def wakes_def)
  next
    case (got v c')
    with try_recv_returns(1,2) have "st = FX_CHAN_OK" "out = Some v" "c = c'" "wk = SignalNotFull" by auto
    with try_recv_returns(2) have "wakes SignalNotFull (s\<lparr>sy_chan := c',
        sy_ready_recv := sy_ready_recv s, sy_got := sy_got s @ [v]\<rparr>) s'" by simp
    from inv_take [OF try_recv_returns.prems got(1,2,5-7) _ _ this] show ?thesis by simp
  qed
next
  case (close_returns s st out c wk s')
  then have c: "c = sy_chan s\<lparr>ch_closed := True\<rparr>" "wk = BroadcastAll" by (simp_all add: close_cs_def)
  have "chan_ok c = chan_ok (sy_chan s)" "chan_queue c = chan_queue (sy_chan s)"
    by (simp_all add: c chan_ok_def chan_queue_def slot_def)
  with close_returns show ?case by (auto simp: c sys_inv_def wakes_def ring.history_def)
next
  case (spurious_send v s)
  then show ?case by (auto simp: sys_inv_def)
next
  case (spurious_recv s)
  then show ?case by (auto simp: sys_inv_def)
qed

lemma sys_reach_inv: "sys_reach c s \<Longrightarrow> chan_ok c \<Longrightarrow> chan_queue c = [] \<Longrightarrow> sys_inv s"
proof (induction rule: sys_reach.induct)
  case reach_init
  then show ?case by (simp add: sys_inv_def sys_init_def ring.history_def)
next
  case (reach_step s s')
  then show ?case using sys_inv_step by blast
qed

end
