(* ===== verification/Select.thy ===== *)
theory Select
  imports ChanSync
begin

text \<open>
  \<open>fx_select_recv2\<close> of \<open>host/concur/fx_select.c\<close>: poll two channels, \<open>a\<close> first, with a sleep of a
  millisecond between the rounds. Each poll takes the lock of its channel alone, so other
  threads act between any two polls, not only during the sleep: what they do to the two channels after
  poll \<open>j\<close> of the call is a parameter, \<open>others j\<close>. Polls count from 0; round \<open>k\<close> has the polls
  \<open>2 * k\<close> of \<open>a\<close> and \<open>2 * k + 1\<close> of \<open>b\<close>. The round counter is the 32-bit \<open>waited\<close> of the code; the
  fuel bounds the rounds of the model only.
\<close>

definition FX_SEL_OK :: int where "FX_SEL_OK = 0"
definition FX_SEL_ERR :: int where "FX_SEL_ERR = 1"
definition FX_SEL_TIMEOUT :: int where "FX_SEL_TIMEOUT = 5"

type_synonym chan_pair = "FxChan option \<times> FxChan option"
type_synonym others = "nat \<Rightarrow> chan_pair \<Rightarrow> chan_pair"

record sel_result =
  sel_status :: int
  sel_out :: "i32 option"
  sel_which :: "nat option"
  sel_chans :: chan_pair
  sel_sleeps :: nat

text \<open>One attempt on one channel: Some when the element was taken.\<close>

definition poll :: "FxChan option \<Rightarrow> ((i32 \<times> FxChan) option) option" where
  "poll p =
     (case p of None \<Rightarrow> Some None
      | Some c \<Rightarrow> do {
          (r, out) \<leftarrow> fx_chan_try_recv (Some c) True;
          Some (case (r, out) of
                  (Inr (Ret st _ c' _), Some v) \<Rightarrow> if st = FX_CHAN_OK then Some (v, c') else None
                | _ \<Rightarrow> None) })"

fun select_loop :: "nat \<Rightarrow> others \<Rightarrow> u32 \<Rightarrow> u32 \<Rightarrow> nat \<Rightarrow> chan_pair \<Rightarrow> sel_result option" where
  "select_loop 0 others timeout_ms waited k ab = None"
| "select_loop (Suc fuel) others timeout_ms waited k ab =
     (if waited > timeout_ms then
        Some \<lparr>sel_status = FX_SEL_TIMEOUT, sel_out = None, sel_which = None, sel_chans = ab, sel_sleeps = k\<rparr>
      else do {
        ra \<leftarrow> poll (fst ab);
        case ra of
          Some (v, a) \<Rightarrow> Some \<lparr>sel_status = FX_SEL_OK, sel_out = Some v, sel_which = Some 0,
            sel_chans = (Some a, snd ab), sel_sleeps = k\<rparr>
        | None \<Rightarrow> do {
            ab \<leftarrow> Some (others (2 * k) ab);
            rb \<leftarrow> poll (snd ab);
            case rb of
              Some (v, b) \<Rightarrow> Some \<lparr>sel_status = FX_SEL_OK, sel_out = Some v, sel_which = Some 1,
                sel_chans = (fst ab, Some b), sel_sleeps = k\<rparr>
            | None \<Rightarrow>
                if timeout_ms = 0 then
                  Some \<lparr>sel_status = FX_SEL_TIMEOUT, sel_out = None, sel_which = None,
                    sel_chans = ab, sel_sleeps = k\<rparr>
                else select_loop fuel others timeout_ms (waited + 1) (Suc k) (others (2 * k + 1) ab) } })"

definition fx_select_recv2 ::
  "nat \<Rightarrow> others \<Rightarrow> bool \<Rightarrow> bool \<Rightarrow> u32 \<Rightarrow> chan_pair \<Rightarrow> sel_result option" where
  "fx_select_recv2 fuel others out_ptr which_ptr timeout_ms ab =
     (if \<not> out_ptr \<or> \<not> which_ptr then
        Some \<lparr>sel_status = FX_SEL_ERR, sel_out = None, sel_which = None, sel_chans = ab, sel_sleeps = 0\<rparr>
      else select_loop fuel others timeout_ms 0 0 ab)"

section \<open>Polls\<close>

text \<open>The two channels at poll \<open>j\<close>, if no poll before took anything, and the one that is polled.\<close>

fun at_poll :: "others \<Rightarrow> nat \<Rightarrow> chan_pair \<Rightarrow> chan_pair" where
  "at_poll others 0 ab = ab"
| "at_poll others (Suc j) ab = others j (at_poll others j ab)"

definition polled :: "nat \<Rightarrow> chan_pair \<Rightarrow> FxChan option" where
  "polled j ab = (if even j then fst ab else snd ab)"

definition port_ok :: "FxChan option \<Rightarrow> bool" where
  "port_ok p \<longleftrightarrow> (case p of None \<Rightarrow> True | Some c \<Rightarrow> chan_ok c)"

definition pair_ok :: "chan_pair \<Rightarrow> bool" where
  "pair_ok ab \<longleftrightarrow> port_ok (fst ab) \<and> port_ok (snd ab)"

definition port_queue :: "FxChan option \<Rightarrow> i64 list" where
  "port_queue p = (case p of None \<Rightarrow> [] | Some c \<Rightarrow> chan_queue c)"

definition finds :: "others \<Rightarrow> chan_pair \<Rightarrow> nat \<Rightarrow> bool" where
  "finds others ab j \<longleftrightarrow> port_queue (polled j (at_poll others j ab)) \<noteq> []"

lemma port_queue_Some: "port_queue (Some c) = chan_queue c"
  by (simp add: port_queue_def)

lemma poll_spec:
  assumes "port_ok p"
  shows "if port_queue p = [] then poll p = Some None
    else \<exists>c'. poll p = Some (Some (narrow_i64 (hd (port_queue p)), c')) \<and> chan_ok c' \<and>
      chan_queue c' = tl (port_queue p)"
proof (cases p)
  case None
  then show ?thesis by (simp add: poll_def port_queue_def)
next
  case (Some c)
  with assms have c: "chan_ok c" by (simp add: port_ok_def)
  then show ?thesis
  proof (cases rule: recv_cs_cases)
    case closed
    with Some show ?thesis
      by (simp add: poll_def port_queue_def chan_queue_def fx_chan_try_recv_def on_chan_def out_i32_def)
  next
    case empty
    with Some show ?thesis
      by (simp add: poll_def port_queue_def chan_queue_def fx_chan_try_recv_def on_chan_def out_i32_def)
  next
    case (got v c')
    with take_head_ok [OF c got(1)] have "chan_ok c'" "chan_queue c = v # chan_queue c'" by simp_all
    with Some got show ?thesis
      by (simp add: poll_def port_queue_def fx_chan_try_recv_def on_chan_def out_i32_def)
  qed
qed

lemma poll_idle: "port_ok p \<Longrightarrow> port_queue p = [] \<Longrightarrow> poll p = Some None"
  using poll_spec [of p] by simp

lemma at_poll_ok:
  assumes "\<forall>k ab. pair_ok ab \<longrightarrow> pair_ok (oth k ab)" and "pair_ok ab"
  shows "pair_ok (at_poll oth j ab)"
proof (induction j)
  case (Suc j)
  with assms(1) show ?case unfolding at_poll.simps by blast
qed (simp add: assms)

lemma poll_at_idle:
  assumes "\<forall>k ab. pair_ok ab \<longrightarrow> pair_ok (oth k ab)" and "pair_ok ab" and "\<not> finds oth ab j"
  shows "poll (polled j (at_poll oth j ab)) = Some None"
  using at_poll_ok [OF assms(1,2), of j] assms(3)
  by (intro poll_idle) (auto simp: finds_def polled_def pair_ok_def)

lemma polled_at:
  "polled (2 * k) ab = fst ab" "polled (Suc (2 * k)) ab = snd ab"
  by (simp_all add: polled_def)

text \<open>A round that finds nothing, from one poll of the first channel to the next.\<close>

lemma select_idle_round:
  assumes oth: "\<forall>k ab. pair_ok ab \<longrightarrow> pair_ok (oth k ab)" "pair_ok ab"
    and idle: "\<not> finds oth ab (2 * k)" "\<not> finds oth ab (Suc (2 * k))" and "w \<le> t" and "t \<noteq> 0"
  shows "select_loop (Suc fuel) oth t w k (at_poll oth (2 * k) ab) =
    select_loop fuel oth t (w + 1) (Suc k) (at_poll oth (2 * Suc k) ab)"
proof -
  have "\<not> t < w" using assms(5) by (simp add: not_less)
  with poll_at_idle [OF oth idle(1)] poll_at_idle [OF oth idle(2)] assms(6) show ?thesis
    by (simp add: polled_at)
qed

text \<open>After \<open>k\<close> idle rounds the loop stands at round \<open>k\<close>; the counter counts modulo 2^32.\<close>

lemma select_skip:
  assumes oth: "\<forall>k ab. pair_ok ab \<longrightarrow> pair_ok (oth k ab)" and ab: "pair_ok ab" and t: "t \<noteq> 0"
    and idle: "\<forall>j < 2 * k. \<not> finds oth ab j" and le: "\<forall>j < k. of_nat j \<le> t"
  shows "select_loop (fuel + k) oth t 0 0 ab = select_loop fuel oth t (of_nat k) k (at_poll oth (2 * k) ab)"
  using idle le
proof (induction k arbitrary: fuel)
  case (Suc k)
  have "select_loop (Suc fuel + k) oth t 0 0 ab =
      select_loop (Suc fuel) oth t (of_nat k) k (at_poll oth (2 * k) ab)"
    using Suc.prems by (intro Suc.IH) simp_all
  also have "\<dots> = select_loop fuel oth t (of_nat k + 1) (Suc k) (at_poll oth (2 * Suc k) ab)"
    using Suc.prems t by (intro select_idle_round [OF oth ab]) simp_all
  finally show ?case by (simp only: of_nat_Suc add_Suc_right add_Suc add.commute [of 1])
qed simp

text \<open>A poll that finds an element ends the call with the oldest one.\<close>

definition takes_at :: "nat \<Rightarrow> chan_pair \<Rightarrow> sel_result \<Rightarrow> bool" where
  "takes_at m ab r \<longleftrightarrow> sel_status r = FX_SEL_OK \<and> sel_sleeps r = m div 2 \<and> sel_which r = Some (m mod 2) \<and>
     sel_out r = Some (narrow_i64 (hd (port_queue (polled m ab)))) \<and>
     port_queue (polled m (sel_chans r)) = tl (port_queue (polled m ab)) \<and>
     polled (Suc m) (sel_chans r) = polled (Suc m) ab"

lemma select_hit:
  assumes oth: "\<forall>k ab. pair_ok ab \<longrightarrow> pair_ok (oth k ab)" and ab: "pair_ok ab"
    and m: "finds oth ab m" "\<not> finds oth ab (2 * k) \<or> m = 2 * k" "m = 2 * k \<or> m = Suc (2 * k)" and w: "w \<le> t"
  shows "\<exists>r. select_loop (Suc fuel) oth t w k (at_poll oth (2 * k) ab) = Some r \<and> takes_at m (at_poll oth m ab) r"
proof -
  have nt: "\<not> t < w" using w by (simp add: not_less)
  let ?x = "at_poll oth m ab"
  have "port_ok (polled m ?x)" using at_poll_ok [OF oth ab, of m] by (simp add: pair_ok_def polled_def)
  from poll_spec [OF this] m(1) obtain c' where c':
    "poll (polled m ?x) = Some (Some (narrow_i64 (hd (port_queue (polled m ?x))), c'))"
    "chan_queue c' = tl (port_queue (polled m ?x))" by (auto simp: finds_def)
  show ?thesis
  proof (cases "m = 2 * k")
    case True
    with nt c' show ?thesis by (simp add: polled_at port_queue_Some takes_at_def)
  next
    case False
    with m(2,3) have k: "m = Suc (2 * k)" "\<not> finds oth ab (2 * k)" by auto
    from poll_at_idle [OF oth ab k(2)] have "poll (fst (at_poll oth (2 * k) ab)) = Some None"
      by (simp add: polled_at)
    moreover have "m div 2 = k" "m mod 2 = 1" "odd m" using k(1) by simp_all
    ultimately show ?thesis using nt c' unfolding k(1)
      by (simp add: polled_at port_queue_Some takes_at_def) (simp add: polled_def port_queue_Some)
  qed
qed

lemma of_nat_le_u32: "j \<le> unat (t :: u32) \<Longrightarrow> (of_nat j :: u32) \<le> t"
  by (metis le_unat_uoi order_refl word_le_nat_alt)

end
