(* ===== verification/Mailbox.thy ===== *)
theory Mailbox
  imports Chan
begin

text \<open>
  The mailbox of \<open>host/concur/fx_mailbox.c\<close>: a struct around a channel, with its own NULL
  check and status codes of its own.
\<close>

definition FX_MB_OK :: int where "FX_MB_OK = 0"
definition FX_MB_ERR :: int where "FX_MB_ERR = 1"
definition FX_MB_CLOSED :: int where "FX_MB_CLOSED = 7"

record FxMailbox =
  mb_ch :: "FxChan option"

definition fx_mb_create :: "bool \<Rightarrow> bool \<Rightarrow> bool \<Rightarrow> bool \<Rightarrow> i32 \<Rightarrow> FxMailbox option" where
  "fx_mb_create calloc_m calloc_c calloc_buf mutex_ok capacity =
     (if \<not> calloc_m then None
      else case fx_chan_create calloc_c calloc_buf mutex_ok capacity of
          None \<Rightarrow> None
        | Some c \<Rightarrow> Some \<lparr>mb_ch = Some c\<rparr>)"

definition fx_mb_send :: "FxMailbox option \<Rightarrow> i32 \<Rightarrow> (int + cs_end) option" where
  "fx_mb_send m v = (case m of None \<Rightarrow> Some (Inl FX_MB_ERR) | Some b \<Rightarrow> fx_chan_send (mb_ch b) v)"

definition fx_mb_recv :: "FxMailbox option \<Rightarrow> bool \<Rightarrow> ((int + cs_end) \<times> i32 option) option" where
  "fx_mb_recv m out_ptr =
     (case m of None \<Rightarrow> Some (Inl FX_MB_ERR, None) | Some b \<Rightarrow> fx_chan_recv (mb_ch b) out_ptr)"

definition fx_mb_close :: "FxMailbox option \<Rightarrow> (int + cs_end) option" where
  "fx_mb_close m = (case m of None \<Rightarrow> Some (Inl FX_MB_ERR) | Some b \<Rightarrow> fx_chan_close (mb_ch b))"

text \<open>The statuses are the channel's, so its results can be passed on as they are.\<close>

lemma mb_codes: "FX_MB_OK = FX_CHAN_OK" "FX_MB_ERR = FX_CHAN_ERR" "FX_MB_CLOSED = FX_CHAN_CLOSED"
  by (simp_all add: FX_MB_OK_def FX_MB_ERR_def FX_MB_CLOSED_def chan_codes)

end
