(* ===== verification/ChanTheorems.thy ===== *)
theory ChanTheorems
  imports Select Mailbox
begin

text \<open>
  The properties of the channel, the mailbox and the wait on two channels: a bounded queue
  under any interleaving without lost wake-ups, the delivery of what was sent, and when a
  wait returns.
\<close>

section \<open>The channel\<close>

lemma sys_step_static:
  "sys_step s s' \<Longrightarrow> chan_ok (sy_chan s) \<Longrightarrow>
     ch_cap (sy_chan s') = ch_cap (sy_chan s) \<and> (ch_closed (sy_chan s) \<longrightarrow> ch_closed (sy_chan s'))"
proof (induction rule: sys_step.induct)
  case (send_returns v s st out c wk s')
  from send_returns.prems show ?case
    by (cases rule: send_cs_cases [where v = v]) (use send_returns wakes_same(1) in auto)
next
  case (recv_returns s st out c wk s')
  from recv_returns.prems show ?case
    by (cases rule: recv_cs_cases) (use recv_returns wakes_same(1) in auto)
next
  case (try_recv_returns s st out c wk s')
  from try_recv_returns.prems show ?case
    by (cases rule: recv_cs_cases) (use try_recv_returns wakes_same(1) in auto)
next
  case (close_returns s st out c wk s')
  then have "sy_chan s' = sy_chan s\<lparr>ch_closed := True\<rparr>"
    using wakes_same(1) [OF close_returns(2)] by (simp add: close_cs_def)
  then show ?case by simp
qed auto

lemma sys_reach_cap:
  "sys_reach c s \<Longrightarrow> chan_ok c \<Longrightarrow> chan_queue c = [] \<Longrightarrow> ch_cap (sy_chan s) = ch_cap c"
proof (induction rule: sys_reach.induct)
  case (reach_step s s')
  then show ?case using sys_step_static inv_chan_ok [OF sys_reach_inv] by metis
qed (simp add: sys_init_def)

text \<open>
  C8: The channel is a bounded queue under any interleaving. For a capacity of at most 2^30,
  however many threads send, receive, poll and close, in any order and with any wake-ups, what
  the senders have put in with status OK is exactly what the receivers have got, in the same order, followed by what
  is in the buffer, and the buffer never holds more than the capacity.
\<close>

theorem chan_fifo:
  assumes "fx_chan_create a b m capacity = Some c" and "sint capacity \<le> 2 ^ 30" and "sys_reach c s"
  shows "sy_sent s = sy_got s @ chan_queue (sy_chan s) \<and>
     int (length (chan_queue (sy_chan s))) \<le> max 1 (sint capacity)"
proof -
  note c = create_ok [OF assms(1,2)]
  have inv: "sys_inv s" using sys_reach_inv [OF assms(3) c(1,2)] .
  have "chan_ok (sy_chan s)" "ch_cap (sy_chan s) = ch_cap c"
    using inv_chan_ok [OF inv] sys_reach_cap [OF assms(3) c(1,2)] by simp_all
  with inv c(4) show ?thesis by (auto simp: sys_inv_def ring.history_def chan_ok_def)
qed

text \<open>A concrete system: a channel of capacity 1, one element sent and a second sender blocked.\<close>

definition demo_chan :: FxChan where
  "demo_chan = \<lparr>ch_buf = [0], ch_cap = 1, ch_len = 0, ch_head = 0, ch_closed = False\<rparr>"

definition full_chan :: FxChan where
  "full_chan = \<lparr>ch_buf = [7], ch_cap = 1, ch_len = 1, ch_head = 0, ch_closed = False\<rparr>"

definition demo_sys :: csys where
  "demo_sys = \<lparr>sy_chan = full_chan, sy_ready_send = {#}, sy_blocked_send = {#8#},
     sy_ready_recv = 0, sy_blocked_recv = 0, sy_sent = [7], sy_got = []\<rparr>"

lemma demo_chan_created: "fx_chan_create True True True 1 = Some demo_chan"
  by (simp add: fx_chan_create_def demo_chan_def)

lemma demo_sys_reach: "sys_reach demo_chan demo_sys"
proof -
  let ?s1 = "sys_init demo_chan\<lparr>sy_ready_send := {#7#}\<rparr>"
  let ?s2 = "sys_init demo_chan\<lparr>sy_chan := full_chan, sy_sent := [7]\<rparr>"
  let ?s3 = "?s2\<lparr>sy_ready_send := {#8#}\<rparr>"
  have "sys_step (sys_init demo_chan) ?s1"
    using call_send [of "sys_init demo_chan" 7] by (simp add: sys_init_def)
  then have 1: "sys_reach demo_chan ?s1" by (rule reach_step [OF reach_init])
  have "send_cs demo_chan 7 = Some (Ret FX_CHAN_OK None full_chan SignalNotEmpty)"
    by (simp add: send_cs_def put_tail_def demo_chan_def full_chan_def int_add_def int_mod_def
        INT_MAX_def aset_def)
  then have "sys_step ?s1 ?s2"
    by (intro send_returns [where v = 7]) (auto simp: sys_init_def wakes_def)
  then have 2: "sys_reach demo_chan ?s2" by (rule reach_step [OF 1])
  have "sys_step ?s2 ?s3" using call_send [of ?s2 8] by (simp add: sys_init_def)
  then have 3: "sys_reach demo_chan ?s3" by (rule reach_step [OF 2])
  have "send_cs full_chan 8 = Some Wait" by (simp add: send_cs_def full_chan_def)
  then have "sys_step ?s3 demo_sys"
    using send_waits [of 8 ?s3] by (simp add: sys_init_def demo_sys_def)
  then show ?thesis by (rule reach_step [OF 3])
qed

theorem chan_fifo_witness:
  "sy_sent demo_sys = sy_got demo_sys @ chan_queue (sy_chan demo_sys)"
  using chan_fifo [OF demo_chan_created _ demo_sys_reach] by simp

text \<open>
  C7: No wake-up is lost. In every reachable state of any number of threads on a channel of a
  capacity of at most 2^30: after a close
  nobody is blocked; if a sender is blocked and no sender is about to run, the buffer is full;
  if a receiver is blocked and no receiver is about to run, the buffer is empty. So blocked
  threads of both kinds always have a runnable one between them.
\<close>

theorem chan_no_lost_wakeup:
  assumes "fx_chan_create a b m capacity = Some c" and "sint capacity \<le> 2 ^ 30" and "sys_reach c s"
  shows "(ch_closed (sy_chan s) \<longrightarrow> sy_blocked_send s = {#} \<and> sy_blocked_recv s = 0) \<and>
     (sy_blocked_send s \<noteq> {#} \<and> sy_ready_send s = {#} \<longrightarrow>
        int (length (chan_queue (sy_chan s))) = max 1 (sint capacity)) \<and>
     (0 < sy_blocked_recv s \<and> sy_ready_recv s = 0 \<longrightarrow> chan_queue (sy_chan s) = []) \<and>
     (sy_blocked_send s \<noteq> {#} \<and> 0 < sy_blocked_recv s \<longrightarrow> sy_ready_send s \<noteq> {#} \<or> 0 < sy_ready_recv s)"
proof -
  note c = create_ok [OF assms(1,2)]
  have inv: "sys_inv s" using sys_reach_inv [OF assms(3) c(1,2)] .
  have ok: "chan_ok (sy_chan s)" and cap: "ch_cap (sy_chan s) = max 1 (sint capacity)"
    using inv_chan_ok [OF inv] sys_reach_cap [OF assms(3) c(1,2)] c(4) by simp_all
  have len: "int (length (chan_queue (sy_chan s))) = ch_len (sy_chan s)" using ok by (simp add: chan_ok_def)
  have "chan_queue (sy_chan s) = [] \<longleftrightarrow> ch_len (sy_chan s) = 0" using len by (cases "chan_queue (sy_chan s)") auto
  with inv ok cap len show ?thesis by (auto simp: sys_inv_def chan_ok_def)
qed

theorem chan_no_lost_wakeup_witness:
  "int (length (chan_queue (sy_chan demo_sys))) = 1"
  using chan_no_lost_wakeup [OF demo_chan_created _ demo_sys_reach] by (simp add: demo_sys_def)

text \<open>
  C35: Every critical section returns and does what the queue says. In every reachable state of
  a channel of capacity at most 2^30 a send is refused as closed, waits on a full buffer, or
  appends its value; a receive and a poll deliver the oldest element, closed or not, and on an empty buffer report the close,
  wait, or report emptiness. No section indexes outside the buffer or overflows an int. The create
  accepts larger capacities, and with those a send can overflow, as \<open>chan_index_overflow\<close> shows.
\<close>

theorem chan_sections_return:
  assumes "fx_chan_create a b m capacity = Some c" and "sint capacity \<le> 2 ^ 30" and "sys_reach c s"
  shows "(if ch_closed (sy_chan s) then send_cs (sy_chan s) v = Some (Ret FX_CHAN_CLOSED None (sy_chan s) WakeNone)
      else if int (length (chan_queue (sy_chan s))) = max 1 (sint capacity) then send_cs (sy_chan s) v = Some Wait
      else \<exists>c'. send_cs (sy_chan s) v = Some (Ret FX_CHAN_OK None c' SignalNotEmpty) \<and>
        chan_queue c' = chan_queue (sy_chan s) @ [v]) \<and>
     (case chan_queue (sy_chan s) of
        x # xs \<Rightarrow> \<exists>c'. recv_cs (sy_chan s) = Some (Ret FX_CHAN_OK (Some x) c' SignalNotFull) \<and>
          try_recv_cs (sy_chan s) = recv_cs (sy_chan s) \<and> chan_queue c' = xs
      | [] \<Rightarrow> recv_cs (sy_chan s) = Some (if ch_closed (sy_chan s)
            then Ret FX_CHAN_CLOSED None (sy_chan s) WakeNone else Wait) \<and>
          try_recv_cs (sy_chan s) = Some (Ret (if ch_closed (sy_chan s) then FX_CHAN_CLOSED
            else FX_CHAN_EMPTY) None (sy_chan s) WakeNone))"
proof (rule conjI)
  note c = create_ok [OF assms(1,2)]
  have inv: "sys_inv s" using sys_reach_inv [OF assms(3) c(1,2)] .
  have ok: "chan_ok (sy_chan s)" and cap: "ch_cap (sy_chan s) = max 1 (sint capacity)"
    using inv_chan_ok [OF inv] sys_reach_cap [OF assms(3) c(1,2)] c(4) by simp_all
  have len: "int (length (chan_queue (sy_chan s))) = ch_len (sy_chan s)" using ok by (simp add: chan_ok_def)
  from ok show "if ch_closed (sy_chan s) then send_cs (sy_chan s) v = Some (Ret FX_CHAN_CLOSED None (sy_chan s) WakeNone)
      else if int (length (chan_queue (sy_chan s))) = max 1 (sint capacity) then send_cs (sy_chan s) v = Some Wait
      else \<exists>c'. send_cs (sy_chan s) v = Some (Ret FX_CHAN_OK None c' SignalNotEmpty) \<and>
        chan_queue c' = chan_queue (sy_chan s) @ [v]"
  proof (cases rule: send_cs_cases [where v = v])
    case (put c')
    with put_tail_ok [OF ok put(2), of v] len cap show ?thesis by auto
  qed (use len cap in auto)
  from ok show "case chan_queue (sy_chan s) of
        x # xs \<Rightarrow> \<exists>c'. recv_cs (sy_chan s) = Some (Ret FX_CHAN_OK (Some x) c' SignalNotFull) \<and>
          try_recv_cs (sy_chan s) = recv_cs (sy_chan s) \<and> chan_queue c' = xs
      | [] \<Rightarrow> recv_cs (sy_chan s) = Some (if ch_closed (sy_chan s)
            then Ret FX_CHAN_CLOSED None (sy_chan s) WakeNone else Wait) \<and>
          try_recv_cs (sy_chan s) = Some (Ret (if ch_closed (sy_chan s) then FX_CHAN_CLOSED
            else FX_CHAN_EMPTY) None (sy_chan s) WakeNone)"
  proof (cases rule: recv_cs_cases)
    case closed
    moreover from closed(2) have "chan_queue (sy_chan s) = []" by (simp add: chan_queue_def)
    ultimately show ?thesis by simp
  next
    case empty
    moreover from empty(2) have "chan_queue (sy_chan s) = []" by (simp add: chan_queue_def)
    ultimately show ?thesis by simp
  next
    case (got v c')
    with take_head_ok [OF ok got(1)] have "chan_queue (sy_chan s) = v # chan_queue c'" by auto
    with got show ?thesis by simp
  qed
qed

theorem chan_sections_return_witness:
  "\<exists>c'. recv_cs (sy_chan demo_sys) = Some (Ret FX_CHAN_OK (Some 7) c' SignalNotFull) \<and> chan_queue c' = []"
proof -
  have "chan_queue (sy_chan demo_sys) = [7]"
    by (simp add: demo_sys_def full_chan_def chan_queue_def slot_def)
  with chan_sections_return [OF demo_chan_created _ demo_sys_reach, of 0] show ?thesis by auto
qed

text \<open>
  The index overflows in a huge channel. The index of the next free slot is computed as
  \<open>head + len\<close> in an \<open>int\<close>, so in a channel of more than 2^30 + 1 elements, which
  \<open>fx_chan_create\<close> accepts, there are states with room for an element in which a send
  overflows: undefined behaviour.
\<close>

theorem chan_index_overflow:
  assumes "2 ^ 30 + 1 < n" and "n \<le> INT_MAX"
  shows "send_cs \<lparr>ch_buf = replicate (nat n) 0, ch_cap = n, ch_len = n - 1, ch_head = n - 1,
     ch_closed = False\<rparr> v = None"
  using assms by (simp add: send_cs_def put_tail_def int_add_def INT_MAX_def)

theorem chan_index_overflow_witness:
  "send_cs \<lparr>ch_buf = replicate (nat INT_MAX) 0, ch_cap = INT_MAX, ch_len = INT_MAX - 1,
     ch_head = INT_MAX - 1, ch_closed = False\<rparr> 5 = None"
  by (rule chan_index_overflow) (simp_all add: INT_MAX_def)

section \<open>The mailbox\<close>

lemma unat_u32: "unat (x :: u32) < 4294967296"
proof -
  have "unat x < 2 ^ LENGTH(32)" by (rule unsigned_less)
  then show ?thesis by simp
qed

text \<open>
  A mailbox delivers what was sent. What \<open>fx_mb_send\<close> puts into an empty open mailbox,
  negative numbers included, is what the next \<open>fx_mb_recv\<close> stores: widening to 64 bits and
  truncating back lose nothing.
\<close>

theorem mailbox_roundtrip:
  assumes "chan_ok c" and "chan_queue c = []" and "\<not> ch_closed c"
  shows "\<exists>c1 c2. fx_mb_send (Some \<lparr>mb_ch = Some c\<rparr>) v = Some (Inr (Ret FX_MB_OK None c1 SignalNotEmpty)) \<and>
     fx_mb_recv (Some \<lparr>mb_ch = Some c1\<rparr>) True =
       Some (Inr (Ret FX_MB_OK (Some (widen_i32 v)) c2 SignalNotFull), Some v) \<and>
     chan_ok c2 \<and> chan_queue c2 = []"
proof -
  have "ch_len c = 0"
    using assms(1,2) chan_queue_length [of c] by (simp add: chan_ok_def)
  then have room: "ch_len c < ch_cap c" using assms(1) by (simp add: chan_ok_def)
  from put_tail_ok [OF assms(1) this, of "widen_i32 v"] obtain c1 where c1:
    "put_tail c (widen_i32 v) = Some c1" "chan_ok c1" "chan_queue c1 = [widen_i32 v]" "ch_len c1 = 1"
    using assms(2) \<open>ch_len c = 0\<close> by auto
  from take_head_ok [OF c1(2)] c1(3,4) obtain c2 where c2:
    "take_head c1 = Some (widen_i32 v, c2)" "chan_ok c2" "chan_queue c2 = []" by auto
  have "send_cs c (widen_i32 v) = Some (Ret FX_CHAN_OK None c1 SignalNotEmpty)"
    using assms(3) room c1(1) by (simp add: send_cs_def)
  moreover have "recv_cs c1 = Some (Ret FX_CHAN_OK (Some (widen_i32 v)) c2 SignalNotFull)"
    using c1(4) c2(1) by (simp add: recv_cs_def)
  ultimately show ?thesis
    using c2(2,3) by (simp add: fx_mb_send_def fx_mb_recv_def fx_chan_send_def fx_chan_send_i64_def
      fx_chan_recv_def fx_chan_recv_i64_def on_chan_def out_i32_def narrow_widen mb_codes)
qed

theorem mailbox_roundtrip_witness:
  "\<exists>c1. fx_mb_send (Some \<lparr>mb_ch = Some demo_chan\<rparr>) (- 3) = Some (Inr (Ret FX_MB_OK None c1 SignalNotEmpty)) \<and>
     (\<exists>r. fx_mb_recv (Some \<lparr>mb_ch = Some c1\<rparr>) True = Some (r, Some (- 3)))"
proof -
  have "chan_ok demo_chan" "chan_queue demo_chan = []" "\<not> ch_closed demo_chan"
    by (simp_all add: demo_chan_def chan_ok_def chan_queue_def)
  from mailbox_roundtrip [OF this, of "- 3"] show ?thesis by blast
qed

section \<open>Waiting on two channels\<close>

text \<open>
  C36: Select takes from the first poll that finds something. Other threads may act between any
  two polls, also between those of one round. If poll \<open>m\<close>, of a round at most the timeout, is the first
  that finds an element in the channel it looks at, the call returns OK after one sleep for each
  round before, with the oldest element of that channel, which is the first one for an even \<open>m\<close>
  and the second for an odd one, and leaves the other channel as it is then.
\<close>

theorem select_takes_first_ready:
  assumes "\<forall>k ab. pair_ok ab \<longrightarrow> pair_ok (others k ab)" and "pair_ok ab"
    and "m div 2 \<le> unat t" and "m div 2 < fuel"
    and "\<forall>j < m. port_queue (polled j (at_poll others j ab)) = []"
    and "at_poll others m ab = now" and "port_queue (polled m now) \<noteq> []"
  shows "\<exists>r. fx_select_recv2 fuel others True True t ab = Some r \<and> sel_status r = FX_SEL_OK \<and>
     sel_sleeps r = m div 2 \<and> sel_which r = Some (m mod 2) \<and>
     sel_out r = Some (narrow_i64 (hd (port_queue (polled m now)))) \<and>
     port_queue (polled m (sel_chans r)) = tl (port_queue (polled m now)) \<and>
     polled (m + 1) (sel_chans r) = polled (m + 1) now"
proof -
  let ?k = "m div 2"
  have idle: "\<forall>j < m. \<not> finds others ab j" using assms(5) by (simp add: finds_def)
  have hit: "finds others ab m" using assms(6,7) by (simp add: finds_def)
  obtain f where f: "fuel = Suc f + ?k" using assms(4) by (metis add.commute less_iff_Suc_add add_Suc_right)
  have skip: "select_loop fuel others t 0 0 ab = select_loop (Suc f) others t (of_nat ?k) ?k (at_poll others (2 * ?k) ab)"
  proof (cases "?k = 0")
    case False
    then have "t \<noteq> 0" using assms(3) by auto
    moreover have "\<forall>j < 2 * ?k. \<not> finds others ab j" using idle by auto
    ultimately show ?thesis unfolding f
      using assms(3) by (intro select_skip [OF assms(1,2)]) (auto intro: of_nat_le_u32)
  qed (simp add: f)
  have m: "m = 2 * ?k \<or> m = Suc (2 * ?k)" by presburger
  with idle have "\<not> finds others ab (2 * ?k) \<or> m = 2 * ?k" by (metis lessI)
  from select_hit [OF assms(1,2) hit this m of_nat_le_u32 [OF assms(3)]] obtain r where
    "select_loop (Suc f) others t (of_nat ?k) ?k (at_poll others (2 * ?k) ab) = Some r" "takes_at m now r"
    unfolding assms(6) by blast
  then show ?thesis by (simp add: fx_select_recv2_def skip takes_at_def)
qed

theorem select_takes_first_ready_witness:
  "\<exists>r. fx_select_recv2 3 (\<lambda>_ ab. (fst ab, Some full_chan)) True True 5 (None, None) = Some r \<and>
     sel_out r = Some 7 \<and> sel_which r = Some 1 \<and> sel_sleeps r = 0"
proof -
  let ?o = "\<lambda>(_ :: nat) ab :: chan_pair. (fst ab, Some full_chan)"
  have q: "port_queue (Some full_chan) = [7]" "chan_ok full_chan"
    by (simp_all add: port_queue_def full_chan_def chan_queue_def slot_def chan_ok_def)
  have "\<forall>k ab. pair_ok ab \<longrightarrow> pair_ok (?o k ab)" using q(2) by (simp add: pair_ok_def port_ok_def)
  from select_takes_first_ready [OF this, of "(None, None)" 1 5 3] q show ?thesis
    by (auto simp: pair_ok_def port_ok_def polled_def port_queue_def [of None] narrow_i64_def)
qed

text \<open>
  C37: Select returns within its timeout. For every timeout below the largest 32-bit value, if
  no poll of the rounds up to the timeout finds an element, the call returns TIMEOUT: for a zero timeout
  after one round and no sleep, otherwise having slept once per millisecond of the timeout and
  once more.
\<close>

theorem select_times_out:
  assumes "\<forall>k ab. pair_ok ab \<longrightarrow> pair_ok (others k ab)" and "pair_ok ab"
    and "t \<noteq> - 1" and "unat t + 1 < fuel"
    and "\<forall>j < 2 * (unat t + 1). port_queue (polled j (at_poll others j ab)) = []"
  shows "\<exists>r. fx_select_recv2 fuel others True True t ab = Some r \<and> sel_status r = FX_SEL_TIMEOUT \<and>
     sel_out r = None \<and> sel_sleeps r = (if t = 0 then 0 else unat t + 1)"
proof (cases "t = 0")
  case True
  obtain f where "fuel = Suc f" using assms(4) by (cases fuel) auto
  moreover have "\<not> finds others ab 0" "\<not> finds others ab 1"
    using assms(5) [rule_format, of 0] assms(5) [rule_format, of 1] True by (simp_all add: finds_def)
  note this [THEN poll_at_idle [OF assms(1,2)]]
  ultimately show ?thesis using True by (simp add: fx_select_recv2_def polled_def)
next
  case False
  obtain f where f: "fuel = Suc f + (unat t + 1)"
    using assms(4) by (metis add.commute less_iff_Suc_add add_Suc_right)
  have skip: "select_loop fuel others t 0 0 ab = select_loop (Suc f) others t (of_nat (unat t + 1))
      (unat t + 1) (at_poll others (2 * (unat t + 1)) ab)"
    unfolding f using assms(5)
    by (intro select_skip [OF assms(1,2) False]) (auto intro: of_nat_le_u32 simp: finds_def)
  have "unat t \<noteq> 2 ^ 32 - 1"
    using assms(3) by (auto simp: word_unat_eq_iff unsigned_minus_1_eq_mask mask_eq_exp_minus_1)
  then have "unat t + 1 < 2 ^ 32" using unat_u32 [of t] by simp
  then have "t < t + 1" by (simp add: word_less_nat_alt unat_word_ariths)
  then have "t < of_nat (unat t + 1)" by (simp add: add.commute)
  then show ?thesis using False by (simp add: fx_select_recv2_def skip del: of_nat_add)
qed

lemma at_poll_still: "at_poll (\<lambda>_ ab. ab) j ab = ab"
  by (induction j) simp_all

theorem select_times_out_witness:
  "\<exists>r. fx_select_recv2 9 (\<lambda>_ ab. ab) True True 2 (Some demo_chan, None) = Some r \<and>
     sel_status r = FX_SEL_TIMEOUT \<and> sel_sleeps r = 3"
proof -
  have q: "chan_queue demo_chan = []" "chan_ok demo_chan"
    by (simp_all add: demo_chan_def chan_queue_def chan_ok_def)
  from select_times_out [of "\<lambda>_ ab. ab" "(Some demo_chan, None)" 2 9] q show ?thesis
    by (auto simp: at_poll_still polled_def pair_ok_def port_ok_def port_queue_def)
qed

text \<open>
  The largest timeout never expires. With \<open>timeout_ms\<close> 0xFFFFFFFF the round counter
  wraps to 0 before it can exceed the timeout: while no poll finds an element the loop has
  not returned after any number of rounds.
\<close>

theorem select_max_timeout_never_expires:
  assumes "\<forall>k ab. pair_ok ab \<longrightarrow> pair_ok (others k ab)" and "pair_ok ab"
    and "\<forall>j. port_queue (polled j (at_poll others j ab)) = []"
  shows "fx_select_recv2 fuel others True True 0xFFFFFFFF ab = None"
proof -
  have top: "x \<le> 0xFFFFFFFF" for x :: u32 using unat_u32 [of x] by (simp add: word_le_nat_alt)
  have "select_loop (0 + fuel) others 0xFFFFFFFF 0 0 ab =
      select_loop 0 others 0xFFFFFFFF (of_nat fuel) fuel (at_poll others (2 * fuel) ab)"
    using assms(3) top by (intro select_skip [OF assms(1,2)]) (simp_all add: finds_def)
  then show ?thesis by (simp add: fx_select_recv2_def)
qed

theorem select_max_timeout_never_expires_witness:
  "fx_select_recv2 1000 (\<lambda>_ ab. ab) True True 0xFFFFFFFF (None, None) = None"
  by (rule select_max_timeout_never_expires)
    (simp_all add: at_poll_still polled_def port_queue_def pair_ok_def port_ok_def)

end
