(* ===== verification/ChanDestroy.thy ===== *)
theory ChanDestroy
  imports ChanTheorems
begin

text \<open>
  Creating and freeing a channel (\<open>host/concur/fx_chan.c\<close>) and a mailbox
  (\<open>host/concur/fx_mailbox.c\<close>) in memory. A channel is two blocks, the struct and its buffer, a
  mailbox a third one. Neither destroy looks at who is still inside: to destroy a mutex or a
  condition variable somebody holds or waits for, and to free a buffer somebody is about to
  index, is undefined behaviour, and so is any use of a block after it was freed. A close
  makes the destroy safe in the end: every thread inside then leaves by itself.
\<close>

section \<open>The code\<close>

text \<open>The threads between the entry and the exit of a send or a receive.\<close>

definition inside :: "csys \<Rightarrow> nat" where
  "inside s = size (sy_ready_send s) + size (sy_blocked_send s) + sy_ready_recv s + sy_blocked_recv s"

text \<open>
  What an address holds: zeroed memory, a channel with the address of its buffer, its state and
  the threads on it, a buffer (its contents are in the state), or a mailbox with the
  address of its channel.
\<close>

datatype block = Zeroed | ChanBlock addr csys | BufBlock | MbBlock addr

type_synonym memory = "addr \<rightharpoonup> block"

definition mem_free :: "addr \<Rightarrow> memory \<Rightarrow> memory option" where
  "mem_free a mem = (if a = 0 then Some mem else if mem a = None then None else Some (mem(a := None)))"

text \<open>
  The creates. \<open>p\<close>, \<open>q\<close> and \<open>m\<close> are what the allocator answers for the struct, the buffer and the
  mailbox, 0 when it has nothing; a failure further on frees what was allocated before it.
\<close>

definition chan_new :: "addr \<Rightarrow> addr \<Rightarrow> bool \<Rightarrow> i32 \<Rightarrow> memory \<Rightarrow> (addr \<times> memory) option" where
  "chan_new p q mutex_ok capacity mem =
     (if p = 0 then Some (0, mem)
      else let mem = mem(p \<mapsto> Zeroed) in
        if q = 0 then do { mem \<leftarrow> mem_free p mem; Some (0, mem) }
        else let mem = mem(q \<mapsto> BufBlock) in
          case fx_chan_create True True mutex_ok capacity of
            None \<Rightarrow> do { mem \<leftarrow> mem_free q mem; mem \<leftarrow> mem_free p mem; Some (0, mem) }
          | Some c \<Rightarrow> Some (p, mem(p \<mapsto> ChanBlock q (sys_init c))))"

definition mb_new :: "addr \<Rightarrow> addr \<Rightarrow> addr \<Rightarrow> bool \<Rightarrow> i32 \<Rightarrow> memory \<Rightarrow> (addr \<times> memory) option" where
  "mb_new m p q mutex_ok capacity mem =
     (if m = 0 then Some (0, mem)
      else do {
        (ch, mem) \<leftarrow> chan_new p q mutex_ok capacity (mem(m \<mapsto> Zeroed));
        if ch = 0 then do { mem \<leftarrow> mem_free m mem; Some (0, mem) }
        else Some (m, mem(m \<mapsto> MbBlock ch)) })"

text \<open>
  The channel behind a pointer, for every other call: NULL, or the state. The pointer of a freed
  channel, and a channel without its buffer, are undefined.
\<close>

definition chan_ref :: "addr \<Rightarrow> memory \<Rightarrow> FxChan option option" where
  "chan_ref p mem =
     (if p = 0 then Some None
      else case mem p of
        Some (ChanBlock q s) \<Rightarrow> if mem q = Some BufBlock then Some (Some (sy_chan s)) else None
      | _ \<Rightarrow> None)"

text \<open>The destroys; NULL is let through.\<close>

definition fx_chan_destroy :: "addr \<Rightarrow> memory \<Rightarrow> memory option" where
  "fx_chan_destroy p mem =
     (if p = 0 then Some mem
      else case mem p of
        Some (ChanBlock q s) \<Rightarrow>
          if inside s \<noteq> 0 then None
          else do { mem \<leftarrow> mem_free q mem; mem_free p mem }
      | _ \<Rightarrow> None)"

definition fx_mb_destroy :: "addr \<Rightarrow> memory \<Rightarrow> memory option" where
  "fx_mb_destroy m mem =
     (if m = 0 then Some mem
      else case mem m of
        Some (MbBlock ch) \<Rightarrow> do { mem \<leftarrow> fx_chan_destroy ch mem; mem_free m mem }
      | _ \<Rightarrow> None)"

text \<open>A step of the threads on the channel at \<open>p\<close>; it needs both blocks.\<close>

inductive mem_step :: "addr \<Rightarrow> memory \<Rightarrow> memory \<Rightarrow> bool" for p where
  mem_step: "mem p = Some (ChanBlock q s) \<Longrightarrow> mem q = Some BufBlock \<Longrightarrow> sys_step s s' \<Longrightarrow>
    mem_step p mem (mem(p \<mapsto> ChanBlock q s'))"

section \<open>A closed channel empties\<close>

lemma closed_serves:
  assumes inv: "sys_inv s" and cl: "ch_closed (sy_chan s)" and "inside s \<noteq> 0"
  obtains s' where "sys_step s s'" "inside s = Suc (inside s')" "ch_closed (sy_chan s')" "sy_sent s' = sy_sent s"
proof -
  have none: "sy_blocked_send s = {#}" "sy_blocked_recv s = 0" using inv cl by (auto simp: sys_inv_def)
  with assms(3) consider v where "v \<in># sy_ready_send s" | "0 < sy_ready_recv s"
    by (auto simp: inside_def)
  then show ?thesis
  proof cases
    case (1 v)
    let ?s = "s\<lparr>sy_chan := sy_chan s, sy_ready_send := sy_ready_send s - {#v#}, sy_sent := sy_sent s @ []\<rparr>"
    from inv_chan_ok [OF inv] have "sys_step s ?s"
      by (cases rule: send_cs_cases [where v = v])
        (use cl in \<open>auto intro!: send_returns [OF 1, where st = FX_CHAN_CLOSED and wk = WakeNone] simp: wakes_def\<close>)
    moreover have "size (sy_ready_send s) = Suc (size (sy_ready_send ?s))" using 1 by (simp add: size_Suc_Diff1)
    ultimately show ?thesis using that [of ?s] cl by (simp add: inside_def)
  next
    case 2
    obtain st out c wk where r: "recv_cs (sy_chan s) = Some (Ret st out c wk)" "ch_closed c"
      using inv_chan_ok [OF inv] by (cases rule: recv_cs_cases) (use cl in auto)
    let ?s = "s\<lparr>sy_chan := c, sy_ready_recv := sy_ready_recv s - 1,
      sy_got := sy_got s @ (case out of None \<Rightarrow> [] | Some v \<Rightarrow> [v])\<rparr>"
    have "wakes wk ?s ?s" using none by (cases wk) (auto simp: wakes_def)
    from recv_returns [OF 2 r(1) this] have "sys_step s ?s" .
    then show ?thesis using that [of ?s] 2 r(2) by (simp add: inside_def)
  qed
qed

lemma closed_drains:
  assumes "sys_inv s" and "ch_closed (sy_chan s)"
  shows "\<exists>s'. sys_step\<^sup>*\<^sup>* s s' \<and> inside s' = 0 \<and> sy_sent s' = sy_sent s"
  using assms
proof (induction "inside s" arbitrary: s)
  case 0
  then show ?case by (intro exI [of _ s]) simp
next
  case (Suc n)
  from closed_serves [OF Suc.prems] Suc.hyps(2) obtain s1
    where s1: "sys_step s s1" "inside s = Suc (inside s1)" "ch_closed (sy_chan s1)" "sy_sent s1 = sy_sent s" by auto
  with Suc.hyps sys_inv_step [OF s1(1) Suc.prems(1)] obtain s'
    where "sys_step\<^sup>*\<^sup>* s1 s'" "inside s' = 0" "sy_sent s' = sy_sent s1" by fastforce
  with s1 show ?case by (metis converse_rtranclp_into_rtranclp)
qed

section \<open>Memory\<close>

lemma mem_free_new: "a \<noteq> 0 \<Longrightarrow> mem a = None \<Longrightarrow> mem_free a (mem(a \<mapsto> b)) = Some mem"
  by (simp add: mem_free_def fun_upd_idem)

text \<open>A failed create leaves the memory as it was.\<close>

lemma chan_new_failed:
  assumes "chan_new p q mutex_ok capacity mem = Some (0, mem')" and "mem p = None" and "mem q = None" and "p \<noteq> q"
  shows "mem' = mem"
proof (cases "p = 0 \<or> q = 0")
  case True
  then show ?thesis using assms by (auto simp: chan_new_def mem_free_new)
next
  case False
  then show ?thesis using assms
    by (cases "fx_chan_create True True mutex_ok capacity") (simp_all add: chan_new_def mem_free_new)
qed

lemma mb_new_failed:
  assumes "mb_new m p q mutex_ok capacity mem = Some (0, mem')" and "mem m = None" and "mem p = None" and "mem q = None"
    and "distinct [m, p, q]"
  shows "mem' = mem"
proof (cases "m = 0")
  case True
  then show ?thesis using assms(1) by (simp add: mb_new_def)
next
  case False
  with assms(1) obtain mem1 where "chan_new p q mutex_ok capacity (mem(m \<mapsto> Zeroed)) = Some (0, mem1)"
    "mem_free m mem1 = Some mem'" by (auto simp: mb_new_def bind_iff split: if_splits)
  with chan_new_failed [OF this(1)] assms(2-5) False show ?thesis by (auto simp: mem_free_def split: if_splits)
qed

text \<open>A create that succeeds adds its blocks; the steps of the threads change the state only.\<close>

lemma chan_new_made:
  assumes "chan_new p q mutex_ok capacity mem = Some (h, mem')" and "h \<noteq> 0" and "p \<noteq> q"
  obtains c where "fx_chan_create True True mutex_ok capacity = Some c" "p \<noteq> 0" "q \<noteq> 0" "h = p"
    "mem' = mem(q \<mapsto> BufBlock, p \<mapsto> ChanBlock q (sys_init c))"
proof -
  have pq: "p \<noteq> 0" "q \<noteq> 0" using assms(1,2) by (auto simp: chan_new_def bind_iff split: if_splits)
  show thesis
  proof (cases "fx_chan_create True True mutex_ok capacity")
    case None
    then show thesis using assms(1,2) pq by (auto simp: chan_new_def bind_iff)
  next
    case (Some c)
    with assms(1) pq have "h = p" "mem' = mem(p \<mapsto> Zeroed, q \<mapsto> BufBlock, p \<mapsto> ChanBlock q (sys_init c))"
      by (auto simp: chan_new_def)
    then show thesis using that [OF Some pq] assms(3) by (simp add: fun_upd_twist)
  qed
qed

lemma mb_new_made:
  assumes "mb_new m p q mutex_ok capacity mem = Some (h, mem')" and "h \<noteq> 0" and "distinct [m, p, q]"
  obtains c where "fx_chan_create True True mutex_ok capacity = Some c" "p \<noteq> 0" "q \<noteq> 0" "m \<noteq> 0" "h = m"
    "mem' = (mem(m \<mapsto> MbBlock p))(q \<mapsto> BufBlock, p \<mapsto> ChanBlock q (sys_init c))"
proof -
  from assms obtain ch mem1 where n: "m \<noteq> 0" "chan_new p q mutex_ok capacity (mem(m \<mapsto> Zeroed)) = Some (ch, mem1)"
    "ch \<noteq> 0" "h = m" "mem' = mem1(m \<mapsto> MbBlock ch)"
    by (auto simp: mb_new_def bind_iff split: if_splits)
  have pq: "p \<noteq> q" using assms(3) by simp
  from n(2,3) pq obtain c where c: "fx_chan_create True True mutex_ok capacity = Some c" "p \<noteq> 0" "q \<noteq> 0" "ch = p"
    "mem1 = (mem(m \<mapsto> Zeroed))(q \<mapsto> BufBlock, p \<mapsto> ChanBlock q (sys_init c))" by (rule chan_new_made)
  have "mem' = (mem(m \<mapsto> MbBlock p))(q \<mapsto> BufBlock, p \<mapsto> ChanBlock q (sys_init c))"
    using n(5) c(4,5) assms(3) by (auto simp: fun_eq_iff)
  then show ?thesis using that c n(1,4) by blast
qed

definition with_sys :: "addr \<Rightarrow> addr \<Rightarrow> csys \<Rightarrow> memory \<Rightarrow> memory" where
  "with_sys p q s mem = mem(q \<mapsto> BufBlock, p \<mapsto> ChanBlock q s)"

lemma mem_step_sys:
  assumes "mem_step p (with_sys p q s mem) mem'" and "p \<noteq> q"
  obtains s' where "sys_step s s'" "mem' = with_sys p q s' mem"
  using assms(1) by cases (use assms(2) that in \<open>auto simp: with_sys_def\<close>)

lemma mem_steps_sys:
  assumes "(mem_step p)\<^sup>*\<^sup>* (with_sys p q s mem) mem'" and "p \<noteq> q"
  shows "\<exists>s'. sys_step\<^sup>*\<^sup>* s s' \<and> mem' = with_sys p q s' mem"
  using assms(1)
proof (induction rule: rtranclp_induct)
  case (step y z)
  then obtain s' where "sys_step\<^sup>*\<^sup>* s s'" "y = with_sys p q s' mem" by blast
  with step(2) mem_step_sys [OF _ assms(2)] show ?case by (metis rtranclp.rtrancl_into_rtrancl)
qed blast

lemma sys_steps_mem:
  assumes "sys_step\<^sup>*\<^sup>* s s'" and "p \<noteq> q"
  shows "(mem_step p)\<^sup>*\<^sup>* (with_sys p q s mem) (with_sys p q s' mem)"
  using assms(1)
proof (induction rule: rtranclp_induct)
  case (step y z)
  have "mem_step p (with_sys p q y mem) ((with_sys p q y mem)(p \<mapsto> ChanBlock q z))"
    using step(2) assms(2) by (intro mem_step) (simp_all add: with_sys_def)
  with step(3) show ?case by (metis fun_upd_upd with_sys_def rtranclp.rtrancl_into_rtrancl)
qed blast

lemma sys_steps_reach: "sys_step\<^sup>*\<^sup>* s s' \<Longrightarrow> sys_reach c s \<Longrightarrow> sys_reach c s'"
  by (induction rule: rtranclp_induct) (auto intro: reach_step)

lemma sys_reach_steps: "sys_reach c s \<Longrightarrow> sys_step\<^sup>*\<^sup>* (sys_init c) s"
  by (induction rule: sys_reach.induct) auto

lemma destroy_with_sys:
  assumes "inside s = 0" and "p \<noteq> 0" and "q \<noteq> 0" and "p \<noteq> q" and "mem p = None" and "mem q = None"
  shows "fx_chan_destroy p (with_sys p q s mem) = Some mem"
    and "mem m = Some (MbBlock p) \<Longrightarrow> m \<noteq> 0 \<Longrightarrow> fx_mb_destroy m (with_sys p q s mem) = Some (mem(m := None))"
proof -
  show d: "fx_chan_destroy p (with_sys p q s mem) = Some mem"
    using assms by (auto simp: fx_chan_destroy_def with_sys_def mem_free_def)
  assume m: "mem m = Some (MbBlock p)" "m \<noteq> 0"
  then have "m \<noteq> p" "m \<noteq> q" using assms(5,6) by auto
  with m have "with_sys p q s mem m = Some (MbBlock p)" by (simp add: with_sys_def)
  with m d show "fx_mb_destroy m (with_sys p q s mem) = Some (mem(m := None))"
    by (simp add: fx_mb_destroy_def mem_free_def)
qed

text \<open>
  A channel at \<open>p\<close> in a memory \<open>mem0\<close> that held nothing there: its blocks stay, the threads
  inside a closed one can leave, and then the destroy gives \<open>mem0\<close> back.
\<close>

lemma made_drains:
  assumes "fx_chan_create True True mutex_ok capacity = Some c" and "sint capacity \<le> 2 ^ 30" and "p \<noteq> q"
    and "p \<noteq> 0" and "q \<noteq> 0" and "mem0 p = None" and "mem0 q = None"
    and "(mem_step p)\<^sup>*\<^sup>* (with_sys p q (sys_init c) mem0) mem" and "chan_ref p mem = Some (Some d)" and "ch_closed d"
  shows "(\<forall>v. send_cs d v = Some (Ret FX_CHAN_CLOSED None d WakeNone)) \<and>
    (\<exists>st out c' wk. recv_cs d = Some (Ret st out c' wk)) \<and>
    (\<exists>s s' mem'. mem p = Some (ChanBlock q s) \<and> (mem_step p)\<^sup>*\<^sup>* mem mem' \<and> mem' p = Some (ChanBlock q s') \<and>
       sy_sent s' = sy_sent s \<and> sy_sent s = sy_got s' @ chan_queue (sy_chan s') \<and> fx_chan_destroy p mem' = Some mem0 \<and>
       (\<forall>m. mem0 m = Some (MbBlock p) \<and> m \<noteq> 0 \<longrightarrow> fx_mb_destroy m mem' = Some (mem0(m := None))))"
proof -
  note c = create_ok [OF assms(1,2)]
  from mem_steps_sys [OF assms(8,3)] obtain s where s: "sys_step\<^sup>*\<^sup>* (sys_init c) s" "mem = with_sys p q s mem0" by blast
  have d: "d = sy_chan s" using assms(3,4,9) by (simp add: s(2) chan_ref_def with_sys_def)
  note inv = sys_reach_inv [OF sys_steps_reach [OF s(1) reach_init] c(1,2)]
  from closed_drains [OF inv] assms(10) d obtain s'
    where s': "sys_step\<^sup>*\<^sup>* s s'" "inside s' = 0" "sy_sent s' = sy_sent s" by auto
  from s'(1) inv have "sys_inv s'" by (induction rule: rtranclp_induct) (auto intro: sys_inv_step)
  then have hist: "sy_sent s' = sy_got s' @ chan_queue (sy_chan s')" by (simp add: sys_inv_def ring.history_def)
  have "\<forall>v. send_cs d v = Some (Ret FX_CHAN_CLOSED None d WakeNone)"
    using assms(10) by (simp add: send_cs_def)
  moreover have "\<exists>st out c' wk. recv_cs d = Some (Ret st out c' wk)" unfolding d
    using inv_chan_ok [OF inv] by (cases rule: recv_cs_cases) (use assms(10) d in auto)
  moreover have at: "with_sys p q s mem0 p = Some (ChanBlock q s)" for s by (simp add: with_sys_def)
  have "\<exists>s s' mem'. mem p = Some (ChanBlock q s) \<and> (mem_step p)\<^sup>*\<^sup>* mem mem' \<and> mem' p = Some (ChanBlock q s') \<and>
       sy_sent s' = sy_sent s \<and> sy_sent s = sy_got s' @ chan_queue (sy_chan s') \<and> fx_chan_destroy p mem' = Some mem0 \<and>
       (\<forall>m. mem0 m = Some (MbBlock p) \<and> m \<noteq> 0 \<longrightarrow> fx_mb_destroy m mem' = Some (mem0(m := None)))"
    using s' hist at destroy_with_sys [OF s'(2) assms(4,5,3,6,7)] sys_steps_mem [OF s'(1) assms(3), of mem0] unfolding s(2)
    by (intro exI [of _ s] exI [of _ s'] exI [of _ "with_sys p q s' mem0"]) simp
  ultimately show ?thesis by blast
qed

section \<open>The property\<close>

text \<open>
  C23: close, drain, destroy. Create a channel, alone or as a mailbox, in a memory that holds
  nothing at the addresses the allocator hands out, with a capacity of at most 2^30, and let any
  threads use it. Once it is closed no thread inside can wait any more: each sender is refused
  and each receiver gets an element or the close; the threads inside can all leave; nothing is
  sent on the way, and what has not been received is still in the buffer. Then the destroy
  frees every block of it and nothing else: the memory is the one before the create, in which a second
  destroy and every other call on the old pointer are undefined. While somebody is inside
  the destroy is undefined.
\<close>

theorem close_drain_destroy:
  assumes "chan_new p q mutex_ok capacity mem0 = Some (p, mem1) \<or> mb_new m p q mutex_ok capacity mem0 = Some (m, mem1)"
    and "mem0 p = None" and "mem0 q = None" and "mem0 m = None" and "distinct [0, m, p, q]" and "sint capacity \<le> 2 ^ 30"
    and "(mem_step p)\<^sup>*\<^sup>* mem1 mem" and "chan_ref p mem = Some (Some c)" and "ch_closed c"
  shows "(\<forall>v. send_cs c v = Some (Ret FX_CHAN_CLOSED None c WakeNone)) \<and>
    (\<exists>st out c' wk. recv_cs c = Some (Ret st out c' wk)) \<and>
    (\<exists>s s' mem'. mem p = Some (ChanBlock q s) \<and> (mem_step p)\<^sup>*\<^sup>* mem mem' \<and> mem' p = Some (ChanBlock q s') \<and>
       sy_sent s' = sy_sent s \<and> sy_sent s = sy_got s' @ chan_queue (sy_chan s') \<and>
       (inside s \<noteq> 0 \<longrightarrow> fx_chan_destroy p mem = None) \<and>
       (if mem1 m = None then fx_chan_destroy p mem' = Some mem0 else fx_mb_destroy m mem' = Some mem0)) \<and>
    fx_chan_destroy p mem0 = None \<and> fx_mb_destroy m mem0 = None \<and> chan_ref p mem0 = None"
proof -
  have ne: "p \<noteq> 0" "q \<noteq> 0" "m \<noteq> 0" "p \<noteq> q" "m \<noteq> p" "m \<noteq> q" using assms(5) by auto
  obtain d rest where d: "fx_chan_create True True mutex_ok capacity = Some d" "mem1 = with_sys p q (sys_init d) rest"
    "rest p = None" "rest q = None" "mem1 m = None \<longrightarrow> rest = mem0" "mem1 m \<noteq> None \<longrightarrow> rest = mem0(m \<mapsto> MbBlock p)"
    using assms(1)
  proof
    assume "chan_new p q mutex_ok capacity mem0 = Some (p, mem1)"
    from chan_new_made [OF this ne(1,4)] obtain c where c: "fx_chan_create True True mutex_ok capacity = Some c"
      "mem1 = with_sys p q (sys_init c) mem0" by (metis with_sys_def)
    moreover from this(2) have "mem1 m = None" using assms(4) ne by (simp add: with_sys_def)
    ultimately show thesis using that [of c mem0] assms(2,3) by simp
  next
    assume "mb_new m p q mutex_ok capacity mem0 = Some (m, mem1)"
    from mb_new_made [OF this ne(3)] ne obtain c where c: "fx_chan_create True True mutex_ok capacity = Some c"
      "mem1 = with_sys p q (sys_init c) (mem0(m \<mapsto> MbBlock p))" by (auto simp: with_sys_def)
    moreover from this(2) have m: "mem1 m \<noteq> None" using ne by (simp add: with_sys_def)
    moreover have "(mem0(m \<mapsto> MbBlock p)) p = None" "(mem0(m \<mapsto> MbBlock p)) q = None" using assms(2,3) ne by simp_all
    ultimately show thesis by (intro that [of c "mem0(m \<mapsto> MbBlock p)"]) blast+
  qed
  have run: "(mem_step p)\<^sup>*\<^sup>* (with_sys p q (sys_init d) rest) mem" using assms(7) unfolding d(2) .
  note dr = made_drains [OF d(1) assms(6) ne(4,1,2) d(3,4) run assms(8,9)]
  from dr obtain s s' mem' where s: "mem p = Some (ChanBlock q s)" "(mem_step p)\<^sup>*\<^sup>* mem mem'" "mem' p = Some (ChanBlock q s')"
    "sy_sent s' = sy_sent s" "sy_sent s = sy_got s' @ chan_queue (sy_chan s')" "fx_chan_destroy p mem' = Some rest"
    "rest m = Some (MbBlock p) \<longrightarrow> fx_mb_destroy m mem' = Some (rest(m := None))" using ne(3) by blast
  have "if mem1 m = None then fx_chan_destroy p mem' = Some mem0 else fx_mb_destroy m mem' = Some mem0"
    using s(6,7) d(5,6) assms(4) by (auto simp: fun_upd_idem)
  moreover have "inside s \<noteq> 0 \<longrightarrow> fx_chan_destroy p mem = None" using s(1) ne by (simp add: fx_chan_destroy_def)
  ultimately have "\<exists>s s' mem'. mem p = Some (ChanBlock q s) \<and> (mem_step p)\<^sup>*\<^sup>* mem mem' \<and> mem' p = Some (ChanBlock q s') \<and>
       sy_sent s' = sy_sent s \<and> sy_sent s = sy_got s' @ chan_queue (sy_chan s') \<and>
       (inside s \<noteq> 0 \<longrightarrow> fx_chan_destroy p mem = None) \<and>
       (if mem1 m = None then fx_chan_destroy p mem' = Some mem0 else fx_mb_destroy m mem' = Some mem0)"
    using s(1-5) by (intro exI [of _ s] exI [of _ s'] exI [of _ mem'] conjI)
  moreover have "fx_chan_destroy p mem0 = None" "fx_mb_destroy m mem0 = None" "chan_ref p mem0 = None"
    using assms(2,4) ne by (simp_all add: fx_chan_destroy_def fx_mb_destroy_def chan_ref_def)
  ultimately show ?thesis using dr by blast
qed

definition closed_sys :: csys where
  "closed_sys = demo_sys\<lparr>sy_chan := full_chan\<lparr>ch_closed := True\<rparr>, sy_ready_send := {#8#}, sy_blocked_send := {#}\<rparr>"

lemma closed_sys_reach: "sys_reach demo_chan closed_sys"
proof -
  have "sys_step demo_sys closed_sys"
    by (rule close_returns [where st = FX_CHAN_OK and out = None and c = "full_chan\<lparr>ch_closed := True\<rparr>" and wk = BroadcastAll])
      (simp_all add: close_cs_def demo_sys_def closed_sys_def wakes_def)
  with demo_sys_reach show ?thesis by (rule reach_step)
qed

theorem close_drain_destroy_witness:
  "mb_new 48 16 32 True 1 Map.empty = Some (48, with_sys 16 32 (sys_init demo_chan) [48 \<mapsto> MbBlock 16]) \<and>
   (mem_step 16)\<^sup>*\<^sup>* (with_sys 16 32 (sys_init demo_chan) [48 \<mapsto> MbBlock 16]) (with_sys 16 32 closed_sys [48 \<mapsto> MbBlock 16]) \<and>
   (\<exists>mem'. (mem_step 16)\<^sup>*\<^sup>* (with_sys 16 32 closed_sys [48 \<mapsto> MbBlock 16]) mem' \<and> fx_mb_destroy 48 mem' = Some Map.empty)"
proof -
  have made: "mb_new 48 16 32 True 1 Map.empty = Some (48, with_sys 16 32 (sys_init demo_chan) [48 \<mapsto> MbBlock 16])"
    using demo_chan_created by (simp add: mb_new_def chan_new_def with_sys_def fx_chan_create_def fun_eq_iff)
  have run: "(mem_step 16)\<^sup>*\<^sup>* (with_sys 16 32 (sys_init demo_chan) [48 \<mapsto> MbBlock 16])
      (with_sys 16 32 closed_sys [48 \<mapsto> MbBlock 16])"
    by (rule sys_steps_mem [OF sys_reach_steps [OF closed_sys_reach]]) simp
  have at: "chan_ref 16 (with_sys 16 32 closed_sys [48 \<mapsto> MbBlock 16]) = Some (Some (sy_chan closed_sys))"
    by (simp add: chan_ref_def with_sys_def)
  have cl: "ch_closed (sy_chan closed_sys)" by (simp add: closed_sys_def)
  have "with_sys 16 32 (sys_init demo_chan) [48 \<mapsto> MbBlock 16] 48 \<noteq> None" by (simp add: with_sys_def)
  with close_drain_destroy [OF disjI2 [OF made] _ _ _ _ _ run at cl]
  have "\<exists>mem'. (mem_step 16)\<^sup>*\<^sup>* (with_sys 16 32 closed_sys [48 \<mapsto> MbBlock 16]) mem' \<and> fx_mb_destroy 48 mem' = Some Map.empty"
    by auto
  with made run show ?thesis by blast
qed

end
