(* ===== verification/CapTyped.thy ===== *)
theory CapTyped
  imports CapTheorems
begin

text \<open>
  The types of the capability runtime's handles. The API passes every handle as a bare 64-bit
  integer; that none is ever used at the wrong struct rests on each entry point answering with
  a handle of its own kind and on no object changing its kind for as long as handles to it are
  around. Both are shown here, for one call and for everything that may follow it.
\<close>

section \<open>The type of an answer\<close>

fun answer_typed :: "api_call \<Rightarrow> cheap \<Rightarrow> answer \<Rightarrow> bool" where
  "answer_typed (BeginGuest _ _) H (Handle a) \<longleftrightarrow> typed ctx_at H a"
| "answer_typed (BeginNested _ _ _) H (Handle a) \<longleftrightarrow> typed ctx_at H a"
| "answer_typed (MintFs _ _) H (Handle a) \<longleftrightarrow> typed fs_at H a"
| "answer_typed (MintOut _ _) H (Handle a) \<longleftrightarrow> typed out_at H a"
| "answer_typed (MintAlloc _ _) H (Handle a) \<longleftrightarrow> typed alloc_at H a"
| "answer_typed (MintFuel _ _) H (Handle a) \<longleftrightarrow> typed fuel_at H a"
| "answer_typed (MintNet _ _ _ _) H (Handle a) \<longleftrightarrow> typed net_at H a"
| "answer_typed (ArenaAlloc _ _) H (Handle a) \<longleftrightarrow> True"
| "answer_typed (BudgetAlloc _ _) H (Handle a) \<longleftrightarrow> True"
| "answer_typed (EndSession _) H (Status n) \<longleftrightarrow> n = 0"
| "answer_typed (BurnFuel _ _) H (Flag b) \<longleftrightarrow> True"
| "answer_typed (IsLive _) H (Flag b) \<longleftrightarrow> True"
| "answer_typed (NetAllows _ _ _) H (Flag b) \<longleftrightarrow> True"
| "answer_typed (ReadFile _ _ _) H (Status n) \<longleftrightarrow> n \<in> {FX_CAP_OK, FX_CAP_IO_ERR, FX_CAP_DENIED}"
| "answer_typed (WriteFile _ _ _ _) H (Status n) \<longleftrightarrow> n \<in> {FX_CAP_OK, FX_CAP_IO_ERR, FX_CAP_DENIED}"
| "answer_typed _ H _ \<longleftrightarrow> False"

lemma typed_zero [simp]: "typed at H 0"
  by (simp add: typed_def)

lemma exec_typed:
  assumes good: "good (w_heap w)" and ok: "call_ok (w_heap w) c" and run: "exec_call c w = Some (r, w')"
  shows "answer_typed c (w_heap w') r"
proof (cases c)
  case (BeginGuest root n)
  from good show ?thesis
    by (cases rule: begin_step [of "w_mem w" root n])
      (use BeginGuest run in \<open>auto simp: on_mem_def typed_def at_iff\<close>)
next
  case (BeginNested p root n)
  have "p = 0 \<or> ctx_at (w_heap w) p \<noteq> None" using ok BeginNested by (simp add: typed_def)
  from good this show ?thesis
    by (cases rule: begin_nested_step [where root = root and n = n])
      (use BeginNested run in \<open>auto simp: on_mem_def typed_def at_defs split: if_splits\<close>)
next
  case (EndSession h)
  have "h = 0 \<or> ctx_at (w_heap w) h \<noteq> None" using ok EndSession by (simp add: typed_def)
  from good this show ?thesis
    by (cases rule: end_step) (use EndSession run in \<open>auto simp: on_mem_def\<close>)
next
  case (MintFs h root)
  have "h = 0 \<or> ctx_at (w_heap w) h \<noteq> None" using ok MintFs by (simp add: typed_def)
  from good this show ?thesis
    by (cases rule: mint_fscap_step [where root = root])
      (use MintFs run in \<open>auto simp: on_mem_def typed_def at_defs split: if_splits\<close>)
next
  case (MintOut h root)
  have "h = 0 \<or> ctx_at (w_heap w) h \<noteq> None" using ok MintOut by (simp add: typed_def)
  from good this show ?thesis
    by (cases rule: mint_outcap_step [where root = root])
      (use MintOut run in \<open>auto simp: on_mem_def typed_def at_defs split: if_splits\<close>)
next
  case (MintAlloc h b)
  have "h = 0 \<or> ctx_at (w_heap w) h \<noteq> None" using ok MintAlloc by (simp add: typed_def)
  from good this show ?thesis
    by (cases rule: mint_alloccap_step [where budget = b])
      (use MintAlloc run in \<open>auto simp: on_mem_def typed_def at_defs split: if_splits\<close>)
next
  case (MintFuel h u)
  have "h = 0 \<or> ctx_at (w_heap w) h \<noteq> None" using ok MintFuel by (simp add: typed_def)
  from good this show ?thesis
    by (cases rule: mint_fuelcap_step [where units = u])
      (use MintFuel run in \<open>auto simp: on_mem_def typed_def at_defs split: if_splits\<close>)
next
  case (MintNet h host pmin pmax)
  have "h = 0 \<or> ctx_at (w_heap w) h \<noteq> None" using ok MintNet by (simp add: typed_def)
  from good this show ?thesis
    by (cases rule: mint_netcap_step [where allow_host = host and port_min = pmin and port_max = pmax])
      (use MintNet run in \<open>auto simp: on_mem_def typed_def at_defs split: if_splits\<close>)
next
  case (ReadFile k p e)
  with ok obtain path where p: "p = Outside path" and t: "typed fs_at (w_heap w) k" "cptr_ok path"
    by (cases p) simp_all
  from good t show ?thesis
    by (cases rule: read_file_step [where e = e and d = "w_disk w"])
      (use ReadFile p run in \<open>auto simp: on_mem_def\<close>)
next
  case (WriteFile k path data e)
  with ok have t: "typed out_at (w_heap w) k" "cptr_ok path" by simp_all
  from good t show ?thesis
    by (cases rule: write_file_step [where e = e and d = "w_disk w" and data = data])
      (use WriteFile run in \<open>auto\<close>)
qed (use run in \<open>auto simp: on_mem_def\<close>)

lemma answer_stays_typed:
  assumes "evolves H H'" and "answer_typed c H r"
  shows "answer_typed c H' r"
  using assms(2) evolves_typed [OF assms(1)] by (cases c; cases r) auto

lemma call_stays_ok: "evolves H H' \<Longrightarrow> call_ok H c \<Longrightarrow> call_ok H' c"
  using evolves_typed by (cases c) auto

section \<open>The property\<close>

text \<open>
  C22: handles are well typed for ever. Whatever an admissible call answers has the type its
  entry point promises (a session, one of the five kinds of capability, a status of the
  documented set) and keeps it through any calls that follow, whoever ends the session
  meanwhile; and a call that was admissible once stays admissible, so a client that passes
  handles where they belong can never make the runtime read an object as a struct it is not.
\<close>

theorem handles_stay_typed:
  assumes "reachable w" and "call_ok (w_heap w) c" and "exec_call c w = Some (r, w1)" and "calls w1 w2"
  shows "answer_typed c (w_heap w1) r \<and> answer_typed c (w_heap w2) r \<and>
    (\<forall>c'. call_ok (w_heap w) c' \<longrightarrow> call_ok (w_heap w2) c') \<and>
    (\<forall>c'. call_ok (w_heap w2) c' \<longrightarrow> (\<exists>r' w3. exec_call c' w2 = Some (r', w3) \<and> answer_typed c' (w_heap w3) r'))"
proof -
  note good = reachable_good [OF assms(1)]
  note w1 = reachable_exec [OF assms(1-3)]
  have t: "answer_typed c (w_heap w1) r" by (rule exec_typed [OF good assms(2,3)])
  have e: "evolves (w_heap w1) (w_heap w2)" by (rule reachable_evolves [OF w1(2) assms(4)])
  have w2: "reachable w2" by (rule reachable_calls [OF w1(2) assms(4)])
  have "call_ok (w_heap w2) c'" if "call_ok (w_heap w) c'" for c'
    using call_stays_ok [OF e] call_stays_ok [OF reachable_evolves [OF assms(1) w1(1)] that] by blast
  moreover have "\<exists>r' w3. exec_call c' w2 = Some (r', w3) \<and> answer_typed c' (w_heap w3) r'"
    if "call_ok (w_heap w2) c'" for c'
    using api_call_safe [OF w2 that] exec_typed [OF reachable_good [OF w2] that] by blast
  ultimately show ?thesis using t answer_stays_typed [OF e t] by blast
qed

theorem handles_stay_typed_witness:
  "\<exists>w1. exec_call (MintFs 0x1000 None) seed = Some (Handle 0x2000, w1) \<and>
     (\<forall>w2. calls w1 w2 \<longrightarrow> fs_at (w_heap w2) 0x2000 \<noteq> None)"
proof (rule seed_facts)
  fix w1 assume s: "reachable seed" "typed ctx_at (w_heap seed) 0x1000"
    and mint: "exec_call (MintFs 0x1000 None) seed = Some (Handle 0x2000, w1)"
  have ok: "call_ok (w_heap seed) (MintFs 0x1000 None)" using s(2) by (simp add: cptr_ok_def)
  have "fs_at (w_heap w2) 0x2000 \<noteq> None" if "calls w1 w2" for w2
    using handles_stay_typed [OF s(1) ok mint that] by (simp add: typed_def)
  with mint show ?thesis by blast
qed

end
