(* ===== verification/HostStd.thy ===== *)
theory HostStd
  imports Decimal
begin

text \<open>
  The thin standard-library shims: the environment (\<open>host/std_env/ref.c\<close>), time, sleep and
  the seeded generator (\<open>host/std_time/ref.c\<close>), and the command line (\<open>host/cli\<close>). The
  environment, the clock and the argument vector are parameters; what is printed on stderr is
  returned as text.
\<close>

section \<open>Environment\<close>

definition fx_env_get :: "(string \<Rightarrow> string option) \<Rightarrow> cptr \<Rightarrow> string" where
  "fx_env_get getenv name =
     (case name of None \<Rightarrow> '''' | Some s \<Rightarrow>
      if chd s = NUL then '''' else case getenv s of None \<Rightarrow> '''' | Some v \<Rightarrow> v)"

definition fx_env_has :: "(string \<Rightarrow> string option) \<Rightarrow> cptr \<Rightarrow> i32" where
  "fx_env_has getenv name =
     (case name of None \<Rightarrow> 0 | Some s \<Rightarrow>
      if chd s = NUL then 0 else if getenv s \<noteq> None then 1 else 0)"

lemma env_unset_empty: "fx_env_has getenv name = 0 \<Longrightarrow> fx_env_get getenv name = ''''"
  by (auto simp: fx_env_has_def fx_env_get_def split: option.splits if_splits)

lemma env_set_value:
  assumes "fx_env_has getenv name \<noteq> 0"
  shows "fx_env_has getenv name = 1 \<and> (\<exists>s v. name = Some s \<and> getenv s = Some v \<and> fx_env_get getenv name = v)"
  using assms by (auto simp: fx_env_has_def fx_env_get_def split: option.splits if_splits)

section \<open>Time\<close>

text \<open>The clock gives seconds and nanoseconds; a sum outside 64 bits is undefined.\<close>

definition i64_of :: "int \<Rightarrow> i64 option" where
  "i64_of i = (if - (2 ^ 63) \<le> i \<and> i < 2 ^ 63 then Some (word_of_int i) else None)"

definition fx_time_now_ms :: "(int \<times> int) option \<Rightarrow> i64 option" where
  "fx_time_now_ms clock =
     (case clock of None \<Rightarrow> Some 0
      | Some (sec, nsec) \<Rightarrow> do { _ \<leftarrow> i64_of (sec * 1000); i64_of (sec * 1000 + nsec div 1000000) })"

text \<open>The time given to \<open>nanosleep\<close>, None where it is not called.\<close>

definition fx_time_sleep_ms :: "i32 \<Rightarrow> (int \<times> int) option" where
  "fx_time_sleep_ms ms =
     (if sint ms \<le> 0 then None else Some (sint ms div 1000, (sint ms mod 1000) * 1000000))"

lemma sleep_exact:
  "fx_time_sleep_ms ms = Some (sec, nsec) \<Longrightarrow>
     0 \<le> nsec \<and> nsec < 1000000000 \<and> sec * 1000000000 + nsec = sint ms * 1000000"
proof -
  assume "fx_time_sleep_ms ms = Some (sec, nsec)"
  then have d: "sec = sint ms div 1000" "nsec = (sint ms mod 1000) * 1000000"
    by (auto simp: fx_time_sleep_ms_def split: if_splits)
  have "0 \<le> sint ms mod 1000" "sint ms mod 1000 < 1000" "sint ms div 1000 * 1000 + sint ms mod 1000 = sint ms"
    by simp_all
  then show ?thesis using d by linarith
qed

section \<open>The generator\<close>

definition fx_rand_next :: "i32 \<Rightarrow> i32" where
  "fx_rand_next state =
     (let x = (if state = 0 then 1 else state);
          x = x * 1664525 + 1013904223 in
      x AND 0x7FFFFFFF)"

text \<open>As a map on numbers: one step of the congruential generator modulo \<open>2^31\<close>.\<close>

definition rand_step :: "int \<Rightarrow> int" where
  "rand_step s = ((if s = 0 then 1 else s) * 1664525 + 1013904223) mod 2 ^ 31"

lemma uint_rand: "uint (fx_rand_next w) = rand_step (uint w)"
proof -
  let ?x = "if w = 0 then 1 else w"
  have m: "0x7FFFFFFF = (mask 31 :: i32)" by (simp add: mask_eq_exp_minus_1)
  have "uint (fx_rand_next w) = take_bit 31 (uint (?x * 1664525 + 1013904223))"
    by (simp add: fx_rand_next_def Let_def m flip: take_bit_eq_mask) (simp add: unsigned_take_bit_eq)
  also have "\<dots> = (uint ?x * 1664525 + 1013904223) mod 2 ^ 32 mod 2 ^ 31"
    by (simp add: take_bit_eq_mod uint_word_ariths mod_simps)
  also have "\<dots> = (uint ?x * 1664525 + 1013904223) mod 2 ^ 31"
    by (simp add: mod_mod_cancel)
  also have "\<dots> = rand_step (uint w)" by (auto simp: rand_step_def uint_0_iff)
  finally show ?thesis .
qed

lemma rand_nonneg: "sint (fx_rand_next w) = uint (fx_rand_next w)"
proof -
  have "0 \<le> uint (fx_rand_next w)" "uint (fx_rand_next w) < 2 ^ 31"
    unfolding uint_rand rand_step_def by simp_all
  then have "signed_take_bit 31 (uint (fx_rand_next w)) = uint (fx_rand_next w)"
    by (intro signed_take_bit_int_eq_self) linarith+
  then show ?thesis by (simp add: sint_uint)
qed

lemma rand_step_eq:
  assumes "0 \<le> a" "a < 2 ^ 31" "0 \<le> b" "b < 2 ^ 31"
  shows "rand_step a = rand_step b \<longleftrightarrow> a = b \<or> {a, b} = {0, 1}"
proof -
  define a' b' where "a' = (if a = 0 then 1 else a)" and "b' = (if b = 0 then 1 else b)"
  have r: "0 \<le> a'" "a' < 2 ^ 31" "0 \<le> b'" "b' < 2 ^ 31" using assms by (simp_all add: a'_def b'_def)
  have "rand_step a = rand_step b \<longleftrightarrow> (2 ^ 31 :: int) dvd (a' * 1664525 + 1013904223) - (b' * 1664525 + 1013904223)"
    by (simp add: rand_step_def a'_def b'_def mod_eq_dvd_iff)
  also have "(a' * 1664525 + 1013904223) - (b' * 1664525 + 1013904223) = (a' - b') * (1664525 :: int)" by simp
  also have "(2 ^ 31 :: int) dvd (a' - b') * 1664525 \<longleftrightarrow> 2 ^ 31 dvd a' - b'"
    by (intro coprime_dvd_mult_left_iff, simp only: coprime_power_left_iff coprime_left_2_iff_odd) simp
  also have "\<dots> \<longleftrightarrow> a' = b'"
    using r by (metis mod_eq_dvd_iff mod_pos_pos_trivial)
  also have "\<dots> \<longleftrightarrow> a = b \<or> {a, b} = {0, 1}"
    by (auto simp: a'_def b'_def doubleton_eq_iff)
  finally show ?thesis .
qed

text \<open>
  the generator is the congruential step modulo \<open>2^31\<close>: whatever bit pattern it is seeded
  with, its result is not negative and is that step of the seed read without sign; and on its
  own results it loses nothing: two states have the same successor only if they are equal or
  are 0 and 1, which are one seed by design.
\<close>

theorem rand_next_exact:
  "0 \<le> sint (fx_rand_next s) \<and>
   sint (fx_rand_next s) = ((if s = 0 then 1 else uint s) * 1664525 + 1013904223) mod 2 ^ 31 \<and>
   (fx_rand_next (fx_rand_next s) = fx_rand_next (fx_rand_next t) \<longleftrightarrow>
      fx_rand_next s = fx_rand_next t \<or> {fx_rand_next s, fx_rand_next t} = {0, 1})"
proof -
  have range: "0 \<le> uint (fx_rand_next w)" "uint (fx_rand_next w) < 2 ^ 31" for w
    unfolding uint_rand rand_step_def by simp_all
  have "sint (fx_rand_next s) = rand_step (uint s)" by (simp add: rand_nonneg uint_rand)
  moreover have "fx_rand_next (fx_rand_next s) = fx_rand_next (fx_rand_next t) \<longleftrightarrow>
      rand_step (uint (fx_rand_next s)) = rand_step (uint (fx_rand_next t))"
    by (metis uint_rand word_uint_eq_iff)
  moreover have "\<dots> \<longleftrightarrow> fx_rand_next s = fx_rand_next t \<or> {fx_rand_next s, fx_rand_next t} = {0, 1}"
    unfolding rand_step_eq [OF range range] by (auto simp: doubleton_eq_iff word_uint_eq_iff)
  ultimately show ?thesis by (auto simp: rand_step_def uint_0_iff)
qed

section \<open>Command line\<close>

text \<open>\<open>argv\<close> is NULL or a vector of possibly NULL strings.\<close>

record cli_args =
  g_argc :: i32
  g_argv :: "cptr list option"

definition cli_start :: cli_args where
  "cli_start = \<lparr>g_argc = 0, g_argv = None\<rparr>"

definition fx_cli_set_args :: "i32 \<Rightarrow> cptr list option \<Rightarrow> cli_args \<Rightarrow> cli_args" where
  "fx_cli_set_args argc argv s = \<lparr>g_argc = argc, g_argv = argv\<rparr>"

definition fx_cli_argc :: "cli_args \<Rightarrow> i32" where
  "fx_cli_argc s = g_argc s"

definition fx_cli_arg :: "i32 \<Rightarrow> cli_args \<Rightarrow> string option" where
  "fx_cli_arg i s =
     (if sint i < 0 \<or> sint i \<ge> sint (g_argc s) then Some ''''
      else case g_argv s of None \<Rightarrow> Some '''' | Some argv \<Rightarrow> do {
        p \<leftarrow> aget argv (nat (sint i));
        case p of None \<Rightarrow> Some '''' | Some a \<Rightarrow> Some a })"

text \<open>The result of these is the process code and what goes to stderr.\<close>

definition fx_cli_usage :: "string \<Rightarrow> int \<times> string" where
  "fx_cli_usage usage_line = (1, usage_line @ [CHR 0x0A])"

definition fx_cli_fail :: "string \<Rightarrow> string \<Rightarrow> int \<Rightarrow> int \<times> string" where
  "fx_cli_fail tool msg code = (code, tool @ '': '' @ msg @ [CHR 0x0A])"

record Result_i32 =
  r_tag :: i32
  r_ok_val :: i32
  r_err_val :: i32

definition FX_CLI_RETURN_RESULT_I32 :: "Result_i32 \<Rightarrow> string \<Rightarrow> int \<times> string" where
  "FX_CLI_RETURN_RESULT_I32 r tool =
     (if r_tag r \<noteq> 0 then (sint (r_err_val r), tool @ '': error '' @ dec_int (sint (r_err_val r)) @ [CHR 0x0A])
      else (sint (r_ok_val r), ''''))"

lemma cli_args_installed:
  assumes "sint argc = int (length args)"
  shows "fx_cli_arg i (fx_cli_set_args argc (Some args) s) =
    Some (if 0 \<le> sint i \<and> sint i < sint argc
          then (case args ! nat (sint i) of None \<Rightarrow> '''' | Some a \<Rightarrow> a) else '''')"
proof (cases "0 \<le> sint i \<and> sint i < sint argc")
  case True
  then have "nat (sint i) < length args" using assms by linarith
  with True show ?thesis
    by (auto simp: fx_cli_arg_def fx_cli_set_args_def array_simps split: option.splits)
next
  case False
  then show ?thesis by (auto simp: fx_cli_arg_def fx_cli_set_args_def)
qed

lemma cli_arg_default: "fx_cli_arg i cli_start = Some ''''"
  by (simp add: fx_cli_arg_def cli_start_def)

end
