(* ===== verification/GuestHost.thy ===== *)
theory GuestHost
  imports CapTyped HostStd
begin

text \<open>
  The host program of \<open>scaffolds/guest\<close>: open a session, mint one FsCap, run the guest, end
  the session, and turn the guest's result into the process code. The guest is compiled from
  fx and is a parameter: what it does to the world is any sequence of admissible calls.
\<close>

section \<open>The code\<close>

type_synonym guest = "addr \<Rightarrow> world \<Rightarrow> (Result_i32 \<times> world) option"

text \<open>The process code, what stderr shows, and the world that is left.\<close>

definition guest_main :: "guest \<Rightarrow> world \<Rightarrow> (int \<times> string \<times> world) option" where
  "guest_main fx_guest_lib_run w =
     (let quit = (\<lambda>s r. Some (fst r, snd r, w\<lparr>w_mem := s\<rparr>)) in
      do { (ctx, s) \<leftarrow> fx_guest_begin (Some ''.'') 4096 (w_mem w);
           if ctx = 0 then quit s (fx_cli_fail ''guest'' ''guest_begin failed'' 1)
           else do {
             (fs_h, s) \<leftarrow> fx_guest_mint_fscap ctx (Some '''') s;
             if fs_h = 0 then do {
               (_, s) \<leftarrow> fx_guest_end ctx s;
               quit s (fx_cli_fail ''guest'' ''mint_fscap failed'' 1) }
             else do {
               (r, w') \<leftarrow> fx_guest_lib_run fs_h (w\<lparr>w_mem := s\<rparr>);
               (_, s') \<leftarrow> fx_guest_end ctx (w_mem w');
               let (code, err) = FX_CLI_RETURN_RESULT_I32 r ''guest'' in
               Some (code, err, w'\<lparr>w_mem := s'\<rparr>) } } })"

section \<open>The session of the host\<close>

lemma end_session_dead:
  assumes "reachable w" and "ctx_at (w_heap w) h = Some g" and "exec_call (EndSession h) w = Some (a, w')"
  shows "\<exists>g'. ctx_at (w_heap w') h = Some g' \<and> \<not> g_live g' \<and> owned g' = owned g \<and>
    (\<forall>c \<in> owned g'. \<not> cap_live (w_heap w') c) \<and> w_disk w' = w_disk w"
proof (cases "g_live g")
  case True
  from end_session_live [OF assms(1,2) True assms(3)] obtain r
    where p: "end_post r h g (w_heap w) (w_heap w')" and d: "w_disk w' = w_disk w" by blast
  from p obtain g' where g': "ctx_at (w_heap w') h = Some g'" "\<not> g_live g'"
    and sh: "shrinks (w_heap w) (w_heap w')" and wf: "wf_r r (w_heap w')" by (auto simp: end_post_def)
  then have "owned g' = owned g" using shrinks_ctx(2) [OF sh assms(2)] by (auto simp: ctx_shrinks_def)
  with g' wf_revokedD [OF wf g'] d show ?thesis by blast
next
  case False
  have h: "h \<noteq> 0" using good_wf [OF reachable_good [OF assms(1)]] at_nonzero(1) assms(2) by blast
  then have "w' = w" using assms(2,3) False by (auto simp: fx_guest_end_def loop_EndGuest on_mem_def)
  moreover obtain r where "wf_r r (w_heap w)" using good_wf [OF reachable_good [OF assms(1)]] by blast
  ultimately show ?thesis using wf_revokedD [OF _ assms(2) False] assms(2) False by blast
qed

lemma begun_session:
  assumes "reachable w" and "fx_guest_begin (Some root) n (w_mem w) = Some (h, s)" and "cstr root" and "root \<noteq> []"
    and "h \<noteq> 0"
  shows "calls w (w\<lparr>w_mem := s\<rparr>)"
    and "\<exists>g. ctx_at (heap s) h = Some g \<and> g_live g \<and> mint_root FX_ROOT_SIZE (Some root) = Some (g_root g)"
proof -
  have run: "exec_call (BeginGuest (Some root) n) w = Some (Handle h, w\<lparr>w_mem := s\<rparr>)"
    using assms(2) by (simp add: on_mem_def)
  from reachable_exec(1) [OF assms(1) _ run] show "calls w (w\<lparr>w_mem := s\<rparr>)"
    using assms(3) by (simp add: cptr_ok_def)
  have ne: "nonempty_root (Some root)"
    using assms(3,4) by (cases root) (auto simp: nonempty_root_def cstr_def)
  from reachable_good [OF assms(1)]
  show "\<exists>g. ctx_at (heap s) h = Some g \<and> g_live g \<and> mint_root FX_ROOT_SIZE (Some root) = Some (g_root g)"
    by (cases rule: begin_step [of "w_mem w" "Some root" n])
      (use assms(2,5) ne in \<open>auto simp: at_defs\<close>)
qed

lemma session_mints:
  assumes "reachable w" and "ctx_at (w_heap w) h = Some g" and "g_root g = ''.''"
    and "fx_guest_mint_fscap h (Some '''') (w_mem w) = Some (a, s)" and "a \<noteq> 0"
  shows "calls w (w\<lparr>w_mem := s\<rparr>)" and "fs_at (heap s) a = Some \<lparr>fs_root = ''.'', fs_live = True\<rparr>"
    and "\<exists>g'. ctx_at (heap s) h = Some g' \<and> a \<in> owned g'"
proof -
  have run: "exec_call (MintFs h (Some '''')) w = Some (Handle a, w\<lparr>w_mem := s\<rparr>)"
    using assms(4) by (simp add: on_mem_def)
  from reachable_exec(1) [OF assms(1) _ run] show "calls w (w\<lparr>w_mem := s\<rparr>)"
    using assms(2) by (simp add: cptr_ok_def typed_def)
  have dot: "mint_root FX_ROOT_SIZE (mint_root_or_default g (Some '''')) = Some ''.''"
    using assms(3) by (simp add: mint_root_def mint_root_or_default_def FX_ROOT_SIZE_def strlen_def nonempty_root_def)
  have h: "h = 0 \<or> ctx_at (w_heap w) h \<noteq> None" using assms(2) by simp
  from reachable_good [OF assms(1)] h show "fs_at (heap s) a = Some \<lparr>fs_root = ''.'', fs_live = True\<rparr>"
    by (cases rule: mint_fscap_step [where root = "Some ''''"])
      (use assms(2,4,5) dot in \<open>auto simp: at_defs split: if_splits\<close>)
  from reachable_good [OF assms(1)] h show "\<exists>g'. ctx_at (heap s) h = Some g' \<and> a \<in> owned g'"
    by (cases rule: mint_fscap_step [where root = "Some ''''"])
      (use assms(2,4,5) in \<open>auto simp: at_defs owned_def\<close>)
qed

lemma session_ends:
  assumes "reachable w" and "ctx_at (w_heap w) h = Some g"
  shows "\<exists>n s g'. fx_guest_end h (w_mem w) = Some (n, s) \<and> reachable (w\<lparr>w_mem := s\<rparr>) \<and>
    ctx_at (heap s) h = Some g' \<and> \<not> g_live g' \<and> owned g' = owned g \<and> (\<forall>c \<in> owned g'. \<not> cap_live (heap s) c)"
proof -
  have ok: "call_ok (w_heap w) (EndSession h)" using assms(2) by (simp add: typed_def)
  from api_call_safe [OF assms(1) ok] obtain n s where run: "fx_guest_end h (w_mem w) = Some (n, s)"
    by (auto simp: on_mem_def)
  then have "exec_call (EndSession h) w = Some (Status n, w\<lparr>w_mem := s\<rparr>)" by (simp add: on_mem_def)
  from end_session_dead [OF assms this] reachable_exec(2) [OF assms(1) ok this] run show ?thesis by auto
qed

lemma begin_refused:
  assumes "good (heap s)" and "fx_guest_begin root n s = Some (0, s')"
  shows "heap s' = heap s"
  using assms(1) by (cases rule: begin_step [of s root n]) (use assms(2) in \<open>auto simp: usable_def\<close>)

lemma guest_phase:
  assumes "reachable w1" and "ctx_at (w_heap w1) h = Some g" and "c \<in> owned g" and "calls w1 w2"
  shows "\<exists>n s g'. fx_guest_end h (w_mem w2) = Some (n, s) \<and> reachable (w2\<lparr>w_mem := s\<rparr>) \<and>
    ctx_at (heap s) h = Some g' \<and> \<not> g_live g' \<and> c \<in> owned g' \<and> (\<forall>c \<in> owned g'. \<not> cap_live (heap s) c)"
proof -
  from evolves_at(1) [OF reachable_evolves [OF assms(1,4)] assms(2)] obtain g2
    where "ctx_at (w_heap w2) h = Some g2" "owned g \<subseteq> owned g2" by (auto simp: ctx_evolves_def)
  with session_ends [OF reachable_calls [OF assms(1,4)]] assms(3) show ?thesis by blast
qed

section \<open>The property\<close>

text \<open>
  C21: the host of the scaffold contains its guest. Starting anywhere, with any allocator and
  any guest that returns and makes admissible calls only, \<open>main\<close> returns. Either no session
  could be opened: the guest has not run, the code is 1 and neither heap nor disk changed. Or one was
  opened, and when \<open>main\<close> returns that session and every capability ever minted in it are dead,
  whatever the guest did, the session ended by the guest itself included; then either the mint
  failed, the guest has not run, the code is 1 and the disk is as before, or the guest was run
  with one FsCap rooted at the directory \<open>.\<close> and the process code is its result. The host itself
  does not touch the disk.
\<close>

theorem guest_host_contains:
  assumes "reachable w"
    and "\<And>h w1. reachable w1 \<Longrightarrow> \<exists>r w2. guest h w1 = Some (r, w2) \<and> calls w1 w2"
  shows "\<exists>code err w'. guest_main guest w = Some (code, err, w') \<and>
    ((\<exists>s. fx_guest_begin (Some ''.'') 4096 (w_mem w) = Some (0, s) \<and> code = 1 \<and>
        w' = w\<lparr>w_mem := s\<rparr> \<and> w_heap w' = w_heap w) \<or>
     (\<exists>ctx s g. fx_guest_begin (Some ''.'') 4096 (w_mem w) = Some (ctx, s) \<and> ctx \<noteq> 0 \<and> reachable w' \<and>
        ctx_at (w_heap w') ctx = Some g \<and> \<not> g_live g \<and> (\<forall>c \<in> owned g. \<not> cap_live (w_heap w') c) \<and>
        ((\<exists>s1. fx_guest_mint_fscap ctx (Some '''') s = Some (0, s1) \<and> code = 1 \<and> w_disk w' = w_disk w) \<or>
         (\<exists>fs_h s1 r w2. fx_guest_mint_fscap ctx (Some '''') s = Some (fs_h, s1) \<and> fs_h \<in> owned g \<and>
            fs_at (heap s1) fs_h = Some \<lparr>fs_root = ''.'', fs_live = True\<rparr> \<and> calls w (w\<lparr>w_mem := s1\<rparr>) \<and>
            guest fs_h (w\<lparr>w_mem := s1\<rparr>) = Some (r, w2) \<and> w_disk w' = w_disk w2 \<and>
            code = sint (if r_tag r \<noteq> 0 then r_err_val r else r_ok_val r)))))"
proof -
  have "call_ok (w_heap w) (BeginGuest (Some ''.'') 4096)" by (simp add: cptr_ok_def)
  from api_call_safe [OF assms(1) this] obtain ctx s where opened:
    "fx_guest_begin (Some ''.'') 4096 (w_mem w) = Some (ctx, s)" by (auto simp: on_mem_def)
  show ?thesis
  proof (cases "ctx = 0")
    case True
    with opened begin_refused [OF reachable_good [OF assms(1)]] show ?thesis
      by (auto simp: guest_main_def fx_cli_fail_def)
  next
    case ctx: False
    let ?w = "w\<lparr>w_mem := s\<rparr>"
    have dot: "cstr ''.''" by (simp add: cstr_def)
    note b = begun_session [OF assms(1) opened dot _ ctx]
    from b(2) obtain g where g: "ctx_at (w_heap ?w) ctx = Some g" "mint_root FX_ROOT_SIZE (Some ''.'') = Some (g_root g)"
      by auto
    then have root: "g_root g = ''.''" by (simp add: mint_root_def FX_ROOT_SIZE_def strlen_def)
    have r0: "reachable ?w" using reachable_calls [OF assms(1) b(1)] by simp
    have ok: "call_ok (w_heap ?w) (MintFs ctx (Some ''''))" using g(1) by (simp add: cptr_ok_def typed_def)
    from api_call_safe [OF r0 this] obtain a s1 where mint:
      "fx_guest_mint_fscap ctx (Some '''') s = Some (a, s1)" by (auto simp: on_mem_def)
    let ?w1 = "w\<lparr>w_mem := s1\<rparr>"
    have "exec_call (MintFs ctx (Some '''')) ?w = Some (Handle a, ?w1)" using mint by (simp add: on_mem_def)
    from reachable_exec [OF r0 ok this] have m: "calls ?w ?w1" and r1: "reachable ?w1" .
    have w1: "calls w ?w1" using calls_trans [OF m b(1)] by simp
    show ?thesis
    proof (cases "a = 0")
      case True
      from evolves_at(1) [OF reachable_evolves [OF r0 m] g(1)] obtain g1 where "ctx_at (w_heap ?w1) ctx = Some g1"
        by blast
      from session_ends [OF r1 this] obtain n s2 g2 where ends: "fx_guest_end ctx s1 = Some (n, s2)"
          "reachable (w\<lparr>w_mem := s2\<rparr>)" "ctx_at (heap s2) ctx = Some g2" "\<not> g_live g2"
          "\<forall>c \<in> owned g2. \<not> cap_live (heap s2) c" by auto
      then have "guest_main guest w = Some (1, snd (fx_cli_fail ''guest'' ''mint_fscap failed'' 1), w\<lparr>w_mem := s2\<rparr>)"
        using opened mint ctx True by (simp add: guest_main_def fx_cli_fail_def)
      then show ?thesis using opened mint ctx True ends by fastforce
    next
      case False
      from session_mints [OF r0 g(1) root _ False, of s1] mint
      have at: "fs_at (heap s1) a = Some \<lparr>fs_root = ''.'', fs_live = True\<rparr>"
        and "\<exists>g'. ctx_at (w_heap ?w1) ctx = Some g' \<and> a \<in> owned g'" by simp_all
      then obtain g1 where g1: "ctx_at (w_heap ?w1) ctx = Some g1" "a \<in> owned g1" by blast
      from assms(2) [OF r1, of a] obtain r w2
        where run: "guest a ?w1 = Some (r, w2)" "calls ?w1 w2" by blast
      from guest_phase [OF r1 g1 run(2)] obtain n s2 g2 where
        ends: "fx_guest_end ctx (w_mem w2) = Some (n, s2)" "reachable (w2\<lparr>w_mem := s2\<rparr>)"
          "ctx_at (heap s2) ctx = Some g2" "\<not> g_live g2" "a \<in> owned g2" "\<forall>c \<in> owned g2. \<not> cap_live (heap s2) c"
        by blast
      have "\<exists>err. guest_main guest w = Some (sint (if r_tag r \<noteq> 0 then r_err_val r else r_ok_val r), err, w2\<lparr>w_mem := s2\<rparr>)"
        using opened mint ctx False run(1) ends(1) by (simp add: guest_main_def FX_CLI_RETURN_RESULT_I32_def)
      then obtain err where "guest_main guest w =
          Some (sint (if r_tag r \<noteq> 0 then r_err_val r else r_ok_val r), err, w2\<lparr>w_mem := s2\<rparr>)" by blast
      then show ?thesis using opened mint ctx at run(1) ends w1
        by (intro exI [of _ "sint (if r_tag r \<noteq> 0 then r_err_val r else r_ok_val r)"] exI [of _ err]
            exI [of _ "w2\<lparr>w_mem := s2\<rparr>"] conjI disjI2 exI [of _ ctx] exI [of _ s] exI [of _ g2]
            exI [of _ a] exI [of _ s1] exI [of _ r] exI [of _ w2]) simp_all
    qed
  qed
qed

section \<open>A guest that reads\<close>

definition reading_guest :: guest where
  "reading_guest h w =
     (if call_ok (w_heap w) (ReadFile h (Outside (Some ''./x'')) (io_fine 2))
      then map_option (\<lambda>(_, w'). (\<lparr>r_tag = 0, r_ok_val = 42, r_err_val = 0\<rparr>, w'))
        (exec_call (ReadFile h (Outside (Some ''./x'')) (io_fine 2)) w)
      else Some (\<lparr>r_tag = 1, r_ok_val = 0, r_err_val = 7\<rparr>, w))"

definition host_world :: world where
  "host_world = fresh_world [0x1000, 0x100000, 0x2000] [''./x'' \<mapsto> ''hi'']"

lemma host_world_reachable: "reachable host_world"
  unfolding host_world_def reachable_def by (blast intro: calls_refl)

lemma reading_guest_ok:
  assumes "reachable w1"
  shows "\<exists>r w2. reading_guest h w1 = Some (r, w2) \<and> calls w1 w2"
proof (cases "call_ok (w_heap w1) (ReadFile h (Outside (Some ''./x'')) (io_fine 2))")
  case True
  from api_call_safe [OF assms True] obtain a w2
    where run: "exec_call (ReadFile h (Outside (Some ''./x'')) (io_fine 2)) w1 = Some (a, w2)" by blast
  with True reachable_exec(1) [OF assms True run] show ?thesis
    unfolding reading_guest_def by (simp del: exec_call.simps call_ok.simps)
next
  case False
  then show ?thesis unfolding reading_guest_def using calls_refl by (auto simp del: exec_call.simps call_ok.simps)
qed

lemma host_world_code:
  assumes "guest_main reading_guest host_world = Some (code, err, w')"
  shows "code = 42"
  using assms
  by (auto simp: guest_main_def host_world_def run_defs bind_iff reading_guest_def FX_CLI_RETURN_RESULT_I32_def
      fx_cli_fail_def split: if_splits)

theorem guest_host_contains_witness:
  "\<exists>err w' ctx g c. guest_main reading_guest host_world = Some (42, err, w') \<and>
     ctx_at (w_heap w') ctx = Some g \<and> \<not> g_live g \<and> c \<in> owned g \<and> \<not> cap_live (w_heap w') c"
proof -
  from guest_host_contains [of host_world reading_guest, OF host_world_reachable reading_guest_ok]
  obtain code err w' where run: "guest_main reading_guest host_world = Some (code, err, w')"
    and post: "code = 1 \<or> (\<exists>ctx g c. ctx_at (w_heap w') ctx = Some g \<and> \<not> g_live g \<and> c \<in> owned g \<and>
      \<not> cap_live (w_heap w') c)" by blast
  from host_world_code [OF run] run post show ?thesis by auto
qed

end
