(* ===== verification/Nursery.thy ===== *)
theory Nursery
  imports FxPrelude
begin

text \<open>
  The task nursery of \<open>host/concur/fx_task_nursery.c\<close> and the policies of
  \<open>fx_supervise.c\<close>. The first part is the code between one lock and the next unlock; the
  second part puts these sections together: one owner that joins and shuts down, any number
  of threads that spawn and cancel, and the tasks themselves. A task is known by its slot.
\<close>

section \<open>The data\<close>

definition FX_NURSERY_OK :: int where "FX_NURSERY_OK = 0"
definition FX_NURSERY_ERR :: int where "FX_NURSERY_ERR = 1"
definition FX_NURSERY_FULL :: int where "FX_NURSERY_FULL = 2"
definition FX_NURSERY_DEAD :: int where "FX_NURSERY_DEAD = 3"
definition FX_NURSERY_TIMEOUT :: int where "FX_NURSERY_TIMEOUT = 5"
definition FX_NURSERY_DEFAULT_MAX :: i32 where "FX_NURSERY_DEFAULT_MAX = 16"
definition FX_NURSERY_HARD_MAX :: int where "FX_NURSERY_HARD_MAX = 64"

lemmas nursery_codes = FX_NURSERY_OK_def FX_NURSERY_ERR_def FX_NURSERY_FULL_def
  FX_NURSERY_DEAD_def FX_NURSERY_TIMEOUT_def

record FxNurserySlot =
  sl_fn :: addr
  sl_arg :: addr
  sl_used :: bool
  sl_joined :: bool

record FxNursery =
  nu_live :: bool
  nu_cancel :: bool
  nu_n :: nat
  nu_cap :: nat
  nu_slots :: "FxNurserySlot list"

definition zero_slot :: FxNurserySlot where
  "zero_slot = \<lparr>sl_fn = 0, sl_arg = 0, sl_used = False, sl_joined = False\<rparr>"

section \<open>The code\<close>

definition fx_nursery_create_sized :: "bool \<Rightarrow> bool \<Rightarrow> bool \<Rightarrow> i32 \<Rightarrow> FxNursery option" where
  "fx_nursery_create_sized calloc_n calloc_slots mutex_ok max_tasks =
     (if sint max_tasks < 1 \<or> sint max_tasks > FX_NURSERY_HARD_MAX then None
      else if \<not> calloc_n then None
      else if \<not> calloc_slots then None
      else if \<not> mutex_ok then None
      else Some \<lparr>nu_live = True, nu_cancel = False, nu_n = 0, nu_cap = nat (sint max_tasks),
                 nu_slots = replicate (nat (sint max_tasks)) zero_slot\<rparr>)"

definition fx_nursery_create :: "bool \<Rightarrow> bool \<Rightarrow> bool \<Rightarrow> FxNursery option" where
  "fx_nursery_create a b m = fx_nursery_create_sized a b m FX_NURSERY_DEFAULT_MAX"

definition fx_nursery_capacity :: "FxNursery option \<Rightarrow> nat" where
  "fx_nursery_capacity p = (case p of None \<Rightarrow> 0 | Some n \<Rightarrow> nu_cap n)"

definition fx_nursery_is_live :: "FxNursery option \<Rightarrow> bool" where
  "fx_nursery_is_live p = (case p of None \<Rightarrow> False | Some n \<Rightarrow> nu_live n)"

definition fx_nursery_cancel_requested :: "FxNursery option \<Rightarrow> bool" where
  "fx_nursery_cancel_requested p = (case p of None \<Rightarrow> False | Some n \<Rightarrow> nu_cancel n)"

fun pending_from :: "FxNursery \<Rightarrow> nat list \<Rightarrow> nat \<Rightarrow> nat option" where
  "pending_from n [] p = Some p"
| "pending_from n (i # is) p =
     do { s \<leftarrow> aget (nu_slots n) i;
          pending_from n is (if sl_used s \<and> \<not> sl_joined s then p + 1 else p) }"

definition fx_nursery_pending :: "FxNursery option \<Rightarrow> nat option" where
  "fx_nursery_pending p = (case p of None \<Rightarrow> Some 0 | Some n \<Rightarrow> pending_from n [0..<nu_n n] 0)"

definition fx_nursery_request_cancel :: "FxNursery option \<Rightarrow> int \<times> FxNursery option" where
  "fx_nursery_request_cancel p =
     (case p of None \<Rightarrow> (FX_NURSERY_ERR, None)
      | Some n \<Rightarrow> if \<not> nu_live n then (FX_NURSERY_DEAD, Some n)
                  else (FX_NURSERY_OK, Some (n\<lparr>nu_cancel := True\<rparr>)))"

text \<open>\<open>create_ok\<close> is whether \<open>pthread_create\<close> succeeds.\<close>

definition spawn_cs :: "FxNursery \<Rightarrow> addr \<Rightarrow> addr \<Rightarrow> bool \<Rightarrow> (int \<times> FxNursery) option" where
  "spawn_cs n fn arg create_ok =
     (if \<not> nu_live n then Some (FX_NURSERY_DEAD, n)
      else if nu_n n \<ge> nu_cap n then Some (FX_NURSERY_FULL, n)
      else do {
        slots \<leftarrow> aset (nu_slots n) (nu_n n)
          \<lparr>sl_fn = fn, sl_arg = arg, sl_used = True, sl_joined = False\<rparr>;
        if \<not> create_ok then do {
          slots \<leftarrow> aset slots (nu_n n) \<lparr>sl_fn = fn, sl_arg = arg, sl_used = False, sl_joined = False\<rparr>;
          Some (FX_NURSERY_ERR, n\<lparr>nu_slots := slots\<rparr>) }
        else Some (FX_NURSERY_OK, n\<lparr>nu_slots := slots, nu_n := nu_n n + 1\<rparr>) })"

text \<open>
  The thread of a slot runs the trampoline on it; \<open>call\<close> is what a call of a task function
  with its argument does.
\<close>

definition fx_nursery_tramp :: "(addr \<Rightarrow> addr \<Rightarrow> 'r) \<Rightarrow> FxNurserySlot \<Rightarrow> 'r" where
  "fx_nursery_tramp call s = call (sl_fn s) (sl_arg s)"

definition fx_nursery_spawn :: "FxNursery option \<Rightarrow> addr \<Rightarrow> addr \<Rightarrow> bool \<Rightarrow> (int \<times> FxNursery option) option" where
  "fx_nursery_spawn p fn arg create_ok =
     (case p of None \<Rightarrow> Some (FX_NURSERY_ERR, None)
      | Some n \<Rightarrow> if fn = 0 then Some (FX_NURSERY_ERR, p)
                  else map_option (map_prod id Some) (spawn_cs n fn arg create_ok))"

text \<open>
  The loop of both joins while the lock is held: the first slot from \<open>i\<close> on whose task still
  has to be joined, or None at the end of the table.
\<close>

function next_unjoined :: "FxNursery \<Rightarrow> nat \<Rightarrow> nat option option" where
  "next_unjoined n i =
     (if i < nu_n n then
        do { s \<leftarrow> aget (nu_slots n) i;
             if \<not> sl_used s \<or> sl_joined s then next_unjoined n (i + 1) else Some (Some i) }
      else Some None)"
  by pat_completeness auto
termination by (relation "measure (\<lambda>(n, i). nu_n n - i)") auto

declare next_unjoined.simps [simp del]

definition set_joined :: "nat \<Rightarrow> FxNursery \<Rightarrow> FxNursery option" where
  "set_joined i n =
     do { s \<leftarrow> aget (nu_slots n) i;
          slots \<leftarrow> aset (nu_slots n) i (s\<lparr>sl_joined := True\<rparr>);
          Some (n\<lparr>nu_slots := slots\<rparr>) }"

text \<open>
  How the wait of a join ends: the thread is joined, the time is over, the wait fails, or the
  clock cannot be read. The untimed join ignores what \<open>pthread_join\<close> says.
\<close>

datatype wait = Joined | TimedOut | WaitFailed | NoClock

definition fx_nursery_join_one :: "bool \<Rightarrow> wait \<Rightarrow> nat \<Rightarrow> FxNursery \<Rightarrow> (int \<times> FxNursery) option" where
  "fx_nursery_join_one use_timeout w i n =
     (if \<not> use_timeout then map_option (Pair FX_NURSERY_OK) (set_joined i n)
      else case w of
        NoClock \<Rightarrow> Some (FX_NURSERY_ERR, n)
      | Joined \<Rightarrow> map_option (Pair FX_NURSERY_OK) (set_joined i n)
      | TimedOut \<Rightarrow> Some (FX_NURSERY_TIMEOUT, n)
      | WaitFailed \<Rightarrow> Some (FX_NURSERY_ERR, n))"

text \<open>The deadline of a timed join, \<open>now\<close> plus the timeout, as seconds and nanoseconds.\<close>

definition join_deadline :: "int \<times> int \<Rightarrow> u32 \<Rightarrow> int \<times> int" where
  "join_deadline now timeout_ms =
     (let sec = fst now + int (unat (timeout_ms div 1000));
          nsec = snd now + int (unat (timeout_ms mod 1000)) * 1000000 in
      if nsec \<ge> 1000000000 then (sec + 1, nsec - 1000000000) else (sec, nsec))"

section \<open>Supervision\<close>

definition FX_SUP_ONE_FOR_ONE :: int where "FX_SUP_ONE_FOR_ONE = 1"
definition FX_SUP_ONE_FOR_ALL :: int where "FX_SUP_ONE_FOR_ALL = 2"
definition FX_SUP_REST_FOR_ONE :: int where "FX_SUP_REST_FOR_ONE = 3"
definition FX_SUP_ESCALATE :: int where "FX_SUP_ESCALATE = 4"

lemmas sup_codes = FX_SUP_ONE_FOR_ONE_def FX_SUP_ONE_FOR_ALL_def FX_SUP_REST_FOR_ONE_def
  FX_SUP_ESCALATE_def

definition fx_supervise_normalize_policy :: "int \<Rightarrow> int" where
  "fx_supervise_normalize_policy policy =
     (if policy = FX_SUP_ONE_FOR_ONE \<or> policy = FX_SUP_ONE_FOR_ALL \<or>
         policy = FX_SUP_REST_FOR_ONE \<or> policy = FX_SUP_ESCALATE then policy
      else FX_SUP_ONE_FOR_ONE)"

definition fx_supervise_apply :: "FxNursery option \<Rightarrow> int \<Rightarrow> int \<Rightarrow> int \<times> FxNursery option" where
  "fx_supervise_apply n policy child_ok =
     (let p = fx_supervise_normalize_policy policy in
      if child_ok = 0 then (FX_NURSERY_OK, n)
      else if p = FX_SUP_ONE_FOR_ALL \<or> p = FX_SUP_REST_FOR_ONE then
        (if n = None then (FX_NURSERY_ERR, n) else fx_nursery_request_cancel n)
      else if p = FX_SUP_ESCALATE then (FX_SUP_ESCALATE, n)
      else (FX_NURSERY_OK, n))"

section \<open>The system\<close>

text \<open>
  Where the owner is between two critical sections: outside the API, waiting in
  \<open>pthread_join\<close> for a slot, in \<open>fx_nursery_shutdown\<close> after it has set the cancel flag, or
  there after its \<open>join_all\<close> has returned, or past \<open>fx_nursery_destroy\<close>. With one owner
  the shutdown that \<open>destroy\<close> calls on a live nursery is the shutdown below, so the step of
  \<open>destroy\<close> is its end, where the nursery is no longer live and the object and its slots are
  freed. What the record of a freed nursery still holds is history, not memory: a thread reads its
  slot through \<open>slot_ref\<close>, which is undefined from then on.
\<close>

datatype join_kind = JoinAll | JoinTimed | ShutJoin
datatype owner = OIdle | InJoin join_kind nat | ShutCancelled | ShutJoined | ODestroyed

record nsys =
  ns_nur :: FxNursery
  ns_done :: "nat set"
  ns_owner :: owner
  ns_last :: int

definition slot_ref :: "nsys \<Rightarrow> nat \<Rightarrow> FxNurserySlot option" where
  "slot_ref s i = (if ns_owner s = ODestroyed then None else aget (nu_slots (ns_nur s)) i)"

datatype nlabel = LSpawn | LCancel | LFinish nat | LOwner

text \<open>
  The owner's sections. Its joins start with the test of \<open>live\<close> and go to the first slot to
  wait for; after a wait they return its error or go on to the next slot. \<open>after_scan\<close> is what
  follows the loop: the wait for slot \<open>j\<close>, or the return of OK.
\<close>

definition after_scan :: "join_kind \<Rightarrow> nat option \<Rightarrow> FxNursery \<Rightarrow> nsys \<Rightarrow> nsys" where
  "after_scan k r n s =
     (case r of
        Some j \<Rightarrow> s\<lparr>ns_nur := n, ns_owner := InJoin k j\<rparr>
      | None \<Rightarrow> if k = ShutJoin then s\<lparr>ns_nur := n, ns_owner := ShutJoined\<rparr>
                else s\<lparr>ns_nur := n, ns_owner := OIdle, ns_last := FX_NURSERY_OK\<rparr>)"

definition start_join :: "join_kind \<Rightarrow> nsys \<Rightarrow> nsys option" where
  "start_join k s =
     (let n = ns_nur s in
      if \<not> nu_live n then Some (s\<lparr>ns_owner := OIdle, ns_last := FX_NURSERY_DEAD\<rparr>)
      else do { r \<leftarrow> next_unjoined n 0; Some (after_scan k r n s) })"

definition after_wait :: "join_kind \<Rightarrow> wait \<Rightarrow> nat \<Rightarrow> nsys \<Rightarrow> nsys option" where
  "after_wait k w i s =
     do { (rc, n) \<leftarrow> fx_nursery_join_one (k = JoinTimed) w i (ns_nur s);
          if rc \<noteq> FX_NURSERY_OK then Some (s\<lparr>ns_nur := n, ns_owner := OIdle, ns_last := rc\<rparr>)
          else do { r \<leftarrow> next_unjoined n (i + 1); Some (after_scan k r n s) } }"

definition shutdown_first :: "nsys \<Rightarrow> nsys" where
  "shutdown_first s =
     (if \<not> nu_live (ns_nur s) then s\<lparr>ns_last := FX_NURSERY_DEAD\<rparr>
      else s\<lparr>ns_nur := (ns_nur s)\<lparr>nu_cancel := True\<rparr>, ns_owner := ShutCancelled\<rparr>)"

definition shutdown_last :: "nsys \<Rightarrow> nsys" where
  "shutdown_last s =
     s\<lparr>ns_nur := (ns_nur s)\<lparr>nu_live := False\<rparr>, ns_owner := OIdle, ns_last := FX_NURSERY_OK\<rparr>"

text \<open>
  One step of the system. A thread that spawns or cancels runs one critical section; a task
  ends at any time; a wait that joins slot \<open>i\<close> returns only when its task has ended.
\<close>

inductive n_step :: "nlabel \<Rightarrow> nsys \<Rightarrow> nsys \<Rightarrow> bool" where
  st_spawn: "fx_nursery_spawn (Some (ns_nur s)) fn arg create_ok = Some (rc, Some n) \<Longrightarrow>
    ns_owner s \<noteq> ODestroyed \<Longrightarrow> n_step LSpawn s (s\<lparr>ns_nur := n\<rparr>)"
| st_cancel: "fx_nursery_request_cancel (Some (ns_nur s)) = (rc, Some n) \<Longrightarrow>
    ns_owner s \<noteq> ODestroyed \<Longrightarrow> n_step LCancel s (s\<lparr>ns_nur := n\<rparr>)"
| st_finish: "i < nu_n (ns_nur s) \<Longrightarrow> n_step (LFinish i) s (s\<lparr>ns_done := insert i (ns_done s)\<rparr>)"
| st_join: "ns_owner s = OIdle \<Longrightarrow> k = JoinAll \<or> k = JoinTimed \<Longrightarrow> start_join k s = Some s' \<Longrightarrow>
    n_step LOwner s s'"
| st_wait: "ns_owner s = InJoin k i \<Longrightarrow> w \<noteq> Joined \<longrightarrow> k = JoinTimed \<Longrightarrow> w = Joined \<longrightarrow> i \<in> ns_done s \<Longrightarrow>
    after_wait k w i s = Some s' \<Longrightarrow> n_step LOwner s s'"
| st_shutdown: "ns_owner s = OIdle \<Longrightarrow> n_step LOwner s (shutdown_first s)"
| st_shut_join: "ns_owner s = ShutCancelled \<Longrightarrow> start_join ShutJoin s = Some s' \<Longrightarrow> n_step LOwner s s'"
| st_shut_done: "ns_owner s = ShutJoined \<Longrightarrow> n_step LOwner s (shutdown_last s)"
| st_destroy: "ns_owner s = OIdle \<Longrightarrow> \<not> nu_live (ns_nur s) \<Longrightarrow>
    n_step LOwner s (s\<lparr>ns_owner := ODestroyed\<rparr>)"

inductive_cases n_step_ownerE: "n_step LOwner s s'"
inductive_cases n_step_spawnE: "n_step LSpawn s s'"

text \<open>
  The section that ends \<open>fx_nursery_join_all\<close> or the timed join: the first one when there is
  nothing to wait for, or the one after the last wait.
\<close>

inductive join_returns :: "nsys \<Rightarrow> nsys \<Rightarrow> bool" where
  jr_at_once: "ns_owner s = OIdle \<Longrightarrow> k = JoinAll \<or> k = JoinTimed \<Longrightarrow> start_join k s = Some s' \<Longrightarrow>
    ns_owner s' = OIdle \<Longrightarrow> join_returns s s'"
| jr_after_wait: "ns_owner s = InJoin k i \<Longrightarrow> k = JoinAll \<or> k = JoinTimed \<Longrightarrow> w \<noteq> Joined \<longrightarrow> k = JoinTimed \<Longrightarrow>
    w = Joined \<longrightarrow> i \<in> ns_done s \<Longrightarrow> after_wait k w i s = Some s' \<Longrightarrow> ns_owner s' = OIdle \<Longrightarrow> join_returns s s'"

definition n_init :: "FxNursery \<Rightarrow> nsys" where
  "n_init n = \<lparr>ns_nur = n, ns_done = {}, ns_owner = OIdle, ns_last = FX_NURSERY_OK\<rparr>"

text \<open>Runs in which every step is one that \<open>may\<close> permits.\<close>

inductive n_reach :: "(nsys \<Rightarrow> nlabel \<Rightarrow> bool) \<Rightarrow> FxNursery \<Rightarrow> nsys \<Rightarrow> bool" for may n where
  nr_init: "n_reach may n (n_init n)"
| nr_step: "n_reach may n s \<Longrightarrow> n_step l s s' \<Longrightarrow> may s l \<Longrightarrow> n_reach may n s'"

section \<open>The invariant\<close>

definition joined_upto :: "nat \<Rightarrow> FxNursery \<Rightarrow> bool" where
  "joined_upto k n \<longleftrightarrow> (\<forall>i < k. sl_joined (nu_slots n ! i))"

definition n_ok :: "FxNursery \<Rightarrow> nat set \<Rightarrow> bool" where
  "n_ok n dn \<longleftrightarrow> nu_cap n \<le> 64 \<and> length (nu_slots n) = nu_cap n \<and> nu_n n \<le> nu_cap n \<and>
     (\<forall>i < nu_n n. sl_used (nu_slots n ! i)) \<and>
     (\<forall>i < nu_n n. sl_joined (nu_slots n ! i) \<longrightarrow> i \<in> dn)"

definition owner_ok :: "owner \<Rightarrow> FxNursery \<Rightarrow> bool" where
  "owner_ok w n = (case w of
     InJoin k j \<Rightarrow> j < nu_n n \<and> joined_upto j n \<and> nu_live n
   | ShutCancelled \<Rightarrow> nu_live n
   | ShutJoined \<Rightarrow> nu_live n
   | OIdle \<Rightarrow> True
   | ODestroyed \<Rightarrow> \<not> nu_live n)"

definition n_inv :: "nsys \<Rightarrow> bool" where
  "n_inv s \<longleftrightarrow> n_ok (ns_nur s) (ns_done s) \<and> owner_ok (ns_owner s) (ns_nur s)"

lemma next_unjoined_spec:
  assumes "nu_n n \<le> length (nu_slots n)" and "\<forall>i < nu_n n. sl_used (nu_slots n ! i)"
    and "joined_upto i n" and "i \<le> nu_n n"
  shows "\<exists>r. next_unjoined n i = Some r \<and>
    (case r of None \<Rightarrow> joined_upto (nu_n n) n
     | Some j \<Rightarrow> i \<le> j \<and> j < nu_n n \<and> joined_upto j n \<and> \<not> sl_joined (nu_slots n ! j))"
  using assms
proof (induction "nu_n n - i" arbitrary: i)
  case 0
  then have "i = nu_n n" by simp
  with 0 show ?case by (subst next_unjoined.simps) simp
next
  case (Suc d)
  then have i: "i < nu_n n" "i < length (nu_slots n)" by simp_all
  show ?case
  proof (cases "sl_joined (nu_slots n ! i)")
    case True
    have "joined_upto (Suc i) n" using Suc.prems(3) True by (auto simp: joined_upto_def less_Suc_eq)
    with Suc.hyps(1) [of "Suc i"] Suc.hyps(2) Suc.prems(1,2) i(1)
    have "\<exists>r. next_unjoined n (Suc i) = Some r \<and> (case r of None \<Rightarrow> joined_upto (nu_n n) n
      | Some j \<Rightarrow> Suc i \<le> j \<and> j < nu_n n \<and> joined_upto j n \<and> \<not> sl_joined (nu_slots n ! j))"
      by simp
    then obtain r where "next_unjoined n (Suc i) = Some r"
      "case r of None \<Rightarrow> joined_upto (nu_n n) n
       | Some j \<Rightarrow> Suc i \<le> j \<and> j < nu_n n \<and> joined_upto j n \<and> \<not> sl_joined (nu_slots n ! j)" by blast
    with True i show ?thesis
      by (subst next_unjoined.simps) (auto simp: array_simps split: option.splits)
  next
    case False
    with Suc.prems i show ?thesis by (subst next_unjoined.simps) (simp add: array_simps)
  qed
qed

lemma spawn_cs_cases:
  assumes "nu_n n \<le> nu_cap n" and "length (nu_slots n) = nu_cap n"
  obtains (dead) "\<not> nu_live n" "spawn_cs n fn arg ok = Some (FX_NURSERY_DEAD, n)"
  | (full) "nu_live n" "nu_n n = nu_cap n" "spawn_cs n fn arg ok = Some (FX_NURSERY_FULL, n)"
  | (err) sl where "nu_live n" "nu_n n < nu_cap n" "\<not> ok" "spawn_cs n fn arg ok =
        Some (FX_NURSERY_ERR, n\<lparr>nu_slots := (nu_slots n)[nu_n n := sl]\<rparr>)"
  | (done_ok) "nu_live n" "nu_n n < nu_cap n" ok "spawn_cs n fn arg ok =
        Some (FX_NURSERY_OK, n\<lparr>nu_slots := (nu_slots n)[nu_n n :=
          \<lparr>sl_fn = fn, sl_arg = arg, sl_used = True, sl_joined = False\<rparr>], nu_n := nu_n n + 1\<rparr>)"
proof -
  consider "\<not> nu_live n" | "nu_live n" "nu_n n = nu_cap n" | "nu_live n" "nu_n n < nu_cap n" "\<not> ok"
    | "nu_live n" "nu_n n < nu_cap n" ok using assms(1) by linarith
  then show ?thesis
  proof cases
    case 1
    then show ?thesis using dead by (simp add: spawn_cs_def)
  next
    case 2
    then show ?thesis using full by (simp add: spawn_cs_def)
  next
    case 3
    then show ?thesis using err assms by (simp add: spawn_cs_def array_simps)
  next
    case 4
    then show ?thesis using done_ok assms by (simp add: spawn_cs_def array_simps)
  qed
qed

lemma n_ok_scan:
  assumes "n_ok n dn" and "next_unjoined n i = Some r" and "joined_upto i n" and "i \<le> nu_n n"
  shows "case r of None \<Rightarrow> joined_upto (nu_n n) n
    | Some j \<Rightarrow> i \<le> j \<and> j < nu_n n \<and> joined_upto j n \<and> \<not> sl_joined (nu_slots n ! j)"
  using next_unjoined_spec [of n i] assms by (auto simp: n_ok_def)

lemma n_ok_scan_total:
  "n_ok n dn \<Longrightarrow> joined_upto i n \<Longrightarrow> i \<le> nu_n n \<Longrightarrow> \<exists>r. next_unjoined n i = Some r"
  using next_unjoined_spec [of n i] by (auto simp: n_ok_def)

lemma joined_upto_0 [simp]: "joined_upto 0 n"
  by (simp add: joined_upto_def)

lemma joined_upto_slot:
  "joined_upto k n \<Longrightarrow> k \<le> i \<Longrightarrow> joined_upto k (n\<lparr>nu_slots := (nu_slots n)[i := sl]\<rparr>)"
  by (simp add: joined_upto_def)

lemma joined_upto_n [simp]: "joined_upto k (n\<lparr>nu_n := m\<rparr>) = joined_upto k n"
  by (simp add: joined_upto_def)

lemma joined_upto_flags [simp]:
  "joined_upto k (n\<lparr>nu_cancel := c\<rparr>) = joined_upto k n"
  "joined_upto k (n\<lparr>nu_live := c\<rparr>) = joined_upto k n"
  by (simp_all add: joined_upto_def)

lemma n_ok_flags [simp]:
  "n_ok (n\<lparr>nu_cancel := c\<rparr>) dn = n_ok n dn" "n_ok (n\<lparr>nu_live := c\<rparr>) dn = n_ok n dn"
  by (simp_all add: n_ok_def)

lemma n_ok_spawn_slot:
  "n_ok n dn \<Longrightarrow> n_ok (n\<lparr>nu_slots := (nu_slots n)[nu_n n := sl]\<rparr>) dn"
  by (simp add: n_ok_def)

lemma n_ok_spawn_new:
  "n_ok n dn \<Longrightarrow> nu_n n < nu_cap n \<Longrightarrow> sl_used sl \<Longrightarrow> \<not> sl_joined sl \<Longrightarrow>
     n_ok (n\<lparr>nu_slots := (nu_slots n)[nu_n n := sl], nu_n := nu_n n + 1\<rparr>) dn"
  by (auto simp: n_ok_def nth_list_update less_Suc_eq)

text \<open>What a spawn does to the table: nothing below the count, and one slot at most.\<close>

lemma spawn_effect:
  assumes ok: "n_ok n dn" and e: "fx_nursery_spawn (Some n) fn arg ok = Some (rc, Some n')"
  shows "n_ok n' dn \<and> nu_live n' = nu_live n \<and> nu_n n \<le> nu_n n' \<and> (\<forall>k \<le> nu_n n. joined_upto k n \<longrightarrow> joined_upto k n') \<and>
    (\<not> nu_live n \<longrightarrow> n' = n)"
proof (cases "fn = 0")
  case True
  with e ok show ?thesis by (simp add: fx_nursery_spawn_def)
next
  case False
  have b: "nu_n n \<le> nu_cap n" "length (nu_slots n) = nu_cap n" using ok by (simp_all add: n_ok_def)
  have cs: "spawn_cs n fn arg ok = Some (rc, n')" using e False by (auto simp: fx_nursery_spawn_def)
  show ?thesis
  proof (cases rule: spawn_cs_cases [OF b, where fn = fn and arg = arg and ok = ok])
    case 1
    with cs ok show ?thesis by simp
  next
    case 2
    with cs ok show ?thesis by simp
  next
    case (3 sl)
    then have "n' = n\<lparr>nu_slots := (nu_slots n)[nu_n n := sl]\<rparr>" using cs by simp
    then show ?thesis using 3 ok by (simp add: n_ok_spawn_slot joined_upto_slot)
  next
    case 4
    then have "n' = n\<lparr>nu_slots := (nu_slots n)[nu_n n :=
      \<lparr>sl_fn = fn, sl_arg = arg, sl_used = True, sl_joined = False\<rparr>], nu_n := nu_n n + 1\<rparr>"
      using cs by simp
    then show ?thesis using 4 n_ok_spawn_new [OF ok] by (simp add: joined_upto_slot)
  qed
qed

lemma set_joined_effect:
  assumes ok: "n_ok n dn" and i: "i < nu_n n" "i \<in> dn" and e: "set_joined i n = Some n'"
  shows "n_ok n' dn \<and> nu_live n' = nu_live n \<and> nu_n n' = nu_n n \<and>
    (joined_upto i n \<longrightarrow> joined_upto (Suc i) n')"
proof -
  have l: "i < length (nu_slots n)" using ok i by (simp add: n_ok_def)
  then have n': "n' = n\<lparr>nu_slots := (nu_slots n)[i := (nu_slots n ! i)\<lparr>sl_joined := True\<rparr>]\<rparr>"
    using e by (simp add: set_joined_def array_simps)
  have "n_ok n' dn" using ok i l unfolding n' n_ok_def by (auto simp: nth_list_update)
  moreover have "joined_upto i n \<longrightarrow> joined_upto (Suc i) n'"
    using l unfolding n' joined_upto_def by (auto simp: nth_list_update less_Suc_eq)
  ultimately show ?thesis by (simp add: n')
qed

lemma after_scan_inv:
  assumes "n_ok n (ns_done s)" and "next_unjoined n i = Some r" and "joined_upto i n" and "i \<le> nu_n n"
    and "nu_live n"
  shows "n_inv (after_scan k r n s)"
  using n_ok_scan [OF assms(1-4)] assms(1,5)
  by (auto simp: n_inv_def after_scan_def owner_ok_def split: option.splits)

text \<open>What a join does when it starts, and after a wait.\<close>

lemma start_join_cases:
  assumes "start_join k s = Some s'"
  obtains (dead) "\<not> nu_live (ns_nur s)" "s' = s\<lparr>ns_owner := OIdle, ns_last := FX_NURSERY_DEAD\<rparr>"
  | (scan) r where "nu_live (ns_nur s)" "next_unjoined (ns_nur s) 0 = Some r"
      "s' = after_scan k r (ns_nur s) s"
  using assms by (auto simp: start_join_def Let_def split: if_splits bind_splits)

lemma after_wait_cases:
  assumes "after_wait k w i s = Some s'" and "w \<noteq> Joined \<longrightarrow> k = JoinTimed"
  obtains (gave_up) "k = JoinTimed" "ns_last s' \<noteq> FX_NURSERY_OK" "w \<noteq> Joined"
      "s' = s\<lparr>ns_owner := OIdle, ns_last := ns_last s'\<rparr>"
  | (scan) n r where "w = Joined" "set_joined i (ns_nur s) = Some n" "next_unjoined n (i + 1) = Some r"
      "s' = after_scan k r n s"
proof (cases w)
  case Joined
  then obtain n where "set_joined i (ns_nur s) = Some n"
    using assms(1) by (cases "set_joined i (ns_nur s)") (auto simp: after_wait_def fx_nursery_join_one_def split: if_splits)
  with Joined scan show ?thesis using assms(1)
    by (auto simp: after_wait_def fx_nursery_join_one_def split: if_splits bind_splits)
qed (use assms gave_up in \<open>auto simp: after_wait_def fx_nursery_join_one_def nursery_codes\<close>)

text \<open>The invariant holds whatever the threads do.\<close>

lemma start_join_inv:
  assumes "start_join k s = Some s'" and "n_inv s" and "ns_owner s \<noteq> ODestroyed"
  shows "n_inv s'"
  using assms(1)
proof (cases rule: start_join_cases)
  case dead
  then show ?thesis using assms(2) by (simp add: n_inv_def owner_ok_def)
next
  case (scan r)
  then show ?thesis using assms(2) after_scan_inv [of "ns_nur s" s 0 r k] by (simp add: n_inv_def)
qed

lemma after_wait_inv:
  assumes "after_wait k w i s = Some s'" and "w \<noteq> Joined \<longrightarrow> k = JoinTimed"
    and "w = Joined \<longrightarrow> i \<in> ns_done s" and "n_inv s" and "ns_owner s = InJoin k i"
  shows "n_inv s'"
  using assms(1,2)
proof (cases rule: after_wait_cases)
  case gave_up
  have "n_inv (s\<lparr>ns_owner := OIdle, ns_last := ns_last s'\<rparr>)" using assms(4) by (simp add: n_inv_def owner_ok_def)
  then show ?thesis using gave_up(4) by simp
next
  case (scan n r)
  then have ok: "n_ok (ns_nur s) (ns_done s)" "i < nu_n (ns_nur s)" "joined_upto i (ns_nur s)"
    "nu_live (ns_nur s)" using assms(4,5) by (auto simp: n_inv_def owner_ok_def)
  with set_joined_effect [OF ok(1,2) _ scan(2)] scan assms(3) show ?thesis
    by (auto intro!: after_scan_inv)
qed

lemma n_inv_step: "n_step l s s' \<Longrightarrow> n_inv s \<Longrightarrow> n_inv s'"
proof (induction rule: n_step.induct)
  case (st_spawn s fn arg create_ok rc n)
  then have ok: "n_ok (ns_nur s) (ns_done s)" by (simp add: n_inv_def)
  from spawn_effect [OF this st_spawn(1)] st_spawn(3) show ?case
    by (auto simp: n_inv_def owner_ok_def split: owner.splits)
next
  case (st_cancel s rc n)
  then show ?case
    by (auto simp: n_inv_def owner_ok_def fx_nursery_request_cancel_def split: owner.splits if_splits)
next
  case (st_finish i s)
  then show ?case by (auto simp: n_inv_def n_ok_def)
next
  case (st_join s k s')
  then show ?case by (auto intro: start_join_inv)
next
  case (st_wait s k i w s')
  then show ?case by (auto intro: after_wait_inv)
next
  case (st_shut_join s s')
  then show ?case by (auto intro: start_join_inv)
qed (auto simp: n_inv_def owner_ok_def shutdown_first_def shutdown_last_def)

lemma join_returns_step: "join_returns s s' \<Longrightarrow> n_step LOwner s s'"
  by (induction rule: join_returns.induct) (blast intro: st_join st_wait)+

lemma slot_ref_inv:
  "n_inv s \<Longrightarrow> i < nu_n (ns_nur s) \<Longrightarrow>
     slot_ref s i = (if ns_owner s = ODestroyed then None else Some (nu_slots (ns_nur s) ! i))"
  by (simp add: slot_ref_def n_inv_def n_ok_def array_simps)

lemma n_inv_init:
  assumes "fx_nursery_create_sized a b m k = Some n"
  shows "n_inv (n_init n)"
  using assms
  by (auto simp: fx_nursery_create_sized_def n_inv_def n_init_def n_ok_def owner_ok_def FX_NURSERY_HARD_MAX_def
      split: if_splits)

lemma n_inv_reach:
  assumes "n_reach may n s" and "n_inv (n_init n)"
  shows "n_inv s"
  using assms by induction (auto dest: n_inv_step)

end
