(* ===== verification/NurseryTheorems.thy ===== *)
theory NurseryTheorems
  imports Nursery
begin

text \<open>
  What the nursery promises: shutdown leaves no task behind (as long as no thread spawns in
  the window after its join), a join that returns OK has joined every task, joins make
  progress, and each operation answers on every branch.
\<close>

section \<open>Shutdown\<close>

text \<open>No thread spawns between the join inside shutdown and the end of shutdown.\<close>

definition quiet :: "nsys \<Rightarrow> nlabel \<Rightarrow> bool" where
  "quiet s l \<longleftrightarrow> (l = LSpawn \<longrightarrow> ns_owner s \<noteq> ShutJoined)"

definition anyone :: "nsys \<Rightarrow> nlabel \<Rightarrow> bool" where
  "anyone s l \<longleftrightarrow> True"

definition all_joined :: "FxNursery \<Rightarrow> bool" where
  "all_joined n \<longleftrightarrow> joined_upto (nu_n n) n"

definition closed_ok :: "nsys \<Rightarrow> bool" where
  "closed_ok s \<longleftrightarrow> (\<not> nu_live (ns_nur s) \<or> ns_owner s = ShutJoined \<longrightarrow> all_joined (ns_nur s))"

lemma all_joined_flags [simp]:
  "all_joined (n\<lparr>nu_cancel := c\<rparr>) = all_joined n" "all_joined (n\<lparr>nu_live := c\<rparr>) = all_joined n"
  by (simp_all add: all_joined_def)

lemma after_scan_closed:
  assumes "n_ok n (ns_done s)" and "next_unjoined n i = Some r" and "joined_upto i n" and "i \<le> nu_n n"
    and "nu_live n"
  shows "closed_ok (after_scan k r n s)"
  using n_ok_scan [OF assms(1-4)] assms(5)
  by (auto simp: closed_ok_def after_scan_def all_joined_def split: option.splits)

lemma start_join_closed:
  assumes "start_join k s = Some s'" and "n_inv s" and "closed_ok s"
  shows "closed_ok s'"
  using assms(1)
proof (cases rule: start_join_cases)
  case dead
  then show ?thesis using assms(3) by (simp add: closed_ok_def)
next
  case (scan r)
  then show ?thesis using assms(2) by (auto intro: after_scan_closed simp: n_inv_def)
qed

lemma after_wait_closed:
  assumes "after_wait k w i s = Some s'" and "w \<noteq> Joined \<longrightarrow> k = JoinTimed"
    and "w = Joined \<longrightarrow> i \<in> ns_done s" and "n_inv s" and "ns_owner s = InJoin k i" and "closed_ok s"
  shows "closed_ok s'"
  using assms(1,2)
proof (cases rule: after_wait_cases)
  case gave_up
  have "closed_ok (s\<lparr>ns_owner := OIdle, ns_last := ns_last s'\<rparr>)" if "ns_owner s \<noteq> ShutJoined"
    using assms(6) by (simp add: closed_ok_def)
  then show ?thesis using gave_up(4) assms(5) by simp
next
  case (scan n r)
  then have ok: "n_ok (ns_nur s) (ns_done s)" "i < nu_n (ns_nur s)" "joined_upto i (ns_nur s)"
    "nu_live (ns_nur s)" using assms(4,5) by (auto simp: n_inv_def owner_ok_def)
  with set_joined_effect [OF ok(1,2) _ scan(2)] scan assms(3) show ?thesis
    by (auto intro!: after_scan_closed)
qed

lemma closed_ok_step: "n_step l s s' \<Longrightarrow> n_inv s \<Longrightarrow> quiet s l \<Longrightarrow> closed_ok s \<Longrightarrow> closed_ok s'"
proof (induction rule: n_step.induct)
  case (st_spawn s fn arg create_ok rc n)
  then have "n_ok (ns_nur s) (ns_done s)" by (simp add: n_inv_def)
  from spawn_effect [OF this st_spawn(1)] st_spawn show ?case
    by (auto simp: closed_ok_def quiet_def)
next
  case (st_cancel s rc n)
  then show ?case by (auto simp: closed_ok_def fx_nursery_request_cancel_def split: if_splits)
next
  case (st_join s k s')
  then show ?case by (auto intro: start_join_closed)
next
  case (st_wait s k i w s')
  then show ?case by (auto intro: after_wait_closed)
next
  case (st_shut_join s s')
  then show ?case by (auto intro: start_join_closed)
qed (auto simp: closed_ok_def shutdown_first_def shutdown_last_def)

lemma closed_ok_reach:
  assumes "n_reach quiet n s" and "n_inv (n_init n)" and "nu_live n"
  shows "closed_ok s"
  using assms(1)
proof induction
  case nr_init
  then show ?case using assms(3) by (simp add: closed_ok_def n_init_def)
next
  case (nr_step s l s')
  then show ?case using closed_ok_step n_inv_reach [OF _ assms(2)] by blast
qed

lemma created_live: "fx_nursery_create_sized a b m k = Some n \<Longrightarrow> nu_live n"
  by (auto simp: fx_nursery_create_sized_def split: if_splits)

lemma joined_done:
  "n_inv s \<Longrightarrow> all_joined (ns_nur s) \<Longrightarrow> i < nu_n (ns_nur s) \<Longrightarrow>
     sl_joined (nu_slots (ns_nur s) ! i) \<and> i \<in> ns_done s"
  by (auto simp: n_inv_def n_ok_def all_joined_def joined_upto_def)

lemma pending_from_eq:
  assumes "nu_n n \<le> length (nu_slots n)" and "\<forall>i < nu_n n. sl_used (nu_slots n ! i)" and "k \<le> nu_n n"
  shows "pending_from n [k..<nu_n n] p = Some (p + card {i. k \<le> i \<and> i < nu_n n \<and> \<not> sl_joined (nu_slots n ! i)})"
  using assms(3)
proof (induction "nu_n n - k" arbitrary: k p)
  case 0
  then have "k = nu_n n" by simp
  then show ?case by simp
next
  case (Suc d)
  let ?S = "\<lambda>k. {i. k \<le> i \<and> i < nu_n n \<and> \<not> sl_joined (nu_slots n ! i)}"
  have k: "k < nu_n n" using Suc.hyps(2) by simp
  then have l: "k < length (nu_slots n)" and u: "sl_used (nu_slots n ! k)" using assms(1,2) by simp_all
  have S: "?S k = (if sl_joined (nu_slots n ! k) then ?S (Suc k) else insert k (?S (Suc k)))"
    using k by (auto simp: Suc_le_eq le_less)
  have f: "finite (?S (Suc k))" by simp
  have card: "card (?S k) = (if sl_joined (nu_slots n ! k) then 0 else 1) + card (?S (Suc k))"
    unfolding S using f by simp
  have IH: "pending_from n [Suc k..<nu_n n] q = Some (q + card (?S (Suc k)))" for q
    using Suc.hyps(1) [of "Suc k" q] Suc.hyps(2) k by simp
  show ?case using k l u card by (simp add: upt_rec [of k] array_simps IH)
qed

lemma pending_eq:
  "n_ok n dn \<Longrightarrow> fx_nursery_pending (Some n) = Some (card {i. i < nu_n n \<and> \<not> sl_joined (nu_slots n ! i)})"
  using pending_from_eq [of n 0 0] by (simp add: fx_nursery_pending_def n_ok_def)

lemma pending_all_joined: "n_ok n dn \<Longrightarrow> all_joined n \<Longrightarrow> fx_nursery_pending (Some n) = Some 0"
  by (auto simp: pending_eq all_joined_def joined_upto_def)

text \<open>The owner's step out of a join that is not given up.\<close>

lemma join_step:
  assumes "n_inv s" and "ns_owner s = InJoin k i" and "n_step LOwner s s'"
  obtains (gave_up) "k = JoinTimed" "ns_owner s' = OIdle" "ns_last s' \<noteq> FX_NURSERY_OK"
  | (ended) "i \<in> ns_done s" "ns_owner s' = (if k = ShutJoin then ShutJoined else OIdle)" "all_joined (ns_nur s')"
  | (next_slot) j where "i \<in> ns_done s" "ns_owner s' = InJoin k j" "i < j" "j < nu_n (ns_nur s')"
      "\<not> sl_joined (nu_slots (ns_nur s') ! j)"
proof -
  have ok: "n_ok (ns_nur s) (ns_done s)" "i < nu_n (ns_nur s)" "joined_upto i (ns_nur s)"
    using assms(1,2) by (auto simp: n_inv_def owner_ok_def)
  have "\<exists>w. (w \<noteq> Joined \<longrightarrow> k = JoinTimed) \<and> (w = Joined \<longrightarrow> i \<in> ns_done s) \<and> after_wait k w i s = Some s'"
    using assms(3) by (cases rule: n_step_ownerE) (use assms(2) in auto)
  then obtain w where w: "w \<noteq> Joined \<longrightarrow> k = JoinTimed" "w = Joined \<longrightarrow> i \<in> ns_done s"
    "after_wait k w i s = Some s'" by blast
  from w(3,1) show ?thesis
  proof (cases rule: after_wait_cases)
    case gave_up
    have "ns_owner s' = OIdle" by (subst gave_up(4)) simp
    with gave_up show ?thesis using that(1) by simp
  next
    case (scan n r)
    have r: "case r of None \<Rightarrow> joined_upto (nu_n n) n
      | Some j \<Rightarrow> Suc i \<le> j \<and> j < nu_n n \<and> joined_upto j n \<and> \<not> sl_joined (nu_slots n ! j)"
      using n_ok_scan [of n "ns_done s" "Suc i" r] set_joined_effect [OF ok(1,2) _ scan(2)] scan w(2) ok
      by simp
    show ?thesis
    proof (cases r)
      case None
      then show ?thesis using r scan w(2) ended by (simp add: after_scan_def all_joined_def split: if_splits)
    next
      case (Some j)
      then show ?thesis using r scan w(2) next_slot [of j] by (simp add: after_scan_def)
    qed
  qed
qed

text \<open>A join that returns OK leaves nothing unjoined.\<close>

lemma join_returns_ok:
  assumes "join_returns s s'" and "n_inv s" and "ns_last s' = FX_NURSERY_OK"
  shows "all_joined (ns_nur s')"
  using assms
proof (induction rule: join_returns.induct)
  case (jr_at_once s k s')
  from jr_at_once(3) show ?case
  proof (cases rule: start_join_cases)
    case dead
    then show ?thesis using jr_at_once(6) by (simp add: nursery_codes)
  next
    case (scan r)
    then show ?thesis using jr_at_once(2,4,5) n_ok_scan [of "ns_nur s" "ns_done s" 0 r]
      by (auto simp: after_scan_def all_joined_def n_inv_def split: option.splits)
  qed
next
  case (jr_after_wait s k i w s')
  have "n_step LOwner s s'" using st_wait [OF jr_after_wait(1,3-5)] .
  then show ?case
    by (rule join_step [OF jr_after_wait(7,1)]) (use jr_after_wait(6,8) in auto)
qed

section \<open>Concrete runs\<close>

definition demo_slot :: "bool \<Rightarrow> FxNurserySlot" where
  "demo_slot j = \<lparr>sl_fn = 7, sl_arg = 0, sl_used = True, sl_joined = j\<rparr>"

definition demo_nursery :: "bool \<Rightarrow> bool \<Rightarrow> FxNurserySlot list \<Rightarrow> FxNursery" where
  "demo_nursery live cancel used = \<lparr>nu_live = live, nu_cancel = cancel, nu_n = length used, nu_cap = 2,
     nu_slots = used @ replicate (2 - length used) zero_slot\<rparr>"

definition nur_demo :: "bool \<Rightarrow> bool \<Rightarrow> FxNurserySlot list \<Rightarrow> nat set \<Rightarrow> owner \<Rightarrow> int \<Rightarrow> nsys" where
  "nur_demo live cancel used dn w rc =
     \<lparr>ns_nur = demo_nursery live cancel used, ns_done = dn, ns_owner = w, ns_last = rc\<rparr>"

lemma replicate_2: "replicate 2 x = [x, x]"
  by (simp add: numeral_2_eq_2)

lemmas demo_nur_defs = replicate_2 nur_demo_def demo_nursery_def demo_slot_def zero_slot_def n_init_def
  fx_nursery_spawn_def spawn_cs_def array_simps next_unjoined.simps after_scan_def set_joined_def
  nursery_codes start_join_def after_wait_def fx_nursery_join_one_def shutdown_first_def shutdown_last_def Let_def

lemma demo_created:
  "fx_nursery_create_sized True True True 2 = Some (demo_nursery True False [])"
  by (simp add: fx_nursery_create_sized_def FX_NURSERY_HARD_MAX_def demo_nursery_def numeral_2_eq_2)

lemma nur_demo_start: "n_init (demo_nursery True False []) = nur_demo True False [] {} OIdle 0"
  by (simp add: demo_nur_defs)

lemma demo_step_spawn:
  "n_step LSpawn (nur_demo True False [] {} OIdle 0) (nur_demo True False [demo_slot False] {} OIdle 0)"
  using st_spawn [of "nur_demo True False [] {} OIdle 0" 7 0 True FX_NURSERY_OK
      "demo_nursery True False [demo_slot False]"]
  by (simp add: demo_nur_defs)

lemma demo_step_finish:
  "n_step (LFinish 0) (nur_demo True False [demo_slot False] {} OIdle 0)
     (nur_demo True False [demo_slot False] {0} OIdle 0)"
  using st_finish [of 0 "nur_demo True False [demo_slot False] {} OIdle 0"] by (simp add: demo_nur_defs)

lemma demo_step_shutdown:
  "n_step LOwner (nur_demo True False u dn OIdle 0) (nur_demo True True u dn ShutCancelled 0)"
  using st_shutdown [of "nur_demo True False u dn OIdle 0"] by (simp add: nur_demo_def demo_nursery_def shutdown_first_def)

lemma demo_step_join:
  "n_step LOwner (nur_demo True True [demo_slot False] {0} ShutCancelled 0)
     (nur_demo True True [demo_slot False] {0} (InJoin ShutJoin 0) 0)"
  using st_shut_join [of "nur_demo True True [demo_slot False] {0} ShutCancelled 0"
      "nur_demo True True [demo_slot False] {0} (InJoin ShutJoin 0) 0"]
  by (simp add: demo_nur_defs)

lemma demo_step_joined:
  "n_step LOwner (nur_demo True True [demo_slot False] {0} (InJoin ShutJoin 0) 0)
     (nur_demo True True [demo_slot True] {0} ShutJoined 0)"
  using st_wait [of "nur_demo True True [demo_slot False] {0} (InJoin ShutJoin 0) 0" ShutJoin 0 Joined
      "nur_demo True True [demo_slot True] {0} ShutJoined 0"]
  by (simp add: demo_nur_defs)

lemma demo_step_done:
  "n_step LOwner (nur_demo True True u dn ShutJoined 0) (nur_demo False True u dn OIdle 0)"
  using st_shut_done [of "nur_demo True True u dn ShutJoined 0"]
  by (simp add: nur_demo_def demo_nursery_def nursery_codes shutdown_last_def)

lemma demo_step_destroy:
  "n_step LOwner (nur_demo False True u dn OIdle 0) (nur_demo False True u dn ODestroyed 0)"
  using st_destroy [of "nur_demo False True u dn OIdle 0"] by (simp add: nur_demo_def demo_nursery_def)

lemma demo_step_join_empty:
  "n_step LOwner (nur_demo True True [] {} ShutCancelled 0) (nur_demo True True [] {} ShutJoined 0)"
  using st_shut_join [of "nur_demo True True [] {} ShutCancelled 0" "nur_demo True True [] {} ShutJoined 0"] by (simp add: demo_nur_defs)

lemma demo_step_late:
  "n_step LSpawn (nur_demo True True [] {} ShutJoined 0) (nur_demo True True [demo_slot False] {} ShutJoined 0)"
  using st_spawn [of "nur_demo True True [] {} ShutJoined 0" 7 0 True FX_NURSERY_OK
      "demo_nursery True True [demo_slot False]"]
  by (simp add: demo_nur_defs)

lemma demo_pending: "fx_nursery_pending (Some (demo_nursery l c [demo_slot j])) = Some (if j then 0 else 1)"
  by (simp add: fx_nursery_pending_def demo_nur_defs)

lemma demo_joining: "n_reach quiet (demo_nursery True False [])
  (nur_demo True True [demo_slot False] {0} (InJoin ShutJoin 0) 0)"
proof -
  have a: "n_reach quiet (demo_nursery True False []) (nur_demo True False [] {} OIdle 0)"
    using nr_init [of quiet "demo_nursery True False []"] by (simp add: nur_demo_start)
  have b: "n_reach quiet (demo_nursery True False []) (nur_demo True False [demo_slot False] {} OIdle 0)"
    by (rule nr_step [OF a demo_step_spawn]) (simp add: quiet_def nur_demo_def)
  have c: "n_reach quiet (demo_nursery True False []) (nur_demo True False [demo_slot False] {0} OIdle 0)"
    by (rule nr_step [OF b demo_step_finish]) (simp add: quiet_def)
  have d: "n_reach quiet (demo_nursery True False []) (nur_demo True True [demo_slot False] {0} ShutCancelled 0)"
    by (rule nr_step [OF c demo_step_shutdown]) (simp add: quiet_def)
  show ?thesis by (rule nr_step [OF d demo_step_join]) (simp add: quiet_def)
qed

lemma demo_shut: "n_reach quiet (demo_nursery True False [])
  (nur_demo False True [demo_slot True] {0} ODestroyed 0)"
proof -
  have a: "n_reach quiet (demo_nursery True False []) (nur_demo True True [demo_slot True] {0} ShutJoined 0)"
    by (rule nr_step [OF demo_joining demo_step_joined]) (simp add: quiet_def)
  have b: "n_reach quiet (demo_nursery True False []) (nur_demo False True [demo_slot True] {0} OIdle 0)"
    by (rule nr_step [OF a demo_step_done]) (simp add: quiet_def)
  show ?thesis by (rule nr_step [OF b demo_step_destroy]) (simp add: quiet_def)
qed

lemma reach_mono: "n_reach may n s \<Longrightarrow> (\<And>s l. may s l \<Longrightarrow> may' s l) \<Longrightarrow> n_reach may' n s"
  by (induction rule: n_reach.induct) (auto intro: n_reach.intros)

lemma demo_late: "n_reach anyone (demo_nursery True False [])
  (nur_demo False True [demo_slot False] {} ODestroyed 0)"
proof -
  have a: "n_reach anyone (demo_nursery True False []) (nur_demo True False [] {} OIdle 0)"
    using nr_init [of anyone "demo_nursery True False []"] by (simp add: nur_demo_start)
  have b: "n_reach anyone (demo_nursery True False []) (nur_demo True True [] {} ShutCancelled 0)"
    by (rule nr_step [OF a demo_step_shutdown]) (simp add: anyone_def)
  have c: "n_reach anyone (demo_nursery True False []) (nur_demo True True [] {} ShutJoined 0)"
    by (rule nr_step [OF b demo_step_join_empty]) (simp add: anyone_def)
  have d: "n_reach anyone (demo_nursery True False []) (nur_demo True True [demo_slot False] {} ShutJoined 0)"
    by (rule nr_step [OF c demo_step_late]) (simp add: anyone_def)
  have e: "n_reach anyone (demo_nursery True False []) (nur_demo False True [demo_slot False] {} OIdle 0)"
    by (rule nr_step [OF d demo_step_done]) (simp add: anyone_def)
  show ?thesis by (rule nr_step [OF e demo_step_destroy]) (simp add: anyone_def)
qed

section \<open>The properties\<close>

text \<open>
  C9: shutdown leaves no orphan. Whatever the other threads do, as long as none spawns in the
  window between the join inside \<open>fx_nursery_shutdown\<close> and its last section, a nursery that is
  no longer live (and so one that \<open>fx_nursery_destroy\<close> has freed) has joined every task that
  was ever spawned, and all of them have finished.
\<close>

theorem nursery_leaves_no_orphan:
  assumes "fx_nursery_create_sized a b m k = Some n" and "n_reach quiet n s"
    and "\<not> nu_live (ns_nur s)" and "i < nu_n (ns_nur s)"
  shows "sl_joined (nu_slots (ns_nur s) ! i) \<and> i \<in> ns_done s"
  using closed_ok_reach [OF assms(2) n_inv_init [OF assms(1)] created_live [OF assms(1)]]
    joined_done [OF n_inv_reach [OF assms(2) n_inv_init [OF assms(1)]]] assms(3,4)
  by (simp add: closed_ok_def)

theorem nursery_leaves_no_orphan_witness:
  "n_reach quiet (demo_nursery True False []) (nur_demo False True [demo_slot True] {0} ODestroyed 0) \<and>
   (0::nat) \<in> ns_done (nur_demo False True [demo_slot True] {0} ODestroyed 0)"
  using nursery_leaves_no_orphan [OF demo_created demo_shut, of 0] demo_shut
  by (simp add: nur_demo_def demo_nursery_def)

text \<open>
  the discipline of the previous property is needed. \<open>fx_nursery_spawn\<close> only looks at
  \<open>live\<close>, not at \<open>cancel\<close>, and shutdown drops the lock between its join and \<open>live = 0\<close>: a
  spawn in that window returns OK, its task is never joined, and \<open>fx_nursery_destroy\<close> frees
  the slot while the new thread may still have to read it: that read is undefined.
\<close>

theorem late_spawn_is_orphaned:
  "\<exists>n s. fx_nursery_create_sized True True True 2 = Some n \<and> n_reach anyone n s \<and>
     ns_owner s = ODestroyed \<and> ns_last s = FX_NURSERY_OK \<and>
     fx_nursery_pending (Some (ns_nur s)) = Some 1 \<and> 0 < nu_n (ns_nur s) \<and> 0 \<notin> ns_done s \<and>
     slot_ref s 0 = None"
  using demo_created demo_late demo_pending [of False True False]
  by (intro exI [of _ "demo_nursery True False []"]
      exI [of _ "nur_demo False True [demo_slot False] {} ODestroyed 0"])
    (simp add: nur_demo_def demo_nursery_def nursery_codes slot_ref_def)

text \<open>
  C10: a join that returns OK is complete. Under any interleaving of spawns, cancels and task
  ends, when \<open>fx_nursery_join_all\<close> (or the timed one) returns OK, at once or after any number of
  waits, every task spawned so far, also one spawned while the join was waiting, is joined and has
  finished, and \<open>fx_nursery_pending\<close> counts none.
\<close>

theorem join_ok_is_complete:
  assumes "fx_nursery_create_sized a b m k = Some n" and "n_reach anyone n s"
    and "join_returns s s'" and "ns_last s' = FX_NURSERY_OK"
  shows "(\<forall>t < nu_n (ns_nur s'). sl_joined (nu_slots (ns_nur s') ! t) \<and> t \<in> ns_done s') \<and>
    fx_nursery_pending (Some (ns_nur s')) = Some 0"
proof -
  have inv: "n_inv s" by (rule n_inv_reach [OF assms(2) n_inv_init [OF assms(1)]])
  have inv': "n_inv s'" by (rule n_inv_step [OF join_returns_step [OF assms(3)] inv])
  from joined_done [OF inv'] pending_all_joined [of "ns_nur s'"] inv' join_returns_ok [OF assms(3) inv assms(4)]
  show ?thesis by (auto simp: n_inv_def)
qed

lemma demo_join_started:
  "n_step LOwner (nur_demo True False [demo_slot False] {0} OIdle 0)
     (nur_demo True False [demo_slot False] {0} (InJoin JoinAll 0) 0)"
  using st_join [of "nur_demo True False [demo_slot False] {0} OIdle 0" JoinAll
      "nur_demo True False [demo_slot False] {0} (InJoin JoinAll 0) 0"]
  by (simp add: demo_nur_defs)

lemma demo_join_ended:
  "n_step LOwner (nur_demo True False [demo_slot False] {0} (InJoin JoinAll 0) 0)
     (nur_demo True False [demo_slot True] {0} OIdle 0)"
  using st_wait [of "nur_demo True False [demo_slot False] {0} (InJoin JoinAll 0) 0" JoinAll 0 Joined
      "nur_demo True False [demo_slot True] {0} OIdle 0"]
  by (simp add: demo_nur_defs)

lemma demo_all_joining: "n_reach anyone (demo_nursery True False [])
  (nur_demo True False [demo_slot False] {0} (InJoin JoinAll 0) 0)"
proof -
  have a: "n_reach anyone (demo_nursery True False []) (nur_demo True False [] {} OIdle 0)"
    using nr_init [of anyone "demo_nursery True False []"] by (simp add: nur_demo_start)
  have b: "n_reach anyone (demo_nursery True False []) (nur_demo True False [demo_slot False] {} OIdle 0)"
    by (rule nr_step [OF a demo_step_spawn]) (simp add: anyone_def)
  have c: "n_reach anyone (demo_nursery True False []) (nur_demo True False [demo_slot False] {0} OIdle 0)"
    by (rule nr_step [OF b demo_step_finish]) (simp add: anyone_def)
  show ?thesis by (rule nr_step [OF c demo_join_started]) (simp add: anyone_def)
qed

lemma demo_join_returns:
  "join_returns (nur_demo True False [demo_slot False] {0} (InJoin JoinAll 0) 0)
     (nur_demo True False [demo_slot True] {0} OIdle 0)"
  by (rule jr_after_wait [where k = JoinAll and i = 0 and w = Joined]) (simp_all add: demo_nur_defs)

theorem join_ok_is_complete_witness:
  "join_returns (nur_demo True False [demo_slot False] {0} (InJoin JoinAll 0) 0)
     (nur_demo True False [demo_slot True] {0} OIdle 0) \<and>
   fx_nursery_pending (Some (ns_nur (nur_demo True False [demo_slot True] {0} OIdle 0))) = Some 0"
  using join_ok_is_complete [OF demo_created demo_all_joining demo_join_returns] demo_join_returns
  by (simp add: nur_demo_def nursery_codes)

text \<open>
  joins make progress. While the owner waits for slot \<open>i\<close>, it can take a step as soon as
  the task of that slot has finished, and every step it takes ends the join or moves on to a
  later slot below 64; so a join issues at most 64 waits, even if other threads keep spawning.
\<close>

theorem joins_progress:
  assumes "fx_nursery_create_sized a b m k = Some n" and "n_reach anyone n s"
    and "ns_owner s = InJoin j i"
  shows "i < 64 \<and> (i \<in> ns_done s \<longrightarrow> (\<exists>s'. n_step LOwner s s')) \<and>
    (\<forall>s'. n_step LOwner s s' \<longrightarrow>
       (case ns_owner s' of InJoin j' i' \<Rightarrow> j' = j \<and> i < i' \<and> i' < 64
        | OIdle \<Rightarrow> j \<noteq> ShutJoin | ShutJoined \<Rightarrow> j = ShutJoin | _ \<Rightarrow> False))"
proof (intro conjI impI allI)
  have inv: "n_inv s" by (rule n_inv_reach [OF assms(2) n_inv_init [OF assms(1)]])
  then have ok: "n_ok (ns_nur s) (ns_done s)" "i < nu_n (ns_nur s)" "joined_upto i (ns_nur s)"
    using assms(3) by (auto simp: n_inv_def owner_ok_def)
  have bound: "n_inv t \<Longrightarrow> x < nu_n (ns_nur t) \<Longrightarrow> x < 64" for t x
    by (simp add: n_inv_def n_ok_def)
  show "i < 64" by (rule bound [OF inv ok(2)])
  show "\<exists>s'. n_step LOwner s s'" if d: "i \<in> ns_done s"
  proof -
    have "\<exists>n'. set_joined i (ns_nur s) = Some n'"
      using ok by (simp add: set_joined_def array_simps n_ok_def)
    then obtain n' where n': "set_joined i (ns_nur s) = Some n'" by blast
    have "\<exists>r. next_unjoined n' (i + 1) = Some r"
      using n_ok_scan_total [of n' "ns_done s" "Suc i"] set_joined_effect [OF ok(1,2) d n'] ok by simp
    then have "\<exists>s'. after_wait j Joined i s = Some s'"
      using n' by (auto simp: after_wait_def fx_nursery_join_one_def)
    then show ?thesis using st_wait [OF assms(3), of Joined] d by blast
  qed
  fix s' assume st: "n_step LOwner s s'"
  from n_inv_step [OF st inv] have inv': "n_inv s'" .
  show "case ns_owner s' of InJoin j' i' \<Rightarrow> j' = j \<and> i < i' \<and> i' < 64
        | OIdle \<Rightarrow> j \<noteq> ShutJoin | ShutJoined \<Rightarrow> j = ShutJoin | _ \<Rightarrow> False"
    by (rule join_step [OF inv assms(3) st]) (use bound [OF inv'] in auto)
qed

theorem joins_progress_witness:
  "n_step LOwner (nur_demo True False [demo_slot False] {0} (InJoin JoinAll 0) 0)
     (nur_demo True False [demo_slot True] {0} OIdle 0) \<and>
   (\<exists>s'. n_step LOwner (nur_demo True False [demo_slot False] {0} (InJoin JoinAll 0) 0) s')"
  using joins_progress [OF demo_created demo_all_joining, of JoinAll 0] demo_join_ended
  by (simp add: nur_demo_def)

text \<open>
  C38: spawn answers on every branch. On a nursery in a reachable state that is not freed, with a function that is
  not NULL, \<open>fx_nursery_spawn\<close> never leaves the slot table: a nursery that is shut down answers
  DEAD and a full one FULL, both unchanged; a failed thread creation answers ERR and leaves the
  count; otherwise the answer is OK and the count grows by one, within the capacity.
\<close>

theorem spawn_contract:
  assumes "fx_nursery_create_sized a b m k = Some n0" and "n_reach anyone n0 s" and "fn \<noteq> 0"
  shows "\<exists>rc n. fx_nursery_spawn (Some (ns_nur s)) fn arg created = Some (rc, Some n) \<and>
    (rc, nu_n n) = (if \<not> nu_live (ns_nur s) then (FX_NURSERY_DEAD, nu_n (ns_nur s))
       else if nu_n (ns_nur s) = nu_cap (ns_nur s) then (FX_NURSERY_FULL, nu_n (ns_nur s))
       else if \<not> created then (FX_NURSERY_ERR, nu_n (ns_nur s))
       else (FX_NURSERY_OK, nu_n (ns_nur s) + 1)) \<and>
    nu_n n \<le> nu_cap n \<and> nu_cap n = nu_cap (ns_nur s) \<and>
    take (nu_n (ns_nur s)) (nu_slots n) = take (nu_n (ns_nur s)) (nu_slots (ns_nur s))"
proof -
  let ?n = "ns_nur s"
  have "n_ok ?n (ns_done s)"
    using n_inv_reach [OF assms(2) n_inv_init [OF assms(1)]] by (simp add: n_inv_def)
  then have b: "nu_n ?n \<le> nu_cap ?n" "length (nu_slots ?n) = nu_cap ?n" by (simp_all add: n_ok_def)
  show ?thesis
    by (rule spawn_cs_cases [OF b, of fn arg created])
      (use assms(3) b in \<open>simp_all add: fx_nursery_spawn_def\<close>)
qed

theorem spawn_contract_witness:
  "n_reach anyone (demo_nursery True False []) (nur_demo True False [demo_slot False] {0} (InJoin JoinAll 0) 0) \<and>
   (\<exists>n. fx_nursery_spawn (Some (ns_nur (nur_demo True False [demo_slot False] {0} (InJoin JoinAll 0) 0)))
      9 0 True = Some (FX_NURSERY_OK, Some n) \<and> nu_n n = 2)"
  using spawn_contract [OF demo_created demo_all_joining, of 9 0 True] demo_all_joining
  by (auto simp: nur_demo_def demo_nursery_def)

text \<open>
  supervision. After a child that ended well nothing happens. After a failed child,
  ONE_FOR_ALL and REST_FOR_ONE set the cancel flag of a live nursery (so REST_FOR_ONE cancels
  every task, also those started before the failed one), ESCALATE hands the code up, and any
  other policy, also an unknown one, is ONE_FOR_ONE and does nothing; no policy changes the
  slots or the count.
\<close>

theorem supervise_table:
  "fx_supervise_apply (Some n) policy child_ok =
    (if child_ok = 0 then (FX_NURSERY_OK, Some n)
     else if policy = FX_SUP_ONE_FOR_ALL \<or> policy = FX_SUP_REST_FOR_ONE then
       (if nu_live n then (FX_NURSERY_OK, Some (n\<lparr>nu_cancel := True\<rparr>)) else (FX_NURSERY_DEAD, Some n))
     else if policy = FX_SUP_ESCALATE then (FX_SUP_ESCALATE, Some n)
     else (FX_NURSERY_OK, Some n))"
  by (simp add: fx_supervise_apply_def fx_supervise_normalize_policy_def fx_nursery_request_cancel_def
      sup_codes Let_def)

text \<open>
  the deadline of a timed join is a proper time value, exactly the timeout after now.
\<close>

theorem join_deadline_exact:
  assumes "0 \<le> snd now" and "snd now < 1000000000"
  shows "0 \<le> snd (join_deadline now t) \<and> snd (join_deadline now t) < 1000000000 \<and>
    fst (join_deadline now t) * 1000000000 + snd (join_deadline now t) =
      fst now * 1000000000 + snd now + int (unat t) * 1000000"
proof -
  have q: "unat (t div 1000) = unat t div 1000" "unat (t mod 1000) = unat t mod 1000"
    by (simp_all add: unat_div unat_mod)
  have s: "int (unat t) = int (unat t div 1000) * 1000 + int (unat t mod 1000)"
    by (metis div_mult_mod_eq of_nat_add of_nat_mult of_nat_numeral)
  have "unat t mod 1000 < 1000" by simp
  then have m: "int (unat t mod 1000) \<le> 999" by linarith
  show ?thesis using assms m unfolding s by (auto simp: join_deadline_def q Let_def)
qed

theorem join_deadline_exact_witness:
  "join_deadline (100, 900000000) 2500 = (103, 400000000) \<and>
   snd (join_deadline (100, 900000000) 2500) < 1000000000"
  using join_deadline_exact [of "(100, 900000000)" 2500] by (simp add: join_deadline_def)

end
