(* ===== verification/NurseryLive.thy ===== *)
theory NurseryLive
  imports NurseryTheorems
begin

text \<open>
  Shutting a nursery down comes to an end. Runs are infinite sequences of states; the scheduler
  is only asked not to neglect forever an owner that can always go on, and the tasks to end.
\<close>

section \<open>Runs\<close>

definition n_run :: "FxNursery \<Rightarrow> (nat \<Rightarrow> nsys) \<Rightarrow> (nat \<Rightarrow> nlabel option) \<Rightarrow> bool" where
  "n_run n \<sigma> lab \<longleftrightarrow> \<sigma> 0 = n_init n \<and>
     (\<forall>i. case lab i of None \<Rightarrow> \<sigma> (Suc i) = \<sigma> i | Some l \<Rightarrow> n_step l (\<sigma> i) (\<sigma> (Suc i)))"

definition owner_fair :: "(nat \<Rightarrow> nsys) \<Rightarrow> (nat \<Rightarrow> nlabel option) \<Rightarrow> bool" where
  "owner_fair \<sigma> lab \<longleftrightarrow>
     (\<forall>i. (\<forall>j \<ge> i. \<exists>s'. n_step LOwner (\<sigma> j) s') \<longrightarrow> (\<exists>j \<ge> i. lab j = Some LOwner))"

definition tasks_end :: "(nat \<Rightarrow> nsys) \<Rightarrow> bool" where
  "tasks_end \<sigma> \<longleftrightarrow> (\<forall>i t. t < nu_n (ns_nur (\<sigma> i)) \<longrightarrow> (\<exists>j \<ge> i. t \<in> ns_done (\<sigma> j)))"

lemma run_inv:
  assumes "n_run n \<sigma> lab" and "n_inv (n_init n)"
  shows "n_inv (\<sigma> i)"
proof (induction i)
  case 0
  then show ?case using assms by (simp add: n_run_def)
next
  case (Suc i)
  have "case lab i of None \<Rightarrow> \<sigma> (Suc i) = \<sigma> i | Some l \<Rightarrow> n_step l (\<sigma> i) (\<sigma> (Suc i))"
    using assms(1) by (simp add: n_run_def)
  then show ?case using Suc n_inv_step by (auto split: option.splits)
qed

section \<open>The stages of a shutdown\<close>

definition shutting :: "owner \<Rightarrow> bool" where
  "shutting w \<longleftrightarrow> (case w of ShutCancelled \<Rightarrow> True | InJoin k i \<Rightarrow> k = ShutJoin | ShutJoined \<Rightarrow> True | _ \<Rightarrow> False)"

definition rank :: "owner \<Rightarrow> nat" where
  "rank w = (case w of ShutCancelled \<Rightarrow> 66 | InJoin k i \<Rightarrow> 65 - i | _ \<Rightarrow> 0)"

lemma other_steps:
  "n_step l s s' \<Longrightarrow> l \<noteq> LOwner \<Longrightarrow> ns_owner s' = ns_owner s \<and> ns_done s \<subseteq> ns_done s'"
  by (induction rule: n_step.induct) auto

lemma owner_step_advances:
  assumes "n_inv s" and "shutting (ns_owner s)" and "n_step LOwner s s'"
  shows "\<not> nu_live (ns_nur s') \<or> shutting (ns_owner s') \<and> rank (ns_owner s') < rank (ns_owner s)"
proof (cases "ns_owner s")
  case (InJoin k i)
  then have k: "k = ShutJoin" using assms(2) by (simp add: shutting_def)
  have b: "nu_n (ns_nur s') \<le> 64" using n_inv_step [OF assms(3,1)] by (auto simp: n_inv_def n_ok_def)
  have i: "i < 64" using assms(1) InJoin by (auto simp: n_inv_def n_ok_def owner_ok_def)
  show ?thesis
    by (rule join_step [OF assms(1) InJoin assms(3)]) (use k b i InJoin in \<open>auto simp: shutting_def rank_def\<close>)
next
  case ShutCancelled
  then have st: "start_join ShutJoin s = Some s'" and live: "nu_live (ns_nur s)"
    using assms(1,3) by (auto simp: n_inv_def owner_ok_def elim: n_step_ownerE)
  from st show ?thesis
  proof (cases rule: start_join_cases)
    case dead
    then show ?thesis using live by simp
  next
    case (scan r)
    then show ?thesis using ShutCancelled
      by (auto simp: after_scan_def shutting_def rank_def split: option.splits)
  qed
next
  case ShutJoined
  then have "s' = shutdown_last s" using assms(3) by (auto elim: n_step_ownerE)
  then show ?thesis by (simp add: shutdown_last_def)
qed (use assms(2) in \<open>simp_all add: shutting_def\<close>)

lemma shutting_enabled:
  assumes "n_inv s" and "shutting (ns_owner s)" and "\<And>k i. ns_owner s = InJoin k i \<Longrightarrow> i \<in> ns_done s"
  shows "\<exists>s'. n_step LOwner s s'"
proof (cases "ns_owner s")
  case (InJoin k i)
  then have ok: "n_ok (ns_nur s) (ns_done s)" "i < nu_n (ns_nur s)" "joined_upto i (ns_nur s)"
    using assms(1) by (auto simp: n_inv_def owner_ok_def)
  have d: "i \<in> ns_done s" by (rule assms(3) [OF InJoin])
  have "\<exists>n'. set_joined i (ns_nur s) = Some n'"
    using ok by (simp add: set_joined_def array_simps n_ok_def)
  then obtain n' where n': "set_joined i (ns_nur s) = Some n'" by blast
  have "\<exists>r. next_unjoined n' (i + 1) = Some r"
    using n_ok_scan_total [of n' "ns_done s" "Suc i"] set_joined_effect [OF ok(1,2) d n'] ok by simp
  then have "\<exists>s'. after_wait k Joined i s = Some s'"
    using n' by (auto simp: after_wait_def fx_nursery_join_one_def)
  then show ?thesis using st_wait [OF InJoin, of Joined] d by blast
next
  case ShutCancelled
  have "\<exists>r. next_unjoined (ns_nur s) 0 = Some r"
    using n_ok_scan_total [of "ns_nur s" "ns_done s" 0] assms(1) by (simp add: n_inv_def)
  then have "\<exists>s'. start_join ShutJoin s = Some s'" by (auto simp: start_join_def Let_def)
  then show ?thesis using st_shut_join [OF ShutCancelled] by blast
next
  case ShutJoined
  then show ?thesis using st_shut_done by blast
qed (use assms(2) in \<open>simp_all add: shutting_def\<close>)

section \<open>Fair runs finish\<close>

text \<open>While the owner takes no step it stays where it is, and what has ended stays ended.\<close>

lemma quiet_owner:
  assumes "n_run n \<sigma> lab" and "\<forall>k. i \<le> k \<and> k < j \<longrightarrow> lab k \<noteq> Some LOwner" and "i \<le> j"
  shows "ns_owner (\<sigma> j) = ns_owner (\<sigma> i) \<and> ns_done (\<sigma> i) \<subseteq> ns_done (\<sigma> j)"
  using assms(3,2)
proof (induction j rule: dec_induct)
  case base
  then show ?case by simp
next
  case (step j)
  have "case lab j of None \<Rightarrow> \<sigma> (Suc j) = \<sigma> j | Some l \<Rightarrow> n_step l (\<sigma> j) (\<sigma> (Suc j))"
    using assms(1) by (simp add: n_run_def)
  moreover have "lab j \<noteq> Some LOwner" using step.prems step.hyps by simp
  ultimately have "ns_owner (\<sigma> (Suc j)) = ns_owner (\<sigma> j) \<and> ns_done (\<sigma> j) \<subseteq> ns_done (\<sigma> (Suc j))"
    using other_steps by (auto split: option.splits)
  then show ?case using step.IH step.prems by auto
qed

lemma owner_moves:
  assumes run: "n_run n \<sigma> lab" and inv: "\<And>j. n_inv (\<sigma> j)" and fair: "owner_fair \<sigma> lab"
    and ends: "tasks_end \<sigma>" and sh: "shutting (ns_owner (\<sigma> i))"
  shows "\<exists>j \<ge> i. lab j = Some LOwner"
proof (rule ccontr)
  assume "\<not> ?thesis"
  then have none: "\<forall>k \<ge> i. lab k \<noteq> Some LOwner" by blast
  then have same: "ns_owner (\<sigma> j) = ns_owner (\<sigma> i)" if "i \<le> j" for j
    using quiet_owner [OF run _ that] by blast
  have grow: "ns_done (\<sigma> j) \<subseteq> ns_done (\<sigma> k)" if "i \<le> j" "j \<le> k" for j k
    using quiet_owner [OF run _ that(2)] none that(1) by (meson order_trans)
  obtain j0 where j0: "i \<le> j0" "\<And>k t. ns_owner (\<sigma> i) = InJoin k t \<Longrightarrow> t \<in> ns_done (\<sigma> j0)"
  proof (cases "ns_owner (\<sigma> i)")
    case (InJoin k t)
    then have "t < nu_n (ns_nur (\<sigma> i))" using inv [of i] by (auto simp: n_inv_def owner_ok_def)
    then obtain j where "i \<le> j" "t \<in> ns_done (\<sigma> j)" using ends by (auto simp: tasks_end_def)
    then show ?thesis using that InJoin by auto
  qed (use that in auto)
  have "\<exists>s'. n_step LOwner (\<sigma> j) s'" if "j0 \<le> j" for j
  proof (rule shutting_enabled [OF inv])
    show "shutting (ns_owner (\<sigma> j))" using sh same [of j] that j0(1) by simp
    show "\<And>k t. ns_owner (\<sigma> j) = InJoin k t \<Longrightarrow> t \<in> ns_done (\<sigma> j)"
      using same [of j] j0 that grow [of j0 j] by auto
  qed
  then obtain j where "j0 \<le> j" "lab j = Some LOwner" using fair by (auto simp: owner_fair_def)
  then show False using none j0(1) by (meson order_trans)
qed

lemma shutting_finishes:
  assumes run: "n_run n \<sigma> lab" and inv: "\<And>j. n_inv (\<sigma> j)" and fair: "owner_fair \<sigma> lab" and ends: "tasks_end \<sigma>"
  shows "shutting (ns_owner (\<sigma> i)) \<Longrightarrow> \<exists>j \<ge> i. \<not> nu_live (ns_nur (\<sigma> j))"
proof (induction "rank (ns_owner (\<sigma> i))" arbitrary: i rule: less_induct)
  case less
  define P where "P = (\<lambda>j. i \<le> j \<and> lab j = Some LOwner)"
  have ex: "\<exists>j. P j" unfolding P_def by (rule owner_moves [OF run inv fair ends less.prems])
  define j where "j = (LEAST j. P j)"
  have "P j" unfolding j_def by (rule LeastI_ex [OF ex])
  moreover have "\<not> P k" if "k < j" for k using that not_less_Least unfolding j_def by blast
  ultimately have j: "i \<le> j" "lab j = Some LOwner" "\<forall>k. i \<le> k \<and> k < j \<longrightarrow> lab k \<noteq> Some LOwner"
    unfolding P_def by blast+
  then have same: "ns_owner (\<sigma> j) = ns_owner (\<sigma> i)" using quiet_owner [OF run j(3,1)] by blast
  have "case lab j of None \<Rightarrow> \<sigma> (Suc j) = \<sigma> j | Some l \<Rightarrow> n_step l (\<sigma> j) (\<sigma> (Suc j))"
    using run unfolding n_run_def by blast
  then have "n_step LOwner (\<sigma> j) (\<sigma> (Suc j))" using j(2) by simp
  from owner_step_advances [OF inv _ this] consider "\<not> nu_live (ns_nur (\<sigma> (Suc j)))"
    | "shutting (ns_owner (\<sigma> (Suc j)))" "rank (ns_owner (\<sigma> (Suc j))) < rank (ns_owner (\<sigma> i))"
    using less.prems same by auto
  then show ?case
  proof cases
    case 1
    then show ?thesis using j(1) le_SucI by blast
  next
    case 2
    from less.hyps [OF 2(2,1)] obtain m where "Suc j \<le> m" "\<not> nu_live (ns_nur (\<sigma> m))" by blast
    then show ?thesis using j(1) by (intro exI [of _ m]) simp
  qed
qed

text \<open>
  C14: shutdown ends. In every run in which the tasks end and the scheduler does not forever
  pass over an owner that could go on, an owner that is inside \<open>fx_nursery_shutdown\<close> (or the
  shutdown that \<open>fx_nursery_destroy\<close> calls) reaches its end and the nursery is dead, however
  the other threads spawn and cancel meanwhile.
\<close>

theorem shutdown_ends:
  assumes "fx_nursery_create_sized a b m k = Some n" and "n_run n \<sigma> lab" and "owner_fair \<sigma> lab"
    and "tasks_end \<sigma>" and "shutting (ns_owner (\<sigma> i))"
  shows "\<exists>j \<ge> i. \<not> nu_live (ns_nur (\<sigma> j))"
  by (rule shutting_finishes [OF assms(2) run_inv [OF assms(2) n_inv_init [OF assms(1)]] assms(3-5)])

section \<open>A run\<close>

definition live_state :: "nat \<Rightarrow> nsys" where
  "live_state i =
     (if i = 0 then nur_demo True False [] {} OIdle 0
      else if i = 1 then nur_demo True False [demo_slot False] {} OIdle 0
      else if i = 2 then nur_demo True False [demo_slot False] {0} OIdle 0
      else if i = 3 then nur_demo True True [demo_slot False] {0} ShutCancelled 0
      else if i = 4 then nur_demo True True [demo_slot False] {0} (InJoin ShutJoin 0) 0
      else if i = 5 then nur_demo True True [demo_slot True] {0} ShutJoined 0
      else if i = 6 then nur_demo False True [demo_slot True] {0} OIdle 0
      else nur_demo False True [demo_slot True] {0} ODestroyed 0)"

definition live_label :: "nat \<Rightarrow> nlabel option" where
  "live_label i = (if i = 0 then Some LSpawn else if i = 1 then Some (LFinish 0)
     else if i < 7 then Some LOwner else None)"

lemma live_run: "n_run (demo_nursery True False []) live_state live_label"
  unfolding n_run_def
proof (intro conjI allI)
  show "live_state 0 = n_init (demo_nursery True False [])" by (simp add: live_state_def nur_demo_start)
  fix i :: nat
  consider "i = 0" | "i = 1" | "i = 2" | "i = 3" | "i = 4" | "i = 5" | "i = 6" | "7 \<le> i" by linarith
  then show "case live_label i of None \<Rightarrow> live_state (Suc i) = live_state i
    | Some l \<Rightarrow> n_step l (live_state i) (live_state (Suc i))"
    by cases (simp_all add: live_label_def live_state_def demo_step_spawn demo_step_finish demo_step_shutdown
        demo_step_join demo_step_joined demo_step_done demo_step_destroy)
qed

lemma live_fair: "owner_fair live_state live_label"
proof -
  have "\<not> n_step LOwner (live_state j) s'" if "7 \<le> j" for j s'
    using that by (auto simp: live_state_def nur_demo_def elim: n_step_ownerE)
  then show ?thesis unfolding owner_fair_def by (meson nat_le_linear)
qed

lemma live_ends: "tasks_end live_state"
  unfolding tasks_end_def
proof (intro allI impI)
  fix i t assume "t < nu_n (ns_nur (live_state i))"
  then have "t = 0" by (auto simp: live_state_def nur_demo_def demo_nursery_def split: if_splits)
  then have "t \<in> ns_done (live_state (i + 7))" by (simp add: live_state_def nur_demo_def)
  then show "\<exists>j \<ge> i. t \<in> ns_done (live_state j)" by (intro exI [of _ "i + 7"]) simp
qed

theorem shutdown_ends_witness:
  "shutting (ns_owner (live_state 3)) \<and> (\<exists>j \<ge> 3. \<not> nu_live (ns_nur (live_state j)))"
proof -
  have s: "shutting (ns_owner (live_state 3))" by (simp add: live_state_def nur_demo_def shutting_def)
  then show ?thesis using shutdown_ends [OF demo_created live_run live_fair live_ends s] by blast
qed

end
