(* ===== verification/NurseryPlatforms.thy ===== *)
theory NurseryPlatforms
  imports NurseryTheorems
begin

text \<open>
  The three builds of \<open>host/concur/fx_task_nursery.c\<close>: Windows threads, Linux, and other POSIX
  systems, whose timed join requests cancellation and then waits without a limit. What
  \<open>s->thr\<close> names is modelled here: releasing it (\<open>CloseHandle\<close>, a successful \<open>pthread_join\<close>)
  needs a thread that was started and not released before, anything else is undefined
  behaviour. Each build refines the nursery of \<open>Nursery\<close>.
\<close>

section \<open>Threads\<close>

datatype platform = Win32 | Linux | OtherPosix

text \<open>What the member \<open>thr\<close> of a slot names: nothing, a thread, or one already let go.\<close>

datatype hthread = NoThread | Joinable | Released

type_synonym threads = "nat \<Rightarrow> hthread"

definition release :: "nat \<Rightarrow> threads \<Rightarrow> threads option" where
  "release i thr = (if thr i = Joinable then Some (thr(i := Released)) else None)"

text \<open>The spawn section with the thread it starts; \<open>thr\<close> of the slot is cleared before.\<close>

definition plat_spawn ::
  "FxNursery \<Rightarrow> threads \<Rightarrow> addr \<Rightarrow> addr \<Rightarrow> bool \<Rightarrow> (int \<times> FxNursery \<times> threads) option" where
  "plat_spawn n thr fn arg create_ok =
     (if fn = 0 then Some (FX_NURSERY_ERR, n, thr)
      else do {
        (rc, n') \<leftarrow> spawn_cs n fn arg create_ok;
        Some (rc, n', if \<not> nu_live n \<or> nu_n n \<ge> nu_cap n then thr
                      else if create_ok then thr(nu_n n := Joinable) else thr(nu_n n := NoThread)) })"

section \<open>The wait of a join\<close>

definition INFINITE :: u32 where "INFINITE = 0xFFFFFFFF"

text \<open>The number of milliseconds \<open>fx_nursery_join_one\<close> passes on.\<close>

definition win_ms :: "bool \<Rightarrow> u32 \<Rightarrow> u32" where
  "win_ms use_timeout timeout_ms = (if use_timeout then timeout_ms else INFINITE)"

datatype win_wait = WAIT_OBJECT_0 | WAIT_TIMEOUT | WAIT_FAILED

definition join_one_win :: "win_wait \<Rightarrow> nat \<Rightarrow> FxNursery \<Rightarrow> threads \<Rightarrow> (int \<times> FxNursery \<times> threads) option" where
  "join_one_win w i n thr =
     (case w of
        WAIT_TIMEOUT \<Rightarrow> Some (FX_NURSERY_TIMEOUT, n, thr)
      | WAIT_OBJECT_0 \<Rightarrow> do { thr \<leftarrow> release i thr; n \<leftarrow> set_joined i n; Some (FX_NURSERY_OK, n, thr) }
      | WAIT_FAILED \<Rightarrow> Some (FX_NURSERY_ERR, n, thr))"

definition join_one_linux ::
  "bool \<Rightarrow> wait \<Rightarrow> nat \<Rightarrow> FxNursery \<Rightarrow> threads \<Rightarrow> (int \<times> FxNursery \<times> threads) option" where
  "join_one_linux use_timeout w i n thr =
     (if \<not> use_timeout then do { thr \<leftarrow> release i thr; n \<leftarrow> set_joined i n; Some (FX_NURSERY_OK, n, thr) }
      else case w of
        NoClock \<Rightarrow> Some (FX_NURSERY_ERR, n, thr)
      | Joined \<Rightarrow> do { thr \<leftarrow> release i thr; n \<leftarrow> set_joined i n; Some (FX_NURSERY_OK, n, thr) }
      | TimedOut \<Rightarrow> Some (FX_NURSERY_TIMEOUT, n, thr)
      | WaitFailed \<Rightarrow> Some (FX_NURSERY_ERR, n, thr))"

definition join_one_other :: "nat \<Rightarrow> FxNursery \<Rightarrow> threads \<Rightarrow> (int \<times> FxNursery \<times> threads) option" where
  "join_one_other i n thr = do { thr \<leftarrow> release i thr; n \<leftarrow> set_joined i n; Some (FX_NURSERY_OK, n, thr) }"

text \<open>What a build does under the lock before it waits.\<close>

definition join_enter :: "platform \<Rightarrow> bool \<Rightarrow> FxNursery \<Rightarrow> FxNursery" where
  "join_enter p use_timeout n = (if p = OtherPosix \<and> use_timeout then n\<lparr>nu_cancel := True\<rparr> else n)"

text \<open>
  How the wait for a thread may end, as the systems document it: a thread is joined only when
  it has ended, an infinite wait has no timeout, and \<open>WaitForSingleObject\<close> fails only for a
  handle that is not one.
\<close>

datatype plat_out = WinOut win_wait | PosixOut wait

fun wait_may :: "platform \<Rightarrow> bool \<Rightarrow> u32 \<Rightarrow> bool \<Rightarrow> hthread \<Rightarrow> plat_out \<Rightarrow> bool" where
  "wait_may Win32 timed ms ended t (WinOut w) \<longleftrightarrow>
     (case w of WAIT_OBJECT_0 \<Rightarrow> ended | WAIT_TIMEOUT \<Rightarrow> win_ms timed ms \<noteq> INFINITE | WAIT_FAILED \<Rightarrow> t \<noteq> Joinable)"
| "wait_may Linux timed ms ended t (PosixOut w) \<longleftrightarrow> (w = Joined \<longrightarrow> ended) \<and> (w \<noteq> Joined \<longrightarrow> timed)"
| "wait_may OtherPosix timed ms ended t (PosixOut w) \<longleftrightarrow> w = Joined \<and> ended"
| "wait_may _ _ _ _ _ _ \<longleftrightarrow> False"

fun join_leave ::
  "platform \<Rightarrow> bool \<Rightarrow> plat_out \<Rightarrow> nat \<Rightarrow> FxNursery \<Rightarrow> threads \<Rightarrow> (int \<times> FxNursery \<times> threads) option" where
  "join_leave Win32 timed (WinOut w) i n thr = join_one_win w i n thr"
| "join_leave Linux timed (PosixOut w) i n thr = join_one_linux timed w i n thr"
| "join_leave OtherPosix timed (PosixOut w) i n thr = join_one_other i n thr"
| "join_leave _ _ _ _ _ _ = None"

section \<open>The system of a build\<close>

record psys =
  ps_sys :: nsys
  ps_thr :: threads

text \<open>A join that found a slot to wait for goes on to the wait.\<close>

definition entered :: "platform \<Rightarrow> nsys \<Rightarrow> nsys" where
  "entered p t = (case ns_owner t of
     InJoin k i \<Rightarrow> t\<lparr>ns_nur := join_enter p (k = JoinTimed) (ns_nur t)\<rparr> | _ \<Rightarrow> t)"

definition plat_start :: "platform \<Rightarrow> join_kind \<Rightarrow> psys \<Rightarrow> psys option" where
  "plat_start p k s = do { t \<leftarrow> start_join k (ps_sys s); Some (s\<lparr>ps_sys := entered p t\<rparr>) }"

definition plat_after :: "platform \<Rightarrow> join_kind \<Rightarrow> plat_out \<Rightarrow> nat \<Rightarrow> psys \<Rightarrow> psys option" where
  "plat_after p k w i s =
     do { (rc, n, thr) \<leftarrow> join_leave p (k = JoinTimed) w i (ns_nur (ps_sys s)) (ps_thr s);
          if rc \<noteq> FX_NURSERY_OK
          then Some \<lparr>ps_sys = (ps_sys s)\<lparr>ns_nur := n, ns_owner := OIdle, ns_last := rc\<rparr>, ps_thr = thr\<rparr>
          else do {
            r \<leftarrow> next_unjoined n (i + 1);
            Some \<lparr>ps_sys = entered p (after_scan k r n (ps_sys s)), ps_thr = thr\<rparr> } }"

inductive p_step :: "platform \<Rightarrow> nlabel \<Rightarrow> psys \<Rightarrow> psys \<Rightarrow> bool" for p where
  p_spawn: "plat_spawn (ns_nur (ps_sys s)) (ps_thr s) fn arg create_ok = Some (rc, n, thr) \<Longrightarrow>
    ns_owner (ps_sys s) \<noteq> ODestroyed \<Longrightarrow>
    p_step p LSpawn s \<lparr>ps_sys = (ps_sys s)\<lparr>ns_nur := n\<rparr>, ps_thr = thr\<rparr>"
| p_join: "ns_owner (ps_sys s) = OIdle \<Longrightarrow> k = JoinAll \<or> k = JoinTimed \<Longrightarrow> plat_start p k s = Some s' \<Longrightarrow>
    p_step p LOwner s s'"
| p_shut_join: "ns_owner (ps_sys s) = ShutCancelled \<Longrightarrow> plat_start p ShutJoin s = Some s' \<Longrightarrow> p_step p LOwner s s'"
| p_wait: "ns_owner (ps_sys s) = InJoin k i \<Longrightarrow>
    wait_may p (k = JoinTimed) ms (i \<in> ns_done (ps_sys s)) (ps_thr s i) w \<Longrightarrow>
    plat_after p k w i s = Some s' \<Longrightarrow> p_step p LOwner s s'"
| p_cancel: "n_step LCancel (ps_sys s) t \<Longrightarrow> p_step p LCancel s (s\<lparr>ps_sys := t\<rparr>)"
| p_finish: "n_step (LFinish i) (ps_sys s) t \<Longrightarrow> p_step p (LFinish i) s (s\<lparr>ps_sys := t\<rparr>)"
| p_shutdown: "ns_owner (ps_sys s) = OIdle \<Longrightarrow> p_step p LOwner s (s\<lparr>ps_sys := shutdown_first (ps_sys s)\<rparr>)"
| p_shut_done: "ns_owner (ps_sys s) = ShutJoined \<Longrightarrow> p_step p LOwner s (s\<lparr>ps_sys := shutdown_last (ps_sys s)\<rparr>)"
| p_destroy: "ns_owner (ps_sys s) = OIdle \<Longrightarrow> \<not> nu_live (ns_nur (ps_sys s)) \<Longrightarrow>
    p_step p LOwner s (s\<lparr>ps_sys := (ps_sys s)\<lparr>ns_owner := ODestroyed\<rparr>\<rparr>)"

definition p_init :: "FxNursery \<Rightarrow> psys" where
  "p_init n = \<lparr>ps_sys = n_init n, ps_thr = (\<lambda>_. NoThread)\<rparr>"

inductive p_reach :: "platform \<Rightarrow> (nsys \<Rightarrow> nlabel \<Rightarrow> bool) \<Rightarrow> FxNursery \<Rightarrow> psys \<Rightarrow> bool" for p may n where
  pr_init: "p_reach p may n (p_init n)"
| pr_step: "p_reach p may n s \<Longrightarrow> p_step p l s s' \<Longrightarrow> may (ps_sys s) l \<Longrightarrow> p_reach p may n s'"

section \<open>The invariant\<close>

text \<open>
  A slot's thread is joinable exactly as long as the slot is not joined, and the owner waits
  only for a slot that is not.
\<close>

definition thr_ok :: "FxNursery \<Rightarrow> threads \<Rightarrow> bool" where
  "thr_ok n thr \<longleftrightarrow> (\<forall>i < nu_n n. thr i = (if sl_joined (nu_slots n ! i) then Released else Joinable))"

definition waits_ok :: "nsys \<Rightarrow> bool" where
  "waits_ok s \<longleftrightarrow> (\<forall>k i. ns_owner s = InJoin k i \<longrightarrow> \<not> sl_joined (nu_slots (ns_nur s) ! i))"

definition p_inv :: "psys \<Rightarrow> bool" where
  "p_inv s \<longleftrightarrow> n_inv (ps_sys s) \<and> waits_ok (ps_sys s) \<and> thr_ok (ns_nur (ps_sys s)) (ps_thr s)"

lemma thr_ok_cancel [simp]: "thr_ok (n\<lparr>nu_cancel := c\<rparr>) thr = thr_ok n thr" "thr_ok (n\<lparr>nu_live := c\<rparr>) thr = thr_ok n thr"
  by (simp_all add: thr_ok_def)

lemma entered_simps [simp]:
  "ns_owner (entered p t) = ns_owner t" "ns_done (entered p t) = ns_done t"
  "nu_slots (ns_nur (entered p t)) = nu_slots (ns_nur t)" "nu_n (ns_nur (entered p t)) = nu_n (ns_nur t)"
  "nu_live (ns_nur (entered p t)) = nu_live (ns_nur t)"
  "thr_ok (ns_nur (entered p t)) thr = thr_ok (ns_nur t) thr" "waits_ok (entered p t) = waits_ok t"
  by (auto simp: entered_def join_enter_def waits_ok_def split: owner.splits)

lemma entered_idle [simp]: "ns_owner t = OIdle \<Longrightarrow> entered p t = t"
  by (simp add: entered_def)

text \<open>What a build does before it waits is nothing, or a cancel.\<close>

lemma entered_step:
  assumes "n_inv t"
  shows "entered p t = t \<or> n_step LCancel t (entered p t)"
proof (cases "ns_owner t")
  case (InJoin k i)
  then have "nu_live (ns_nur t)" using assms by (simp add: n_inv_def owner_ok_def)
  then have "fx_nursery_request_cancel (Some (ns_nur t)) = (FX_NURSERY_OK, Some ((ns_nur t)\<lparr>nu_cancel := True\<rparr>))"
    by (simp add: fx_nursery_request_cancel_def)
  from st_cancel [OF this] InJoin show ?thesis by (auto simp: entered_def join_enter_def)
qed (simp_all add: entered_def)

lemma after_scan_waits:
  assumes "n_ok n (ns_done s)" and "next_unjoined n i = Some r" and "joined_upto i n" and "i \<le> nu_n n"
  shows "waits_ok (after_scan k r n s)"
  using n_ok_scan [OF assms] by (auto simp: waits_ok_def after_scan_def split: option.splits)

lemma start_join_waits:
  assumes "start_join k s = Some s'" and "n_inv s"
  shows "waits_ok s' \<and> ns_nur s' = ns_nur s"
  using assms(1)
proof (cases rule: start_join_cases)
  case dead
  then show ?thesis by (simp add: waits_ok_def)
next
  case (scan r)
  have "waits_ok (after_scan k r (ns_nur s) s)"
    by (rule after_scan_waits [OF _ scan(2)]) (use assms(2) in \<open>simp_all add: n_inv_def\<close>)
  then show ?thesis using scan(3) by (simp add: after_scan_def split: option.splits)
qed

text \<open>The end of a wait on each build is one of the model's.\<close>

fun wait_of :: "plat_out \<Rightarrow> wait" where
  "wait_of (WinOut WAIT_OBJECT_0) = Joined"
| "wait_of (WinOut WAIT_TIMEOUT) = TimedOut"
| "wait_of (WinOut WAIT_FAILED) = WaitFailed"
| "wait_of (PosixOut w) = w"

lemma join_leave_spec:
  assumes "wait_may p timed ms ended (thr i) w" and "thr i = Joinable"
  shows "(wait_of w = Joined \<longrightarrow> ended) \<and> (wait_of w \<noteq> Joined \<longrightarrow> timed \<and> p \<noteq> OtherPosix) \<and>
    join_leave p timed w i n thr =
      map_option (\<lambda>(rc, n). (rc, n, if wait_of w = Joined then thr(i := Released) else thr))
        (fx_nursery_join_one timed (wait_of w) i n)"
  using assms
  by (cases "(p, timed, ms, ended, thr i, w)" rule: wait_may.cases; cases "set_joined i n")
    (auto simp: join_one_win_def join_one_linux_def join_one_other_def release_def fx_nursery_join_one_def
      win_ms_def INFINITE_def split: win_wait.splits wait.splits option.splits if_splits)

lemma plat_after_spec:
  assumes run: "plat_after p k w i s = Some s'" and w: "wait_may p (k = JoinTimed) ms (i \<in> ns_done (ps_sys s)) (ps_thr s i) w"
    and inv: "p_inv s" and own: "ns_owner (ps_sys s) = InJoin k i"
  shows "\<exists>t. after_wait k (wait_of w) i (ps_sys s) = Some t \<and> ps_sys s' = entered p t \<and>
    (wait_of w = Joined \<longrightarrow> i \<in> ns_done (ps_sys s)) \<and> (wait_of w \<noteq> Joined \<longrightarrow> k = JoinTimed \<and> p \<noteq> OtherPosix) \<and>
    ps_thr s' = (if wait_of w = Joined then (ps_thr s)(i := Released) else ps_thr s)"
proof -
  have i: "i < nu_n (ns_nur (ps_sys s))" using inv own by (simp add: p_inv_def n_inv_def owner_ok_def)
  then have j: "ps_thr s i = Joinable" using inv own by (auto simp: p_inv_def waits_ok_def thr_ok_def)
  note spec = join_leave_spec [where n = "ns_nur (ps_sys s)" and thr = "ps_thr s" and i = i, OF w j]
  from run obtain rc n where fin: "fx_nursery_join_one (k = JoinTimed) (wait_of w) i (ns_nur (ps_sys s)) = Some (rc, n)"
    unfolding plat_after_def conjunct2 [OF conjunct2 [OF spec]] by (auto simp: bind_iff)
  show ?thesis
  proof (cases "rc = FX_NURSERY_OK")
    case False
    with run fin spec show ?thesis by (auto simp: plat_after_def after_wait_def)
  next
    case True
    with run fin spec obtain r where r: "next_unjoined n (i + 1) = Some r"
      by (auto simp: plat_after_def bind_iff)
    with run fin spec True show ?thesis by (auto simp: plat_after_def after_wait_def)
  qed
qed

lemma plat_after_total:
  assumes w: "wait_may p (k = JoinTimed) ms (i \<in> ns_done (ps_sys s)) (ps_thr s i) w"
    and inv: "p_inv s" and own: "ns_owner (ps_sys s) = InJoin k i"
  shows "\<exists>s'. plat_after p k w i s = Some s'"
proof -
  let ?n = "ns_nur (ps_sys s)"
  have ok: "n_ok ?n (ns_done (ps_sys s))" "i < nu_n ?n" "joined_upto i ?n"
    using inv own by (auto simp: p_inv_def n_inv_def owner_ok_def)
  then have j: "ps_thr s i = Joinable" using inv own by (auto simp: p_inv_def waits_ok_def thr_ok_def)
  note spec = join_leave_spec [where n = ?n and thr = "ps_thr s" and i = i, OF w j]
  obtain n where n: "set_joined i ?n = Some n" using ok by (auto simp: set_joined_def n_ok_def array_simps)
  show ?thesis
  proof (cases "wait_of w = Joined")
    case True
    with spec have "i \<in> ns_done (ps_sys s)" by blast
    from set_joined_effect [OF ok(1,2) this n] ok(3) have "n_ok n (ns_done (ps_sys s))" "joined_upto (Suc i) n"
      "Suc i \<le> nu_n n" using ok(2) by auto
    from n_ok_scan_total [OF this] obtain r where "next_unjoined n (Suc i) = Some r" by blast
    with spec True n show ?thesis by (simp add: plat_after_def fx_nursery_join_one_def)
  next
    case False
    with spec show ?thesis
      by (cases "wait_of w") (auto simp: plat_after_def fx_nursery_join_one_def nursery_codes)
  qed
qed

lemma set_joined_eq:
  assumes "set_joined i n = Some n'"
  shows "i < length (nu_slots n) \<and> n' = n\<lparr>nu_slots := (nu_slots n)[i := (nu_slots n ! i)\<lparr>sl_joined := True\<rparr>]\<rparr>"
  using assms by (auto simp: set_joined_def bind_iff)

lemma p_wait_inv:
  assumes "plat_after p k w i s = Some s'" and "wait_may p (k = JoinTimed) ms (i \<in> ns_done (ps_sys s)) (ps_thr s i) w"
    and inv: "p_inv s" and own: "ns_owner (ps_sys s) = InJoin k i"
  shows "p_inv s' \<and> (n_step LOwner (ps_sys s) (ps_sys s') \<or>
    (\<exists>t. n_step LOwner (ps_sys s) t \<and> n_step LCancel t (ps_sys s')))"
proof -
  from plat_after_spec [OF assms] obtain t where t: "after_wait k (wait_of w) i (ps_sys s) = Some t"
    "ps_sys s' = entered p t" "wait_of w = Joined \<longrightarrow> i \<in> ns_done (ps_sys s)" "wait_of w \<noteq> Joined \<longrightarrow> k = JoinTimed"
    "ps_thr s' = (if wait_of w = Joined then (ps_thr s)(i := Released) else ps_thr s)" by blast
  have ninv: "n_inv (ps_sys s)" and thr: "thr_ok (ns_nur (ps_sys s)) (ps_thr s)"
    using inv by (simp_all add: p_inv_def)
  have st: "n_step LOwner (ps_sys s) t" by (rule st_wait [OF own t(4,3,1)])
  have it: "n_inv t" by (rule n_inv_step [OF st ninv])
  have "waits_ok t \<and> thr_ok (ns_nur t) (ps_thr s')"
    using t(1,4)
  proof (cases rule: after_wait_cases)
    case gave_up
    have "waits_ok ((ps_sys s)\<lparr>ns_owner := OIdle, ns_last := x\<rparr>)" for x by (simp add: waits_ok_def)
    with gave_up thr t(5) show ?thesis by (metis nsys.select_convs(1) nsys.surjective nsys.update_convs(3,4))
  next
    case (scan n r)
    have ok: "n_ok (ns_nur (ps_sys s)) (ns_done (ps_sys s))" "i < nu_n (ns_nur (ps_sys s))" "joined_upto i (ns_nur (ps_sys s))"
      using ninv own by (auto simp: n_inv_def owner_ok_def)
    note e = set_joined_effect [OF ok(1,2) _ scan(2)]
    have "waits_ok t" unfolding scan(4)
      by (rule after_scan_waits [OF _ scan(3)]) (use e ok t(3) scan(1) in auto)
    moreover have "thr_ok n (ps_thr s')"
      using set_joined_eq [OF scan(2)] thr t(5) scan(1) ok by (auto simp: thr_ok_def nth_list_update)
    ultimately show ?thesis by (simp add: scan(4) after_scan_def split: option.splits)
  qed
  then have "p_inv s'" using entered_step [OF it, of p] n_inv_step [OF _ it] by (auto simp: p_inv_def t(2) it)
  with st entered_step [OF it, of p] t(2) show ?thesis by auto
qed

lemma p_start_inv:
  assumes "plat_start p k s = Some s'" and inv: "p_inv s" and own: "ns_owner (ps_sys s) \<noteq> ODestroyed"
    and step: "\<And>t. start_join k (ps_sys s) = Some t \<Longrightarrow> n_step LOwner (ps_sys s) t"
  shows "p_inv s' \<and> (n_step LOwner (ps_sys s) (ps_sys s') \<or>
    (\<exists>t. n_step LOwner (ps_sys s) t \<and> n_step LCancel t (ps_sys s')))"
proof -
  from assms(1) obtain t where t: "start_join k (ps_sys s) = Some t" "s' = s\<lparr>ps_sys := entered p t\<rparr>"
    by (auto simp: plat_start_def bind_iff)
  have ninv: "n_inv (ps_sys s)" using inv by (simp add: p_inv_def)
  note st = step [OF t(1)] and w = start_join_waits [OF t(1) ninv]
  have it: "n_inv t" by (rule n_inv_step [OF st ninv])
  have "p_inv s'"
    using inv w it entered_step [OF it, of p] n_inv_step [OF _ it] by (auto simp: p_inv_def t(2))
  with st entered_step [OF it, of p] show ?thesis by (auto simp: t(2))
qed

lemma p_spawn_inv:
  assumes run: "plat_spawn (ns_nur (ps_sys s)) (ps_thr s) fn arg create_ok = Some (rc, n, thr)"
    and inv: "p_inv s" and own: "ns_owner (ps_sys s) \<noteq> ODestroyed"
  shows "p_inv \<lparr>ps_sys = (ps_sys s)\<lparr>ns_nur := n\<rparr>, ps_thr = thr\<rparr> \<and> n_step LSpawn (ps_sys s) ((ps_sys s)\<lparr>ns_nur := n\<rparr>)"
proof -
  let ?n = "ns_nur (ps_sys s)"
  have ninv: "n_inv (ps_sys s)" and wt: "waits_ok (ps_sys s)" and th: "thr_ok ?n (ps_thr s)"
    using inv by (simp_all add: p_inv_def)
  have sp: "fx_nursery_spawn (Some ?n) fn arg create_ok = Some (rc, Some n)"
    using run by (auto simp: plat_spawn_def fx_nursery_spawn_def bind_iff split: if_splits)
  have st: "n_step LSpawn (ps_sys s) ((ps_sys s)\<lparr>ns_nur := n\<rparr>)" by (rule st_spawn [OF sp own])
  have b: "nu_n ?n \<le> nu_cap ?n" "length (nu_slots ?n) = nu_cap ?n" using ninv by (simp_all add: n_inv_def n_ok_def)
  have own_slot: "i < nu_n ?n" if "ns_owner (ps_sys s) = InJoin k i" for k i
    using ninv that by (simp add: n_inv_def owner_ok_def)
  have "waits_ok ((ps_sys s)\<lparr>ns_nur := n\<rparr>) \<and> thr_ok n thr"
  proof (cases "fn = 0")
    case True
    with run wt th show ?thesis by (auto simp: plat_spawn_def waits_ok_def)
  next
    case False
    show ?thesis
    proof (cases rule: spawn_cs_cases [OF b, where fn = fn and arg = arg and ok = create_ok])
      case 1
      with run False wt th show ?thesis by (auto simp: plat_spawn_def waits_ok_def)
    next
      case 2
      with run False wt th show ?thesis by (auto simp: plat_spawn_def waits_ok_def)
    next
      case (3 sl)
      with run False have n: "n = ?n\<lparr>nu_slots := (nu_slots ?n)[nu_n ?n := sl]\<rparr>"
        and t: "thr = (ps_thr s)(nu_n ?n := NoThread)" by (auto simp: plat_spawn_def)
      show ?thesis using wt th own_slot unfolding n t waits_ok_def thr_ok_def by fastforce
    next
      case 4
      with run False have n: "n = ?n\<lparr>nu_slots := (nu_slots ?n)[nu_n ?n :=
            \<lparr>sl_fn = fn, sl_arg = arg, sl_used = True, sl_joined = False\<rparr>], nu_n := nu_n ?n + 1\<rparr>"
        and t: "thr = (ps_thr s)(nu_n ?n := Joinable)" by (auto simp: plat_spawn_def)
      have l: "nu_n ?n < length (nu_slots ?n)" using 4 b by simp
      have "waits_ok ((ps_sys s)\<lparr>ns_nur := n\<rparr>)" using wt own_slot unfolding n waits_ok_def by fastforce
      moreover have "thr_ok n thr"
        using th l unfolding n t thr_ok_def by (auto simp: nth_list_update less_Suc_eq)
      ultimately show ?thesis ..
    qed
  qed
  with n_inv_step [OF st ninv] st show ?thesis by (simp add: p_inv_def)
qed

inductive_cases n_step_cancelE: "n_step LCancel s s'"
inductive_cases n_step_finishE: "n_step (LFinish i) s s'"

lemma p_step_refines:
  assumes "p_step p l s s'" and inv: "p_inv s"
  shows "p_inv s' \<and> (n_step l (ps_sys s) (ps_sys s') \<or>
    (\<exists>t. l = LOwner \<and> n_step l (ps_sys s) t \<and> n_step LCancel t (ps_sys s')))"
  using assms(1)
proof cases
  case (p_spawn fn arg create_ok rc n thr)
  with p_spawn_inv [OF p_spawn(3) inv p_spawn(4)] show ?thesis by simp
next
  case (p_join k)
  with p_start_inv [OF p_join(4) inv] st_join [OF p_join(2,3)] show ?thesis by auto
next
  case p_shut_join
  with p_start_inv [OF p_shut_join(3) inv] st_shut_join [OF p_shut_join(2)] show ?thesis by auto
next
  case (p_wait k i ms w)
  with p_wait_inv [OF p_wait(4,3) inv p_wait(2)] show ?thesis by auto
next
  case (p_cancel t)
  then have "waits_ok t \<and> thr_ok (ns_nur t) (ps_thr s)"
    using inv by (elim n_step_cancelE)
      (auto simp: p_inv_def waits_ok_def fx_nursery_request_cancel_def split: if_splits)
  with p_cancel inv n_inv_step [OF p_cancel(3)] show ?thesis by (simp add: p_inv_def)
next
  case (p_finish i t)
  then have "waits_ok t \<and> thr_ok (ns_nur t) (ps_thr s)"
    using inv by (elim n_step_finishE) (auto simp: p_inv_def waits_ok_def)
  with p_finish inv n_inv_step [OF p_finish(3)] show ?thesis by (simp add: p_inv_def)
next
  case p_shutdown
  from n_step.st_shutdown [OF p_shutdown(3)] have st: "n_step LOwner (ps_sys s) (shutdown_first (ps_sys s))" .
  have "waits_ok (shutdown_first (ps_sys s)) \<and> thr_ok (ns_nur (shutdown_first (ps_sys s))) (ps_thr s)"
    using inv p_shutdown(3) by (auto simp: shutdown_first_def p_inv_def waits_ok_def)
  with st inv n_inv_step [OF st] show ?thesis by (simp add: p_inv_def p_shutdown)
next
  case p_shut_done
  from n_step.st_shut_done [OF p_shut_done(3)] have st: "n_step LOwner (ps_sys s) (shutdown_last (ps_sys s))" .
  have "waits_ok (shutdown_last (ps_sys s)) \<and> thr_ok (ns_nur (shutdown_last (ps_sys s))) (ps_thr s)"
    using inv by (auto simp: shutdown_last_def p_inv_def waits_ok_def)
  with st inv n_inv_step [OF st] show ?thesis by (simp add: p_inv_def p_shut_done)
next
  case p_destroy
  from n_step.st_destroy [OF p_destroy(3,4)] have st: "n_step LOwner (ps_sys s) ((ps_sys s)\<lparr>ns_owner := ODestroyed\<rparr>)" .
  with inv n_inv_step [OF st] show ?thesis by (simp add: p_inv_def p_destroy waits_ok_def)
qed

lemma p_inv_init: "n_inv (n_init n) \<Longrightarrow> nu_n n = 0 \<Longrightarrow> p_inv (p_init n)"
  by (simp add: p_inv_def p_init_def waits_ok_def n_init_def thr_ok_def)

lemma p_reach_refines:
  assumes "p_reach p may n s" and "n_inv (n_init n)" and "nu_n n = 0" and "\<And>s. may s LCancel"
  shows "p_inv s \<and> n_reach may n (ps_sys s)"
  using assms(1)
proof induction
  case pr_init
  then show ?case using p_inv_init assms(2,3) by (simp add: p_init_def nr_init)
next
  case (pr_step s l s')
  with p_step_refines [OF pr_step(2)] have inv: "p_inv s'"
    and st: "n_step l (ps_sys s) (ps_sys s') \<or> (\<exists>t. n_step l (ps_sys s) t \<and> n_step LCancel t (ps_sys s'))" by auto
  from st show ?case
  proof
    assume "n_step l (ps_sys s) (ps_sys s')"
    with inv pr_step nr_step show ?thesis by blast
  next
    assume "\<exists>t. n_step l (ps_sys s) t \<and> n_step LCancel t (ps_sys s')"
    then obtain t where t: "n_step l (ps_sys s) t" "n_step LCancel t (ps_sys s')" by blast
    have "n_reach may n t" using nr_step [OF _ t(1)] pr_step by blast
    from nr_step [OF this t(2) assms(4)] inv show ?thesis by blast
  qed
qed

section \<open>The properties\<close>

lemma created_empty: "fx_nursery_create_sized a b m k = Some n \<Longrightarrow> nu_n n = 0"
  by (auto simp: fx_nursery_create_sized_def split: if_splits)

text \<open>
  No thread is leaked: on every build, when the nursery has been shut down or destroyed
  and no thread spawned in the window of the shutdown, every thread that was ever started has
  been released, and exactly the started ones.
\<close>

lemma shutdown_releases_threads:
  assumes "fx_nursery_create_sized a b m k = Some n" and "p_reach p quiet n s"
    and "\<not> nu_live (ns_nur (ps_sys s))" and "i < nu_n (ns_nur (ps_sys s))"
  shows "ps_thr s i = Released \<and> i \<in> ns_done (ps_sys s)"
proof -
  have r: "p_inv s" "n_reach quiet n (ps_sys s)"
    using p_reach_refines [OF assms(2) n_inv_init [OF assms(1)] created_empty [OF assms(1)]] by (auto simp: quiet_def)
  have "all_joined (ns_nur (ps_sys s))"
    using closed_ok_reach [OF r(2) n_inv_init [OF assms(1)] created_live [OF assms(1)]] assms(3)
    by (simp add: closed_ok_def)
  with joined_done [OF _ this assms(4)] r(1) assms(4) show ?thesis by (auto simp: p_inv_def thr_ok_def)
qed

text \<open>
  C11: each build refines the nursery. On Windows, Linux and other POSIX systems, in every
  reachable state, the nursery's own state is one the model reaches (so what is proved of it
  holds of every build), a slot's thread is joinable exactly until the slot is joined, and
  when the owner waits, however the wait may end, the rest of its section is defined: no
  thread is joined twice and no handle closed twice, the join answers TIMEOUT or ERR only
  when it was given a timeout, and never ERR on Windows nor either of them on other POSIX
  systems.
\<close>

theorem builds_refine_nursery:
  assumes "fx_nursery_create_sized a b m k = Some n" and "p_reach p may n s" and "\<And>s. may s LCancel"
  shows "n_reach may n (ps_sys s) \<and>
    (\<forall>i < nu_n (ns_nur (ps_sys s)). ps_thr s i =
       (if sl_joined (nu_slots (ns_nur (ps_sys s)) ! i) then Released else Joinable)) \<and>
    (\<forall>j i ms w. ns_owner (ps_sys s) = InJoin j i \<longrightarrow>
       wait_may p (j = JoinTimed) ms (i \<in> ns_done (ps_sys s)) (ps_thr s i) w \<longrightarrow>
       (\<exists>s'. plat_after p j w i s = Some s' \<and> p_step p LOwner s s' \<and>
          (ns_owner (ps_sys s') = OIdle \<and> ns_last (ps_sys s') \<noteq> FX_NURSERY_OK \<longrightarrow>
             j = JoinTimed \<and> p \<noteq> OtherPosix \<and> (p = Win32 \<longrightarrow> ns_last (ps_sys s') = FX_NURSERY_TIMEOUT))))"
proof -
  have r: "p_inv s" "n_reach may n (ps_sys s)"
    using p_reach_refines [OF assms(2) n_inv_init [OF assms(1)] created_empty [OF assms(1)] assms(3)] by auto
  have "\<exists>s'. plat_after p j w i s = Some s' \<and> p_step p LOwner s s' \<and>
      (ns_owner (ps_sys s') = OIdle \<and> ns_last (ps_sys s') \<noteq> FX_NURSERY_OK \<longrightarrow>
         j = JoinTimed \<and> p \<noteq> OtherPosix \<and> (p = Win32 \<longrightarrow> ns_last (ps_sys s') = FX_NURSERY_TIMEOUT))"
    if own: "ns_owner (ps_sys s) = InJoin j i"
      and w: "wait_may p (j = JoinTimed) ms (i \<in> ns_done (ps_sys s)) (ps_thr s i) w" for j i ms w
  proof -
    from plat_after_total [OF w r(1) own] obtain s' where s': "plat_after p j w i s = Some s'" by blast
    from plat_after_spec [OF s' w r(1) own] obtain t
      where t: "after_wait j (wait_of w) i (ps_sys s) = Some t" "ps_sys s' = entered p t"
        "wait_of w \<noteq> Joined \<longrightarrow> j = JoinTimed \<and> p \<noteq> OtherPosix" by blast
    have thr: "ps_thr s i = Joinable"
      using r(1) own by (auto simp: p_inv_def waits_ok_def thr_ok_def n_inv_def owner_ok_def)
    have "wait_of w \<noteq> Joined \<and> (p = Win32 \<longrightarrow> ns_last (ps_sys s') = FX_NURSERY_TIMEOUT)"
      if idle: "ns_owner (ps_sys s') = OIdle" "ns_last (ps_sys s') \<noteq> FX_NURSERY_OK"
    proof (cases "wait_of w = Joined")
      case True
      with t(1) have "ns_owner t = OIdle \<Longrightarrow> ns_last t = FX_NURSERY_OK"
        by (auto simp: after_wait_def fx_nursery_join_one_def bind_iff after_scan_def split: option.splits if_splits)
      with idle t(2) show ?thesis by simp
    next
      case False
      have "p = Win32 \<Longrightarrow> wait_of w = TimedOut"
        using w False thr by (cases "(p, j = JoinTimed, ms, i \<in> ns_done (ps_sys s), ps_thr s i, w)" rule: wait_may.cases)
          (auto split: win_wait.splits)
      with t False show ?thesis
        by (auto simp: after_wait_def fx_nursery_join_one_def nursery_codes)
    qed
    with t(3) s' p_step.p_wait [OF own w s'] show ?thesis by blast
  qed
  moreover have "\<forall>i < nu_n (ns_nur (ps_sys s)). ps_thr s i =
       (if sl_joined (nu_slots (ns_nur (ps_sys s)) ! i) then Released else Joinable)"
    using r(1) by (simp add: p_inv_def thr_ok_def)
  ultimately show ?thesis using r(2) by blast
qed

definition plat_demo :: "bool \<Rightarrow> owner \<Rightarrow> psys" where
  "plat_demo cancel w =
     \<lparr>ps_sys = nur_demo True cancel [demo_slot False] {} w 0, ps_thr = (\<lambda>_. NoThread)(0 := Joinable)\<rparr>"

lemma plat_demo_reach: "p_reach OtherPosix anyone (demo_nursery True False []) (plat_demo True (InJoin JoinTimed 0))"
proof -
  have a: "p_reach OtherPosix anyone (demo_nursery True False [])
      \<lparr>ps_sys = nur_demo True False [] {} OIdle 0, ps_thr = \<lambda>_. NoThread\<rparr>"
    using pr_init [of OtherPosix anyone "demo_nursery True False []"] by (simp add: p_init_def nur_demo_start)
  have "plat_spawn (demo_nursery True False []) (\<lambda>_. NoThread) 7 0 True =
      Some (0, demo_nursery True False [demo_slot False], (\<lambda>_. NoThread)(0 := Joinable))"
    by (simp add: plat_spawn_def demo_nur_defs)
  from p_spawn [of "\<lparr>ps_sys = nur_demo True False [] {} OIdle 0, ps_thr = \<lambda>_. NoThread\<rparr>" 7 0 True _ _ _ OtherPosix] this
  have "p_step OtherPosix LSpawn \<lparr>ps_sys = nur_demo True False [] {} OIdle 0, ps_thr = \<lambda>_. NoThread\<rparr>
      (plat_demo False OIdle)" by (simp add: nur_demo_def plat_demo_def)
  from pr_step [OF a this] have b: "p_reach OtherPosix anyone (demo_nursery True False []) (plat_demo False OIdle)"
    by (simp add: anyone_def)
  have "plat_start OtherPosix JoinTimed (plat_demo False OIdle) = Some (plat_demo True (InJoin JoinTimed 0))"
    by (simp add: plat_start_def plat_demo_def demo_nur_defs entered_def join_enter_def)
  from pr_step [OF b p_join [OF _ _ this]] show ?thesis by (simp add: plat_demo_def nur_demo_def anyone_def)
qed

theorem builds_refine_nursery_witness:
  "n_reach anyone (demo_nursery True False []) (nur_demo True True [demo_slot False] {} (InJoin JoinTimed 0) 0) \<and>
   ps_thr (plat_demo True (InJoin JoinTimed 0)) 0 = Joinable"
  using builds_refine_nursery [OF demo_created plat_demo_reach]
  by (simp add: anyone_def plat_demo_def nur_demo_def demo_nursery_def demo_slot_def)

text \<open>
  The timed join of the other POSIX systems is not what the header says: it asks the tasks to
  stop and cannot answer TIMEOUT. And the largest timeout is no timeout on Windows.
\<close>

lemma portable_timed_join_cancels:
  "nu_cancel (join_enter OtherPosix True n)" and "\<not> wait_may OtherPosix True ms False t w"
  by (simp_all add: join_enter_def) (cases w; simp)

lemma largest_timeout_is_infinite: "\<not> wait_may Win32 True 0xFFFFFFFF ended t (WinOut WAIT_TIMEOUT)"
  by (simp add: win_ms_def INFINITE_def)

end
