(* ===== verification/NurserySmoke.thy ===== *)
theory NurserySmoke
  imports Nursery HostStd
begin

text \<open>
  The smoke program of the nursery (\<open>examples/concur_nursery_smoke/host.c\<close>): five probes, each
  a straight line of calls on one nursery, run by its owner while the tasks run beside it.
  The world of a probe is the memory its tasks write, the outcomes of the allocations and
  thread creations still to come, and a schedule: for each of the owner's next calls and
  waits the tasks that come to their end before it.
\<close>

section \<open>The tasks\<close>

text \<open>\<open>AddArg\<close> and \<open>CancelArg\<close> objects by address, and the \<open>int\<close> cells they point to.\<close>

record smem =
  sm_add :: "addr \<rightharpoonup> addr \<times> i32"
  sm_cancel :: "addr \<rightharpoonup> addr"
  sm_ints :: "addr \<rightharpoonup> i32"

definition TASK_STORE :: addr where "TASK_STORE = 0x101"
definition TASK_SPIN :: addr where "TASK_SPIN = 0x102"
definition TASK_SLEEP :: addr where "TASK_SLEEP = 0x103"

lemmas task_codes = TASK_STORE_def TASK_SPIN_def TASK_SLEEP_def

definition store_int :: "addr \<Rightarrow> i32 \<Rightarrow> smem \<Rightarrow> smem option" where
  "store_int p v m = (if sm_ints m p = None then None else Some (m\<lparr>sm_ints := (sm_ints m)(p \<mapsto> v)\<rparr>))"

definition task_store :: "addr \<Rightarrow> smem \<Rightarrow> smem option" where
  "task_store p m = do { a \<leftarrow> sm_add m p; store_int (fst a) (snd a) m }"

text \<open>The inner None: still spinning.\<close>

definition task_spin_until_cancel :: "FxNursery \<Rightarrow> addr \<Rightarrow> smem \<Rightarrow> smem option option" where
  "task_spin_until_cancel n p m =
     do { out \<leftarrow> sm_cancel m p;
          if \<not> fx_nursery_cancel_requested (Some n) then Some None
          else map_option Some (store_int out 42 m) }"

definition task_sleep_long :: "addr \<Rightarrow> smem \<Rightarrow> smem option" where
  "task_sleep_long p m = Some m"

definition call_task :: "FxNursery \<Rightarrow> smem \<Rightarrow> addr \<Rightarrow> addr \<Rightarrow> smem option option" where
  "call_task n m fn arg =
     (if fn = TASK_STORE then map_option Some (task_store arg m)
      else if fn = TASK_SPIN then task_spin_until_cancel n arg m
      else if fn = TASK_SLEEP then map_option Some (task_sleep_long arg m)
      else None)"

definition run_task :: "FxNurserySlot \<Rightarrow> FxNursery \<Rightarrow> smem \<Rightarrow> smem option option" where
  "run_task sl n m = fx_nursery_tramp (call_task n m) sl"

section \<open>The world of a probe\<close>

record sworld =
  sw_mem :: smem
  sw_oks :: "bool list"
  sw_sched :: "nat list list"

text \<open>The next outcome; what is not foreseen goes well.\<close>

definition draw :: "sworld \<Rightarrow> bool \<times> sworld" where
  "draw w = (case sw_oks w of [] \<Rightarrow> (True, w) | b # bs \<Rightarrow> (b, w\<lparr>sw_oks := bs\<rparr>))"

text \<open>Task \<open>i\<close> comes to its end, if it can; the result says whether it has ended.\<close>

definition task_ends :: "nat \<Rightarrow> nsys \<times> sworld \<Rightarrow> (bool \<times> nsys \<times> sworld) option" where
  "task_ends i sw =
     (let (s, w) = sw in
      if i \<in> ns_done s then Some (True, s, w)
      else if i < nu_n (ns_nur s) then
        do { sl \<leftarrow> aget (nu_slots (ns_nur s)) i;
             r \<leftarrow> run_task sl (ns_nur s) (sw_mem w);
             case r of None \<Rightarrow> Some (False, s, w)
             | Some m \<Rightarrow> Some (True, s\<lparr>ns_done := insert i (ns_done s)\<rparr>, w\<lparr>sw_mem := m\<rparr>) }
      else Some (False, s, w))"

fun run_tasks :: "nat list \<Rightarrow> nsys \<times> sworld \<Rightarrow> (nsys \<times> sworld) option" where
  "run_tasks [] sw = Some sw"
| "run_tasks (i # is) sw = do { (_, sw) \<leftarrow> task_ends i sw; run_tasks is sw }"

definition settle :: "nsys \<times> sworld \<Rightarrow> (nsys \<times> sworld) option" where
  "settle sw =
     (let (s, w) = sw in
      case sw_sched w of [] \<Rightarrow> Some (s, w) | is # rest \<Rightarrow> run_tasks is (s, w\<lparr>sw_sched := rest\<rparr>))"

text \<open>
  The owner from wait to wait. An untimed wait lasts until its task has ended; None includes a
  wait that lasts for ever. A timed one may end as \<open>wt\<close> says.
\<close>

partial_function (option) drive :: "wait \<Rightarrow> nsys \<times> sworld \<Rightarrow> (nsys \<times> sworld) option" where
  "drive wt sw =
     (case ns_owner (fst sw) of
        InJoin k i \<Rightarrow> do {
          (s, w) \<leftarrow> settle sw;
          if k = JoinTimed \<and> wt \<noteq> Joined \<and> i \<notin> ns_done s then do {
            s \<leftarrow> after_wait k wt i s; drive wt (s, w) }
          else do {
            (ended, s, w) \<leftarrow> task_ends i (s, w);
            if \<not> ended then None
            else do { s \<leftarrow> after_wait k Joined i s; drive wt (s, w) } } }
      | _ \<Rightarrow> Some sw)"

section \<open>The calls\<close>

definition c_create :: "i32 \<Rightarrow> sworld \<Rightarrow> nsys option \<times> sworld" where
  "c_create k w =
     (let (a, w) = draw w; (b, w) = draw w; (m, w) = draw w in
      (map_option n_init (fx_nursery_create_sized a b m k), w))"

definition c_spawn :: "nsys \<Rightarrow> addr \<Rightarrow> addr \<Rightarrow> sworld \<Rightarrow> (int \<times> nsys \<times> sworld) option" where
  "c_spawn s fn arg w =
     do { (s, w) \<leftarrow> settle (s, w);
          let (ok, w) = draw w in do {
            (rc, n) \<leftarrow> fx_nursery_spawn (Some (ns_nur s)) fn arg ok;
            n \<leftarrow> n;
            Some (rc, s\<lparr>ns_nur := n\<rparr>, w) } }"

definition c_join :: "join_kind \<Rightarrow> wait \<Rightarrow> nsys \<Rightarrow> sworld \<Rightarrow> (int \<times> nsys \<times> sworld) option" where
  "c_join k wt s w =
     do { (s, w) \<leftarrow> settle (s, w);
          s \<leftarrow> start_join k s;
          (s, w) \<leftarrow> drive wt (s, w);
          Some (ns_last s, s, w) }"

definition c_cancel :: "nsys \<Rightarrow> sworld \<Rightarrow> (int \<times> nsys \<times> sworld) option" where
  "c_cancel s w =
     do { (s, w) \<leftarrow> settle (s, w);
          let (rc, n) = fx_nursery_request_cancel (Some (ns_nur s)) in do {
            n \<leftarrow> n; Some (rc, s\<lparr>ns_nur := n\<rparr>, w) } }"

definition c_shutdown :: "nsys \<Rightarrow> sworld \<Rightarrow> (int \<times> nsys \<times> sworld) option" where
  "c_shutdown s w =
     do { (s, w) \<leftarrow> settle (s, w);
          s \<leftarrow> Some (shutdown_first s);
          if ns_owner s \<noteq> ShutCancelled then Some (ns_last s, s, w)
          else do {
            s \<leftarrow> start_join ShutJoin s;
            (s, w) \<leftarrow> drive Joined (s, w);
            if ns_owner s \<noteq> ShutJoined then Some (ns_last s, s, w)
            else let s = shutdown_last s in Some (ns_last s, s, w) } }"

definition c_destroy :: "nsys \<Rightarrow> sworld \<Rightarrow> sworld option" where
  "c_destroy s w =
     (if nu_live (ns_nur s) then map_option (\<lambda>(_, _, w). w) (c_shutdown s w) else Some w)"

section \<open>The probes\<close>

type_synonym outcome = "((int \<times> string) \<times> sworld) option"

definition quit :: "string \<Rightarrow> sworld \<Rightarrow> outcome" where
  "quit msg w = Some (fx_cli_fail ''concur_nursery'' msg 1, w)"

definition bail :: "nsys \<Rightarrow> string \<Rightarrow> sworld \<Rightarrow> outcome" where
  "bail s msg w = do { w \<leftarrow> c_destroy s w; quit msg w }"

definition pass :: "nsys \<Rightarrow> sworld \<Rightarrow> outcome" where
  "pass s w = do { w \<leftarrow> c_destroy s w; Some ((0, ''''), w) }"

text \<open>The locals of a probe: where they lie does not matter as long as they are apart.\<close>

definition P0 :: addr where "P0 = 0x10"
definition P1 :: addr where "P1 = 0x18"
definition A0 :: addr where "A0 = 0x20"
definition A1 :: addr where "A1 = 0x30"

definition locals :: "(addr \<rightharpoonup> addr \<times> i32) \<Rightarrow> (addr \<rightharpoonup> addr) \<Rightarrow> (addr \<rightharpoonup> i32) \<Rightarrow> sworld \<Rightarrow> sworld" where
  "locals a c i w = w\<lparr>sw_mem := \<lparr>sm_add = a, sm_cancel = c, sm_ints = i\<rparr>\<rparr>"

definition run_sum_probe :: "sworld \<Rightarrow> outcome" where
  "run_sum_probe w =
     (let w = locals [A0 \<mapsto> (P0, 20), A1 \<mapsto> (P1, 22)] Map.empty [P0 \<mapsto> 0, P1 \<mapsto> 0] w;
          (n, w) = c_create FX_NURSERY_DEFAULT_MAX w in
      case n of None \<Rightarrow> quit ''create failed'' w | Some s \<Rightarrow>
      if \<not> fx_nursery_is_live (Some (ns_nur s)) then quit ''create failed'' w
      else if int (fx_nursery_capacity (Some (ns_nur s))) \<noteq> sint FX_NURSERY_DEFAULT_MAX
      then bail s ''default capacity'' w
      else do {
        (rc, s, w) \<leftarrow> c_spawn s TASK_STORE A0 w;
        if rc \<noteq> FX_NURSERY_OK then bail s ''spawn0 failed'' w else do {
        (rc, s, w) \<leftarrow> c_spawn s TASK_STORE A1 w;
        if rc \<noteq> FX_NURSERY_OK then bail s ''spawn1 failed'' w else do {
        p \<leftarrow> fx_nursery_pending (Some (ns_nur s));
        if p \<noteq> 2 then bail s ''pending expected 2'' w else do {
        (rc, s, w) \<leftarrow> c_join JoinAll Joined s w;
        if rc \<noteq> FX_NURSERY_OK then bail s ''join_all failed'' w else do {
        (rc, s, w) \<leftarrow> c_join JoinAll Joined s w;
        if rc \<noteq> FX_NURSERY_OK then bail s ''double join failed'' w else do {
        p \<leftarrow> fx_nursery_pending (Some (ns_nur s));
        if p \<noteq> 0 then bail s ''pending after join'' w else do {
        a \<leftarrow> sm_ints (sw_mem w) P0;
        b \<leftarrow> sm_ints (sw_mem w) P1;
        if sint a + sint b \<noteq> 42 then bail s ''sum expected 42'' w
        else pass s w } } } } } } })"

text \<open>A loop of spawns; it stops at the first that does not answer OK.\<close>

fun c_fill :: "nat \<Rightarrow> nsys \<Rightarrow> sworld \<Rightarrow> (bool \<times> nsys \<times> sworld) option" where
  "c_fill 0 s w = Some (True, s, w)"
| "c_fill (Suc k) s w =
     do { (rc, s, w) \<leftarrow> c_spawn s TASK_STORE A0 w;
          if rc \<noteq> FX_NURSERY_OK then Some (False, s, w) else c_fill k s w }"

definition fill_default :: "sworld \<Rightarrow> outcome" where
  "fill_default w =
     (let (n, w) = c_create FX_NURSERY_DEFAULT_MAX w in
      case n of None \<Rightarrow> quit ''create2 failed'' w | Some s \<Rightarrow> do {
        (ok, s, w) \<leftarrow> c_fill (nat (sint FX_NURSERY_DEFAULT_MAX)) s w;
        if \<not> ok then bail s ''fill spawn failed early'' w else do {
        (rc, s, w) \<leftarrow> c_spawn s TASK_STORE A0 w;
        if rc \<noteq> FX_NURSERY_FULL then bail s ''expected FULL'' w else do {
        (rc, s, w) \<leftarrow> c_shutdown s w;
        if rc \<noteq> FX_NURSERY_OK then bail s ''shutdown failed'' w
        else if fx_nursery_is_live (Some (ns_nur s)) then bail s ''expected not live'' w else do {
        (rc, s, w) \<leftarrow> c_spawn s TASK_STORE A0 w;
        if rc \<noteq> FX_NURSERY_DEAD then bail s ''expected DEAD after shutdown'' w else do {
        (rc, s, w) \<leftarrow> c_join JoinAll Joined s w;
        if rc \<noteq> FX_NURSERY_DEAD then bail s ''join after shutdown expected DEAD'' w else do {
        (rc, s, w) \<leftarrow> c_shutdown s w;
        if rc \<noteq> FX_NURSERY_DEAD then bail s ''second shutdown expected DEAD'' w
        else pass s w } } } } } })"

definition run_sized_and_full :: "sworld \<Rightarrow> outcome" where
  "run_sized_and_full w =
     (let w = locals [A0 \<mapsto> (P0, 1)] Map.empty [P0 \<mapsto> 0] w;
          (n, w) = c_create 4 w in
      case n of None \<Rightarrow> quit ''create_sized 4 failed'' w | Some s \<Rightarrow>
      if fx_nursery_capacity (Some (ns_nur s)) \<noteq> 4 then quit ''create_sized 4 failed'' w
      else do {
        (ok, s, w) \<leftarrow> c_fill 4 s w;
        if \<not> ok then bail s ''sized fill failed'' w else do {
        (rc, s, w) \<leftarrow> c_spawn s TASK_STORE A0 w;
        if rc \<noteq> FX_NURSERY_FULL then bail s ''sized expected FULL'' w else do {
        w \<leftarrow> c_destroy s w;
        let (n0, w) = c_create 0 w in
        if n0 \<noteq> None then quit ''invalid size should NULL'' w else
        let (n1, w) = c_create 100 w in
        if n1 \<noteq> None then quit ''invalid size should NULL'' w
        else fill_default w } } })"

definition run_cancel :: "sworld \<Rightarrow> outcome" where
  "run_cancel w =
     (let w = locals Map.empty [A0 \<mapsto> P0] [P0 \<mapsto> 0] w;
          (n, w) = c_create FX_NURSERY_DEFAULT_MAX w in
      case n of None \<Rightarrow> quit ''cancel create failed'' w | Some s \<Rightarrow> do {
        (rc, s, w) \<leftarrow> c_spawn s TASK_SPIN A0 w;
        if rc \<noteq> FX_NURSERY_OK then bail s ''cancel spawn failed'' w else do {
        (rc, s, w) \<leftarrow> c_cancel s w;
        if rc \<noteq> FX_NURSERY_OK then bail s ''request_cancel failed'' w else do {
        (rc, s, w) \<leftarrow> c_join JoinAll Joined s w;
        if rc \<noteq> FX_NURSERY_OK then bail s ''cancel join failed'' w else do {
        out \<leftarrow> sm_ints (sw_mem w) P0;
        if sint out \<noteq> 42 then bail s ''cancel task did not finish'' w
        else pass s w } } } })"

text \<open>
  How the timed wait ends, \<open>wt\<close>, is up to the clock. The Windows build insists that it times
  out; elsewhere the task may have ended. The sleeper is then joined on both.
\<close>

definition post_timeout :: "nsys \<Rightarrow> sworld \<Rightarrow> outcome" where
  "post_timeout s w =
     do { (_, s, w) \<leftarrow> c_cancel s w;
          (rc, s, w) \<leftarrow> c_join JoinAll Joined s w;
          if rc \<noteq> FX_NURSERY_OK then bail s ''post-timeout join failed'' w else pass s w }"

definition run_timeout :: "bool \<Rightarrow> wait \<Rightarrow> sworld \<Rightarrow> outcome" where
  "run_timeout win wt w =
     (let w = locals Map.empty Map.empty Map.empty w;
          (n, w) = c_create FX_NURSERY_DEFAULT_MAX w in
      case n of None \<Rightarrow> quit ''timeout create failed'' w | Some s \<Rightarrow> do {
        (rc, s, w) \<leftarrow> c_spawn s TASK_SLEEP 0 w;
        if rc \<noteq> FX_NURSERY_OK then bail s ''timeout spawn failed'' w else do {
        (rc, s, w) \<leftarrow> c_join JoinTimed wt s w;
        if win then
          if rc \<noteq> FX_NURSERY_TIMEOUT then bail s ''expected TIMEOUT'' w else post_timeout s w
        else if rc \<noteq> FX_NURSERY_TIMEOUT \<and> rc \<noteq> FX_NURSERY_OK then bail s ''timeout path failed'' w
        else if rc = FX_NURSERY_TIMEOUT then post_timeout s w
        else pass s w } })"

text \<open>The test for NULL in front of join and shutdown, and in front of destroy.\<close>

definition on_nursery :: "(nsys \<Rightarrow> sworld \<Rightarrow> (int \<times> nsys \<times> sworld) option) \<Rightarrow> nsys option \<Rightarrow> sworld \<Rightarrow> (int \<times> sworld) option" where
  "on_nursery f p w =
     (case p of None \<Rightarrow> Some (FX_NURSERY_ERR, w) | Some s \<Rightarrow> do { (rc, _, w) \<leftarrow> f s w; Some (rc, w) })"

definition destroy_ptr :: "nsys option \<Rightarrow> sworld \<Rightarrow> sworld option" where
  "destroy_ptr p w = (case p of None \<Rightarrow> Some w | Some s \<Rightarrow> c_destroy s w)"

definition run_null_err :: "sworld \<Rightarrow> outcome" where
  "run_null_err w =
     do { (rc, _) \<leftarrow> fx_nursery_spawn None TASK_STORE 0 True;
          if rc \<noteq> FX_NURSERY_ERR then quit ''null spawn expected ERR'' w
          else do {
          (rc, w) \<leftarrow> on_nursery (c_join JoinAll Joined) None w;
          if rc \<noteq> FX_NURSERY_ERR then quit ''null join expected ERR'' w else do {
          (rc, w) \<leftarrow> on_nursery c_shutdown None w;
          if rc \<noteq> FX_NURSERY_ERR then quit ''null shutdown expected ERR'' w else do {
          w \<leftarrow> destroy_ptr None w;
          Some ((0, ''''), w) } } } }"

definition nursery_smoke_main :: "bool \<Rightarrow> wait \<Rightarrow> sworld \<Rightarrow> outcome" where
  "nursery_smoke_main win wt w =
     do { (rc, w) \<leftarrow> run_sum_probe w;
          if fst rc \<noteq> 0 then Some (rc, w) else do {
          (rc, w) \<leftarrow> run_sized_and_full w;
          if fst rc \<noteq> 0 then Some (rc, w) else do {
          (rc, w) \<leftarrow> run_cancel w;
          if fst rc \<noteq> 0 then Some (rc, w) else do {
          (rc, w) \<leftarrow> run_timeout win wt w;
          if fst rc \<noteq> 0 then Some (rc, w) else run_null_err w } } } }"

end
