(* ===== verification/NurserySmokeCalls.thy ===== *)
theory NurserySmokeCalls
  imports NurserySmoke NurseryTheorems
begin

text \<open>
  The calls of the nursery smoke program. The lemmas carry one invariant through them: the
  session is a nursery in order, every slot holds one of the probe's tasks, and a task that
  has ended has written what it writes.
\<close>

section \<open>What tasks write\<close>

type_synonym task = "addr \<times> addr"

definition task_of :: "FxNurserySlot \<Rightarrow> task" where
  "task_of sl = (sl_fn sl, sl_arg sl)"

definition writes :: "smem \<Rightarrow> task \<Rightarrow> (addr \<times> i32) option" where
  "writes m t =
     (if fst t = TASK_STORE then sm_add m (snd t)
      else if fst t = TASK_SPIN then map_option (\<lambda>p. (p, 42)) (sm_cancel m (snd t))
      else None)"

definition able :: "smem \<Rightarrow> task \<Rightarrow> bool" where
  "able m t \<longleftrightarrow>
     (case writes m t of None \<Rightarrow> fst t = TASK_SLEEP | Some (p, v) \<Rightarrow> sm_ints m p \<noteq> None)"

definition tasks_ok :: "smem \<Rightarrow> task set \<Rightarrow> bool" where
  "tasks_ok m T \<longleftrightarrow> (\<forall>t \<in> T. able m t) \<and>
     (\<forall>t \<in> T. \<forall>u \<in> T. \<forall>p a b. writes m t = Some (p, a) \<longrightarrow> writes m u = Some (p, b) \<longrightarrow> a = b)"

definition after_task :: "smem \<Rightarrow> task \<Rightarrow> smem" where
  "after_task m t = (case writes m t of None \<Rightarrow> m | Some (p, v) \<Rightarrow> m\<lparr>sm_ints := (sm_ints m)(p \<mapsto> v)\<rparr>)"

lemma run_task_spec:
  assumes "able m (task_of sl)"
  shows "run_task sl n m =
    Some (if sl_fn sl = TASK_SPIN \<and> \<not> nu_cancel n then None else Some (after_task m (task_of sl)))"
  using assms
  by (auto simp: run_task_def call_task_def fx_nursery_tramp_def able_def writes_def task_of_def after_task_def task_codes task_store_def
      task_spin_until_cancel_def task_sleep_long_def store_int_def fx_nursery_cancel_requested_def
      split: option.splits if_splits)

lemma after_task_keeps [simp]:
  "sm_add (after_task m t) = sm_add m" "sm_cancel (after_task m t) = sm_cancel m"
  "writes (after_task m t) u = writes m u"
  by (auto simp: after_task_def writes_def split: option.splits)

lemma after_task_able: "able m u \<Longrightarrow> able (after_task m t) u"
  by (auto simp: able_def split: option.splits) (auto simp: after_task_def split: option.splits)

lemma after_task_ok: "tasks_ok m T \<Longrightarrow> tasks_ok (after_task m t) T"
  by (auto simp: tasks_ok_def after_task_able)

lemma after_task_writes: "writes m t = Some (p, v) \<Longrightarrow> sm_ints (after_task m t) p = Some v"
  by (simp add: after_task_def)

lemma after_task_others:
  assumes "tasks_ok m T" and "t \<in> T" and "u \<in> T" and "writes m u = Some (p, v)" and "sm_ints m p = Some v"
  shows "sm_ints (after_task m t) p = Some v"
  using assms by (auto simp: after_task_def tasks_ok_def split: option.splits)

section \<open>The invariant\<close>

definition s_inv :: "task set \<Rightarrow> nsys \<Rightarrow> smem \<Rightarrow> bool" where
  "s_inv T s m \<longleftrightarrow> n_inv s \<and> ns_done s \<subseteq> {..<nu_n (ns_nur s)} \<and> tasks_ok m T \<and>
     (\<forall>i < nu_n (ns_nur s). task_of (nu_slots (ns_nur s) ! i) \<in> T) \<and>
     (\<forall>i \<in> ns_done s. \<forall>p v. writes m (task_of (nu_slots (ns_nur s) ! i)) = Some (p, v) \<longrightarrow> sm_ints m p = Some v)"

text \<open>What the tasks do between two steps of the owner: end, and write.\<close>

definition moves :: "task set \<Rightarrow> nsys \<times> sworld \<Rightarrow> nsys \<times> sworld \<Rightarrow> bool" where
  "moves T a b \<longleftrightarrow> fst b = (fst a)\<lparr>ns_done := ns_done (fst b)\<rparr> \<and> ns_done (fst a) \<subseteq> ns_done (fst b) \<and>
     sw_oks (snd b) = sw_oks (snd a) \<and> set (sw_sched (snd b)) \<subseteq> set (sw_sched (snd a)) \<and>
     s_inv T (fst b) (sw_mem (snd b)) \<and>
     writes (sw_mem (snd b)) = writes (sw_mem (snd a))"

lemma moves_refl: "s_inv T (fst a) (sw_mem (snd a)) \<Longrightarrow> moves T a a"
  by (simp add: moves_def)

lemma moves_trans: "moves T a b \<Longrightarrow> moves T b c \<Longrightarrow> moves T a c"
  unfolding moves_def by (metis (no_types, lifting) nsys.surjective nsys.update_convs(2) order_trans nsys.select_convs)

definition may_end :: "nsys \<Rightarrow> nat \<Rightarrow> bool" where
  "may_end s i \<longleftrightarrow> i < nu_n (ns_nur s) \<and> (nu_cancel (ns_nur s) \<or> sl_fn (nu_slots (ns_nur s) ! i) \<noteq> TASK_SPIN)"

lemma n_inv_done:
  "n_inv s \<Longrightarrow> ns_done s \<subseteq> D \<Longrightarrow> n_inv (s\<lparr>ns_done := D\<rparr>)"
  by (auto simp: n_inv_def n_ok_def)

lemma task_ends_spec:
  assumes "s_inv T s (sw_mem w)"
  shows "\<exists>b s' w'. task_ends i (s, w) = Some (b, s', w') \<and> moves T (s, w) (s', w') \<and>
    sw_sched w' = sw_sched w \<and> (may_end s i \<longrightarrow> b) \<and> (b \<longrightarrow> i \<in> ns_done s')"
proof (cases "i \<in> ns_done s \<or> \<not> i < nu_n (ns_nur s)")
  case True
  then show ?thesis using assms moves_refl [of T "(s, w)"] by (auto simp: task_ends_def may_end_def)
next
  case False
  let ?n = "ns_nur s" and ?m = "sw_mem w" let ?sl = "nu_slots ?n ! i"
  have i: "i < nu_n ?n" "i \<notin> ns_done s" "i < length (nu_slots ?n)" and T: "task_of ?sl \<in> T" "able ?m (task_of ?sl)"
    using False assms by (auto simp: s_inv_def n_inv_def n_ok_def tasks_ok_def)
  show ?thesis
  proof (cases "sl_fn ?sl = TASK_SPIN \<and> \<not> nu_cancel ?n")
    case True
    then show ?thesis using i run_task_spec [OF T(2), of ?n] assms moves_refl [of T "(s, w)"]
      by (auto simp: task_ends_def array_simps may_end_def)
  next
    case False
    let ?m' = "after_task ?m (task_of ?sl)"
    have tok: "tasks_ok ?m T" using assms by (simp add: s_inv_def)
    have old: "sm_ints ?m' p = Some v"
      if "j \<in> ns_done s" "writes ?m (task_of (nu_slots ?n ! j)) = Some (p, v)" for j p v
      by (rule after_task_others [OF tok T(1) _ that(2)]) (use assms that in \<open>auto simp: s_inv_def\<close>)
    have "s_inv T (s\<lparr>ns_done := insert i (ns_done s)\<rparr>) ?m'"
      using assms i old after_task_ok [OF tok] by (auto simp: s_inv_def after_task_writes intro: n_inv_done)
    then have "moves T (s, w) (s\<lparr>ns_done := insert i (ns_done s)\<rparr>, w\<lparr>sw_mem := ?m'\<rparr>)"
      by (auto simp: moves_def fun_eq_iff)
    moreover have "run_task ?sl ?n ?m = Some (Some ?m')" using False run_task_spec [OF T(2), of ?n] by auto
    ultimately show ?thesis using i by (intro exI [of _ True]) (auto simp: task_ends_def array_simps)
  qed
qed

lemma run_tasks_spec:
  assumes "s_inv T s (sw_mem w)"
  shows "\<exists>s' w'. run_tasks is (s, w) = Some (s', w') \<and> moves T (s, w) (s', w')"
  using assms
proof (induction "is" arbitrary: s w)
  case Nil
  then show ?case using moves_refl [of T "(s, w)"] by simp
next
  case (Cons i "is")
  from task_ends_spec [OF Cons.prems] obtain b s1 w1
    where 1: "task_ends i (s, w) = Some (b, s1, w1)" "moves T (s, w) (s1, w1)" by blast
  then have "s_inv T s1 (sw_mem w1)" by (simp add: moves_def)
  from Cons.IH [OF this] obtain s' w' where 2: "run_tasks is (s1, w1) = Some (s', w')"
    "moves T (s1, w1) (s', w')" by blast
  from moves_trans [OF 1(2) 2(2)] show ?case using 1(1) 2(1) by simp
qed

lemma settle_spec:
  assumes "s_inv T s (sw_mem w)"
  shows "\<exists>s' w'. settle (s, w) = Some (s', w') \<and> moves T (s, w) (s', w')"
proof (cases "sw_sched w")
  case Nil
  then show ?thesis using moves_refl [of T "(s, w)"] assms by (simp add: settle_def)
next
  case (Cons "is" rest)
  have "s_inv T s (sw_mem (w\<lparr>sw_sched := rest\<rparr>))" using assms by simp
  from run_tasks_spec [OF this, of "is"] Cons show ?thesis by (auto simp: settle_def moves_def)
qed

section \<open>Joins\<close>

definition same_tasks :: "FxNursery \<Rightarrow> FxNursery \<Rightarrow> bool" where
  "same_tasks n n' \<longleftrightarrow> nu_n n' = nu_n n \<and> nu_cap n' = nu_cap n \<and> nu_cancel n' = nu_cancel n \<and> nu_live n' = nu_live n \<and>
     (\<forall>i. task_of (nu_slots n' ! i) = task_of (nu_slots n ! i))"

lemma same_tasks_refl [simp]: "same_tasks n n"
  by (simp add: same_tasks_def)

lemma same_tasks_trans: "same_tasks a b \<Longrightarrow> same_tasks b c \<Longrightarrow> same_tasks a c"
  by (simp add: same_tasks_def)

lemma set_joined_same:
  assumes "set_joined i n = Some n'"
  shows "same_tasks n n'"
proof -
  have l: "i < length (nu_slots n)" and n': "n' = n\<lparr>nu_slots := (nu_slots n)[i := (nu_slots n ! i)\<lparr>sl_joined := True\<rparr>]\<rparr>"
    using assms by (auto simp: set_joined_def aget_def aset_def split: if_splits)
  have "task_of ((nu_slots n)[i := (nu_slots n ! i)\<lparr>sl_joined := True\<rparr>] ! j) = task_of (nu_slots n ! j)" for j
    using l by (cases "j = i") (simp_all add: task_of_def)
  then show ?thesis by (simp add: n' same_tasks_def)
qed

lemma s_inv_same:
  assumes "s_inv T s m" and "same_tasks (ns_nur s) (ns_nur s')" and "n_inv s'" and "ns_done s' = ns_done s"
  shows "s_inv T s' m"
  using assms by (auto simp: s_inv_def same_tasks_def)

lemma may_end_same:
  "same_tasks (ns_nur s) (ns_nur s') \<Longrightarrow> may_end s i \<Longrightarrow> may_end s' i"
  by (auto simp: may_end_def same_tasks_def task_of_def)

definition wait_code :: "wait \<Rightarrow> int" where
  "wait_code wt = (if wt = TimedOut then FX_NURSERY_TIMEOUT else FX_NURSERY_ERR)"

definition joined_all :: "join_kind \<Rightarrow> nsys \<Rightarrow> bool" where
  "joined_all k s \<longleftrightarrow> all_joined (ns_nur s) \<and>
     (if k = ShutJoin then ns_owner s = ShutJoined else ns_owner s = OIdle \<and> ns_last s = FX_NURSERY_OK)"

definition gave_up :: "join_kind \<Rightarrow> wait \<Rightarrow> nsys \<Rightarrow> bool" where
  "gave_up k wt s \<longleftrightarrow> k = JoinTimed \<and> wt \<noteq> Joined \<and> ns_owner s = OIdle \<and> ns_last s = wait_code wt"

lemma drive_stop: "joined_all k s \<or> gave_up k wt s \<Longrightarrow> drive wt (s, w) = Some (s, w)"
  by (subst drive.simps) (auto simp: joined_all_def gave_up_def split: if_splits)

lemma after_wait_gives_up:
  assumes "wt \<noteq> Joined"
  shows "after_wait JoinTimed wt i s = Some (s\<lparr>ns_owner := OIdle, ns_last := wait_code wt\<rparr>)"
  using assms by (cases wt) (simp_all add: after_wait_def fx_nursery_join_one_def wait_code_def nursery_codes)

lemma after_wait_joins:
  assumes "s_inv T s m" and "ns_owner s = InJoin k i" and "i \<in> ns_done s"
  shows "\<exists>s'. after_wait k Joined i s = Some s' \<and> s_inv T s' m \<and> same_tasks (ns_nur s) (ns_nur s') \<and>
    (joined_all k s' \<or> (\<exists>j. i < j \<and> ns_owner s' = InJoin k j))"
proof -
  let ?n = "ns_nur s"
  have inv: "n_inv s" and ok: "n_ok ?n (ns_done s)" "i < nu_n ?n" "joined_upto i ?n" "nu_live ?n"
    using assms by (auto simp: s_inv_def n_inv_def owner_ok_def)
  then obtain n where n: "set_joined i ?n = Some n"
    by (auto simp: set_joined_def array_simps n_ok_def)
  note eff = set_joined_effect [OF ok(1,2) assms(3) n]
  then obtain r where r: "next_unjoined n (i + 1) = Some r"
    using n_ok_scan_total [of n "ns_done s" "i + 1"] ok by auto
  have spec: "case r of None \<Rightarrow> joined_upto (nu_n n) n | Some j \<Rightarrow> i + 1 \<le> j \<and> j < nu_n n \<and> joined_upto j n \<and> \<not> sl_joined (nu_slots n ! j)"
    by (rule n_ok_scan [of n "ns_done s"]) (use eff r ok in auto)
  have aw: "after_wait k Joined i s = Some (after_scan k r n s)"
    using n r by (simp add: after_wait_def fx_nursery_join_one_def)
  then have "n_inv (after_scan k r n s)" using inv assms by (auto intro: after_wait_inv)
  moreover have "same_tasks ?n (ns_nur (after_scan k r n s))" "ns_done (after_scan k r n s) = ns_done s"
    using set_joined_same [OF n] by (auto simp: after_scan_def split: option.splits)
  ultimately have "s_inv T (after_scan k r n s) m" using s_inv_same [OF assms(1)] by blast
  moreover have "joined_all k (after_scan k r n s) \<or> (\<exists>j. i < j \<and> ns_owner (after_scan k r n s) = InJoin k j)"
    using spec by (auto simp: after_scan_def joined_all_def all_joined_def split: option.splits)
  ultimately show ?thesis using aw \<open>same_tasks ?n _\<close> by blast
qed

lemma drive_spec:
  assumes "s_inv T s (sw_mem w)" and "ns_owner s = InJoin k i" and "\<forall>j < nu_n (ns_nur s). may_end s j"
  shows "\<exists>s' w'. drive wt (s, w) = Some (s', w') \<and> s_inv T s' (sw_mem w') \<and> same_tasks (ns_nur s) (ns_nur s') \<and>
    writes (sw_mem w') = writes (sw_mem w) \<and> sw_oks w' = sw_oks w \<and> set (sw_sched w') \<subseteq> set (sw_sched w) \<and>
    (joined_all k s' \<or> gave_up k wt s')"
  using assms
proof (induction "nu_n (ns_nur s) - i" arbitrary: s w i rule: less_induct)
  case less
  from settle_spec [OF less.prems(1)] obtain s1 w1
    where 1: "settle (s, w) = Some (s1, w1)" "moves T (s, w) (s1, w1)" by blast
  have s1: "s1 = s\<lparr>ns_done := ns_done s1\<rparr>" using 1(2) by (simp add: moves_def)
  then have st1: "ns_nur s1 = ns_nur s" "ns_owner s1 = InJoin k i" using less.prems(2)
    by (metis nsys.ext_inject nsys.surjective nsys.update_convs(2))+
  have inv1: "s_inv T s1 (sw_mem w1)" "writes (sw_mem w1) = writes (sw_mem w)" "sw_oks w1 = sw_oks w"
    "set (sw_sched w1) \<subseteq> set (sw_sched w)"
    using 1(2) by (simp_all add: moves_def)
  have i: "i < nu_n (ns_nur s)" using less.prems(1,2) by (auto simp: s_inv_def n_inv_def owner_ok_def)
  show ?case
  proof (cases "k = JoinTimed \<and> wt \<noteq> Joined \<and> i \<notin> ns_done s1")
    case True
    let ?s = "s1\<lparr>ns_owner := OIdle, ns_last := wait_code wt\<rparr>"
    have aw: "after_wait k wt i s1 = Some ?s" using True after_wait_gives_up by simp
    have g: "gave_up k wt ?s" using True by (simp add: gave_up_def)
    have "drive wt (s, w) = Some (?s, w1)"
      using less.prems(2) 1(1) True aw drive_stop [of k ?s wt w1] g by (subst drive.simps) simp
    moreover have "s_inv T ?s (sw_mem w1)"
      by (rule s_inv_same [OF inv1(1)]) (use inv1(1) in \<open>auto simp: s_inv_def n_inv_def owner_ok_def\<close>)
    ultimately show ?thesis using g st1 inv1(2-4) by auto
  next
    case False
    from task_ends_spec [OF inv1(1), of i] obtain b s2 w2
      where 2: "task_ends i (s1, w1) = Some (b, s2, w2)" "moves T (s1, w1) (s2, w2)"
        "may_end s1 i \<longrightarrow> b" "b \<longrightarrow> i \<in> ns_done s2" by blast
    have b: "b" using 2(3) less.prems(3) i st1(1) by (auto simp: may_end_def)
    have "s2 = s1\<lparr>ns_done := ns_done s2\<rparr>" using 2(2) by (simp add: moves_def)
    then have st2: "ns_nur s2 = ns_nur s" "ns_owner s2 = InJoin k i" using st1
      by (metis nsys.ext_inject nsys.surjective nsys.update_convs(2))+
    have inv2: "s_inv T s2 (sw_mem w2)" "writes (sw_mem w2) = writes (sw_mem w)" "sw_oks w2 = sw_oks w"
      "set (sw_sched w2) \<subseteq> set (sw_sched w)"
      using 2(2) inv1(2-4) by (auto simp: moves_def)
    from after_wait_joins [OF inv2(1) st2(2)] b 2(4) obtain s3
      where 3: "after_wait k Joined i s2 = Some s3" "s_inv T s3 (sw_mem w2)" "same_tasks (ns_nur s) (ns_nur s3)"
        "joined_all k s3 \<or> (\<exists>j. i < j \<and> ns_owner s3 = InJoin k j)" using st2(1) by auto
    have run: "drive wt (s, w) = drive wt (s3, w2)"
      using less.prems(2) 1(1) False 2(1) b 3(1) by (subst drive.simps) auto
    from 3(4) show ?thesis
    proof (elim disjE exE conjE)
      assume "joined_all k s3"
      then show ?thesis using run drive_stop [of k s3 wt w2] 3 inv2(2-4) by auto
    next
      fix j assume j: "i < j" "ns_owner s3 = InJoin k j"
      have n: "nu_n (ns_nur s3) = nu_n (ns_nur s)" using 3(3) by (simp add: same_tasks_def)
      have all: "\<forall>j < nu_n (ns_nur s3). may_end s3 j" using less.prems(3) may_end_same [OF 3(3)] n by simp
      have "nu_n (ns_nur s3) - j < nu_n (ns_nur s) - i" using n j(1) i by simp
      from less.hyps [OF this 3(2) j(2) all] obtain s' w' where
        "drive wt (s3, w2) = Some (s', w')" "s_inv T s' (sw_mem w')" "same_tasks (ns_nur s3) (ns_nur s')"
        "writes (sw_mem w') = writes (sw_mem w2)" "sw_oks w' = sw_oks w2" "set (sw_sched w') \<subseteq> set (sw_sched w2)"
        "joined_all k s' \<or> gave_up k wt s'" by blast
      then show ?thesis using run inv2(2-4) same_tasks_trans [OF 3(3)] by auto
    qed
  qed
qed

section \<open>The calls of the owner\<close>

definition ready :: "task set \<Rightarrow> nsys \<Rightarrow> sworld \<Rightarrow> bool" where
  "ready T s w \<longleftrightarrow> s_inv T s (sw_mem w) \<and> ns_owner s = OIdle"

definition lucky :: "sworld \<Rightarrow> bool" where
  "lucky w \<longleftrightarrow> (\<forall>b \<in> set (sw_oks w). b)"

definition same_world :: "sworld \<Rightarrow> sworld \<Rightarrow> bool" where
  "same_world w w' \<longleftrightarrow> writes (sw_mem w') = writes (sw_mem w) \<and> (lucky w \<longrightarrow> lucky w') \<and>
     set (sw_sched w') \<subseteq> set (sw_sched w)"

definition ends :: "task set \<Rightarrow> FxNursery \<Rightarrow> bool" where
  "ends T n \<longleftrightarrow> nu_cancel n \<or> (\<forall>t \<in> T. fst t \<noteq> TASK_SPIN)"

definition holds :: "FxNursery \<Rightarrow> task \<Rightarrow> bool" where
  "holds n t \<longleftrightarrow> (\<exists>i < nu_n n. task_of (nu_slots n ! i) = t)"

definition unjoined :: "FxNursery \<Rightarrow> bool" where
  "unjoined n \<longleftrightarrow> (\<forall>i < nu_n n. \<not> sl_joined (nu_slots n ! i))"

lemma same_world_trans: "same_world a b \<Longrightarrow> same_world b c \<Longrightarrow> same_world a c"
  by (auto simp: same_world_def)

lemma all_may_end: "s_inv T s m \<Longrightarrow> ends T (ns_nur s) \<Longrightarrow> \<forall>j < nu_n (ns_nur s). may_end s j"
  by (fastforce simp: s_inv_def ends_def may_end_def task_of_def)

lemma settled:
  assumes "ready T s w"
  shows "\<exists>s' w'. settle (s, w) = Some (s', w') \<and> ready T s' w' \<and> same_world w w' \<and> sw_oks w' = sw_oks w \<and>
    ns_nur s' = ns_nur s"
proof -
  from settle_spec assms obtain s' w' where 1: "settle (s, w) = Some (s', w')" "moves T (s, w) (s', w')"
    unfolding ready_def by blast
  then have "s' = s\<lparr>ns_done := ns_done s'\<rparr>" by (simp add: moves_def)
  then have "ns_nur s' = ns_nur s" "ns_owner s' = ns_owner s"
    by (metis nsys.ext_inject nsys.surjective nsys.update_convs(2))+
  with 1 assms show ?thesis by (auto simp: ready_def moves_def same_world_def lucky_def)
qed

lemma start_join_runs:
  assumes "s_inv T s m" and "nu_live (ns_nur s)" and "ns_owner s \<noteq> ODestroyed"
  shows "\<exists>s'. start_join k s = Some s' \<and> s_inv T s' m \<and> same_tasks (ns_nur s) (ns_nur s') \<and>
    (joined_all k s' \<or> (\<exists>i. ns_owner s' = InJoin k i))"
proof -
  let ?n = "ns_nur s"
  have inv: "n_inv s" and ok: "n_ok ?n (ns_done s)" using assms by (auto simp: s_inv_def n_inv_def)
  from n_ok_scan_total [OF ok, of 0] obtain r where r: "next_unjoined ?n 0 = Some r" by auto
  then have j: "start_join k s = Some (after_scan k r ?n s)" using assms(2) by (simp add: start_join_def Let_def)
  have "s_inv T (after_scan k r ?n s) m"
    by (rule s_inv_same [OF assms(1) _ start_join_inv [OF j inv assms(3)]])
      (auto simp: after_scan_def split: option.splits)
  moreover have "joined_all k (after_scan k r ?n s) \<or> (\<exists>i. ns_owner (after_scan k r ?n s) = InJoin k i)"
    using n_ok_scan [OF ok r] by (auto simp: after_scan_def joined_all_def all_joined_def split: option.splits)
  ultimately show ?thesis using j by (auto simp: after_scan_def split: option.splits)
qed

lemma join_runs:
  assumes "s_inv T s (sw_mem w)" and "nu_live (ns_nur s)" and "ns_owner s \<noteq> ODestroyed" and "ends T (ns_nur s)"
  shows "\<exists>s1 s' w'. start_join k s = Some s1 \<and> drive wt (s1, w) = Some (s', w') \<and> s_inv T s' (sw_mem w') \<and>
    same_tasks (ns_nur s) (ns_nur s') \<and> same_world w w' \<and> (joined_all k s' \<or> gave_up k wt s')"
proof -
  from start_join_runs [OF assms(1-3)] obtain s1 where 1: "start_join k s = Some s1" "s_inv T s1 (sw_mem w)"
    "same_tasks (ns_nur s) (ns_nur s1)" "joined_all k s1 \<or> (\<exists>i. ns_owner s1 = InJoin k i)" by blast
  from 1(4) show ?thesis
  proof (elim disjE exE)
    assume "joined_all k s1"
    then show ?thesis using 1 drive_stop [of k s1 wt w] by (auto simp: same_world_def)
  next
    fix i assume i: "ns_owner s1 = InJoin k i"
    have "ends T (ns_nur s1)" using 1(3) assms(4) by (simp add: ends_def same_tasks_def)
    from drive_spec [OF 1(2) i all_may_end [OF 1(2) this], of wt] 1 same_tasks_trans [OF 1(3)] show ?thesis
      by (auto simp: same_world_def lucky_def)
  qed
qed

lemma c_join_live:
  assumes "ready T s w" and "nu_live (ns_nur s)" and "ends T (ns_nur s)" and "k \<noteq> ShutJoin"
  shows "\<exists>rc s' w'. c_join k wt s w = Some (rc, s', w') \<and> ready T s' w' \<and> same_world w w' \<and>
    same_tasks (ns_nur s) (ns_nur s') \<and>
    (rc = FX_NURSERY_OK \<and> all_joined (ns_nur s') \<or> k = JoinTimed \<and> wt \<noteq> Joined \<and> rc = wait_code wt)"
proof -
  from settled [OF assms(1)] obtain s0 w0 where 0: "settle (s, w) = Some (s0, w0)" "ready T s0 w0"
    "same_world w w0" "ns_nur s0 = ns_nur s" by blast
  then have "s_inv T s0 (sw_mem w0)" "nu_live (ns_nur s0)" "ns_owner s0 \<noteq> ODestroyed" "ends T (ns_nur s0)"
    using assms by (simp_all add: ready_def)
  from join_runs [OF this, of k wt] obtain s1 s' w' where 1: "start_join k s0 = Some s1"
    "drive wt (s1, w0) = Some (s', w')" "s_inv T s' (sw_mem w')" "same_tasks (ns_nur s) (ns_nur s')"
    "same_world w0 w'" "joined_all k s' \<or> gave_up k wt s'" using 0(4) by auto
  then have "c_join k wt s w = Some (ns_last s', s', w')" using 0 by (simp add: c_join_def)
  moreover have "ready T s' w'" using 1(3,6) assms(4) by (auto simp: ready_def joined_all_def gave_up_def)
  moreover have "ns_last s' = FX_NURSERY_OK \<and> all_joined (ns_nur s') \<or>
      k = JoinTimed \<and> wt \<noteq> Joined \<and> ns_last s' = wait_code wt"
    using 1(6) assms(4) by (auto simp: joined_all_def gave_up_def)
  ultimately show ?thesis using same_world_trans [OF 0(3) 1(5)] 1(4) by blast
qed

lemma c_join_dead:
  assumes "ready T s w" and "\<not> nu_live (ns_nur s)"
  shows "\<exists>s' w'. c_join k wt s w = Some (FX_NURSERY_DEAD, s', w') \<and> ready T s' w' \<and> same_world w w' \<and> ns_nur s' = ns_nur s"
proof -
  from settled [OF assms(1)] obtain s0 w0 where 0: "settle (s, w) = Some (s0, w0)" "ready T s0 w0"
    "same_world w w0" "ns_nur s0 = ns_nur s" by blast
  let ?s = "s0\<lparr>ns_owner := OIdle, ns_last := FX_NURSERY_DEAD\<rparr>"
  have j: "start_join k s0 = Some ?s" using 0(4) assms(2) by (simp add: start_join_def Let_def)
  have d: "drive wt (?s, w0) = Some (?s, w0)" by (subst drive.simps) simp
  have "s_inv T ?s (sw_mem w0)"
    by (rule s_inv_same [where s = s0]) (use 0(2) in \<open>auto simp: ready_def s_inv_def n_inv_def owner_ok_def\<close>)
  with 0 j d show ?thesis by (simp add: c_join_def ready_def)
qed

lemma s_inv_dead:
  "s_inv T s m \<Longrightarrow> s_inv T (s\<lparr>ns_nur := (ns_nur s)\<lparr>nu_live := False\<rparr>, ns_owner := OIdle, ns_last := rc\<rparr>) m"
  by (auto simp: s_inv_def n_inv_def owner_ok_def)

lemma c_shutdown_live:
  assumes "ready T s w" and "nu_live (ns_nur s)"
  shows "\<exists>s' w'. c_shutdown s w = Some (FX_NURSERY_OK, s', w') \<and> ready T s' w' \<and> same_world w w' \<and>
    \<not> nu_live (ns_nur s') \<and> nu_n (ns_nur s') = nu_n (ns_nur s)"
proof -
  from settled [OF assms(1)] obtain s0 w0 where 0: "settle (s, w) = Some (s0, w0)" "ready T s0 w0"
    "same_world w w0" "ns_nur s0 = ns_nur s" by blast
  let ?s = "shutdown_first s0"
  have sh: "?s = s0\<lparr>ns_nur := (ns_nur s0)\<lparr>nu_cancel := True\<rparr>, ns_owner := ShutCancelled\<rparr>"
    using 0(4) assms(2) by (simp add: shutdown_first_def)
  have inv: "s_inv T ?s (sw_mem w0)" using 0(2,4) assms(2) unfolding sh
    by (auto simp: ready_def s_inv_def n_inv_def owner_ok_def)
  have "nu_live (ns_nur ?s)" "ns_owner ?s \<noteq> ODestroyed" "ends T (ns_nur ?s)"
    using 0(4) assms(2) by (simp_all add: sh ends_def)
  from join_runs [OF inv this, of ShutJoin Joined] obtain s1 s' w' where 1:
    "start_join ShutJoin ?s = Some s1" "drive Joined (s1, w0) = Some (s', w')" "s_inv T s' (sw_mem w')"
    "same_tasks (ns_nur ?s) (ns_nur s')" "same_world w0 w'" "joined_all ShutJoin s'"
    by (auto simp: gave_up_def)
  then have o: "ns_owner s' = ShutJoined" by (simp add: joined_all_def)
  have "c_shutdown s w = Some (FX_NURSERY_OK, shutdown_last s', w')"
    using 0(1) 1(1,2) o by (simp add: c_shutdown_def sh shutdown_last_def Let_def)
  moreover have "ready T (shutdown_last s') w'"
    using s_inv_dead [OF 1(3)] o by (simp add: ready_def shutdown_last_def)
  ultimately show ?thesis using same_world_trans [OF 0(3) 1(5)] 0(4) 1(4)
    by (auto simp: shutdown_last_def same_tasks_def sh)
qed

lemma c_shutdown_dead:
  assumes "ready T s w" and "\<not> nu_live (ns_nur s)"
  shows "\<exists>s' w'. c_shutdown s w = Some (FX_NURSERY_DEAD, s', w') \<and> ready T s' w' \<and> same_world w w' \<and> ns_nur s' = ns_nur s"
proof -
  from settled [OF assms(1)] obtain s0 w0 where 0: "settle (s, w) = Some (s0, w0)" "ready T s0 w0"
    "same_world w w0" "ns_nur s0 = ns_nur s" by blast
  moreover have "s_inv T (s0\<lparr>ns_last := FX_NURSERY_DEAD\<rparr>) (sw_mem w0)"
    by (rule s_inv_same [where s = s0]) (use 0(2) in \<open>auto simp: ready_def s_inv_def n_inv_def owner_ok_def\<close>)
  ultimately show ?thesis using assms(2) by (simp add: c_shutdown_def shutdown_first_def ready_def)
qed

lemma c_destroy_runs:
  assumes "ready T s w"
  shows "\<exists>w'. c_destroy s w = Some w' \<and> same_world w w' \<and> tasks_ok (sw_mem w') T"
  using c_shutdown_live [OF assms] assms
  by (auto simp: c_destroy_def same_world_def ready_def s_inv_def)

lemma c_cancel_live:
  assumes "ready T s w" and "nu_live (ns_nur s)"
  shows "\<exists>s' w'. c_cancel s w = Some (FX_NURSERY_OK, s', w') \<and> ready T s' w' \<and> same_world w w' \<and>
    ns_nur s' = (ns_nur s)\<lparr>nu_cancel := True\<rparr>"
proof -
  from settled [OF assms(1)] obtain s0 w0 where 0: "settle (s, w) = Some (s0, w0)" "ready T s0 w0"
    "same_world w w0" "ns_nur s0 = ns_nur s" by blast
  have "s_inv T (s0\<lparr>ns_nur := (ns_nur s)\<lparr>nu_cancel := True\<rparr>\<rparr>) (sw_mem w0)"
    using 0(2,4) by (auto simp: ready_def s_inv_def n_inv_def owner_ok_def)
  with 0 assms(2) show ?thesis by (simp add: c_cancel_def fx_nursery_request_cancel_def ready_def)
qed

lemma draw_lucky: "draw w = (b, w') \<Longrightarrow> same_world w w' \<and> sw_mem w' = sw_mem w \<and> (lucky w \<longrightarrow> b)"
  by (auto simp: draw_def same_world_def lucky_def split: list.splits)

lemma spawned_inv:
  assumes "s_inv T s m" and "ns_owner s = OIdle" and "nu_n (ns_nur s) < nu_cap (ns_nur s)" and "(fn, arg) \<in> T"
  shows "s_inv T (s\<lparr>ns_nur := (ns_nur s)\<lparr>nu_slots := (nu_slots (ns_nur s))[nu_n (ns_nur s) :=
      \<lparr>sl_fn = fn, sl_arg = arg, sl_used = True, sl_joined = False\<rparr>], nu_n := nu_n (ns_nur s) + 1\<rparr>\<rparr>) m"
proof -
  let ?n = "ns_nur s" let ?sl = "\<lparr>sl_fn = fn, sl_arg = arg, sl_used = True, sl_joined = False\<rparr>"
  have ok: "n_ok ?n (ns_done s)" and l: "nu_n ?n < length (nu_slots ?n)"
    using assms by (auto simp: s_inv_def n_inv_def n_ok_def)
  have old: "(nu_slots ?n)[nu_n ?n := ?sl] ! i = nu_slots ?n ! i" if "i < nu_n ?n" for i using that by simp
  have "n_ok (?n\<lparr>nu_slots := (nu_slots ?n)[nu_n ?n := ?sl], nu_n := nu_n ?n + 1\<rparr>) (ns_done s)"
    by (rule n_ok_spawn_new [OF ok assms(3)]) simp_all
  then show ?thesis using assms l old
    by (auto simp: s_inv_def n_inv_def owner_ok_def task_of_def less_Suc_eq lessThan_Suc)
qed

lemma err_inv:
  assumes "s_inv T s m" and "ns_owner s = OIdle"
  shows "s_inv T (s\<lparr>ns_nur := (ns_nur s)\<lparr>nu_slots := (nu_slots (ns_nur s))[nu_n (ns_nur s) := sl]\<rparr>\<rparr>) m"
proof -
  have ok: "n_ok (ns_nur s) (ns_done s)" using assms by (auto simp: s_inv_def n_inv_def)
  have "(nu_slots (ns_nur s))[nu_n (ns_nur s) := sl] ! i = nu_slots (ns_nur s) ! i" if "i < nu_n (ns_nur s)" for i
    using that by simp
  then show ?thesis using assms n_ok_spawn_slot [OF ok] by (auto simp: s_inv_def n_inv_def owner_ok_def subset_iff)
qed

text \<open>
  A schedule that ends no task in slot 0 before somebody waits for it: the first task of a nursery
  is then still running at every call of the owner before that.
\<close>

definition on_time :: "sworld \<Rightarrow> bool" where
  "on_time w \<longleftrightarrow> (\<forall>is \<in> set (sw_sched w). 0 \<notin> set is)"

lemma same_world_on_time: "same_world w w' \<Longrightarrow> on_time w \<Longrightarrow> on_time w'"
  by (auto simp: same_world_def on_time_def)

lemma task_ends_other:
  "task_ends i (s, w) = Some (b, s', w') \<Longrightarrow> i \<noteq> 0 \<Longrightarrow> 0 \<notin> ns_done s \<Longrightarrow> 0 \<notin> ns_done s'"
  by (auto simp: task_ends_def bind_iff split: if_splits option.splits)

lemma run_tasks_late:
  "run_tasks is (s, w) = Some (s', w') \<Longrightarrow> 0 \<notin> set is \<Longrightarrow> 0 \<notin> ns_done s \<Longrightarrow> 0 \<notin> ns_done s'"
proof (induction "is" arbitrary: s w)
  case (Cons i "is")
  from Cons.prems(1) obtain b s1 w1 where 1: "task_ends i (s, w) = Some (b, s1, w1)"
    "run_tasks is (s1, w1) = Some (s', w')" by (auto simp: bind_iff)
  from Cons.IH [OF 1(2)] Cons.prems(2,3) task_ends_other [OF 1(1)] show ?case by auto
qed simp

lemma settle_late:
  "settle (s, w) = Some (s', w') \<Longrightarrow> on_time w \<Longrightarrow> 0 \<notin> ns_done s \<Longrightarrow> 0 \<notin> ns_done s'"
  by (auto simp: settle_def on_time_def dest: run_tasks_late split: list.splits)

lemma c_spawn_late:
  assumes "c_spawn s fn arg w = Some (rc, s', w')" and "on_time w" and "0 \<notin> ns_done s"
  shows "0 \<notin> ns_done s'"
proof -
  from assms(1) obtain s0 w0 where s0: "settle (s, w) = Some (s0, w0)"
    by (auto simp: c_spawn_def bind_iff)
  obtain ok w1 where "draw w0 = (ok, w1)" by (cases "draw w0")
  with assms(1) s0 obtain n where "s' = s0\<lparr>ns_nur := n\<rparr>" by (auto simp: c_spawn_def bind_iff)
  with settle_late [OF s0 assms(2,3)] show ?thesis by simp
qed

text \<open>A timed join that runs out of time before its first task has ended says so.\<close>

lemma c_join_times_out:
  assumes "ready T s w" and "nu_live (ns_nur s)" and "unjoined (ns_nur s)" and "0 < nu_n (ns_nur s)"
    and "on_time w" and "0 \<notin> ns_done s" and "c_join JoinTimed TimedOut s w = Some (rc, s', w')"
  shows "rc = FX_NURSERY_TIMEOUT"
proof -
  from settled [OF assms(1)] obtain s0 w0 where 0: "settle (s, w) = Some (s0, w0)" "ready T s0 w0"
    "same_world w w0" "ns_nur s0 = ns_nur s" by blast
  have late0: "0 \<notin> ns_done s0" by (rule settle_late [OF 0(1) assms(5,6)])
  have sl: "0 < length (nu_slots (ns_nur s))" "sl_used (nu_slots (ns_nur s) ! 0)" "\<not> sl_joined (nu_slots (ns_nur s) ! 0)"
    using assms(1,3,4) by (auto simp: ready_def s_inv_def n_inv_def n_ok_def unjoined_def)
  let ?s = "s0\<lparr>ns_owner := InJoin JoinTimed 0\<rparr>"
  have "next_unjoined (ns_nur s) 0 = Some (Some 0)"
    using assms(4) sl by (subst next_unjoined.simps) (simp add: array_simps)
  then have j: "start_join JoinTimed s0 = Some ?s"
    using assms(2) 0(4) by (simp add: start_join_def after_scan_def Let_def)
  have inv: "s_inv T s0 (sw_mem w0)" using 0(2) by (simp add: ready_def)
  have "s_inv T ?s (sw_mem w0)"
    by (rule s_inv_same [OF inv]) (use inv assms(2,4) 0(4) in \<open>auto simp: s_inv_def n_inv_def owner_ok_def\<close>)
  from settle_spec [OF this] obtain s2 w2 where 2: "settle (?s, w0) = Some (s2, w2)" by blast
  have "0 \<notin> ns_done s2"
    using settle_late [OF 2 same_world_on_time [OF 0(3) assms(5)]] late0 by simp
  then have "drive TimedOut (?s, w0) = drive TimedOut (s2\<lparr>ns_owner := OIdle, ns_last := FX_NURSERY_TIMEOUT\<rparr>, w2)"
    using 2 after_wait_gives_up [of TimedOut 0 s2] by (subst drive.simps) (simp add: wait_code_def)
  also have "\<dots> = Some (s2\<lparr>ns_owner := OIdle, ns_last := FX_NURSERY_TIMEOUT\<rparr>, w2)"
    by (subst drive.simps) simp
  finally show ?thesis using assms(7) 0(1) j by (simp add: c_join_def)
qed

definition spawned :: "task \<Rightarrow> FxNursery \<Rightarrow> FxNursery \<Rightarrow> bool" where
  "spawned t n n' \<longleftrightarrow> nu_live n' \<and> nu_cap n' = nu_cap n \<and> nu_cancel n' = nu_cancel n \<and> nu_n n' = nu_n n + 1 \<and>
     (\<forall>u. holds n' u \<longleftrightarrow> holds n u \<or> u = t) \<and> (unjoined n \<longrightarrow> unjoined n')"

lemma spawn_spawned:
  assumes "n_ok n dn" and "nu_n n < nu_cap n" and "nu_live n"
  shows "spawned (fn, arg) n (n\<lparr>nu_slots := (nu_slots n)[nu_n n := \<lparr>sl_fn = fn, sl_arg = arg, sl_used = True, sl_joined = False\<rparr>],
    nu_n := nu_n n + 1\<rparr>)"
proof -
  let ?sl = "\<lparr>sl_fn = fn, sl_arg = arg, sl_used = True, sl_joined = False\<rparr>"
  have new: "(nu_slots n)[nu_n n := ?sl] ! nu_n n = ?sl" using assms(1,2) by (simp add: n_ok_def)
  have old: "(nu_slots n)[nu_n n := ?sl] ! i = nu_slots n ! i" if "i < nu_n n" for i using that by simp
  have "holds (n\<lparr>nu_slots := (nu_slots n)[nu_n n := ?sl], nu_n := nu_n n + 1\<rparr>) u \<longleftrightarrow> holds n u \<or> u = (fn, arg)" for u
    using new old by (auto simp: holds_def Ex_less_Suc task_of_def)
  moreover have "unjoined n \<longrightarrow> unjoined (n\<lparr>nu_slots := (nu_slots n)[nu_n n := ?sl], nu_n := nu_n n + 1\<rparr>)"
    using new old by (auto simp: unjoined_def less_Suc_eq)
  ultimately show ?thesis using assms(3) by (simp add: spawned_def)
qed

lemma c_spawn_spec:
  assumes "ready T s w" and "(fn, arg) \<in> T" and "fn \<noteq> 0"
  shows "\<exists>rc s' w'. c_spawn s fn arg w = Some (rc, s', w') \<and> ready T s' w' \<and> same_world w w' \<and>
    (if \<not> nu_live (ns_nur s) then rc = FX_NURSERY_DEAD \<and> ns_nur s' = ns_nur s
     else if nu_n (ns_nur s) = nu_cap (ns_nur s) then rc = FX_NURSERY_FULL \<and> ns_nur s' = ns_nur s
     else rc = FX_NURSERY_OK \<and> spawned (fn, arg) (ns_nur s) (ns_nur s') \<or>
       rc = FX_NURSERY_ERR \<and> \<not> lucky w)"
proof -
  from settled [OF assms(1)] obtain s0 w0 where 0: "settle (s, w) = Some (s0, w0)" "ready T s0 w0"
    "same_world w w0" "ns_nur s0 = ns_nur s" by blast
  obtain ok w' where d: "draw w0 = (ok, w')" by (cases "draw w0")
  note dl = draw_lucky [OF d]
  let ?n = "ns_nur s"
  have inv: "s_inv T s0 (sw_mem w')" "ns_owner s0 = OIdle" using 0(2) dl by (simp_all add: ready_def)
  then have nok: "n_ok ?n (ns_done s0)" using 0(4) by (simp add: s_inv_def n_inv_def)
  then have b: "nu_n ?n \<le> nu_cap ?n" "length (nu_slots ?n) = nu_cap ?n" by (simp_all add: n_ok_def)
  have sw: "same_world w w'" using 0(3) dl same_world_trans by blast
  have run: "c_spawn s fn arg w = Some (rc, s0\<lparr>ns_nur := n'\<rparr>, w')" if "spawn_cs ?n fn arg ok = Some (rc, n')" for rc n'
    using 0(1,4) d that assms(3) by (simp add: c_spawn_def fx_nursery_spawn_def)
  have same: "s0\<lparr>ns_nur := ?n\<rparr> = s0" using 0(4) by simp
  show ?thesis
  proof (cases rule: spawn_cs_cases [OF b, where fn = fn and arg = arg and ok = ok])
    case 1
    then show ?thesis using run [OF 1(2)] inv sw same 0(4) by (auto simp: ready_def)
  next
    case 2
    then show ?thesis using run [OF 2(3)] inv sw same 0(4) by (auto simp: ready_def)
  next
    case (3 sl)
    then have "\<not> lucky w" using dl 0(3) by (auto simp: same_world_def)
    with 3 show ?thesis using run [OF 3(4)] err_inv [OF inv, of sl] 0(4) inv(2) sw by (auto simp: ready_def)
  next
    case 4
    then show ?thesis using run [OF 4(4)] spawned_inv [OF inv _ assms(2)] spawn_spawned [OF nok] 0(4) inv(2) sw
      by (auto simp: ready_def)
  qed
qed

lemma c_fill_spec:
  assumes "ready T s w" and "(TASK_STORE, A0) \<in> T" and "nu_live (ns_nur s)" and "nu_n (ns_nur s) + k \<le> nu_cap (ns_nur s)"
  shows "\<exists>b s' w'. c_fill k s w = Some (b, s', w') \<and> ready T s' w' \<and> same_world w w' \<and>
    (b \<longrightarrow> nu_live (ns_nur s') \<and> nu_cap (ns_nur s') = nu_cap (ns_nur s) \<and> nu_n (ns_nur s') = nu_n (ns_nur s) + k) \<and>
    (\<not> b \<longrightarrow> \<not> lucky w)"
  using assms
proof (induction k arbitrary: s w)
  case 0
  then show ?case by (intro exI [of _ True]) (simp add: same_world_def)
next
  case (Suc k)
  have ne: "TASK_STORE \<noteq> 0" by (simp add: TASK_STORE_def)
  from c_spawn_spec [OF Suc.prems(1,2) ne] Suc.prems(3,4) obtain rc s1 w1 where
    1: "c_spawn s TASK_STORE A0 w = Some (rc, s1, w1)" "ready T s1 w1" "same_world w w1"
      "rc = FX_NURSERY_OK \<and> spawned (TASK_STORE, A0) (ns_nur s) (ns_nur s1) \<or> rc = FX_NURSERY_ERR \<and> \<not> lucky w" by auto
  show ?case
  proof (cases "rc = FX_NURSERY_OK")
    case True
    then have sp: "spawned (TASK_STORE, A0) (ns_nur s) (ns_nur s1)" using 1(4) by (auto simp: nursery_codes)
    then have "nu_live (ns_nur s1)" "nu_n (ns_nur s1) + k \<le> nu_cap (ns_nur s1)"
      using Suc.prems(4) by (simp_all add: spawned_def)
    from Suc.IH [OF 1(2) Suc.prems(2) this] obtain b s' w' where
      "c_fill k s1 w1 = Some (b, s', w')" "ready T s' w'" "same_world w1 w'"
      "b \<longrightarrow> nu_live (ns_nur s') \<and> nu_cap (ns_nur s') = nu_cap (ns_nur s1) \<and> nu_n (ns_nur s') = nu_n (ns_nur s1) + k"
      "\<not> b \<longrightarrow> \<not> lucky w1" by blast
    then show ?thesis using 1 True sp same_world_trans [OF 1(3)] by (auto simp: spawned_def same_world_def)
  next
    case False
    then show ?thesis using 1 by auto
  qed
qed

end
