(* ===== verification/NurserySmokeTheorems.thy ===== *)
theory NurserySmokeTheorems
  imports NurserySmokeCalls
begin

text \<open>
  The smoke program of the nursery passes: on every schedule each probe returns, and the
  program returns 0 when the allocations and thread creations succeed.
\<close>

section \<open>The probes\<close>

text \<open>A probe returns 0 or 1, and 0 when it was lucky.\<close>

definition probed :: "bool \<Rightarrow> sworld \<Rightarrow> outcome \<Rightarrow> bool" where
  "probed sure w r \<longleftrightarrow> (\<exists>c err w'. r = Some ((c, err), w') \<and> (c = 0 \<and> err = '''' \<or> c = 1) \<and>
     set (sw_sched w') \<subseteq> set (sw_sched w) \<and> (lucky w \<longrightarrow> lucky w' \<and> (sure \<longrightarrow> c = 0)))"

lemma probed_quit: "same_world w w' \<Longrightarrow> \<not> (lucky w \<and> sure) \<Longrightarrow> probed sure w (quit msg w')"
  by (simp add: probed_def quit_def fx_cli_fail_def same_world_def)

lemma probed_bail: "ready T s w' \<Longrightarrow> same_world w w' \<Longrightarrow> \<not> (lucky w \<and> sure) \<Longrightarrow> probed sure w (bail s msg w')"
proof -
  assume a: "ready T s w'" "same_world w w'" "\<not> (lucky w \<and> sure)"
  from c_destroy_runs [OF a(1)] obtain w2 where w2: "c_destroy s w' = Some w2" "same_world w' w2" by blast
  show ?thesis using probed_quit [OF same_world_trans [OF a(2) w2(2)] a(3)] w2(1) by (simp add: bail_def)
qed

lemma probed_pass: "ready T s w' \<Longrightarrow> same_world w w' \<Longrightarrow> probed sure w (pass s w')"
proof -
  assume a: "ready T s w'" "same_world w w'"
  from c_destroy_runs [OF a(1)] obtain w2 where w2: "c_destroy s w' = Some w2" "same_world w' w2" by blast
  show ?thesis using same_world_trans [OF a(2) w2(2)] w2(1) by (simp add: pass_def probed_def same_world_def)
qed

lemma c_create_spec:
  assumes "c_create k w = (p, w')" and "tasks_ok (sw_mem w) T"
  shows "same_world w w' \<and> sw_mem w' = sw_mem w \<and>
    (sint k < 1 \<or> 64 < sint k \<longrightarrow> p = None) \<and> (1 \<le> sint k \<and> sint k \<le> 64 \<and> lucky w \<longrightarrow> p \<noteq> None) \<and>
    (\<forall>s. p = Some s \<longrightarrow> ready T s w' \<and> nu_live (ns_nur s) \<and> nu_n (ns_nur s) = 0 \<and> nu_cap (ns_nur s) = nat (sint k) \<and>
       \<not> nu_cancel (ns_nur s) \<and> ns_done s = {})"
proof -
  obtain a w1 b w2 m where d: "draw w = (a, w1)" "draw w1 = (b, w2)" "draw w2 = (m, w')"
    and p: "p = map_option n_init (fx_nursery_create_sized a b m k)"
    using assms(1) by (auto simp: c_create_def Let_def split: prod.splits)
  note l = draw_lucky [OF d(1)] draw_lucky [OF d(2)] draw_lucky [OF d(3)]
  have sw: "same_world w w'" "sw_mem w' = sw_mem w" using l same_world_trans by (blast, simp)
  have lucky: "lucky w \<Longrightarrow> a \<and> b \<and> m" using l by (simp add: same_world_def)
  have "ready T s w' \<and> nu_live (ns_nur s) \<and> nu_n (ns_nur s) = 0 \<and> nu_cap (ns_nur s) = nat (sint k) \<and> \<not> nu_cancel (ns_nur s) \<and>
      ns_done s = {}"
    if s: "p = Some s" for s
  proof -
    from s p obtain n where n: "fx_nursery_create_sized a b m k = Some n" "s = n_init n" by auto
    then have "nu_live n" "nu_n n = 0" "nu_cap n = nat (sint k)" "\<not> nu_cancel n"
      by (auto simp: fx_nursery_create_sized_def split: if_splits)
    moreover have "s_inv T s (sw_mem w')"
      using n_inv_init [OF n(1)] n(2) assms(2) sw(2) \<open>nu_n n = 0\<close> by (simp add: s_inv_def n_init_def)
    ultimately show ?thesis using n(2) by (simp add: ready_def n_init_def)
  qed
  moreover have "sint k < 1 \<or> 64 < sint k \<longrightarrow> p = None" using p
    by (simp add: fx_nursery_create_sized_def FX_NURSERY_HARD_MAX_def)
  moreover have "1 \<le> sint k \<and> sint k \<le> 64 \<and> lucky w \<longrightarrow> p \<noteq> None" using p lucky
    by (simp add: fx_nursery_create_sized_def FX_NURSERY_HARD_MAX_def)
  ultimately show ?thesis using sw by blast
qed

lemma pending_spec:
  assumes "s_inv T s m"
  shows "unjoined (ns_nur s) \<Longrightarrow> fx_nursery_pending (Some (ns_nur s)) = Some (nu_n (ns_nur s))"
    and "all_joined (ns_nur s) \<Longrightarrow> fx_nursery_pending (Some (ns_nur s)) = Some 0"
proof -
  let ?n = "ns_nur s"
  have l: "nu_n ?n \<le> length (nu_slots ?n)" "\<forall>i < nu_n ?n. sl_used (nu_slots ?n ! i)"
    using assms by (auto simp: s_inv_def n_inv_def n_ok_def)
  have "pending_from ?n is p = Some (p + length (filter (\<lambda>i. \<not> sl_joined (nu_slots ?n ! i)) is))"
    if "set is \<subseteq> {..<nu_n ?n}" for "is" p
    using that l by (induction "is" arbitrary: p) (auto simp: aget_def)
  from this [of "[0..<nu_n ?n]" 0] have p: "fx_nursery_pending (Some ?n) =
      Some (length (filter (\<lambda>i. \<not> sl_joined (nu_slots ?n ! i)) [0..<nu_n ?n]))"
    by (simp add: fx_nursery_pending_def lessThan_atLeast0)
  show "unjoined ?n \<Longrightarrow> fx_nursery_pending (Some ?n) = Some (nu_n ?n)"
    using p by (simp add: unjoined_def filter_id_conv [THEN iffD2])
  show "all_joined ?n \<Longrightarrow> fx_nursery_pending (Some ?n) = Some 0"
    using p by (simp add: all_joined_def joined_upto_def filter_empty_conv)
qed

lemma joined_writes:
  assumes "ready T s w" and "all_joined (ns_nur s)" and "holds (ns_nur s) t" and "writes (sw_mem w) t = Some (p, v)"
  shows "sm_ints (sw_mem w) p = Some v"
  using assms by (auto simp: ready_def s_inv_def n_inv_def n_ok_def all_joined_def joined_upto_def holds_def)

lemma holds_same: "same_tasks n n' \<Longrightarrow> holds n' t = holds n t"
  by (simp add: same_tasks_def holds_def)

text \<open>A probe is a chain of calls, each followed by the test of its status.\<close>

lemma probe_create:
  assumes "tasks_ok (sw_mem w) T" and "1 \<le> sint k" and "sint k \<le> 64"
    and "\<And>s w'. ready T s w' \<Longrightarrow> same_world w w' \<Longrightarrow> nu_live (ns_nur s) \<Longrightarrow> nu_n (ns_nur s) = 0 \<Longrightarrow>
      nu_cap (ns_nur s) = nat (sint k) \<Longrightarrow> \<not> nu_cancel (ns_nur s) \<Longrightarrow> ns_done s = {} \<Longrightarrow>
      probed sure w (f s w')"
  shows "probed sure w (let (n, w) = c_create k w in case n of None \<Rightarrow> quit msg w | Some s \<Rightarrow> f s w)"
proof (cases "c_create k w")
  case (Pair p w')
  note c = c_create_spec [OF Pair assms(1)]
  show ?thesis
  proof (cases p)
    case None
    then have "\<not> lucky w" using c assms(2,3) by auto
    then show ?thesis using Pair None probed_quit c by simp
  next
    case (Some s)
    then show ?thesis using Pair c assms(4) by simp
  qed
qed

lemma probe_spawn:
  assumes "ready T s w'" and "same_world w w'" and "nu_live (ns_nur s)" and "nu_n (ns_nur s) < nu_cap (ns_nur s)"
    and "(fn, arg) \<in> T" and "fn \<noteq> 0"
    and "\<And>s1 w1. ready T s1 w1 \<Longrightarrow> same_world w w1 \<Longrightarrow> spawned (fn, arg) (ns_nur s) (ns_nur s1) \<Longrightarrow>
      c_spawn s fn arg w' = Some (FX_NURSERY_OK, s1, w1) \<Longrightarrow> probed sure w (f s1 w1)"
  shows "probed sure w (do { (rc, s, w) \<leftarrow> c_spawn s fn arg w'; if rc \<noteq> FX_NURSERY_OK then bail s msg w else f s w })"
proof -
  from c_spawn_spec [OF assms(1,5,6)] assms(3,4) obtain rc s1 w1 where 1: "c_spawn s fn arg w' = Some (rc, s1, w1)"
    "ready T s1 w1" "same_world w' w1" "rc = FX_NURSERY_OK \<and> spawned (fn, arg) (ns_nur s) (ns_nur s1) \<or>
      rc = FX_NURSERY_ERR \<and> \<not> lucky w'" by auto
  note sw = same_world_trans [OF assms(2) 1(3)]
  show ?thesis
  proof (cases "rc = FX_NURSERY_OK")
    case True
    then show ?thesis using 1 assms(7) [OF 1(2) sw] by (auto simp: nursery_codes)
  next
    case False
    then have "\<not> lucky w" using 1(4) assms(2) by (auto simp: same_world_def)
    then show ?thesis using 1(1) False probed_bail [OF 1(2) sw] by simp
  qed
qed

lemma probe_refused:
  assumes "ready T s w'" and "same_world w w'" and "(fn, arg) \<in> T" and "fn \<noteq> 0"
    and "code = (if nu_live (ns_nur s) then FX_NURSERY_FULL else FX_NURSERY_DEAD)"
    and "nu_live (ns_nur s) \<longrightarrow> nu_n (ns_nur s) = nu_cap (ns_nur s)"
    and "\<And>s1 w1. ready T s1 w1 \<Longrightarrow> same_world w w1 \<Longrightarrow> ns_nur s1 = ns_nur s \<Longrightarrow> probed sure w (f s1 w1)"
  shows "probed sure w (do { (rc, s, w) \<leftarrow> c_spawn s fn arg w'; if rc \<noteq> code then bail s msg w else f s w })"
proof -
  from c_spawn_spec [OF assms(1,3,4)] assms(5,6) obtain s1 w1 where 1: "c_spawn s fn arg w' = Some (code, s1, w1)"
    "ready T s1 w1" "same_world w' w1" "ns_nur s1 = ns_nur s" by (auto split: if_splits)
  then show ?thesis using assms(7) [OF 1(2) same_world_trans [OF assms(2) 1(3)] 1(4)] by simp
qed

lemma probe_join:
  assumes "ready T s w'" and "same_world w w'" and "nu_live (ns_nur s)" and "ends T (ns_nur s)"
    and "\<And>s1 w1. ready T s1 w1 \<Longrightarrow> same_world w w1 \<Longrightarrow> same_tasks (ns_nur s) (ns_nur s1) \<Longrightarrow> all_joined (ns_nur s1) \<Longrightarrow>
      probed sure w (f s1 w1)"
  shows "probed sure w (do { (rc, s, w) \<leftarrow> c_join JoinAll Joined s w'; if rc \<noteq> FX_NURSERY_OK then bail s msg w else f s w })"
proof -
  from c_join_live [OF assms(1,3,4), of JoinAll Joined] obtain s1 w1 where
    1: "c_join JoinAll Joined s w' = Some (FX_NURSERY_OK, s1, w1)" "ready T s1 w1" "same_world w' w1"
      "same_tasks (ns_nur s) (ns_nur s1)" "all_joined (ns_nur s1)" by auto
  then show ?thesis using assms(5) [OF 1(2) same_world_trans [OF assms(2) 1(3)] 1(4,5)] by simp
qed

lemma probe_fill:
  assumes "ready T s w'" and "same_world w w'" and "nu_live (ns_nur s)" and "(TASK_STORE, A0) \<in> T"
    and "nu_n (ns_nur s) = 0" and "nu_cap (ns_nur s) = k"
    and "\<And>s1 w1. ready T s1 w1 \<Longrightarrow> same_world w w1 \<Longrightarrow> nu_live (ns_nur s1) \<Longrightarrow> nu_n (ns_nur s1) = nu_cap (ns_nur s1) \<Longrightarrow>
      probed sure w (f s1 w1)"
  shows "probed sure w (do { (ok, s, w) \<leftarrow> c_fill k s w'; if \<not> ok then bail s msg w else f s w })"
proof -
  from c_fill_spec [OF assms(1,4,3), of k] assms(5,6) obtain b s1 w1 where 1: "c_fill k s w' = Some (b, s1, w1)"
    "ready T s1 w1" "same_world w' w1" "b \<longrightarrow> nu_live (ns_nur s1) \<and> nu_n (ns_nur s1) = nu_cap (ns_nur s1)"
    "\<not> b \<longrightarrow> \<not> lucky w'" by auto
  note sw = same_world_trans [OF assms(2) 1(3)]
  show ?thesis
  proof (cases b)
    case True
    then show ?thesis using 1 assms(7) [OF 1(2) sw] by simp
  next
    case False
    then have "\<not> lucky w" using 1(5) assms(2) by (auto simp: same_world_def)
    then show ?thesis using 1(1) False probed_bail [OF 1(2) sw] by simp
  qed
qed

lemma probed_locals [simp]: "probed sure (locals a c i w) r = probed sure w r"
  by (simp add: probed_def lucky_def locals_def)

lemma on_time_locals [simp]: "on_time (locals a c i w) = on_time w"
  by (simp add: on_time_def locals_def)

lemma probe_else: "\<not> c \<Longrightarrow> probed sure w b \<Longrightarrow> probed sure w (if c then a else b)"
  by simp

lemma probe_read: "m = Some p \<Longrightarrow> probed sure w (f p) \<Longrightarrow> probed sure w (m \<bind> f)"
  by simp

lemmas probe_facts = fx_nursery_is_live_def fx_nursery_capacity_def FX_NURSERY_DEFAULT_MAX_def spawned_def
  same_tasks_def ends_def TASK_STORE_def TASK_SPIN_def TASK_SLEEP_def

lemmas local_addrs = P0_def P1_def A0_def A1_def

lemma sum_read:
  assumes "ready T s w'" and "same_world w w'" and "all_joined (ns_nur s)" and "holds (ns_nur s) t"
    and "writes (sw_mem w) t = Some (p, v)"
  shows "sm_ints (sw_mem w') p = Some v"
  by (rule joined_writes [OF assms(1,3,4)]) (use assms(2,5) in \<open>simp add: same_world_def\<close>)

text \<open>The sum probe once both tasks are spawned.\<close>

lemma sum_tail:
  assumes "ready {(TASK_STORE, A0), (TASK_STORE, A1)} s w1" and "same_world w w1" and "nu_live (ns_nur s)"
    and "nu_n (ns_nur s) = 2" and "unjoined (ns_nur s)"
    and "holds (ns_nur s) (TASK_STORE, A0)" and "holds (ns_nur s) (TASK_STORE, A1)"
    and "writes (sw_mem w) (TASK_STORE, A0) = Some (P0, 20)" and "writes (sw_mem w) (TASK_STORE, A1) = Some (P1, 22)"
  shows "probed True w (do {
        p \<leftarrow> fx_nursery_pending (Some (ns_nur s));
        if p \<noteq> 2 then bail s ''pending expected 2'' w1 else do {
        (rc, s, w) \<leftarrow> c_join JoinAll Joined s w1;
        if rc \<noteq> FX_NURSERY_OK then bail s ''join_all failed'' w else do {
        (rc, s, w) \<leftarrow> c_join JoinAll Joined s w;
        if rc \<noteq> FX_NURSERY_OK then bail s ''double join failed'' w else do {
        p \<leftarrow> fx_nursery_pending (Some (ns_nur s));
        if p \<noteq> 0 then bail s ''pending after join'' w else do {
        a \<leftarrow> sm_ints (sw_mem w) P0;
        b \<leftarrow> sm_ints (sw_mem w) P1;
        if sint a + sint b \<noteq> 42 then bail s ''sum expected 42'' w
        else pass s w } } } } })"
proof -
  have "s_inv {(TASK_STORE, A0), (TASK_STORE, A1)} s (sw_mem w1)" using assms(1) by (simp add: ready_def)
  note pend = pending_spec(1) [OF this assms(5)]
  show ?thesis
  proof (rule probe_read [OF pend], rule probe_else, goal_cases)
    case 2
    show ?case
    proof (rule probe_join [OF assms(1-3)], goal_cases)
      case 2: (2 s2 w2)
      show ?case
      proof (rule probe_join [OF 2(1,2)], goal_cases)
        case 3: (3 s3 w3)
        have "s_inv {(TASK_STORE, A0), (TASK_STORE, A1)} s3 (sw_mem w3)" using 3(1) by (simp add: ready_def)
        note pend3 = pending_spec(2) [OF this 3(4)]
        have h: "holds (ns_nur s3) t = holds (ns_nur s) t" for t
          using holds_same [OF 3(3)] holds_same [OF 2(3)] by simp
        have r: "sm_ints (sw_mem w3) P0 = Some 20" "sm_ints (sw_mem w3) P1 = Some 22"
          using sum_read [OF 3(1,2,4)] h assms(6-9) by blast+
        show ?case
          by (rule probe_read [OF pend3], rule probe_else, simp, rule probe_read [OF r(1)], rule probe_read [OF r(2)])
            (rule probe_else, simp, rule probed_pass [OF 3(1,2)])
      qed (use assms 2 in \<open>simp_all add: probe_facts\<close>)
    qed (simp add: probe_facts)
  qed (use assms in simp)
qed

lemma sum_probe: "probed True w (run_sum_probe w)"
proof -
  let ?w = "locals [A0 \<mapsto> (P0, 20), A1 \<mapsto> (P1, 22)] Map.empty [P0 \<mapsto> 0, P1 \<mapsto> 0] w"
  let ?T = "{(TASK_STORE, A0), (TASK_STORE, A1)}"
  have T: "tasks_ok (sw_mem ?w) ?T"
    by (auto simp: tasks_ok_def able_def writes_def locals_def local_addrs)
  have wr: "writes (sw_mem ?w) (TASK_STORE, A0) = Some (P0, 20)" "writes (sw_mem ?w) (TASK_STORE, A1) = Some (P1, 22)"
    by (simp_all add: writes_def locals_def local_addrs)
  have "probed True ?w (run_sum_probe w)"
    unfolding run_sum_probe_def Let_def
  proof (rule probe_create [unfolded Let_def, OF T], goal_cases)
    case 1: (3 s w1)
    have u: "unjoined (ns_nur s)" using 1(4) by (simp add: unjoined_def)
    show ?case
    proof (intro probe_else, goal_cases)
      case 3
      show ?case
      proof (rule probe_spawn [OF 1(1-3)], goal_cases)
        case 2: (4 s2 w2)
        show ?case
        proof (rule probe_spawn [OF 2(1,2)], goal_cases)
          case 3: (5 s3 w3)
          show ?case by (rule sum_tail [OF 3(1,2)]) (use 1 2 3 u wr in \<open>simp_all add: spawned_def\<close>)
        qed (use 1 2 in \<open>simp_all add: probe_facts\<close>)
      qed (use 1 in \<open>simp_all add: probe_facts\<close>)
    qed (use 1 in \<open>simp_all add: probe_facts\<close>)
  qed (simp_all add: probe_facts)
  then show ?thesis by simp
qed

lemma probe_shutdown:
  assumes "ready T s w'" and "same_world w w'" and "nu_live (ns_nur s)"
    and "\<And>s1 w1. ready T s1 w1 \<Longrightarrow> same_world w w1 \<Longrightarrow> \<not> nu_live (ns_nur s1) \<Longrightarrow> probed sure w (f s1 w1)"
  shows "probed sure w (do { (rc, s, w) \<leftarrow> c_shutdown s w'; if rc \<noteq> FX_NURSERY_OK then bail s msg w else f s w })"
proof -
  from c_shutdown_live [OF assms(1,3)] obtain s1 w1 where 1: "c_shutdown s w' = Some (FX_NURSERY_OK, s1, w1)"
    "ready T s1 w1" "same_world w' w1" "\<not> nu_live (ns_nur s1)" by blast
  then show ?thesis using assms(4) [OF 1(2) same_world_trans [OF assms(2) 1(3)]] by simp
qed

lemma probe_dead:
  assumes "ready T s w'" and "same_world w w'" and "\<not> nu_live (ns_nur s)"
    and "\<And>s1 w1. ready T s1 w1 \<Longrightarrow> same_world w w1 \<Longrightarrow> \<not> nu_live (ns_nur s1) \<Longrightarrow> probed sure w (f s1 w1)"
  shows "probed sure w (do { (rc, s, w) \<leftarrow> c_join k wt s w'; if rc \<noteq> FX_NURSERY_DEAD then bail s msg w else f s w })"
    and "probed sure w (do { (rc, s, w) \<leftarrow> c_shutdown s w'; if rc \<noteq> FX_NURSERY_DEAD then bail s msg w else f s w })"
proof -
  from c_join_dead [OF assms(1,3)] obtain s1 w1 where 1: "c_join k wt s w' = Some (FX_NURSERY_DEAD, s1, w1)"
    "ready T s1 w1" "same_world w' w1" "ns_nur s1 = ns_nur s" by blast
  then show "probed sure w (do { (rc, s, w) \<leftarrow> c_join k wt s w'; if rc \<noteq> FX_NURSERY_DEAD then bail s msg w else f s w })"
    using assms(3,4) same_world_trans [OF assms(2) 1(3)] by simp
  from c_shutdown_dead [OF assms(1,3)] obtain s2 w2 where 2: "c_shutdown s w' = Some (FX_NURSERY_DEAD, s2, w2)"
    "ready T s2 w2" "same_world w' w2" "ns_nur s2 = ns_nur s" by blast
  then show "probed sure w (do { (rc, s, w) \<leftarrow> c_shutdown s w'; if rc \<noteq> FX_NURSERY_DEAD then bail s msg w else f s w })"
    using assms(3,4) same_world_trans [OF assms(2) 2(3)] by simp
qed

lemma probed_world: "same_world w w' \<Longrightarrow> probed sure w' r \<Longrightarrow> probed sure w r"
  unfolding probed_def same_world_def by blast

lemma fill_default_probe:
  assumes T: "tasks_ok (sw_mem w) {(TASK_STORE, A0)}"
  shows "probed True w (fill_default w)"
  unfolding fill_default_def Let_def
proof (rule probe_create [unfolded Let_def, OF T], goal_cases)
  case 1: (3 s w1)
  show ?case
  proof (rule probe_fill [OF 1(1-3)], goal_cases)
    case 2: (4 s2 w2)
    show ?case
    proof (rule probe_refused [OF 2(1,2)], goal_cases)
      case 3: (5 s3 w3)
      have live: "nu_live (ns_nur s3)" using 2(3) 3(3) by simp
      show ?case
      proof (rule probe_shutdown [OF 3(1,2) live], rule probe_else, goal_cases)
        case 4: (2 s4 w4)
        show ?case
        proof (rule probe_refused [OF 4(1,2)], goal_cases)
          case 5: (5 s5 w5)
          have "\<not> nu_live (ns_nur s5)" using 4(3) 5(3) by simp
          with 5(1,2) show ?case
            by (intro probe_dead(1) [of _ s5] probe_dead(2)) (auto intro: probed_pass)
        qed (use 4 in \<open>simp_all add: probe_facts\<close>)
      qed (simp add: probe_facts)
    qed (use 2 in \<open>simp_all add: probe_facts\<close>)
  qed (use 1 in \<open>simp_all add: probe_facts\<close>)
qed (simp_all add: probe_facts)

lemma probe_destroy:
  assumes "ready T s w'" and "same_world w w'"
    and "\<And>w1. same_world w w1 \<Longrightarrow> tasks_ok (sw_mem w1) T \<Longrightarrow> probed sure w (f w1)"
  shows "probed sure w (do { w \<leftarrow> c_destroy s w'; f w })"
proof -
  from c_destroy_runs [OF assms(1)] obtain w1 where
    1: "c_destroy s w' = Some w1" "same_world w' w1" "tasks_ok (sw_mem w1) T" by blast
  then show ?thesis using assms(3) [OF same_world_trans [OF assms(2) 1(2)] 1(3)] by simp
qed

lemma probe_invalid:
  assumes "same_world w w'" and "tasks_ok (sw_mem w') T" and "sint k < 1 \<or> 64 < sint k"
    and "\<And>w1. same_world w w1 \<Longrightarrow> tasks_ok (sw_mem w1) T \<Longrightarrow> probed sure w (f w1)"
  shows "probed sure w (let (n, w) = c_create k w' in if n \<noteq> None then quit msg w else f w)"
proof (cases "c_create k w'")
  case (Pair p w1)
  from c_create_spec [OF Pair assms(2)] assms show ?thesis
    using Pair same_world_trans [OF assms(1)] by auto
qed

lemma sized_probe: "probed True w (run_sized_and_full w)"
proof -
  let ?w = "locals [A0 \<mapsto> (P0, 1)] Map.empty [P0 \<mapsto> 0] w"
  have T: "tasks_ok (sw_mem ?w) {(TASK_STORE, A0)}"
    by (auto simp: tasks_ok_def able_def writes_def locals_def)
  have "probed True ?w (run_sized_and_full w)"
    unfolding run_sized_and_full_def Let_def
  proof (rule probe_create [unfolded Let_def, OF T], goal_cases)
    case 1: (3 s w1)
    show ?case
    proof (rule probe_else, goal_cases)
      case 2
      show ?case
      proof (rule probe_fill [OF 1(1-3)], goal_cases)
        case 2: (4 s2 w2)
        show ?case
        proof (rule probe_refused [OF 2(1,2)], goal_cases)
          case 3: (5 s3 w3)
          show ?case
          proof (rule probe_destroy [OF 3(1,2)],
              rule probe_invalid [unfolded Let_def], assumption, assumption, simp,
              rule probe_invalid [unfolded Let_def], assumption, assumption, simp, goal_cases)
            case (1 w4 w5 w6)
            then show ?case using probed_world fill_default_probe by blast
          qed
        qed (use 2 in \<open>simp_all add: probe_facts\<close>)
      qed (use 1 in \<open>simp_all add: probe_facts\<close>)
    qed (use 1 in \<open>simp add: probe_facts\<close>)
  qed simp_all
  then show ?thesis by simp
qed

lemma probe_cancel:
  assumes "ready T s w'" and "same_world w w'" and "nu_live (ns_nur s)"
    and "\<And>s1 w1. ready T s1 w1 \<Longrightarrow> same_world w w1 \<Longrightarrow> ns_nur s1 = (ns_nur s)\<lparr>nu_cancel := True\<rparr> \<Longrightarrow>
      probed sure w (f FX_NURSERY_OK s1 w1)"
  shows "probed sure w (do { (rc, s, w) \<leftarrow> c_cancel s w'; f rc s w })"
proof -
  from c_cancel_live [OF assms(1,3)] obtain s1 w1 where 1: "c_cancel s w' = Some (FX_NURSERY_OK, s1, w1)"
    "ready T s1 w1" "same_world w' w1" "ns_nur s1 = (ns_nur s)\<lparr>nu_cancel := True\<rparr>" by blast
  then show ?thesis using assms(4) [OF 1(2) same_world_trans [OF assms(2) 1(3)] 1(4)] by simp
qed

lemma cancel_probe: "probed True w (run_cancel w)"
proof -
  let ?w = "locals Map.empty [A0 \<mapsto> P0] [P0 \<mapsto> 0] w"
  have T: "tasks_ok (sw_mem ?w) {(TASK_SPIN, A0)}"
    by (auto simp: tasks_ok_def able_def writes_def locals_def task_codes)
  have wr: "writes (sw_mem ?w) (TASK_SPIN, A0) = Some (P0, 42)" by (simp add: writes_def locals_def task_codes)
  have "probed True ?w (run_cancel w)"
    unfolding run_cancel_def Let_def
  proof (rule probe_create [unfolded Let_def, OF T], goal_cases)
    case 1: (3 s w1)
    show ?case
    proof (rule probe_spawn [OF 1(1-3)], goal_cases)
      case 2: (4 s2 w2)
      show ?case
      proof (rule probe_cancel [OF 2(1,2)], goal_cases)
        case 3: (2 s3 w3)
        show ?case
        proof (rule probe_else, simp, rule probe_join [OF 3(1,2)], goal_cases)
          case 4: (3 s4 w4)
          have "holds (ns_nur s2) (TASK_SPIN, A0)" using 2(3) by (simp add: spawned_def)
          then have "holds (ns_nur s3) (TASK_SPIN, A0)" unfolding 3(3) by (simp add: holds_def)
          then have h: "holds (ns_nur s4) (TASK_SPIN, A0)" using holds_same [OF 4(3)] by simp
          show ?case
            by (rule probe_read [OF sum_read [OF 4(1,2,4) h wr]])
              (rule probe_else, simp, rule probed_pass [OF 4(1,2)])
        qed (use 2 3 in \<open>simp_all add: probe_facts\<close>)
      qed (use 2 in \<open>simp_all add: probe_facts\<close>)
    qed (use 1 in \<open>simp_all add: probe_facts\<close>)
  qed (simp_all add: probe_facts)
  then show ?thesis by simp
qed

lemma probe_timed:
  assumes "ready T s w'" and "same_world w w'" and "nu_live (ns_nur s)" and "ends T (ns_nur s)"
    and "\<And>rc s1 w1. ready T s1 w1 \<Longrightarrow> same_world w w1 \<Longrightarrow> same_tasks (ns_nur s) (ns_nur s1) \<Longrightarrow>
      rc = FX_NURSERY_OK \<or> wt \<noteq> Joined \<and> rc = wait_code wt \<Longrightarrow>
      c_join JoinTimed wt s w' = Some (rc, s1, w1) \<Longrightarrow> probed sure w (f rc s1 w1)"
  shows "probed sure w (do { (rc, s, w) \<leftarrow> c_join JoinTimed wt s w'; f rc s w })"
proof -
  from c_join_live [OF assms(1,3,4), of JoinTimed wt] obtain rc s1 w1 where
    1: "c_join JoinTimed wt s w' = Some (rc, s1, w1)" "ready T s1 w1" "same_world w' w1"
      "same_tasks (ns_nur s) (ns_nur s1)" "rc = FX_NURSERY_OK \<or> wt \<noteq> Joined \<and> rc = wait_code wt" by auto
  then show ?thesis using assms(5) [OF 1(2) same_world_trans [OF assms(2) 1(3)] 1(4,5,1)] by simp
qed

lemma post_timeout_probe:
  assumes "ready T s w'" and "same_world w w'" and "nu_live (ns_nur s)" and "ends T (ns_nur s)"
  shows "probed sure w (post_timeout s w')"
  unfolding post_timeout_def
proof (rule probe_cancel [OF assms(1-3)], goal_cases)
  case 1: (1 s1 w1)
  show ?case
  proof (rule probe_join [OF 1(1,2)], goal_cases)
    case (3 s2 w2)
    then show ?case by (blast intro: probed_pass)
  qed (use assms(3,4) 1(3) in \<open>simp_all add: probe_facts\<close>)
qed

text \<open>
  When the timeout probe is sure to pass: elsewhere whenever its wait ends with the task or the
  time, on Windows when it ends with the time.
\<close>

definition sure_wait :: "bool \<Rightarrow> wait \<Rightarrow> sworld \<Rightarrow> bool" where
  "sure_wait win wt w \<longleftrightarrow> (if win then wt = TimedOut \<and> on_time w else wt \<in> {Joined, TimedOut})"

lemma timeout_probe: "probed (sure_wait win wt w) w (run_timeout win wt w)"
proof -
  let ?sure = "sure_wait win wt w" and ?w = "locals Map.empty Map.empty Map.empty w"
  have T: "tasks_ok (sw_mem ?w) {(TASK_SLEEP, 0)}"
    by (auto simp: tasks_ok_def able_def writes_def locals_def task_codes)
  have "probed ?sure ?w (run_timeout win wt w)"
    unfolding run_timeout_def Let_def
  proof (rule probe_create [unfolded Let_def, OF T], goal_cases)
    case 1: (3 s w1)
    show ?case
    proof (rule probe_spawn [OF 1(1-3)], goal_cases)
      case 2: (4 s2 w2)
      show ?case
      proof (rule probe_timed [OF 2(1,2), where wt = wt], goal_cases)
        case 3: (3 rc s3 w3)
        have "nu_live (ns_nur s3)" and "ends {(TASK_SLEEP, 0)} (ns_nur s3)"
          using 2(3) 3(3) by (simp_all add: probe_facts)
        note post = post_timeout_probe [OF 3(1,2) this, of ?sure]
        have early: "?sure \<or> probed ?sure ?w (bail s3 msg w3)" for msg
          by (cases ?sure) (simp, intro disjI2 probed_bail [OF 3(1,2)], simp)
        have live: "nu_live (ns_nur s2)" "0 < nu_n (ns_nur s2)" "unjoined (ns_nur s2)"
          using 1(4) 2(3) by (simp_all add: spawned_def unjoined_def)
        have late: "on_time w \<Longrightarrow> on_time w1 \<and> on_time w2"
          using same_world_on_time [OF 1(2)] same_world_on_time [OF 2(2)] by simp
        have out: "rc = FX_NURSERY_TIMEOUT" if "win" "?sure"
          using that late c_spawn_late [OF 2(4)] 1(7) c_join_times_out [OF 2(1) live(1,3,2)] 3(5)
          by (simp add: sure_wait_def)
        have "\<not> win \<and> ?sure \<longrightarrow> rc = FX_NURSERY_OK \<or> rc = FX_NURSERY_TIMEOUT"
          using 3(4) by (auto simp: wait_code_def sure_wait_def)
        with post probed_pass [OF 3(1,2), of ?sure] early out show ?case
          by (cases win; cases "rc = FX_NURSERY_TIMEOUT"; cases "rc = FX_NURSERY_OK") (auto simp del: probed_locals)
      qed (use 2 in \<open>simp_all add: probe_facts\<close>)
    qed (use 1 in \<open>simp_all add: probe_facts\<close>)
  qed (simp_all add: probe_facts)
  then show ?thesis by simp
qed

lemma null_probe: "run_null_err w = Some ((0, ''''), w)"
  by (simp add: run_null_err_def fx_nursery_spawn_def on_nursery_def destroy_ptr_def)

lemma probe_next:
  assumes "probed sure w r" and "\<And>w1. set (sw_sched w1) \<subseteq> set (sw_sched w) \<Longrightarrow> probed sure' w1 (f w1)"
    and "sure' \<longrightarrow> sure"
  shows "probed sure' w (do { (rc, w) \<leftarrow> r; if fst rc \<noteq> 0 then Some (rc, w) else f w })"
proof -
  from assms(1) obtain c err w1 where 1: "r = Some ((c, err), w1)" "c = 0 \<and> err = '''' \<or> c = 1"
    "lucky w \<longrightarrow> lucky w1 \<and> (sure \<longrightarrow> c = 0)" "set (sw_sched w1) \<subseteq> set (sw_sched w)" by (auto simp: probed_def)
  show ?thesis
  proof (cases "c = 0")
    case True
    from assms(2) [OF 1(4)] 1(3,4) have "probed sure' w (f w1)" unfolding probed_def by blast
    then show ?thesis using 1(1) True by simp
  next
    case False
    then show ?thesis using 1 assms(3) by (auto simp: probed_def)
  qed
qed

lemma probed_weaken: "probed sure w r \<Longrightarrow> (sure' \<longrightarrow> sure) \<Longrightarrow> probed sure' w r"
  unfolding probed_def by blast

section \<open>The property\<close>

text \<open>
  C24: the smoke program passes. In both builds, whenever its tasks end, whatever allocations
  and thread creations fail and however the timed wait ends, the program returns, without
  undefined behaviour, with code 0 or 1. The code is 0 and nothing is printed if no allocation or
  thread creation fails and the timed wait ends as the program expects: outside Windows with its
  task or with its time; on Windows with its time, on a schedule that ends no first task of a nursery
  before it is waited for (if the sleeper is early there, the code is 1). Then the sum is 42, the capacities,
  FULL and DEAD are answered, the cancelled task has stored its 42 and the NULL checks hold. Tasks
  run one after the other here; that several of them store the same value to one \<open>int\<close> of the program
  without a lock is a race of the program that the schedule does not show.
\<close>

theorem nursery_smoke_passes:
  "\<exists>code err w'. nursery_smoke_main win wt w = Some ((code, err), w') \<and> code \<in> {0, 1} \<and>
     ((\<forall>b \<in> set (sw_oks w). b) \<and>
        (if win then wt = TimedOut \<and> (\<forall>is \<in> set (sw_sched w). 0 \<notin> set is) else wt \<in> {Joined, TimedOut}) \<longrightarrow>
      code = 0 \<and> err = '''')"
proof -
  have null: "probed sure v (run_null_err v)" for sure v
    by (simp add: null_probe probed_def)
  have timed: "probed (sure_wait win wt w) v (run_timeout win wt v)" if "set (sw_sched v) \<subseteq> set (sw_sched w)" for v
    by (rule probed_weaken [OF timeout_probe]) (use that in \<open>auto simp: sure_wait_def on_time_def split: if_splits\<close>)
  have "probed (sure_wait win wt w) w (nursery_smoke_main win wt w)"
    unfolding nursery_smoke_main_def
  proof (rule probe_next [OF sum_probe], rule probe_next [OF sized_probe], rule probe_next [OF cancel_probe], goal_cases)
    case (1 w1 w2 w3)
    then show ?case by (intro probe_next [OF timed] null) auto
  qed simp_all
  then show ?thesis by (auto simp: probed_def lucky_def sure_wait_def on_time_def)
qed

theorem nursery_smoke_passes_witness:
  "(\<exists>w'. nursery_smoke_main False TimedOut \<lparr>sw_mem = \<lparr>sm_add = Map.empty, sm_cancel = Map.empty, sm_ints = Map.empty\<rparr>,
     sw_oks = [True, True], sw_sched = [[], [0], [1, 0]]\<rparr> = Some ((0, ''''), w')) \<and>
   (\<exists>w'. nursery_smoke_main True TimedOut \<lparr>sw_mem = \<lparr>sm_add = Map.empty, sm_cancel = Map.empty, sm_ints = Map.empty\<rparr>,
     sw_oks = [], sw_sched = [[], [1]]\<rparr> = Some ((0, ''''), w'))"
  using nursery_smoke_passes [of False TimedOut "\<lparr>sw_mem = \<lparr>sm_add = Map.empty, sm_cancel = Map.empty, sm_ints = Map.empty\<rparr>,
     sw_oks = [True, True], sw_sched = [[], [0], [1, 0]]\<rparr>"]
    nursery_smoke_passes [of True TimedOut "\<lparr>sw_mem = \<lparr>sm_add = Map.empty, sm_cancel = Map.empty, sm_ints = Map.empty\<rparr>,
     sw_oks = [], sw_sched = [[], [1]]\<rparr>"] by simp

end
