(* ===== verification/ChanPool.thy ===== *)
theory ChanPool
  imports ChanTheorems
begin

text \<open>
  A program on one channel of \<open>host/concur/fx_chan.c\<close>: a producer that sends the values of a
  list one after the other and then closes the channel, and a number of consumers that each
  call \<open>fx_chan_recv_i64\<close> until it reports the close. The calls are the steps of ChanSync,
  taken in any order; a step is \<open>Spurious\<close> when a wait ends for no reason and \<open>Work\<close>
  otherwise. The section shows that the consumers together get exactly the list and that
  all of them return, whatever the capacity, the schedule and the thread a signal wakes.
\<close>

section \<open>The program\<close>

datatype progress = Work | Spurious

record pool =
  pl_sys :: csys
  pl_left :: "i64 list"
  pl_idle :: nat
  pl_ended :: nat

definition inside :: "csys \<Rightarrow> i64 multiset" where
  "inside s = sy_ready_send s + sy_blocked_send s"

text \<open>
  \<open>inside\<close> holds the values of the senders inside \<open>fx_chan_send_i64\<close>. The values not yet handed to a call are \<open>pl_left\<close>; the producer is between two calls when
  no sender is inside. \<open>pl_idle\<close> consumers are between two calls and
  \<open>pl_ended\<close> have been told of the close.
\<close>

inductive pool_step :: "progress \<Rightarrow> pool \<Rightarrow> pool \<Rightarrow> bool" where
  pool_send: "pl_left p = v # vs \<Longrightarrow> inside (pl_sys p) = {#} \<Longrightarrow>
    pool_step Work p (p\<lparr>pl_sys := (pl_sys p)\<lparr>sy_ready_send := add_mset v (sy_ready_send (pl_sys p))\<rparr>,
      pl_left := vs\<rparr>)"
| pool_send_waits: "v \<in># sy_ready_send (pl_sys p) \<Longrightarrow> send_cs (sy_chan (pl_sys p)) v = Some Wait \<Longrightarrow>
    pool_step Work p (p\<lparr>pl_sys := (pl_sys p)\<lparr>sy_ready_send := sy_ready_send (pl_sys p) - {#v#},
      sy_blocked_send := add_mset v (sy_blocked_send (pl_sys p))\<rparr>\<rparr>)"
| pool_send_returns: "v \<in># sy_ready_send (pl_sys p) \<Longrightarrow>
    send_cs (sy_chan (pl_sys p)) v = Some (Ret st out c wk) \<Longrightarrow>
    wakes wk ((pl_sys p)\<lparr>sy_chan := c, sy_ready_send := sy_ready_send (pl_sys p) - {#v#},
      sy_sent := sy_sent (pl_sys p) @ (if st = FX_CHAN_OK then [v] else [])\<rparr>) s' \<Longrightarrow>
    pool_step Work p (p\<lparr>pl_sys := s'\<rparr>)"
| pool_close: "pl_left p = [] \<Longrightarrow> inside (pl_sys p) = {#} \<Longrightarrow> \<not> ch_closed (sy_chan (pl_sys p)) \<Longrightarrow>
    close_cs (sy_chan (pl_sys p)) = Some (Ret st out c wk) \<Longrightarrow>
    wakes wk ((pl_sys p)\<lparr>sy_chan := c\<rparr>) s' \<Longrightarrow> pool_step Work p (p\<lparr>pl_sys := s'\<rparr>)"
| pool_recv: "0 < pl_idle p \<Longrightarrow>
    pool_step Work p (p\<lparr>pl_sys := (pl_sys p)\<lparr>sy_ready_recv := Suc (sy_ready_recv (pl_sys p))\<rparr>,
      pl_idle := pl_idle p - 1\<rparr>)"
| pool_recv_waits: "0 < sy_ready_recv (pl_sys p) \<Longrightarrow> recv_cs (sy_chan (pl_sys p)) = Some Wait \<Longrightarrow>
    pool_step Work p (p\<lparr>pl_sys := (pl_sys p)\<lparr>sy_ready_recv := sy_ready_recv (pl_sys p) - 1,
      sy_blocked_recv := Suc (sy_blocked_recv (pl_sys p))\<rparr>\<rparr>)"
| pool_recv_returns: "0 < sy_ready_recv (pl_sys p) \<Longrightarrow>
    recv_cs (sy_chan (pl_sys p)) = Some (Ret st out c wk) \<Longrightarrow>
    wakes wk ((pl_sys p)\<lparr>sy_chan := c, sy_ready_recv := sy_ready_recv (pl_sys p) - 1,
      sy_got := sy_got (pl_sys p) @ (case out of None \<Rightarrow> [] | Some v \<Rightarrow> [v])\<rparr>) s' \<Longrightarrow>
    pool_step Work p (if st = FX_CHAN_CLOSED then p\<lparr>pl_sys := s', pl_ended := Suc (pl_ended p)\<rparr>
      else p\<lparr>pl_sys := s', pl_idle := Suc (pl_idle p)\<rparr>)"
| pool_spurious_send: "v \<in># sy_blocked_send (pl_sys p) \<Longrightarrow>
    pool_step Spurious p (p\<lparr>pl_sys := (pl_sys p)\<lparr>sy_blocked_send := sy_blocked_send (pl_sys p) - {#v#},
      sy_ready_send := add_mset v (sy_ready_send (pl_sys p))\<rparr>\<rparr>)"
| pool_spurious_recv: "0 < sy_blocked_recv (pl_sys p) \<Longrightarrow>
    pool_step Spurious p (p\<lparr>pl_sys := (pl_sys p)\<lparr>sy_blocked_recv := sy_blocked_recv (pl_sys p) - 1,
      sy_ready_recv := Suc (sy_ready_recv (pl_sys p))\<rparr>\<rparr>)"

definition pool_init :: "FxChan \<Rightarrow> i64 list \<Rightarrow> nat \<Rightarrow> pool" where
  "pool_init c xs n = \<lparr>pl_sys = sys_init c, pl_left = xs, pl_idle = n, pl_ended = 0\<rparr>"

text \<open>The state after \<open>w\<close> steps of work and \<open>k\<close> spurious ones.\<close>

inductive pool_run :: "pool \<Rightarrow> nat \<Rightarrow> nat \<Rightarrow> pool \<Rightarrow> bool" for p where
  run_start: "pool_run p 0 0 p"
| run_work: "pool_run p w k q \<Longrightarrow> pool_step Work q r \<Longrightarrow> pool_run p (Suc w) k r"
| run_spurious: "pool_run p w k q \<Longrightarrow> pool_step Spurious q r \<Longrightarrow> pool_run p w (Suc k) r"

text \<open>Every step of the program is a step of the threads of ChanSync.\<close>

lemma pool_is_sys: "pool_step b p q \<Longrightarrow> sys_step (pl_sys p) (pl_sys q)"
proof (induction rule: pool_step.induct)
  case (pool_recv_returns p st out c wk s')
  then show ?case using sys_step.recv_returns by fastforce
next
  case (pool_recv_waits p)
  then show ?case using sys_step.recv_waits [of "pl_sys p"] by simp
next
  case (pool_spurious_recv p)
  then show ?case using sys_step.spurious_recv [of "pl_sys p"] by simp
qed (auto intro: sys_step.intros)

section \<open>The invariant\<close>

text \<open>
  What was sent, the value inside a call and what is left are the list; once the channel is
  closed nothing is left; no consumer is lost; and one has ended only if the channel is
  closed and drained.
\<close>

definition pool_inv :: "nat \<Rightarrow> i64 list \<Rightarrow> pool \<Rightarrow> bool" where
  "pool_inv n xs p \<longleftrightarrow> sys_inv (pl_sys p) \<and>
     (\<exists>ins. mset ins = inside (pl_sys p) \<and> length ins \<le> 1 \<and>
        xs = sy_sent (pl_sys p) @ ins @ pl_left p) \<and>
     (ch_closed (sy_chan (pl_sys p)) \<longrightarrow> pl_left p = [] \<and> inside (pl_sys p) = {#}) \<and>
     pl_idle p + sy_ready_recv (pl_sys p) + sy_blocked_recv (pl_sys p) + pl_ended p = n \<and>
     (0 < pl_ended p \<longrightarrow> ch_closed (sy_chan (pl_sys p)) \<and> ch_len (sy_chan (pl_sys p)) = 0)"

lemma inside_frame [simp]:
  "inside (s\<lparr>sy_chan := c\<rparr>) = inside s" "inside (s\<lparr>sy_sent := xs\<rparr>) = inside s"
  "inside (s\<lparr>sy_got := xs\<rparr>) = inside s" "inside (s\<lparr>sy_ready_recv := k\<rparr>) = inside s"
  "inside (s\<lparr>sy_blocked_recv := k\<rparr>) = inside s"
  by (simp_all add: inside_def)

lemma wakes_keeps:
  assumes "wakes wk s s'"
  shows "inside s' = inside s"
    "sy_ready_recv s' + sy_blocked_recv s' = sy_ready_recv s + sy_blocked_recv s"
  using assms by (cases wk; auto simp: wakes_def inside_def add.assoc)+

text \<open>A consumer that got an element or was told of the close.\<close>

lemma pool_inv_recv:
  assumes inv: "pool_inv n xs p" and r: "0 < sy_ready_recv (pl_sys p)"
    and cs: "recv_cs (sy_chan (pl_sys p)) = Some (Ret st out c wk)"
    and wk: "wakes wk ((pl_sys p)\<lparr>sy_chan := c, sy_ready_recv := sy_ready_recv (pl_sys p) - 1,
      sy_got := sy_got (pl_sys p) @ (case out of None \<Rightarrow> [] | Some v \<Rightarrow> [v])\<rparr>) s'"
    and s': "sys_inv s'"
  shows "pool_inv n xs (if st = FX_CHAN_CLOSED then p\<lparr>pl_sys := s', pl_ended := Suc (pl_ended p)\<rparr>
      else p\<lparr>pl_sys := s', pl_idle := Suc (pl_idle p)\<rparr>)"
proof -
  note keeps = wakes_keeps [OF wk] and same = wakes_same(1-3) [OF wk]
  have ok: "chan_ok (sy_chan (pl_sys p))" using inv inv_chan_ok by (simp add: pool_inv_def)
  from ok show ?thesis
  proof (cases rule: recv_cs_cases)
    case closed
    with cs have "st = FX_CHAN_CLOSED" "c = sy_chan (pl_sys p)" by simp_all
    with closed inv s' keeps same r show ?thesis by (auto simp: pool_inv_def)
  next
    case empty
    with cs show ?thesis by simp
  next
    case (got v c')
    with cs have "st = FX_CHAN_OK" "c = c'" by simp_all
    with got inv s' keeps same r show ?thesis by (auto simp: pool_inv_def)
  qed
qed

lemma pool_inv_sent:
  assumes inv: "pool_inv n xs p" and v: "v \<in># sy_ready_send (pl_sys p)"
    and cs: "send_cs (sy_chan (pl_sys p)) v = Some (Ret st out c wk)"
    and wk: "wakes wk ((pl_sys p)\<lparr>sy_chan := c, sy_ready_send := sy_ready_send (pl_sys p) - {#v#},
      sy_sent := sy_sent (pl_sys p) @ (if st = FX_CHAN_OK then [v] else [])\<rparr>) s'"
    and s': "sys_inv s'"
  shows "pool_inv n xs (p\<lparr>pl_sys := s'\<rparr>)"
proof -
  note keeps = wakes_keeps [OF wk] and same = wakes_same(1-3) [OF wk]
  have ok: "chan_ok (sy_chan (pl_sys p))" using inv inv_chan_ok by (simp add: pool_inv_def)
  have opened: "\<not> ch_closed (sy_chan (pl_sys p))" using inv v by (auto simp: pool_inv_def inside_def)
  obtain ins where ins: "mset ins = inside (pl_sys p)" "length ins \<le> 1"
    "xs = sy_sent (pl_sys p) @ ins @ pl_left p" using inv by (auto simp: pool_inv_def)
  have "v \<in># mset ins" using ins(1) v by (simp add: inside_def)
  then have "v \<in> set ins" by simp
  then have one: "ins = [v]" using ins(2) by (cases ins) auto
  have gone: "inside s' = {#}"
    using keeps(1) ins(1) one v by (auto simp: inside_def dest: multi_member_split)
  from ok show ?thesis
  proof (cases rule: send_cs_cases [where v = v])
    case closed
    with opened show ?thesis by simp
  next
    case full
    with cs show ?thesis by simp
  next
    case (put c')
    with cs have c: "st = FX_CHAN_OK" "c = c'" by simp_all
    have "0 < pl_ended p \<longrightarrow> False" using inv opened by (simp add: pool_inv_def)
    with put inv s' keeps same c ins(3) one gone opened show ?thesis by (auto simp: pool_inv_def)
  qed
qed


lemma pool_inv_step: "pool_step b p q \<Longrightarrow> pool_inv n xs p \<Longrightarrow> pool_inv n xs q"
proof -
  assume step: "pool_step b p q" and inv: "pool_inv n xs p"
  then have sys: "sys_inv (pl_sys q)" using pool_is_sys sys_inv_step by (metis pool_inv_def)
  from step inv sys show "pool_inv n xs q"
  proof (induction rule: pool_step.induct)
    case (pool_send p v vs)
    have "inside ((pl_sys p)\<lparr>sy_ready_send := add_mset v (sy_ready_send (pl_sys p))\<rparr>) = {#v#}"
      using pool_send(2) by (simp add: inside_def)
    with pool_send show ?case by (auto simp: pool_inv_def intro: exI [of _ "[v]"])
  next
    case (pool_send_waits v p)
    then have "inside ((pl_sys p)\<lparr>sy_ready_send := sy_ready_send (pl_sys p) - {#v#},
        sy_blocked_send := add_mset v (sy_blocked_send (pl_sys p))\<rparr>) = inside (pl_sys p)"
      by (auto simp: inside_def dest: multi_member_split)
    with pool_send_waits show ?case by (simp add: pool_inv_def)
  next
    case (pool_send_returns v p st out c wk s')
    then show ?case using pool_inv_sent by simp
  next
    case (pool_close p st out c wk s')
    from pool_close(4) have c: "c = (sy_chan (pl_sys p))\<lparr>ch_closed := True\<rparr>" by (simp add: close_cs_def)
    have "\<not> 0 < pl_ended p" using pool_close by (simp add: pool_inv_def)
    with pool_close c wakes_keeps [OF pool_close(5)] wakes_same(1-3) [OF pool_close(5)] show ?case
      by (auto simp: pool_inv_def)
  next
    case (pool_recv p)
    then show ?case by (auto simp: pool_inv_def)
  next
    case (pool_recv_waits p)
    then show ?case by (auto simp: pool_inv_def)
  next
    case (pool_recv_returns p st out c wk s')
    then show ?case using pool_inv_recv [OF pool_recv_returns(4,1-3)] by (simp split: if_splits)
  next
    case (pool_spurious_send v p)
    then have "inside ((pl_sys p)\<lparr>sy_blocked_send := sy_blocked_send (pl_sys p) - {#v#},
        sy_ready_send := add_mset v (sy_ready_send (pl_sys p))\<rparr>) = inside (pl_sys p)"
      by (auto simp: inside_def dest: multi_member_split)
    with pool_spurious_send show ?case by (simp add: pool_inv_def)
  next
    case (pool_spurious_recv p)
    then show ?case by (auto simp: pool_inv_def)
  qed
qed

lemma pool_inv_init: "chan_ok c \<Longrightarrow> chan_queue c = [] \<Longrightarrow> \<not> ch_closed c \<Longrightarrow> pool_inv n xs (pool_init c xs n)"
  by (auto simp: pool_inv_def pool_init_def sys_init_def sys_inv_def ring.history_def inside_def)

section \<open>No state is stuck before the end\<close>

lemma wakes_total: "\<exists>s'. wakes wk s s'"
proof (cases wk)
  case SignalNotFull
  have "\<exists>W. W \<subseteq># sy_blocked_send s \<and> (sy_blocked_send s \<noteq> {#} \<longrightarrow> W \<noteq> {#})" by blast
  then show ?thesis unfolding wakes_def SignalNotFull by auto
next
  case SignalNotEmpty
  have "\<exists>k \<le> sy_blocked_recv s. 0 < sy_blocked_recv s \<longrightarrow> 0 < k" by blast
  then show ?thesis unfolding wakes_def SignalNotEmpty by auto
qed (auto simp: wakes_def)

lemma ready_sender_steps:
  assumes "pool_inv n xs p" and v: "v \<in># sy_ready_send (pl_sys p)"
  shows "\<exists>q. pool_step Work p q"
proof -
  have "chan_ok (sy_chan (pl_sys p))" using assms(1) inv_chan_ok by (simp add: pool_inv_def)
  then show ?thesis
    by (cases rule: send_cs_cases [where v = v])
      (metis wakes_total pool_send_waits [OF v] pool_send_returns [OF v])+
qed

lemma ready_receiver_steps:
  assumes "pool_inv n xs p" and r: "0 < sy_ready_recv (pl_sys p)"
  shows "\<exists>q. pool_step Work p q"
proof -
  have "chan_ok (sy_chan (pl_sys p))" using assms(1) inv_chan_ok by (simp add: pool_inv_def)
  then show ?thesis
    by (cases rule: recv_cs_cases)
      (metis wakes_total pool_recv_waits [OF r] pool_recv_returns [OF r])+
qed

lemma idle_producer_steps:
  assumes "inside (pl_sys p) = {#}" and "pl_left p \<noteq> [] \<or> \<not> ch_closed (sy_chan (pl_sys p))"
  shows "\<exists>q. pool_step Work p q"
proof (cases "pl_left p")
  case Nil
  with assms wakes_total show ?thesis
    by (metis close_cs_def pool_close)
next
  case (Cons v vs)
  with assms(1) show ?thesis using pool_send by blast
qed

lemma stuck_is_done:
  assumes inv: "pool_inv n xs p" and n: "0 < n" and stuck: "\<not> (\<exists>q. pool_step Work p q)"
  shows "ch_closed (sy_chan (pl_sys p)) \<and> pl_ended p = n \<and> sy_got (pl_sys p) = xs"
proof -
  let ?s = "pl_sys p"
  have ok: "chan_ok (sy_chan ?s)" using inv inv_chan_ok by (simp add: pool_inv_def)
  have rs: "sy_ready_send ?s = {#}" using stuck ready_sender_steps [OF inv] by (meson multiset_nonemptyE)
  have rr: "sy_ready_recv ?s = 0" using stuck ready_receiver_steps [OF inv] by blast
  have idle: "pl_idle p = 0" using stuck pool_recv by blast
  have "0 < pl_ended p \<or> 0 < sy_blocked_recv ?s" using inv n rr idle by (auto simp: pool_inv_def)
  moreover have bs: "sy_blocked_send ?s = {#}"
  proof (rule ccontr)
    assume "sy_blocked_send ?s \<noteq> {#}"
    then have "\<not> ch_closed (sy_chan ?s)" "ch_cap (sy_chan ?s) \<le> ch_len (sy_chan ?s)"
      using inv rs by (auto simp: pool_inv_def sys_inv_def)
    moreover from this have "0 < ch_len (sy_chan ?s)" using ok by (simp add: chan_ok_def)
    ultimately have "sy_blocked_recv ?s = 0" "pl_ended p = 0"
      using inv rr by (auto simp: pool_inv_def sys_inv_def)
    then show False using \<open>0 < pl_ended p \<or> 0 < sy_blocked_recv ?s\<close> by simp
  qed
  ultimately have fin: "pl_left p = []" "ch_closed (sy_chan ?s)"
    using stuck idle_producer_steps [of p] rs by (auto simp: inside_def)
  then have "sy_blocked_recv ?s = 0" using inv by (auto simp: pool_inv_def sys_inv_def)
  then have e: "pl_ended p = n" using inv rr idle by (simp add: pool_inv_def)
  then have "ch_len (sy_chan ?s) = 0" using inv n by (simp add: pool_inv_def)
  then have "chan_queue (sy_chan ?s) = []" by (simp add: chan_queue_def)
  then have "xs = sy_got ?s"
    using inv fin rs bs by (auto simp: pool_inv_def sys_inv_def ring.history_def inside_def)
  with fin e show ?thesis by simp
qed

section \<open>Every step of work comes closer to the end\<close>

text \<open>
  The weights: a value left, inside a call, ready rather than blocked, queued; the close still
  to come; a consumer between two calls, inside one, ready rather than blocked. A spurious
  wake-up adds one, every other step takes at least one away, whomever a signal wakes.
\<close>

definition pool_weight :: "nat \<Rightarrow> pool \<Rightarrow> nat" where
  "pool_weight n p = (n + 5) * length (pl_left p) + (n + 3) * size (inside (pl_sys p)) +
     size (sy_ready_send (pl_sys p)) + 3 * nat (ch_len (sy_chan (pl_sys p))) +
     (if ch_closed (sy_chan (pl_sys p)) then 0 else n + 1) + 3 * pl_idle p +
     2 * sy_ready_recv (pl_sys p) + sy_blocked_recv (pl_sys p)"

lemma inside_size:
  assumes "pool_inv n xs p"
  shows "size (inside (pl_sys p)) \<le> 1" "sy_ready_recv (pl_sys p) + sy_blocked_recv (pl_sys p) \<le> n"
  using assms by (auto simp: pool_inv_def simp flip: size_mset)

lemma wakes_cost:
  assumes "wakes wk s s'"
  shows "size (sy_ready_send s') \<le> size (inside s)" "sy_ready_recv s' \<le> sy_ready_recv s + sy_blocked_recv s"
    "wk \<noteq> SignalNotFull \<Longrightarrow> inside s = {#} \<or> wk \<noteq> BroadcastAll \<Longrightarrow> sy_ready_send s' = sy_ready_send s"
    "wk = SignalNotFull \<or> wk = WakeNone \<Longrightarrow>
      sy_ready_recv s' = sy_ready_recv s \<and> sy_blocked_recv s' = sy_blocked_recv s"
  using wakes_keeps [OF assms] assms
  by (cases wk; auto simp: wakes_def inside_def size_mset_mono)+

lemma send_lightens:
  assumes inv: "pool_inv n xs p" and v: "v \<in># sy_ready_send (pl_sys p)"
    and cs: "send_cs (sy_chan (pl_sys p)) v = Some (Ret st out c wk)"
    and wk: "wakes wk ((pl_sys p)\<lparr>sy_chan := c, sy_ready_send := sy_ready_send (pl_sys p) - {#v#},
      sy_sent := sy_sent (pl_sys p) @ (if st = FX_CHAN_OK then [v] else [])\<rparr>) s'"
  shows "pool_weight n (p\<lparr>pl_sys := s'\<rparr>) < pool_weight n p"
proof -
  note keeps = wakes_keeps [OF wk] and same = wakes_same(1) [OF wk] and cost = wakes_cost [OF wk]
  have ok: "chan_ok (sy_chan (pl_sys p))" using inv inv_chan_ok by (simp add: pool_inv_def)
  obtain R where R: "sy_ready_send (pl_sys p) = add_mset v R" using v by (auto dest: multi_member_split)
  from ok show ?thesis
  proof (cases rule: send_cs_cases [where v = v])
    case closed
    with inv R show ?thesis by (auto simp: pool_inv_def inside_def)
  next
    case full
    with cs show ?thesis by simp
  next
    case (put c')
    with cs have "c = c'" "wk = SignalNotEmpty" by simp_all
    moreover have "nat (ch_len (sy_chan (pl_sys p)) + 1) = Suc (nat (ch_len (sy_chan (pl_sys p))))"
      using ok by (simp add: chan_ok_def nat_add_distrib)
    ultimately show ?thesis using put keeps same cost(2,3) inside_size(2) [OF inv] R
      by (simp add: pool_weight_def inside_def)
  qed
qed

lemma recv_lightens:
  assumes inv: "pool_inv n xs p" and r: "0 < sy_ready_recv (pl_sys p)"
    and cs: "recv_cs (sy_chan (pl_sys p)) = Some (Ret st out c wk)"
    and wk: "wakes wk ((pl_sys p)\<lparr>sy_chan := c, sy_ready_recv := sy_ready_recv (pl_sys p) - 1,
      sy_got := sy_got (pl_sys p) @ (case out of None \<Rightarrow> [] | Some v \<Rightarrow> [v])\<rparr>) s'"
  shows "pool_weight n (if st = FX_CHAN_CLOSED then p\<lparr>pl_sys := s', pl_ended := Suc (pl_ended p)\<rparr>
      else p\<lparr>pl_sys := s', pl_idle := Suc (pl_idle p)\<rparr>) < pool_weight n p"
proof -
  note keeps = wakes_keeps [OF wk] and same = wakes_same(1) [OF wk] and cost = wakes_cost [OF wk]
  have ok: "chan_ok (sy_chan (pl_sys p))" using inv inv_chan_ok by (simp add: pool_inv_def)
  from ok show ?thesis
  proof (cases rule: recv_cs_cases)
    case closed
    with cs r keeps same cost(3,4) show ?thesis by (simp add: pool_weight_def)
  next
    case empty
    with cs show ?thesis by simp
  next
    case (got v c')
    with cs have c: "c = c'" "wk = SignalNotFull" "st = FX_CHAN_OK" by simp_all
    obtain l where l: "nat (ch_len (sy_chan (pl_sys p))) = Suc l" "nat (ch_len (sy_chan (pl_sys p)) - 1) = l"
      using got(1) by (metis Suc_nat_eq_nat_zadd1 diff_add_cancel add.commute zle_diff1_eq)
    show ?thesis using got keeps same cost(1,4) inside_size(1) [OF inv] r l by (simp add: pool_weight_def c)
  qed
qed

lemma work_lightens: "pool_step Work p q \<Longrightarrow> pool_inv n xs p \<Longrightarrow> pool_weight n q < pool_weight n p"
proof (induction Work p q rule: pool_step.induct)
  case (pool_send p v vs)
  then show ?case by (simp add: pool_weight_def inside_def)
next
  case (pool_send_waits v p)
  then show ?case by (auto simp: pool_weight_def inside_def dest!: multi_member_split)
next
  case (pool_send_returns v p st out c wk s')
  from send_lightens [OF this(4,1-3)] show ?case .
next
  case (pool_close p st out c wk s')
  note keeps = wakes_keeps [OF pool_close(5)] and same = wakes_same(1) [OF pool_close(5)]
    and cost = wakes_cost [OF pool_close(5)]
  from pool_close(4) have c: "c = (sy_chan (pl_sys p))\<lparr>ch_closed := True\<rparr>" by (simp add: close_cs_def)
  have "sy_ready_send (pl_sys p) = {#}" using pool_close(2) by (simp add: inside_def)
  with pool_close keeps same cost(1,2) inside_size(2) [OF pool_close(6)] show ?case
    by (simp add: pool_weight_def c)
next
  case (pool_recv p)
  then show ?case by (simp add: pool_weight_def inside_def)
next
  case (pool_recv_waits p)
  then show ?case by (simp add: pool_weight_def inside_def)
next
  case (pool_recv_returns p st out c wk s')
  from recv_lightens [OF this(4,1-3)] show ?case .
qed

lemma spurious_weighs: "pool_step Spurious p q \<Longrightarrow> pool_weight n q \<le> Suc (pool_weight n p)"
proof (induction Spurious p q rule: pool_step.induct)
  case (pool_spurious_send v p)
  then show ?case by (auto simp: pool_weight_def inside_def dest!: multi_member_split)
next
  case (pool_spurious_recv p)
  then show ?case by (simp add: pool_weight_def inside_def)
qed

lemma pool_run_inv:
  "pool_run p w k q \<Longrightarrow> pool_inv n xs p \<Longrightarrow>
     pool_inv n xs q \<and> pool_weight n q + w \<le> pool_weight n p + k"
proof (induction rule: pool_run.induct)
  case (run_work w k q r)
  then show ?case using work_lightens [of q r n xs] pool_inv_step [of Work q r n xs] by fastforce
next
  case (run_spurious w k q r)
  then show ?case using spurious_weighs [of q r n] pool_inv_step [of Spurious q r n xs] by fastforce
qed simp

section \<open>The property\<close>

text \<open>
  C12: A pool of consumers is served completely. One thread sends the values of \<open>xs\<close> and
  closes the channel, \<open>n\<close> threads, at least one, receive until they are told of the close. On any
  capacity up to 2^30, any schedule and choice of the threads a signal wakes: what they have got is at any time an
  initial part of \<open>xs\<close>, in order; at most \<open>(n + 5) * length xs + 4 * n + 1\<close> steps, plus one
  for each spurious wake-up, can be taken; and as long as not all consumers have returned
  and got the whole of \<open>xs\<close>, some thread can take one.
\<close>

theorem pool_served:
  assumes "fx_chan_create a b m capacity = Some c" and "sint capacity \<le> 2 ^ 30" and "0 < n"
    and "pool_run (pool_init c xs n) w k p"
  shows "w \<le> (n + 5) * length xs + 4 * n + 1 + k \<and>
     (\<exists>rest. xs = sy_got (pl_sys p) @ rest) \<and>
     ((\<exists>q. pool_step Work p q) \<or>
      ch_closed (sy_chan (pl_sys p)) \<and> pl_ended p = n \<and> sy_got (pl_sys p) = xs)"
proof (intro conjI)
  note c = create_ok [OF assms(1,2)]
  have "pool_inv n xs (pool_init c xs n)" by (rule pool_inv_init [OF c(1-3)])
  note run = pool_run_inv [OF assms(4) this]
  have "ch_len c = 0" using c(1,2) chan_queue_length [of c] by (simp add: chan_ok_def)
  with run c(3) show "w \<le> (n + 5) * length xs + 4 * n + 1 + k"
    by (simp add: pool_weight_def pool_init_def sys_init_def inside_def)
  from run show "\<exists>rest. xs = sy_got (pl_sys p) @ rest"
    by (auto simp: pool_inv_def sys_inv_def ring.history_def)
  from run stuck_is_done [OF _ assms(3)] show "(\<exists>q. pool_step Work p q) \<or>
      ch_closed (sy_chan (pl_sys p)) \<and> pl_ended p = n \<and> sy_got (pl_sys p) = xs" by blast
qed

text \<open>A run with one consumer, to its end.\<close>

definition demo_pool :: "FxChan \<Rightarrow> i64 list \<Rightarrow> nat \<Rightarrow> i64 list \<Rightarrow> i64 list \<Rightarrow> i64 list \<Rightarrow> nat \<Rightarrow> nat \<Rightarrow> pool" where
  "demo_pool c rs rr sent got lft idle ended =
     \<lparr>pl_sys = \<lparr>sy_chan = c, sy_ready_send = mset rs, sy_blocked_send = {#}, sy_ready_recv = rr,
        sy_blocked_recv = 0, sy_sent = sent, sy_got = got\<rparr>, pl_left = lft, pl_idle = idle, pl_ended = ended\<rparr>"

definition spent_chan :: FxChan where
  "spent_chan = \<lparr>ch_buf = [7], ch_cap = 1, ch_len = 0, ch_head = 0, ch_closed = True\<rparr>"

lemma demo_pool_run:
  "pool_run (pool_init demo_chan [7] 1) 7 0 (demo_pool spent_chan [] 0 [7] [7] [] 0 1)"
proof -
  note d = demo_pool_def demo_chan_def full_chan_def spent_chan_def wakes_def inside_def
  let ?shut = "full_chan\<lparr>ch_closed := True\<rparr>"
  have put: "send_cs demo_chan 7 = Some (Ret FX_CHAN_OK None full_chan SignalNotEmpty)"
    by (simp add: send_cs_def put_tail_def demo_chan_def full_chan_def int_add_def int_mod_def
        INT_MAX_def aset_def)
  have take: "recv_cs ?shut = Some (Ret FX_CHAN_OK (Some 7) spent_chan SignalNotFull)"
    by (simp add: recv_cs_def take_head_def full_chan_def spent_chan_def int_add_def int_mod_def
        INT_MAX_def aget_def)
  have shut: "recv_cs spent_chan = Some (Ret FX_CHAN_CLOSED None spent_chan WakeNone)"
    by (simp add: recv_cs_def spent_chan_def)
  have 1: "pool_step Work (pool_init demo_chan [7] 1) (demo_pool demo_chan [7] 0 [] [] [] 1 0)"
    using pool_send [of "pool_init demo_chan [7] 1"] by (simp add: pool_init_def sys_init_def d)
  have 2: "pool_step Work (demo_pool demo_chan [7] 0 [] [] [] 1 0) (demo_pool full_chan [] 0 [7] [] [] 1 0)"
    using pool_send_returns [of 7 "demo_pool demo_chan [7] 0 [] [] [] 1 0"]
    put by (auto simp: demo_pool_def wakes_def)
  have 3: "pool_step Work (demo_pool full_chan [] 0 [7] [] [] 1 0) (demo_pool ?shut [] 0 [7] [] [] 1 0)"
    using pool_close [of "demo_pool full_chan [] 0 [7] [] [] 1 0"]
    by (auto simp: demo_pool_def wakes_def inside_def close_cs_def full_chan_def)
  have 4: "pool_step Work (demo_pool ?shut [] 0 [7] [] [] 1 0) (demo_pool ?shut [] 1 [7] [] [] 0 0)"
    using pool_recv [of "demo_pool ?shut [] 0 [7] [] [] 1 0"] by (simp add: demo_pool_def)
  have 5: "pool_step Work (demo_pool ?shut [] 1 [7] [] [] 0 0) (demo_pool spent_chan [] 0 [7] [7] [] 1 0)"
    using pool_recv_returns [of "demo_pool ?shut [] 1 [7] [] [] 0 0"] take
    by (auto simp: demo_pool_def wakes_def)
  have 6: "pool_step Work (demo_pool spent_chan [] 0 [7] [7] [] 1 0) (demo_pool spent_chan [] 1 [7] [7] [] 0 0)"
    using pool_recv [of "demo_pool spent_chan [] 0 [7] [7] [] 1 0"] by (simp add: demo_pool_def)
  have 7: "pool_step Work (demo_pool spent_chan [] 1 [7] [7] [] 0 0) (demo_pool spent_chan [] 0 [7] [7] [] 0 1)"
    using pool_recv_returns [of "demo_pool spent_chan [] 1 [7] [7] [] 0 0"] shut
    by (auto simp: demo_pool_def wakes_def)
  note run_work [OF run_work [OF run_work [OF run_work [OF run_work [OF run_work [OF run_work
    [OF run_start 1] 2] 3] 4] 5] 6] 7]
  then show ?thesis by (simp add: numeral_eq_Suc)
qed

theorem pool_served_witness:
  "(7 :: nat) \<le> 11 \<and> (\<exists>rest. [7] = sy_got (pl_sys (demo_pool spent_chan [] 0 [7] [7] [] 0 1)) @ rest) \<and>
   ((\<exists>q. pool_step Work (demo_pool spent_chan [] 0 [7] [7] [] 0 1) q) \<or>
     ch_closed spent_chan \<and> sy_got (pl_sys (demo_pool spent_chan [] 0 [7] [7] [] 0 1)) = [7])"
  using pool_served [OF demo_chan_created _ _ demo_pool_run] by (auto simp: demo_pool_def)

end
