(* ===== verification/AsyncBridge.thy ===== *)
theory AsyncBridge
  imports Nursery Mailbox Select
begin

text \<open>
  The bridge of \<open>host/concur/fx_async_bridge.c\<close>: every object of the concurrency runtime
  behind a 64-bit handle, result slots, and tasks that store or send one value. A handle is an
  address; a call on an address that holds no object of the expected kind (never allocated,
  freed, of another kind) is undefined, \<open>None\<close>. A call that blocks is cut where it waits:
  \<open>Waits\<close> is a call still inside, which the scheduler runs again later.
\<close>

section \<open>The store\<close>

datatype task_arg = StoreArg addr i32 | SendArg addr i32 | MbSendArg addr i32

record bworld =
  w_nurs :: "addr \<rightharpoonup> nsys"
  w_slots :: "addr \<rightharpoonup> i64"
  w_chans :: "addr \<rightharpoonup> FxChan"
  w_mbs :: "addr \<rightharpoonup> FxMailbox"
  w_args :: "addr \<rightharpoonup> task_arg"

definition deref :: "(addr \<rightharpoonup> 'a) \<Rightarrow> addr \<Rightarrow> 'a option option" where
  "deref m a = (if a = 0 then Some None else map_option Some (m a))"

text \<open>
  The nursery behind a handle. \<open>fx_nursery_destroy\<close> frees the object; its record stays in the
  store as history, and a call on the handle is undefined.
\<close>

definition nur_at :: "bworld \<Rightarrow> i64 \<Rightarrow> nsys option option" where
  "nur_at w h = do {
     p \<leftarrow> deref (w_nurs w) h;
     case p of None \<Rightarrow> Some None | Some s \<Rightarrow> if ns_owner s = ODestroyed then None else Some (Some s) }"

lemma nur_at_simps [simp]:
  "nur_at w 0 = Some None"
  "h \<noteq> 0 \<Longrightarrow> w_nurs w h = Some s \<Longrightarrow> nur_at w h = (if ns_owner s = ODestroyed then None else Some (Some s))"
  by (simp_all add: nur_at_def deref_def)

text \<open>What a call leaves of the nursery behind the handle, if there is one.\<close>

definition put_nur :: "i64 \<Rightarrow> nsys option \<Rightarrow> FxNursery option \<Rightarrow> bworld \<Rightarrow> bworld" where
  "put_nur h p n w = (case (p, n) of
     (Some s, Some n) \<Rightarrow> w\<lparr>w_nurs := (w_nurs w)(h \<mapsto> s\<lparr>ns_nur := n\<rparr>)\<rparr> | _ \<Rightarrow> w)"

lemma put_nur_simps [simp]:
  "w_args (put_nur h p n w) = w_args w"
  "put_nur h (Some s) (Some n') w = w\<lparr>w_nurs := (w_nurs w)(h \<mapsto> s\<lparr>ns_nur := n'\<rparr>)\<rparr>"
  by (simp_all add: put_nur_def split: option.split)

text \<open>The addresses of the three task functions.\<close>

definition STORE_TASK :: addr where "STORE_TASK = 1"
definition SEND_TASK :: addr where "SEND_TASK = 2"
definition MB_SEND_TASK :: addr where "MB_SEND_TASK = 3"

datatype 'r bridge_out = Waits | Returns 'r bworld

section \<open>Task bodies\<close>

definition free_arg :: "addr \<Rightarrow> bworld \<Rightarrow> bworld" where
  "free_arg p w = w\<lparr>w_args := (w_args w)(p := None)\<rparr>"

definition store_slot :: "addr \<Rightarrow> i64 \<Rightarrow> bworld \<Rightarrow> bworld option" where
  "store_slot s v w =
     (if w_slots w s = None then None else Some (w\<lparr>w_slots := (w_slots w)(s \<mapsto> v)\<rparr>))"

definition fx_async_store_task :: "addr \<Rightarrow> bworld \<Rightarrow> bworld option" where
  "fx_async_store_task p w =
     (if p = 0 then Some w
      else case w_args w p of
        Some (StoreArg s v) \<Rightarrow> do {
          w \<leftarrow> (if s = 0 then Some w else store_slot s (widen_i32 v) w);
          Some (free_arg p w) }
      | _ \<Rightarrow> None)"

text \<open>One try of a blocking channel call: the channel after it, or waiting.\<close>

definition chan_try :: "(int + cs_end) option \<Rightarrow> (int \<times> FxChan option) option option" where
  "chan_try r = map_option (\<lambda>e. case e of
     Inl st \<Rightarrow> Some (st, None) | Inr Wait \<Rightarrow> None | Inr (Ret st _ c _) \<Rightarrow> Some (st, Some c)) r"

definition put_chan :: "addr \<Rightarrow> FxChan option \<Rightarrow> bworld \<Rightarrow> bworld" where
  "put_chan h c w = (case c of None \<Rightarrow> w | Some c \<Rightarrow> w\<lparr>w_chans := (w_chans w)(h \<mapsto> c)\<rparr>)"

definition put_mb :: "addr \<Rightarrow> FxChan option \<Rightarrow> bworld \<Rightarrow> bworld" where
  "put_mb h c w = (case c of None \<Rightarrow> w | Some c \<Rightarrow> w\<lparr>w_mbs := (w_mbs w)(h \<mapsto> \<lparr>mb_ch = Some c\<rparr>)\<rparr>)"

definition fx_async_send_task :: "addr \<Rightarrow> bworld \<Rightarrow> unit bridge_out option" where
  "fx_async_send_task p w =
     (if p = 0 then Some (Returns () w)
      else case w_args w p of
        Some (SendArg h v) \<Rightarrow>
          if h = 0 then Some (Returns () (free_arg p w))
          else do {
            c \<leftarrow> deref (w_chans w) h;
            r \<leftarrow> chan_try (fx_chan_send c v);
            Some (case r of None \<Rightarrow> Waits | Some (_, c) \<Rightarrow> Returns () (free_arg p (put_chan h c w))) }
      | _ \<Rightarrow> None)"

definition fx_async_mb_send_task :: "addr \<Rightarrow> bworld \<Rightarrow> unit bridge_out option" where
  "fx_async_mb_send_task p w =
     (if p = 0 then Some (Returns () w)
      else case w_args w p of
        Some (MbSendArg h v) \<Rightarrow>
          if h = 0 then Some (Returns () (free_arg p w))
          else do {
            m \<leftarrow> deref (w_mbs w) h;
            r \<leftarrow> chan_try (fx_mb_send m v);
            Some (case r of None \<Rightarrow> Waits | Some (_, c) \<Rightarrow> Returns () (free_arg p (put_mb h c w))) }
      | _ \<Rightarrow> None)"

text \<open>Calling a task function by its address, as the trampoline of the nursery does.\<close>

definition call_bridge_task :: "addr \<Rightarrow> addr \<Rightarrow> bworld \<Rightarrow> unit bridge_out option" where
  "call_bridge_task fn arg w =
     (if fn = STORE_TASK then map_option (Returns ()) (fx_async_store_task arg w)
      else if fn = SEND_TASK then fx_async_send_task arg w
      else if fn = MB_SEND_TASK then fx_async_mb_send_task arg w
      else None)"

section \<open>Nurseries\<close>

text \<open>
  \<open>p\<close> is the address the allocator hands out, 0 when it has none; the other flags are the
  further allocations and the mutex.
\<close>

definition fx_async_nursery_create_sized ::
  "addr \<Rightarrow> bool \<Rightarrow> bool \<Rightarrow> i32 \<Rightarrow> bworld \<Rightarrow> i64 \<times> bworld" where
  "fx_async_nursery_create_sized p calloc_slots mutex_ok max_tasks w =
     (case fx_nursery_create_sized (p \<noteq> 0) calloc_slots mutex_ok max_tasks of
        None \<Rightarrow> (0, w)
      | Some n \<Rightarrow> (p, w\<lparr>w_nurs := (w_nurs w)(p \<mapsto> n_init n)\<rparr>))"

definition fx_async_nursery_create :: "addr \<Rightarrow> bool \<Rightarrow> bool \<Rightarrow> bworld \<Rightarrow> i64 \<times> bworld" where
  "fx_async_nursery_create p calloc_slots mutex_ok w =
     (case fx_nursery_create (p \<noteq> 0) calloc_slots mutex_ok of
        None \<Rightarrow> (0, w)
      | Some n \<Rightarrow> (p, w\<lparr>w_nurs := (w_nurs w)(p \<mapsto> n_init n)\<rparr>))"

definition fx_async_slot_new :: "addr \<Rightarrow> bworld \<Rightarrow> i64 \<times> bworld" where
  "fx_async_slot_new p w =
     (if p = 0 then (0, w) else (p, w\<lparr>w_slots := (w_slots w)(p \<mapsto> 0)\<rparr>))"

text \<open>\<open>fx_nursery_spawn\<close> on the nursery behind a handle.\<close>

definition nur_spawn :: "i64 \<Rightarrow> addr \<Rightarrow> addr \<Rightarrow> bool \<Rightarrow> bworld \<Rightarrow> (int \<times> bworld) option" where
  "nur_spawn n_h fn arg created w =
     do { p \<leftarrow> nur_at w n_h;
          (rc, n) \<leftarrow> fx_nursery_spawn (map_option ns_nur p) fn arg created;
          Some (rc, put_nur n_h p n w) }"

text \<open>\<open>arg_p\<close> is what \<open>malloc\<close> returns for the argument block.\<close>

definition spawn_with_arg ::
  "addr \<Rightarrow> task_arg \<Rightarrow> i64 \<Rightarrow> addr \<Rightarrow> bool \<Rightarrow> bworld \<Rightarrow> (int \<times> bworld) option" where
  "spawn_with_arg arg_p arg n_h fn created w =
     (if arg_p = 0 then Some (FX_NURSERY_ERR, w)
      else nur_spawn n_h fn arg_p created (w\<lparr>w_args := (w_args w)(arg_p \<mapsto> arg)\<rparr>))"

definition fx_async_nursery_spawn_add ::
  "addr \<Rightarrow> bool \<Rightarrow> i64 \<Rightarrow> i64 \<Rightarrow> i32 \<Rightarrow> bworld \<Rightarrow> (int \<times> bworld) option" where
  "fx_async_nursery_spawn_add arg_p created n_h slot_h v w =
     (if n_h = 0 \<or> slot_h = 0 then Some (FX_NURSERY_ERR, w)
      else spawn_with_arg arg_p (StoreArg slot_h v) n_h STORE_TASK created w)"

definition fx_async_nursery_spawn_send ::
  "addr \<Rightarrow> bool \<Rightarrow> i64 \<Rightarrow> i64 \<Rightarrow> i32 \<Rightarrow> bworld \<Rightarrow> (int \<times> bworld) option" where
  "fx_async_nursery_spawn_send arg_p created n_h chan_h v w =
     (if n_h = 0 \<or> chan_h = 0 then Some (FX_NURSERY_ERR, w)
      else spawn_with_arg arg_p (SendArg chan_h v) n_h SEND_TASK created w)"

definition fx_async_nursery_spawn_mb_send ::
  "addr \<Rightarrow> bool \<Rightarrow> i64 \<Rightarrow> i64 \<Rightarrow> i32 \<Rightarrow> bworld \<Rightarrow> (int \<times> bworld) option" where
  "fx_async_nursery_spawn_mb_send arg_p created n_h mb_h v w =
     (if n_h = 0 \<or> mb_h = 0 then Some (FX_NURSERY_ERR, w)
      else spawn_with_arg arg_p (MbSendArg mb_h v) n_h MB_SEND_TASK created w)"

text \<open>
  The calls that wait for tasks, up to their first wait: what follows are the owner's steps of
  the nursery's own system.
\<close>

definition nur_enter :: "(nsys \<Rightarrow> nsys option) \<Rightarrow> i64 \<Rightarrow> bworld \<Rightarrow> (int option \<times> bworld) option" where
  "nur_enter f n_h w =
     do { p \<leftarrow> nur_at w n_h;
          case p of None \<Rightarrow> Some (Some FX_NURSERY_ERR, w)
          | Some s \<Rightarrow> do {
              s \<leftarrow> f s;
              Some (if ns_owner s = OIdle then Some (ns_last s) else None,
                    w\<lparr>w_nurs := (w_nurs w)(n_h \<mapsto> s)\<rparr>) } }"

definition fx_async_nursery_join_all :: "i64 \<Rightarrow> bworld \<Rightarrow> (int option \<times> bworld) option" where
  "fx_async_nursery_join_all n_h w = nur_enter (start_join JoinAll) n_h w"

definition fx_async_nursery_join_all_timeout :: "i64 \<Rightarrow> i32 \<Rightarrow> bworld \<Rightarrow> (int option \<times> bworld \<times> u32) option" where
  "fx_async_nursery_join_all_timeout n_h timeout_ms w =
     map_option (\<lambda>(r, w). (r, w, timeout_ms)) (nur_enter (start_join JoinTimed) n_h w)"

definition fx_async_nursery_shutdown :: "i64 \<Rightarrow> bworld \<Rightarrow> (int option \<times> bworld) option" where
  "fx_async_nursery_shutdown n_h w = nur_enter (\<lambda>s. Some (shutdown_first s)) n_h w"

definition fx_async_nursery_request_cancel :: "i64 \<Rightarrow> bworld \<Rightarrow> (int \<times> bworld) option" where
  "fx_async_nursery_request_cancel n_h w =
     do { p \<leftarrow> nur_at w n_h;
          (rc, n) \<leftarrow> Some (fx_nursery_request_cancel (map_option ns_nur p));
          Some (rc, put_nur n_h p n w) }"

definition fx_async_nursery_pending :: "i64 \<Rightarrow> bworld \<Rightarrow> nat option" where
  "fx_async_nursery_pending n_h w =
     do { p \<leftarrow> nur_at w n_h; fx_nursery_pending (map_option ns_nur p) }"

text \<open>Result slots.\<close>

definition fx_async_slot_get :: "i64 \<Rightarrow> bworld \<Rightarrow> i32 option" where
  "fx_async_slot_get slot_h w =
     do { p \<leftarrow> deref (w_slots w) slot_h; Some (case p of None \<Rightarrow> 0 | Some v \<Rightarrow> narrow_i64 v) }"

definition fx_async_slot_get_i64 :: "i64 \<Rightarrow> bworld \<Rightarrow> i64 option" where
  "fx_async_slot_get_i64 slot_h w =
     do { p \<leftarrow> deref (w_slots w) slot_h; Some (case p of None \<Rightarrow> 0 | Some v \<Rightarrow> v) }"

definition fx_async_slot_set :: "i64 \<Rightarrow> i32 \<Rightarrow> bworld \<Rightarrow> (int \<times> bworld) option" where
  "fx_async_slot_set slot_h v w =
     (if slot_h = 0 then Some (FX_NURSERY_ERR, w)
      else do { w \<leftarrow> store_slot slot_h (widen_i32 v) w; Some (0, w) })"

text \<open>
  \<open>fx_nursery_destroy\<close>: a live nursery is shut down first, and the call goes on inside the shutdown;
  when that has returned, whatever it answered, the object is freed. A dead one is freed at once.
\<close>

definition free_nursery :: "i64 \<Rightarrow> nsys \<Rightarrow> bworld \<Rightarrow> bworld" where
  "free_nursery n_h s w = w\<lparr>w_nurs := (w_nurs w)(n_h \<mapsto> s\<lparr>ns_owner := ODestroyed\<rparr>)\<rparr>"

definition fx_async_nursery_destroy :: "i64 \<Rightarrow> bworld \<Rightarrow> (int option \<times> bworld) option" where
  "fx_async_nursery_destroy n_h w =
     do { p \<leftarrow> nur_at w n_h;
          case p of None \<Rightarrow> Some (Some 0, w)
          | Some s \<Rightarrow>
              if nu_live (ns_nur s) then Some (None, w\<lparr>w_nurs := (w_nurs w)(n_h \<mapsto> shutdown_first s)\<rparr>)
              else Some (Some 0, free_nursery n_h s w) }"

definition fx_async_nursery_destroy_end :: "i64 \<Rightarrow> bworld \<Rightarrow> (int option \<times> bworld) option" where
  "fx_async_nursery_destroy_end n_h w =
     do { p \<leftarrow> nur_at w n_h;
          s \<leftarrow> p;
          if ns_owner s = OIdle then Some (Some 0, free_nursery n_h s w) else Some (None, w) }"

text \<open>After either end every call on the handle is undefined, a second destroy included.\<close>

lemma destroyed_handle:
  assumes "fx_async_nursery_destroy h w = Some (Some rc, w') \<or> fx_async_nursery_destroy_end h w = Some (Some rc, w')"
    and "h \<noteq> 0"
  shows "nur_at w' h = None" and "fx_async_nursery_destroy h w' = None" and "fx_async_nursery_pending h w' = None"
    and "fx_async_nursery_join_all h w' = None" and "nur_spawn h fn arg created w' = None"
    and "fx_async_nursery_request_cancel h w' = None" and "fx_async_nursery_shutdown h w' = None"
proof -
  show n: "nur_at w' h = None"
    using assms
    by (auto simp: fx_async_nursery_destroy_def fx_async_nursery_destroy_end_def free_nursery_def nur_at_def deref_def
        bind_iff split: if_splits option.splits)
  show "fx_async_nursery_destroy h w' = None" "fx_async_nursery_pending h w' = None"
    "fx_async_nursery_join_all h w' = None" "nur_spawn h fn arg created w' = None"
    "fx_async_nursery_request_cancel h w' = None" "fx_async_nursery_shutdown h w' = None"
    by (simp_all add: fx_async_nursery_destroy_def fx_async_nursery_pending_def fx_async_nursery_join_all_def
        nur_spawn_def fx_async_nursery_request_cancel_def fx_async_nursery_shutdown_def nur_enter_def n)
qed

section \<open>Channels\<close>

definition fx_async_chan_create :: "addr \<Rightarrow> bool \<Rightarrow> bool \<Rightarrow> i32 \<Rightarrow> bworld \<Rightarrow> i64 \<times> bworld" where
  "fx_async_chan_create p calloc_buf mutex_ok capacity w =
     (case fx_chan_create (p \<noteq> 0) calloc_buf mutex_ok capacity of
        None \<Rightarrow> (0, w)
      | Some c \<Rightarrow> (p, w\<lparr>w_chans := (w_chans w)(p \<mapsto> c)\<rparr>))"

definition fx_async_chan_destroy :: "i64 \<Rightarrow> bworld \<Rightarrow> (int \<times> bworld) option" where
  "fx_async_chan_destroy h w =
     do { p \<leftarrow> deref (w_chans w) h;
          Some (0, case p of None \<Rightarrow> w | Some _ \<Rightarrow> w\<lparr>w_chans := (w_chans w)(h := None)\<rparr>) }"

definition finish :: "(addr \<Rightarrow> FxChan option \<Rightarrow> bworld \<Rightarrow> bworld) \<Rightarrow> addr \<Rightarrow> bworld \<Rightarrow>
    (int \<times> FxChan option) option \<Rightarrow> int bridge_out" where
  "finish put h w r = (case r of None \<Rightarrow> Waits | Some (st, c) \<Rightarrow> Returns st (put h c w))"

definition fx_async_chan_send :: "i64 \<Rightarrow> i32 \<Rightarrow> bworld \<Rightarrow> int bridge_out option" where
  "fx_async_chan_send h v w =
     do { c \<leftarrow> deref (w_chans w) h; r \<leftarrow> chan_try (fx_chan_send c v); Some (finish put_chan h w r) }"

definition fx_async_chan_send_i64 :: "i64 \<Rightarrow> i64 \<Rightarrow> bworld \<Rightarrow> int bridge_out option" where
  "fx_async_chan_send_i64 h v w =
     do { c \<leftarrow> deref (w_chans w) h; r \<leftarrow> chan_try (fx_chan_send_i64 c v); Some (finish put_chan h w r) }"

definition fx_async_chan_close :: "i64 \<Rightarrow> bworld \<Rightarrow> int bridge_out option" where
  "fx_async_chan_close h w =
     do { c \<leftarrow> deref (w_chans w) h; r \<leftarrow> chan_try (fx_chan_close c); Some (finish put_chan h w r) }"

text \<open>A receive into a slot: what arrived is stored when the status is OK.\<close>

definition deliver :: "(addr \<Rightarrow> FxChan option \<Rightarrow> bworld \<Rightarrow> bworld) \<Rightarrow> addr \<Rightarrow> addr \<Rightarrow> i64 option \<Rightarrow> bworld \<Rightarrow>
    (int \<times> FxChan option) option \<Rightarrow> int bridge_out option" where
  "deliver put h slot_h v w r =
     (case r of None \<Rightarrow> Some Waits
      | Some (st, c) \<Rightarrow> let w = put h c w in
          if st = FX_CHAN_OK then do { v \<leftarrow> v; w \<leftarrow> store_slot slot_h v w; Some (Returns st w) }
          else Some (Returns st w))"

definition fx_async_chan_recv_slot :: "i64 \<Rightarrow> i64 \<Rightarrow> bworld \<Rightarrow> int bridge_out option" where
  "fx_async_chan_recv_slot h slot_h w =
     (if slot_h = 0 then Some (Returns FX_CHAN_ERR w)
      else do {
        c \<leftarrow> deref (w_chans w) h;
        (r, v) \<leftarrow> fx_chan_recv c True;
        e \<leftarrow> chan_try (Some r);
        deliver put_chan h slot_h (map_option widen_i32 v) w e })"

definition out_i64 :: "int + cs_end \<Rightarrow> i64 option" where
  "out_i64 r = (case r of Inr (Ret st (Some v) c wk) \<Rightarrow> if st = FX_CHAN_OK then Some v else None | _ \<Rightarrow> None)"

definition fx_async_chan_recv_i64_slot :: "i64 \<Rightarrow> i64 \<Rightarrow> bworld \<Rightarrow> int bridge_out option" where
  "fx_async_chan_recv_i64_slot h slot_h w =
     (if slot_h = 0 then Some (Returns FX_CHAN_ERR w)
      else do {
        c \<leftarrow> deref (w_chans w) h;
        r \<leftarrow> fx_chan_recv_i64 c True;
        e \<leftarrow> chan_try (Some r);
        deliver put_chan h slot_h (out_i64 r) w e })"

section \<open>Select\<close>

text \<open>
  The two channels are read before the wait; what the other threads do to them meanwhile is
  the parameter \<open>others\<close> of the wait. The channel an element was taken from is written back
  last: the two handles may be one.
\<close>

definition fx_async_select_recv2_slots ::
  "nat \<Rightarrow> others \<Rightarrow> i64 \<Rightarrow> i64 \<Rightarrow> i64 \<Rightarrow> i64 \<Rightarrow> i32 \<Rightarrow> bworld \<Rightarrow> (int \<times> bworld) option" where
  "fx_async_select_recv2_slots fuel others a_h b_h value_slot which_slot timeout_ms w =
     (if value_slot = 0 \<or> which_slot = 0 then Some (FX_SEL_ERR, w)
      else do {
        a \<leftarrow> deref (w_chans w) a_h;
        b \<leftarrow> deref (w_chans w) b_h;
        r \<leftarrow> fx_select_recv2 fuel others True True timeout_ms (a, b);
        let a = fst (sel_chans r); b = snd (sel_chans r);
            w = (if sel_which r = Some 0 then put_chan a_h a (put_chan b_h b w)
                 else put_chan b_h b (put_chan a_h a w)) in
        if sel_status r = FX_SEL_OK then do {
          v \<leftarrow> sel_out r; i \<leftarrow> sel_which r;
          w \<leftarrow> store_slot value_slot (widen_i32 v) w;
          w \<leftarrow> store_slot which_slot (of_nat i) w;
          Some (sel_status r, w) }
        else Some (sel_status r, w) })"

section \<open>Mailboxes and supervision\<close>

definition fx_async_mb_create :: "addr \<Rightarrow> bool \<Rightarrow> bool \<Rightarrow> bool \<Rightarrow> i32 \<Rightarrow> bworld \<Rightarrow> i64 \<times> bworld" where
  "fx_async_mb_create p calloc_c calloc_buf mutex_ok capacity w =
     (case fx_mb_create (p \<noteq> 0) calloc_c calloc_buf mutex_ok capacity of
        None \<Rightarrow> (0, w)
      | Some m \<Rightarrow> (p, w\<lparr>w_mbs := (w_mbs w)(p \<mapsto> m)\<rparr>))"

definition fx_async_mb_destroy :: "i64 \<Rightarrow> bworld \<Rightarrow> (int \<times> bworld) option" where
  "fx_async_mb_destroy h w =
     do { p \<leftarrow> deref (w_mbs w) h;
          Some (0, case p of None \<Rightarrow> w | Some _ \<Rightarrow> w\<lparr>w_mbs := (w_mbs w)(h := None)\<rparr>) }"

definition fx_async_mb_send :: "i64 \<Rightarrow> i32 \<Rightarrow> bworld \<Rightarrow> int bridge_out option" where
  "fx_async_mb_send h v w =
     do { m \<leftarrow> deref (w_mbs w) h; r \<leftarrow> chan_try (fx_mb_send m v); Some (finish put_mb h w r) }"

definition fx_async_mb_recv_slot :: "i64 \<Rightarrow> i64 \<Rightarrow> bworld \<Rightarrow> int bridge_out option" where
  "fx_async_mb_recv_slot h slot_h w =
     (if slot_h = 0 then Some (Returns FX_MB_ERR w)
      else do {
        m \<leftarrow> deref (w_mbs w) h;
        (r, v) \<leftarrow> fx_mb_recv m True;
        e \<leftarrow> chan_try (Some r);
        deliver put_mb h slot_h (map_option widen_i32 v) w e })"

definition fx_async_mb_close :: "i64 \<Rightarrow> bworld \<Rightarrow> int bridge_out option" where
  "fx_async_mb_close h w =
     do { m \<leftarrow> deref (w_mbs w) h; r \<leftarrow> chan_try (fx_mb_close m); Some (finish put_mb h w r) }"

definition fx_async_supervise_normalize :: "i32 \<Rightarrow> int" where
  "fx_async_supervise_normalize policy = fx_supervise_normalize_policy (sint policy)"

definition fx_async_supervise_apply :: "i64 \<Rightarrow> i32 \<Rightarrow> i32 \<Rightarrow> bworld \<Rightarrow> (int \<times> bworld) option" where
  "fx_async_supervise_apply n_h policy child_ok w =
     do { p \<leftarrow> nur_at w n_h;
          (rc, n) \<leftarrow> Some (fx_supervise_apply (map_option ns_nur p) (sint policy) (sint child_ok));
          Some (rc, put_nur n_h p n w) }"

end
