(* ===== verification/AsyncTheorems.thy ===== *)
theory AsyncTheorems
  imports AsyncBridge NurseryTheorems
begin

text \<open>
  A nursery of storing tasks, from the bridge's calls down to the slots: the owner joins and
  shuts down, any thread spawns with \<open>fx_async_nursery_spawn_add\<close> and cancels, and each task
  runs its body once. The theorems say when a result slot holds its task's value and what
  becomes of the argument blocks.
\<close>

section \<open>The system\<close>

text \<open>
  One nursery with handle \<open>h\<close>; the log of the tasks spawned so far, as block, slot, value; the
  slots that were written directly since the last task was spawned on them, by
  \<open>fx_async_slot_set\<close> or a receive, which all store through \<open>store_slot\<close>. \<open>late\<close> says
  whether a thread may spawn in the window between the join inside a shutdown and its end.
\<close>

type_synonym task_log = "(addr \<times> addr \<times> i32) list"
type_synonym bsys = "bworld \<times> task_log \<times> addr set"

inductive b_step :: "bool \<Rightarrow> i64 \<Rightarrow> bsys \<Rightarrow> bsys \<Rightarrow> bool" for late h where
  b_new: "p \<noteq> 0 \<Longrightarrow> w_slots w p = None \<Longrightarrow> fx_async_slot_new p w = (p, w') \<Longrightarrow>
    b_step late h (w, ts, fs) (w', ts, fs)"
| b_write: "store_slot q x w = Some w' \<Longrightarrow> b_step late h (w, ts, fs) (w', ts, insert q fs)"
| b_spawn: "p \<noteq> 0 \<Longrightarrow> w_args w p = None \<Longrightarrow> w_slots w q \<noteq> None \<Longrightarrow>
    w_nurs w h = Some s \<Longrightarrow> late \<or> ns_owner s \<noteq> ShutJoined \<Longrightarrow>
    fx_async_nursery_spawn_add p created h q v w = Some (rc, w') \<Longrightarrow>
    b_step late h (w, ts, fs) (if rc = FX_NURSERY_OK then (w', ts @ [(p, q, v)], fs - {q}) else (w', ts, fs))"
| b_task: "w_nurs w h = Some s \<Longrightarrow> i < nu_n (ns_nur s) \<Longrightarrow> i \<notin> ns_done s \<Longrightarrow> slot_ref s i = Some sl \<Longrightarrow>
    fx_nursery_tramp call_bridge_task sl w = Some (Returns () w') \<Longrightarrow>
    b_step late h (w, ts, fs) (w'\<lparr>w_nurs := (w_nurs w')(h \<mapsto> s\<lparr>ns_done := insert i (ns_done s)\<rparr>)\<rparr>, ts, fs)"
| b_other: "w_nurs w h = Some s \<Longrightarrow> l = LOwner \<or> l = LCancel \<Longrightarrow> n_step l s s' \<Longrightarrow>
    b_step late h (w, ts, fs) (w\<lparr>w_nurs := (w_nurs w)(h \<mapsto> s')\<rparr>, ts, fs)"

definition b_start :: "i64 \<Rightarrow> FxNursery \<Rightarrow> bworld" where
  "b_start h n = \<lparr>w_nurs = [h \<mapsto> n_init n], w_slots = Map.empty, w_chans = Map.empty,
     w_mbs = Map.empty, w_args = Map.empty\<rparr>"

inductive b_reach :: "bool \<Rightarrow> i64 \<Rightarrow> FxNursery \<Rightarrow> bsys \<Rightarrow> bool" for late h n where
  br_start: "b_reach late h n (b_start h n, [], {})"
| br_step: "b_reach late h n x \<Longrightarrow> b_step late h x y \<Longrightarrow> b_reach late h n y"

section \<open>The invariant\<close>

text \<open>
  The task in slot \<open>i\<close> of the nursery is the \<open>i\<close>-th of the log; until it has run its block is
  there, no other waiting task has the same block, and after it has run its result slot holds
  its value, unless another task or a direct write stores into that slot too.
\<close>

definition own_slot :: "task_log \<Rightarrow> nat \<Rightarrow> bool" where
  "own_slot ts i \<longleftrightarrow> (\<forall>j < length ts. j \<noteq> i \<longrightarrow> fst (snd (ts ! j)) \<noteq> fst (snd (ts ! i)))"

definition task_ok :: "bworld \<Rightarrow> nsys \<Rightarrow> task_log \<Rightarrow> addr set \<Rightarrow> nat \<Rightarrow> bool" where
  "task_ok w s ts fs i \<longleftrightarrow> (case ts ! i of (p, q, v) \<Rightarrow>
     sl_fn (nu_slots (ns_nur s) ! i) = STORE_TASK \<and> sl_arg (nu_slots (ns_nur s) ! i) = p \<and>
     p \<noteq> 0 \<and> q \<noteq> 0 \<and> w_slots w q \<noteq> None \<and>
     (if i \<in> ns_done s then own_slot ts i \<and> q \<notin> fs \<longrightarrow> w_slots w q = Some (widen_i32 v)
      else w_args w p = Some (StoreArg q v) \<and> (\<forall>j < length ts. j \<notin> ns_done s \<and> j \<noteq> i \<longrightarrow> fst (ts ! j) \<noteq> p)))"

definition b_inv :: "i64 \<Rightarrow> bsys \<Rightarrow> bool" where
  "b_inv h x \<longleftrightarrow> (case x of (w, ts, fs) \<Rightarrow> h \<noteq> 0 \<and> w_slots w 0 = None \<and>
     (\<exists>s. w_nurs w h = Some s \<and> n_inv s \<and> ns_done s \<subseteq> {..<nu_n (ns_nur s)} \<and>
       length ts = nu_n (ns_nur s) \<and> (\<forall>i < length ts. task_ok w s ts fs i)))"

text \<open>The owner and cancels leave the tasks' entries alone.\<close>

lemma set_joined_entry:
  "set_joined i n = Some n' \<Longrightarrow> nu_n n' = nu_n n \<and>
     sl_fn (nu_slots n' ! j) = sl_fn (nu_slots n ! j) \<and> sl_arg (nu_slots n' ! j) = sl_arg (nu_slots n ! j)"
  by (auto simp: set_joined_def bind_iff nth_list_update)

lemma after_scan_nur [simp]: "ns_nur (after_scan k r n s) = n" "ns_done (after_scan k r n s) = ns_done s"
  by (simp_all add: after_scan_def split: option.splits)

lemma other_step_entries:
  assumes "n_step l s s'" and "l = LOwner \<or> l = LCancel"
  shows "nu_n (ns_nur s') = nu_n (ns_nur s) \<and> ns_done s' = ns_done s \<and>
    sl_fn (nu_slots (ns_nur s') ! j) = sl_fn (nu_slots (ns_nur s) ! j) \<and>
    sl_arg (nu_slots (ns_nur s') ! j) = sl_arg (nu_slots (ns_nur s) ! j)"
  using assms
proof (induction rule: n_step.induct)
  case (st_cancel s rc n)
  then show ?case by (auto simp: fx_nursery_request_cancel_def split: if_splits)
next
  case (st_join s k s')
  from st_join(3) show ?case by (cases rule: start_join_cases) simp_all
next
  case (st_wait s k i w s')
  from st_wait(4,2) show ?case
  proof (cases rule: after_wait_cases)
    case gave_up
    have "ns_nur s' = ns_nur s" "ns_done s' = ns_done s" by (subst gave_up(4), simp)+
    then show ?thesis by simp
  next
    case (scan n r)
    then show ?thesis using set_joined_entry [OF scan(2), of j] by simp
  qed
next
  case (st_shut_join s s')
  from st_shut_join(2) show ?case by (cases rule: start_join_cases) simp_all
qed (auto simp: shutdown_first_def shutdown_last_def)

lemma b_invE:
  assumes "b_inv h (w, ts, fs)"
  obtains s where "w_nurs w h = Some s" "n_inv s" "ns_done s \<subseteq> {..<nu_n (ns_nur s)}"
    "length ts = nu_n (ns_nur s)" "\<And>i. i < length ts \<Longrightarrow> task_ok w s ts fs i" "h \<noteq> 0" "w_slots w 0 = None"
  using assms by (auto simp: b_inv_def)

lemma task_ok_world:
  assumes "task_ok w s ts fs i" and "w_slots w' = w_slots w" and "w_args w' = w_args w"
    and "ns_done s' = ns_done s" and "sl_fn (nu_slots (ns_nur s') ! i) = sl_fn (nu_slots (ns_nur s) ! i)"
    and "sl_arg (nu_slots (ns_nur s') ! i) = sl_arg (nu_slots (ns_nur s) ! i)"
  shows "task_ok w' s' ts fs i"
  using assms(1) unfolding task_ok_def assms(2-6) .

lemma b_other_inv:
  assumes "b_inv h (w, ts, fs)" and "w_nurs w h = Some s" and "l = LOwner \<or> l = LCancel" and "n_step l s s'"
  shows "b_inv h (w\<lparr>w_nurs := (w_nurs w)(h \<mapsto> s')\<rparr>, ts, fs)"
proof -
  from assms(1,2) have inv: "n_inv s" "ns_done s \<subseteq> {..<nu_n (ns_nur s)}" "length ts = nu_n (ns_nur s)"
    "\<And>i. i < length ts \<Longrightarrow> task_ok w s ts fs i" "h \<noteq> 0" "w_slots w 0 = None" by (auto elim!: b_invE)
  note e = other_step_entries [OF assms(4,3)]
  have "task_ok (w\<lparr>w_nurs := (w_nurs w)(h \<mapsto> s')\<rparr>) s' ts fs i" if "i < length ts" for i
    by (rule task_ok_world [OF inv(4) [OF that]]) (use e [of i] in simp_all)
  then show ?thesis using inv e n_inv_step [OF assms(4)] by (simp add: b_inv_def)
qed

lemma b_new_inv:
  assumes "b_inv h (w, ts, fs)" and "p \<noteq> 0" and "w_slots w p = None" and "fx_async_slot_new p w = (p, w')"
  shows "b_inv h (w', ts, fs)"
proof -
  have w': "w' = w\<lparr>w_slots := (w_slots w)(p \<mapsto> 0)\<rparr>" using assms(2,4) by (simp add: fx_async_slot_new_def)
  have "task_ok w' s ts fs i" if "task_ok w s ts fs i" for s i
    using that assms(3) by (auto simp: task_ok_def w' split: prod.splits)
  then show ?thesis using assms(1,2) by (auto simp: b_inv_def w')
qed

lemma b_write_inv:
  assumes "b_inv h (w, ts, fs)" and "store_slot q x w = Some w'"
  shows "b_inv h (w', ts, insert q fs)"
proof -
  have w': "w' = w\<lparr>w_slots := (w_slots w)(q \<mapsto> x)\<rparr>" "w_slots w q \<noteq> None"
    using assms(2) by (auto simp: store_slot_def split: if_splits)
  have "task_ok w' s ts (insert q fs) i" if "task_ok w s ts fs i" for s i
    using that by (auto simp: task_ok_def w' split: prod.splits)
  then show ?thesis using assms(1) w' by (auto simp: b_inv_def)
qed

lemma b_task_inv:
  assumes "b_inv h (w, ts, fs)" and s: "w_nurs w h = Some s" and i: "i < nu_n (ns_nur s)" "i \<notin> ns_done s"
    and sl: "slot_ref s i = Some sl" and run: "fx_nursery_tramp call_bridge_task sl w = Some (Returns () w')"
  shows "b_inv h (w'\<lparr>w_nurs := (w_nurs w')(h \<mapsto> s\<lparr>ns_done := insert i (ns_done s)\<rparr>)\<rparr>, ts, fs)"
proof -
  from assms(1) s have inv: "n_inv s" "ns_done s \<subseteq> {..<nu_n (ns_nur s)}" "length ts = nu_n (ns_nur s)"
    "\<And>i. i < length ts \<Longrightarrow> task_ok w s ts fs i" "h \<noteq> 0" "w_slots w 0 = None" by (auto elim!: b_invE)
  have sl': "sl = nu_slots (ns_nur s) ! i" using slot_ref_inv [OF inv(1) i(1)] sl by (simp split: if_splits)
  obtain p q v where t: "ts ! i = (p, q, v)" by (cases "ts ! i") auto
  from inv(4) [of i] i inv(3) t have fn: "sl_fn (nu_slots (ns_nur s) ! i) = STORE_TASK"
    by (auto simp: task_ok_def)
  from inv(4) [of i] i inv(3) t have ti: "sl_arg (nu_slots (ns_nur s) ! i) = p" "p \<noteq> 0" "q \<noteq> 0"
    "w_slots w q \<noteq> None" "w_args w p = Some (StoreArg q v)"
    "\<forall>j < length ts. j \<notin> ns_done s \<and> j \<noteq> i \<longrightarrow> fst (ts ! j) \<noteq> p" by (auto simp: task_ok_def)
  then have w': "w' = w\<lparr>w_slots := (w_slots w)(q \<mapsto> widen_i32 v), w_args := (w_args w)(p := None)\<rparr>"
    using run fn unfolding sl'
    by (auto simp: fx_nursery_tramp_def call_bridge_task_def fx_async_store_task_def store_slot_def free_arg_def)
  let ?s = "s\<lparr>ns_done := insert i (ns_done s)\<rparr>"
  have "task_ok (w'\<lparr>w_nurs := nu\<rparr>) ?s ts fs j" if j: "j < length ts" for j nu
  proof (cases "j = i")
    case True
    then show ?thesis using inv(4) [OF j] t ti w' by (simp add: task_ok_def)
  next
    case False
    obtain pj qj vj where tj: "ts ! j = (pj, qj, vj)" by (cases "ts ! j") auto
    have sep: "own_slot ts j \<Longrightarrow> qj \<noteq> q"
      using False i(1) inv(3) t tj by (auto simp: own_slot_def)
    show ?thesis using inv(4) [OF j] False t tj ti(6) j w' sep
      by (auto simp: task_ok_def)
  qed
  moreover have "n_inv ?s" by (rule n_inv_step [OF st_finish inv(1)]) (rule i(1))
  ultimately show ?thesis using inv i(1) ti(3) w' by (auto simp: b_inv_def)
qed

text \<open>A spawn through the bridge: its block is there, and the task is the next of the nursery.\<close>

lemma spawn_with_arg_result:
  assumes "n_inv s" and "w_nurs w h = Some s" and "p \<noteq> 0" and f: "fn \<noteq> 0" and h: "h \<noteq> 0"
    and "spawn_with_arg p arg h fn created w = Some (rc, w')"
  shows "\<exists>n'. w' = w\<lparr>w_args := (w_args w)(p \<mapsto> arg), w_nurs := (w_nurs w)(h \<mapsto> s\<lparr>ns_nur := n'\<rparr>)\<rparr> \<and>
    n_ok n' (ns_done s) \<and> owner_ok (ns_owner s) n' \<and> n_step LSpawn s (s\<lparr>ns_nur := n'\<rparr>) \<and>
    (\<forall>i < nu_n (ns_nur s). nu_slots n' ! i = nu_slots (ns_nur s) ! i) \<and>
    (if rc = FX_NURSERY_OK
     then nu_n n' = nu_n (ns_nur s) + 1 \<and> sl_fn (nu_slots n' ! nu_n (ns_nur s)) = fn \<and>
       sl_arg (nu_slots n' ! nu_n (ns_nur s)) = p
     else nu_n n' = nu_n (ns_nur s))"
proof -
  let ?n = "ns_nur s"
  have ok: "n_ok ?n (ns_done s)" and ow: "owner_ok (ns_owner s) ?n" using assms(1) by (simp_all add: n_inv_def)
  then have b: "nu_n ?n \<le> nu_cap ?n" "length (nu_slots ?n) = nu_cap ?n" by (simp_all add: n_ok_def)
  obtain n' where sp: "fx_nursery_spawn (Some ?n) fn p created = Some (rc, Some n')"
    and w': "w' = w\<lparr>w_args := (w_args w)(p \<mapsto> arg), w_nurs := (w_nurs w)(h \<mapsto> s\<lparr>ns_nur := n'\<rparr>)\<rparr>"
    and live: "ns_owner s \<noteq> ODestroyed"
    using assms(2,3,6) h
    by (auto simp: spawn_with_arg_def nur_spawn_def bind_iff fx_nursery_spawn_def split: if_splits)
  note eff = spawn_effect [OF ok sp] and st = st_spawn [OF sp live]
  have "owner_ok (ns_owner s) n'" using ow eff by (auto simp: owner_ok_def split: owner.splits)
  moreover have "(\<forall>i < nu_n ?n. nu_slots n' ! i = nu_slots ?n ! i) \<and> (if rc = FX_NURSERY_OK
     then nu_n n' = nu_n ?n + 1 \<and> nu_slots n' ! nu_n ?n = \<lparr>sl_fn = fn, sl_arg = p, sl_used = True, sl_joined = False\<rparr>
     else nu_n n' = nu_n ?n)"
    by (rule spawn_cs_cases [OF b, of fn p created])
      (use sp f b in \<open>auto simp: fx_nursery_spawn_def nursery_codes\<close>)
  ultimately show ?thesis using w' eff st by (auto split: if_splits)
qed

lemma spawn_add_result:
  assumes "n_inv s" and "w_nurs w h = Some s" and "h \<noteq> 0" and "p \<noteq> 0" and "q \<noteq> 0"
    and "fx_async_nursery_spawn_add p created h q v w = Some (rc, w')"
  shows "\<exists>n'. w' = w\<lparr>w_args := (w_args w)(p \<mapsto> StoreArg q v), w_nurs := (w_nurs w)(h \<mapsto> s\<lparr>ns_nur := n'\<rparr>)\<rparr> \<and>
    n_ok n' (ns_done s) \<and> owner_ok (ns_owner s) n' \<and> n_step LSpawn s (s\<lparr>ns_nur := n'\<rparr>) \<and>
    (\<forall>i < nu_n (ns_nur s). sl_fn (nu_slots n' ! i) = sl_fn (nu_slots (ns_nur s) ! i) \<and>
       sl_arg (nu_slots n' ! i) = sl_arg (nu_slots (ns_nur s) ! i)) \<and>
    (if rc = FX_NURSERY_OK
     then nu_n n' = nu_n (ns_nur s) + 1 \<and> sl_fn (nu_slots n' ! nu_n (ns_nur s)) = STORE_TASK \<and>
       sl_arg (nu_slots n' ! nu_n (ns_nur s)) = p
     else nu_n n' = nu_n (ns_nur s))"
proof -
  have "spawn_with_arg p (StoreArg q v) h STORE_TASK created w = Some (rc, w')"
    using assms(3,5,6) by (simp add: fx_async_nursery_spawn_add_def)
  moreover have "STORE_TASK \<noteq> 0" by (simp add: STORE_TASK_def)
  ultimately show ?thesis using spawn_with_arg_result [OF assms(1,2,4) _ assms(3)] by fastforce
qed

lemma own_slot_last: "own_slot (ts @ [(p, q, v)]) i \<Longrightarrow> i < length ts \<Longrightarrow> fst (snd (ts ! i)) \<noteq> q"
  unfolding own_slot_def by (drule spec [of _ "length ts"]) (simp add: nth_append eq_commute)

lemma own_slot_append: "own_slot (ts @ [x]) i \<Longrightarrow> i < length ts \<Longrightarrow> own_slot ts i"
  by (auto simp: own_slot_def nth_append split: if_splits) (metis less_SucI)

lemma b_spawn_inv:
  assumes "b_inv h (w, ts, fs)" and p: "p \<noteq> 0" "w_args w p = None" and q: "w_slots w q \<noteq> None"
    and s: "w_nurs w h = Some s" and run: "fx_async_nursery_spawn_add p created h q v w = Some (rc, w')"
  shows "b_inv h (if rc = FX_NURSERY_OK then (w', ts @ [(p, q, v)], fs - {q}) else (w', ts, fs))"
proof -
  from assms(1) s have inv: "n_inv s" "ns_done s \<subseteq> {..<nu_n (ns_nur s)}" "length ts = nu_n (ns_nur s)"
    "\<And>i. i < length ts \<Longrightarrow> task_ok w s ts fs i" "h \<noteq> 0" "w_slots w 0 = None" by (auto elim!: b_invE)
  have q0: "q \<noteq> 0" using q inv(6) by auto
  from spawn_add_result [OF inv(1) s inv(5) p(1) q0 run] obtain n' where
    w': "w' = w\<lparr>w_args := (w_args w)(p \<mapsto> StoreArg q v), w_nurs := (w_nurs w)(h \<mapsto> s\<lparr>ns_nur := n'\<rparr>)\<rparr>" and
    n': "n_ok n' (ns_done s)" "owner_ok (ns_owner s) n'"
    "\<And>i. i < nu_n (ns_nur s) \<Longrightarrow> sl_fn (nu_slots n' ! i) = sl_fn (nu_slots (ns_nur s) ! i) \<and>
       sl_arg (nu_slots n' ! i) = sl_arg (nu_slots (ns_nur s) ! i)" and
    rc: "if rc = FX_NURSERY_OK
     then nu_n n' = nu_n (ns_nur s) + 1 \<and> sl_fn (nu_slots n' ! nu_n (ns_nur s)) = STORE_TASK \<and>
       sl_arg (nu_slots n' ! nu_n (ns_nur s)) = p
     else nu_n n' = nu_n (ns_nur s)" by blast
  let ?s = "s\<lparr>ns_nur := n'\<rparr>"
  have block: "fst (ts ! i) \<noteq> p" if "i < length ts" "i \<notin> ns_done s" for i
    using inv(4) [OF that(1)] that p(2) by (auto simp: task_ok_def split: prod.splits)
  have old: "task_ok w' ?s (ts @ xs) gs i"
    if "i < length ts" "xs = [] \<and> gs = fs \<or> xs = [(p, q, v)] \<and> gs = fs - {q}" for i xs gs
  proof -
    obtain pi qi vi where ti: "ts ! i = (pi, qi, vi)" by (cases "ts ! i") auto
    have e: "sl_fn (nu_slots n' ! i) = STORE_TASK" "sl_arg (nu_slots n' ! i) = pi"
      using inv(4) [OF that(1)] n'(3) [of i] that(1) inv(3) ti by (auto simp: task_ok_def)
    have o: "own_slot (ts @ xs) i \<and> qi \<notin> gs \<Longrightarrow> own_slot ts i \<and> qi \<notin> fs"
      using that own_slot_append [of ts "(p, q, v)" i] own_slot_last [of ts p q v i] ti by auto
    have d: "j < length (ts @ xs) \<Longrightarrow> j \<notin> ns_done s \<Longrightarrow> i \<notin> ns_done s \<Longrightarrow> j \<noteq> i \<Longrightarrow> fst ((ts @ xs) ! j) \<noteq> pi" for j
      using inv(4) [OF that(1)] block [OF that(1)] that ti
      by (cases "j < length ts") (auto simp: task_ok_def nth_append)
    show ?thesis
      using inv(4) [OF that(1)] block [OF that(1)] that(1) ti e o d
      by (simp add: task_ok_def nth_append w' split: if_splits)
  qed
  have nin: "n_inv ?s" using n' by (simp add: n_inv_def)
  show ?thesis
  proof (cases "rc = FX_NURSERY_OK")
    case True
    have "nu_n (ns_nur s) \<notin> ns_done s" using inv(2) by auto
    then have "task_ok w' ?s (ts @ [(p, q, v)]) (fs - {q}) (length ts)"
      using True rc inv(3) p q q0 block by (auto simp: task_ok_def nth_append w')
    then have "task_ok w' ?s (ts @ [(p, q, v)]) (fs - {q}) i" if "i < Suc (length ts)" for i
      using old [of i "[(p, q, v)]" "fs - {q}"] that by (cases "i = length ts") auto
    then show ?thesis using True rc inv nin w' by (auto simp: b_inv_def)
  next
    case False
    then show ?thesis using old [of _ "[]" fs] rc inv nin w' by (auto simp: b_inv_def)
  qed
qed

lemma b_inv_step: "b_step late h x y \<Longrightarrow> b_inv h x \<Longrightarrow> b_inv h y"
proof (induction rule: b_step.induct)
  case (b_spawn p w q s created v rc w' ts fs)
  then show ?case by (intro b_spawn_inv)
qed (blast intro: b_new_inv b_write_inv b_task_inv b_other_inv)+

lemma b_inv_start:
  assumes "fx_nursery_create_sized a b m k = Some n" and "h \<noteq> 0"
  shows "b_inv h (b_start h n, [], {})"
proof -
  have "nu_n n = 0" using assms(1) by (auto simp: fx_nursery_create_sized_def split: if_splits)
  then show ?thesis using assms(2) n_inv_init [OF assms(1)] by (simp add: b_inv_def b_start_def n_init_def)
qed

lemma b_inv_reach:
  assumes "b_reach late h n x" and "fx_nursery_create_sized a b m k = Some n" and "h \<noteq> 0"
  shows "b_inv h x"
  using assms(1) by induction (auto intro: b_inv_step b_inv_start [OF assms(2,3)])

text \<open>
  The nursery inside a run is a run of the nursery's own system, a disciplined one when no
  thread spawns late; a freed nursery of such a run has no task left.
\<close>

lemma b_step_n:
  assumes "b_step late h x y" and "b_inv h x" and "w_nurs (fst x) h = Some s" and "w_nurs (fst y) h = Some s'"
  shows "s' = s \<or> (\<exists>l. n_step l s s' \<and> (late \<or> quiet s l))"
  using assms
proof (induction rule: b_step.induct)
  case (b_new p w w' ts fs)
  then show ?case by (auto simp: fx_async_slot_new_def split: if_splits)
next
  case (b_write q x w w' ts fs)
  then show ?case by (auto simp: store_slot_def split: if_splits)
next
  case (b_spawn p w q t created v rc w' ts fs)
  from b_spawn.prems(1) have inv: "h \<noteq> 0" "w_slots w 0 = None" and t: "n_inv t"
    using b_spawn(4) by (auto elim!: b_invE)
  have q: "q \<noteq> 0" using b_spawn(3) inv(2) by auto
  from spawn_add_result [OF t b_spawn(4) inv(1) b_spawn(1) q b_spawn(6)] b_spawn.prems(2,3) b_spawn(4,5)
  show ?case by (auto simp: quiet_def split: if_splits)
next
  case (b_task w t i sl w' ts fs)
  have "n_step (LFinish i) t (t\<lparr>ns_done := insert i (ns_done t)\<rparr>)" by (rule st_finish [OF b_task(2)])
  with b_task show ?case by (auto simp: quiet_def)
next
  case (b_other w t l t' ts fs)
  then show ?case by (auto simp: quiet_def)
qed

lemma b_reach_n:
  assumes "b_reach late h n x" and "fx_nursery_create_sized a b m k = Some n" and "h \<noteq> 0"
  shows "\<exists>s. w_nurs (fst x) h = Some s \<and> n_reach (if late then anyone else quiet) n s"
  using assms(1)
proof induction
  case br_start
  then show ?case by (simp add: b_start_def nr_init)
next
  case (br_step x y)
  then obtain s where s: "w_nurs (fst x) h = Some s" "n_reach (if late then anyone else quiet) n s" by blast
  have inv: "b_inv h x" "b_inv h y"
    using b_inv_reach [OF br_step(1) assms(2,3)] b_inv_step [OF br_step(2)] by blast+
  then obtain s' where s': "w_nurs (fst y) h = Some s'" by (auto simp: b_inv_def split: prod.splits)
  from b_step_n [OF br_step(2) inv(1) s(1) s'] s(2) have "n_reach (if late then anyone else quiet) n s'"
    by (auto intro: nr_step simp: anyone_def split: if_splits)
  with s' show ?case by blast
qed

lemma b_slot_ref:
  assumes "b_reach late h n (w, ts, fs)" and "fx_nursery_create_sized a b m k = Some n" and "h \<noteq> 0"
    and "w_nurs w h = Some s" and "i < nu_n (ns_nur s)" and "i \<notin> ns_done s"
    and "\<not> late \<or> ns_owner s \<noteq> ODestroyed"
  shows "slot_ref s i = Some (nu_slots (ns_nur s) ! i)"
proof -
  from b_reach_n [OF assms(1-3)] assms(4) have r: "n_reach (if late then anyone else quiet) n s" by auto
  note inv = n_inv_reach [OF r n_inv_init [OF assms(2)]]
  have "ns_owner s \<noteq> ODestroyed"
  proof
    assume d: "ns_owner s = ODestroyed"
    with r assms(7) have "n_reach quiet n s" by simp
    from closed_ok_reach [OF this n_inv_init [OF assms(2)] created_live [OF assms(2)]] d inv
    have "all_joined (ns_nur s)" by (auto simp: closed_ok_def n_inv_def owner_ok_def)
    from joined_done [OF inv this assms(5)] assms(6) show False by simp
  qed
  then show ?thesis by (simp add: slot_ref_inv [OF inv assms(5)])
qed

lemma store_task_runs:
  assumes "task_ok w s ts fs i" and "i \<notin> ns_done s"
  shows "\<exists>w'. fx_nursery_tramp call_bridge_task (nu_slots (ns_nur s) ! i) w = Some (Returns () w') \<and>
    fx_async_slot_get (fst (snd (ts ! i))) w' = Some (snd (snd (ts ! i))) \<and>
    w_args w' = (w_args w)(fst (ts ! i) := None) \<and> w_nurs w' = w_nurs w"
  using assms
  by (cases "ts ! i")
    (auto simp: task_ok_def fx_nursery_tramp_def call_bridge_task_def fx_async_store_task_def store_slot_def free_arg_def fx_async_slot_get_def deref_def
      narrow_widen)

lemma joined_world:
  assumes "b_inv h (w, ts, fs)" and "w_nurs w h = Some s" and "join_returns s s'" and "ns_last s' = FX_NURSERY_OK"
    and "t < length ts"
  shows "t \<in> ns_done s"
proof -
  from assms(1,2) have inv: "n_inv s" "length ts = nu_n (ns_nur s)" by (auto elim!: b_invE)
  note st = join_returns_step [OF assms(3)] and e = other_step_entries [OF join_returns_step [OF assms(3)], of t]
  from joined_done [OF n_inv_step [OF st inv(1)] join_returns_ok [OF assms(3) inv(1) assms(4)]]
  show ?thesis using assms(5) inv(2) e by auto
qed

section \<open>A run\<close>

definition bridge_demo :: "addr \<Rightarrow> FxNurserySlot list \<Rightarrow> nat set \<Rightarrow> owner \<Rightarrow> (addr \<rightharpoonup> i64) \<Rightarrow> (addr \<rightharpoonup> task_arg) \<Rightarrow> bworld" where
  "bridge_demo h u dn ow slots args = \<lparr>w_nurs = [h \<mapsto> nur_demo True False u dn ow 0], w_slots = slots,
     w_chans = Map.empty, w_mbs = Map.empty, w_args = args\<rparr>"

definition bridge_slot :: "bool \<Rightarrow> FxNurserySlot" where
  "bridge_slot j = \<lparr>sl_fn = STORE_TASK, sl_arg = 32, sl_used = True, sl_joined = j\<rparr>"

lemmas bridge_demo_defs = bridge_demo_def bridge_slot_def demo_nur_defs nur_demo_def STORE_TASK_def

lemma bridge_waiting: "b_reach late 16 (demo_nursery True False [])
  (bridge_demo 16 [bridge_slot False] {} OIdle [24 \<mapsto> 0] [32 \<mapsto> StoreArg 24 (- 5)], [(32, 24, - 5)], {})"
proof -
  have a: "b_reach late 16 (demo_nursery True False []) (bridge_demo 16 [] {} OIdle Map.empty Map.empty, [], {})"
    using br_start [of late 16 "demo_nursery True False []"]
    by (simp add: b_start_def bridge_demo_def nur_demo_start)
  have "b_step late 16 (bridge_demo 16 [] {} OIdle Map.empty Map.empty, [], {})
      (bridge_demo 16 [] {} OIdle [24 \<mapsto> 0] Map.empty, [], {})"
    by (rule b_new [of 24]) (simp_all add: bridge_demo_def fx_async_slot_new_def)
  from br_step [OF a this]
  have b: "b_reach late 16 (demo_nursery True False []) (bridge_demo 16 [] {} OIdle [24 \<mapsto> 0] Map.empty, [], {})" .
  have "fx_async_nursery_spawn_add 32 True 16 24 (- 5) (bridge_demo 16 [] {} OIdle [24 \<mapsto> 0] Map.empty) =
      Some (FX_NURSERY_OK, bridge_demo 16 [bridge_slot False] {} OIdle [24 \<mapsto> 0] [32 \<mapsto> StoreArg 24 (- 5)])"
    by (simp add: fx_async_nursery_spawn_add_def spawn_with_arg_def nur_spawn_def bridge_demo_defs)
  from b_spawn [OF _ _ _ _ _ this, of "nur_demo True False [] {} OIdle 0" late "[]" "{}"]
  have "b_step late 16 (bridge_demo 16 [] {} OIdle [24 \<mapsto> 0] Map.empty, [], {})
      (bridge_demo 16 [bridge_slot False] {} OIdle [24 \<mapsto> 0] [32 \<mapsto> StoreArg 24 (- 5)], [(32, 24, - 5)], {})"
    by (simp add: bridge_demo_def nur_demo_def)
  from br_step [OF b this] show ?thesis .
qed

lemma bridge_ran: "b_reach late 16 (demo_nursery True False [])
  (bridge_demo 16 [bridge_slot False] {0} (InJoin JoinAll 0) [24 \<mapsto> - 5] Map.empty, [(32, 24, - 5)], {})"
proof -
  let ?w = "bridge_demo 16 [bridge_slot False] {} OIdle [24 \<mapsto> 0] [32 \<mapsto> StoreArg 24 (- 5)]"
  have r: "fx_async_store_task 32 ?w = Some (bridge_demo 16 [bridge_slot False] {} OIdle [24 \<mapsto> - 5] Map.empty)"
    by (simp add: fx_async_store_task_def store_slot_def free_arg_def bridge_demo_def widen_i32_def fun_eq_iff)
  have "b_step late 16 (?w, [(32, 24, - 5)], {})
      (bridge_demo 16 [bridge_slot False] {0} OIdle [24 \<mapsto> - 5] Map.empty, [(32, 24, - 5)], {})"
    using b_task [of ?w 16 "nur_demo True False [bridge_slot False] {} OIdle 0" 0 "bridge_slot False"
        "bridge_demo 16 [bridge_slot False] {} OIdle [24 \<mapsto> - 5] Map.empty" late "[(32, 24, - 5)]" "{}"] r
    by (simp add: bridge_demo_def nur_demo_def demo_nursery_def bridge_slot_def fx_nursery_tramp_def
        call_bridge_task_def slot_ref_def array_simps)
  from br_step [OF bridge_waiting this]
  have a: "b_reach late 16 (demo_nursery True False [])
    (bridge_demo 16 [bridge_slot False] {0} OIdle [24 \<mapsto> - 5] Map.empty, [(32, 24, - 5)], {})" .
  have "n_step LOwner (nur_demo True False [bridge_slot False] {0} OIdle 0)
      (nur_demo True False [bridge_slot False] {0} (InJoin JoinAll 0) 0)"
    using st_join [of "nur_demo True False [bridge_slot False] {0} OIdle 0" JoinAll
      "nur_demo True False [bridge_slot False] {0} (InJoin JoinAll 0) 0"] by (simp add: bridge_demo_defs)
  from b_other [OF _ _ this, of "bridge_demo 16 [bridge_slot False] {0} OIdle [24 \<mapsto> - 5] Map.empty" 16 late]
  have "b_step late 16 (bridge_demo 16 [bridge_slot False] {0} OIdle [24 \<mapsto> - 5] Map.empty, [(32, 24, - 5)], {})
      (bridge_demo 16 [bridge_slot False] {0} (InJoin JoinAll 0) [24 \<mapsto> - 5] Map.empty, [(32, 24, - 5)], {})"
    by (simp add: bridge_demo_def)
  from br_step [OF a this] show ?thesis .
qed

section \<open>The properties\<close>

text \<open>
  C13: results arrive. Whatever the other threads do, late spawns and direct writes to slots
  included, when a join returns OK, at once or after waiting, then for every task spawned so far through
  \<open>fx_async_nursery_spawn_add\<close> whose result slot no other task uses and nobody has written
  directly since the spawn (by \<open>fx_async_slot_set\<close>, a receive or a select), reading that slot gives
  exactly the 32-bit value the task was spawned with, through the widening to 64 bits and back.
\<close>

theorem join_delivers_results:
  assumes "fx_nursery_create_sized a b m k = Some n" and "h \<noteq> 0" and "b_reach True h n (w, ts, fs)"
    and "w_nurs w h = Some s" and "join_returns s s'" and "ns_last s' = FX_NURSERY_OK"
    and "t < length ts" and "own_slot ts t" and "fst (snd (ts ! t)) \<notin> fs"
  shows "fx_async_slot_get (fst (snd (ts ! t))) (w\<lparr>w_nurs := (w_nurs w)(h \<mapsto> s')\<rparr>) = Some (snd (snd (ts ! t)))"
proof -
  have inv: "b_inv h (w, ts, fs)" by (rule b_inv_reach [OF assms(3,1,2)])
  have d: "t \<in> ns_done s" by (rule joined_world [OF inv assms(4-7)])
  have "task_ok w s ts fs t" using inv assms(4,7) by (auto elim!: b_invE)
  then show ?thesis using d assms(8,9)
    by (cases "ts ! t") (simp add: task_ok_def fx_async_slot_get_def deref_def narrow_widen)
qed

theorem join_delivers_results_witness:
  "b_reach True 16 (demo_nursery True False [])
     (bridge_demo 16 [bridge_slot False] {0} (InJoin JoinAll 0) [24 \<mapsto> - 5] Map.empty, [(32, 24, - 5)], {}) \<and>
   fx_async_slot_get 24 (bridge_demo 16 [bridge_slot True] {0} OIdle [24 \<mapsto> - 5] Map.empty) = Some (- 5)"
proof
  have st: "join_returns (nur_demo True False [bridge_slot False] {0} (InJoin JoinAll 0) 0)
      (nur_demo True False [bridge_slot True] {0} OIdle 0)"
    by (rule jr_after_wait [where k = JoinAll and i = 0 and w = Joined]) (simp_all add: bridge_demo_defs)
  have s: "w_nurs (bridge_demo 16 [bridge_slot False] {0} (InJoin JoinAll 0) [24 \<mapsto> - 5] Map.empty) 16 =
      Some (nur_demo True False [bridge_slot False] {0} (InJoin JoinAll 0) 0)" by (simp add: bridge_demo_def)
  from join_delivers_results [OF demo_created _ bridge_ran s st, of 0]
  show "fx_async_slot_get 24 (bridge_demo 16 [bridge_slot True] {0} OIdle [24 \<mapsto> - 5] Map.empty) = Some (- 5)"
    by (simp add: nur_demo_def nursery_codes own_slot_def bridge_demo_def)
qed (rule bridge_ran)

text \<open>
  C20: tasks are safe. Take a reachable state in which the nursery has not been freed, or any
  reachable state of a run in which no thread spawns in the window between the join inside a
  shutdown and its end. Then a task that has not run yet can run: its slot can be read; its argument
  block is still there and belongs to no other waiting task, its result slot exists; running it
  stores its value, frees that one block, and no other. So nothing is used after it is freed and no block
  is freed twice. After a late spawn and a destroy this fails: the slot is gone, as
  \<open>late_spawn_is_orphaned\<close> shows.
\<close>

theorem bridge_tasks_safe:
  assumes "fx_nursery_create_sized a b m k = Some n" and "h \<noteq> 0" and "b_reach late h n (w, ts, fs)"
    and "w_nurs w h = Some s" and "i < nu_n (ns_nur s)" and "i \<notin> ns_done s"
    and "\<not> late \<or> ns_owner s \<noteq> ODestroyed"
  shows "\<exists>sl w'. slot_ref s i = Some sl \<and> fx_nursery_tramp call_bridge_task sl w = Some (Returns () w') \<and>
    fx_async_slot_get (fst (snd (ts ! i))) w' = Some (snd (snd (ts ! i))) \<and>
    w_args w' = (w_args w)(fst (ts ! i) := None) \<and>
    (\<forall>j < length ts. j \<notin> ns_done s \<and> j \<noteq> i \<longrightarrow> w_args w' (fst (ts ! j)) \<noteq> None)"
proof -
  have "b_inv h (w, ts, fs)" by (rule b_inv_reach [OF assms(3,1,2)])
  then have ok: "\<And>j. j < length ts \<Longrightarrow> task_ok w s ts fs j" and i: "i < length ts"
    using assms(4,5) by (auto elim!: b_invE)
  from store_task_runs [OF ok [OF i] assms(6)] obtain w' where w':
    "fx_nursery_tramp call_bridge_task (nu_slots (ns_nur s) ! i) w = Some (Returns () w')"
    "fx_async_slot_get (fst (snd (ts ! i))) w' = Some (snd (snd (ts ! i)))"
    "w_args w' = (w_args w)(fst (ts ! i) := None)" by blast
  have "w_args w' (fst (ts ! j)) \<noteq> None" if "j < length ts" "j \<notin> ns_done s" "j \<noteq> i" for j
    using ok [OF that(1)] ok [OF i] that i assms(6) w'(3) by (auto simp: task_ok_def split: prod.splits)
  then show ?thesis using w' b_slot_ref [OF assms(3,1,2,4-7)] by blast
qed

theorem bridge_tasks_safe_witness:
  "\<exists>w'. fx_nursery_tramp call_bridge_task (bridge_slot False)
      (bridge_demo 16 [bridge_slot False] {} OIdle [24 \<mapsto> 0] [32 \<mapsto> StoreArg 24 (- 5)]) = Some (Returns () w') \<and>
    fx_async_slot_get 24 w' = Some (- 5) \<and> w_args w' = Map.empty"
proof -
  have s: "w_nurs (bridge_demo 16 [bridge_slot False] {} OIdle [24 \<mapsto> 0] [32 \<mapsto> StoreArg 24 (- 5)]) 16 =
      Some (nur_demo True False [bridge_slot False] {} OIdle 0)" by (simp add: bridge_demo_def)
  from bridge_tasks_safe [OF demo_created _ bridge_waiting [of False] s, of 0] show ?thesis
    by (auto simp: nur_demo_def demo_nursery_def bridge_slot_def bridge_demo_def slot_ref_def array_simps)
qed

section \<open>A block that is lost\<close>

text \<open>When the spawn itself fails, nothing frees the block that was allocated for the task.\<close>

lemma failed_spawn_leaks:
  assumes "fx_async_nursery_spawn_add p created h q v w = Some (rc, w')" and "rc \<noteq> FX_NURSERY_OK"
    and "h \<noteq> 0" and "q \<noteq> 0" and "p \<noteq> 0"
  shows "w_args w' p = Some (StoreArg q v)"
  using assms by (auto simp: fx_async_nursery_spawn_add_def spawn_with_arg_def nur_spawn_def bind_iff)

end
