(* ===== verification/AsyncSend.thy ===== *)
theory AsyncSend
  imports AsyncTheorems ChanTheorems
begin

text \<open>
  A nursery of sending tasks on one channel, from the bridge's calls down to the ring buffer:
  any thread spawns with \<open>fx_async_nursery_spawn_send\<close>, receives into slots and closes, the owner
  joins and shuts down, and each task runs its body once, when the channel lets it. What arrives
  is what was spawned, in the order in which the tasks ended.
\<close>

section \<open>The system\<close>

text \<open>
  The store; the tasks spawned so far, as block and value; the tasks whose send was accepted, in
  the order in which they ended; what was received.
\<close>

record send_sys =
  ss_w :: bworld
  ss_log :: "(addr \<times> i32) list"
  ss_ends :: "nat list"
  ss_got :: "i64 list"

definition chan_open :: "i64 \<Rightarrow> bworld \<Rightarrow> bool" where
  "chan_open ch w = (case w_chans w ch of None \<Rightarrow> False | Some c \<Rightarrow> \<not> ch_closed c)"

inductive c_step :: "i64 \<Rightarrow> i64 \<Rightarrow> send_sys \<Rightarrow> send_sys \<Rightarrow> bool" for h ch where
  c_new: "p \<noteq> 0 \<Longrightarrow> w_slots (ss_w x) p = None \<Longrightarrow> fx_async_slot_new p (ss_w x) = (p, w') \<Longrightarrow>
    c_step h ch x (x\<lparr>ss_w := w'\<rparr>)"
| c_spawn: "p \<noteq> 0 \<Longrightarrow> w_args (ss_w x) p = None \<Longrightarrow> w_nurs (ss_w x) h = Some s \<Longrightarrow>
    fx_async_nursery_spawn_send p created h ch v (ss_w x) = Some (rc, w') \<Longrightarrow>
    c_step h ch x (x\<lparr>ss_w := w', ss_log := (if rc = FX_NURSERY_OK then ss_log x @ [(p, v)] else ss_log x)\<rparr>)"
| c_task: "w_nurs (ss_w x) h = Some s \<Longrightarrow> i < nu_n (ns_nur s) \<Longrightarrow> i \<notin> ns_done s \<Longrightarrow>
    slot_ref s i = Some sl \<Longrightarrow> fx_nursery_tramp call_bridge_task sl (ss_w x) = Some (Returns () w') \<Longrightarrow>
    c_step h ch x (x\<lparr>ss_w := w'\<lparr>w_nurs := (w_nurs w')(h \<mapsto> s\<lparr>ns_done := insert i (ns_done s)\<rparr>)\<rparr>,
      ss_ends := (if chan_open ch (ss_w x) then ss_ends x @ [i] else ss_ends x)\<rparr>)"
| c_recv: "fx_async_chan_recv_i64_slot ch q (ss_w x) = Some (Returns st w') \<Longrightarrow>
    fx_async_slot_get_i64 q w' = Some v \<Longrightarrow>
    c_step h ch x (x\<lparr>ss_w := w', ss_got := ss_got x @ (if st = FX_CHAN_OK then [v] else [])\<rparr>)"
| c_close: "fx_async_chan_close ch (ss_w x) = Some (Returns st w') \<Longrightarrow> c_step h ch x (x\<lparr>ss_w := w'\<rparr>)"
| c_other: "w_nurs (ss_w x) h = Some s \<Longrightarrow> l = LOwner \<or> l = LCancel \<Longrightarrow> n_step l s s' \<Longrightarrow>
    c_step h ch x (x\<lparr>ss_w := (ss_w x)\<lparr>w_nurs := (w_nurs (ss_w x))(h \<mapsto> s')\<rparr>\<rparr>)"

definition c_start :: "i64 \<Rightarrow> i64 \<Rightarrow> FxNursery \<Rightarrow> FxChan \<Rightarrow> send_sys" where
  "c_start h ch n c = \<lparr>ss_w = \<lparr>w_nurs = [h \<mapsto> n_init n], w_slots = Map.empty, w_chans = [ch \<mapsto> c],
     w_mbs = Map.empty, w_args = Map.empty\<rparr>, ss_log = [], ss_ends = [], ss_got = []\<rparr>"

inductive c_reach :: "i64 \<Rightarrow> i64 \<Rightarrow> FxNursery \<Rightarrow> FxChan \<Rightarrow> send_sys \<Rightarrow> bool" for h ch n c where
  cr_start: "c_reach h ch n c (c_start h ch n c)"
| cr_step: "c_reach h ch n c x \<Longrightarrow> c_step h ch x y \<Longrightarrow> c_reach h ch n c y"

section \<open>The invariant\<close>

text \<open>The values the tasks \<open>is\<close> were spawned with, as they travel.\<close>

definition spawned_values :: "(addr \<times> i32) list \<Rightarrow> nat list \<Rightarrow> i64 list" where
  "spawned_values ts is = map (\<lambda>i. widen_i32 (snd (ts ! i))) is"

definition sender_ok :: "i64 \<Rightarrow> bworld \<Rightarrow> nsys \<Rightarrow> (addr \<times> i32) list \<Rightarrow> nat \<Rightarrow> bool" where
  "sender_ok ch w s ts i \<longleftrightarrow> (case ts ! i of (p, v) \<Rightarrow>
     sl_fn (nu_slots (ns_nur s) ! i) = SEND_TASK \<and> sl_arg (nu_slots (ns_nur s) ! i) = p \<and> p \<noteq> 0 \<and>
     (i \<notin> ns_done s \<longrightarrow> w_args w p = Some (SendArg ch v) \<and>
        (\<forall>j < length ts. j \<notin> ns_done s \<and> j \<noteq> i \<longrightarrow> fst (ts ! j) \<noteq> p)))"

definition c_inv_at :: "i64 \<Rightarrow> i64 \<Rightarrow> send_sys \<Rightarrow> nsys \<Rightarrow> FxChan \<Rightarrow> bool" where
  "c_inv_at h ch x s c \<longleftrightarrow>
     w_nurs (ss_w x) h = Some s \<and> n_inv s \<and> ns_done s \<subseteq> {..<nu_n (ns_nur s)} \<and>
     length (ss_log x) = nu_n (ns_nur s) \<and> (\<forall>i < length (ss_log x). sender_ok ch (ss_w x) s (ss_log x) i) \<and>
     w_chans (ss_w x) ch = Some c \<and> chan_ok c \<and> distinct (ss_ends x) \<and> set (ss_ends x) \<subseteq> ns_done s \<and>
     (\<not> ch_closed c \<longrightarrow> set (ss_ends x) = ns_done s) \<and>
     ss_got x @ chan_queue c = spawned_values (ss_log x) (ss_ends x)"

definition c_inv :: "i64 \<Rightarrow> i64 \<Rightarrow> send_sys \<Rightarrow> bool" where
  "c_inv h ch x \<longleftrightarrow> h \<noteq> 0 \<and> ch \<noteq> 0 \<and> (\<exists>s c. c_inv_at h ch x s c)"

lemma c_invE:
  assumes "c_inv h ch x"
  obtains s c where "c_inv_at h ch x s c" "h \<noteq> 0" "ch \<noteq> 0"
  using assms by (auto simp: c_inv_def)

lemma c_inv_atD:
  assumes "c_inv_at h ch x s c"
  shows "w_nurs (ss_w x) h = Some s" "n_inv s" "ns_done s \<subseteq> {..<nu_n (ns_nur s)}"
    "length (ss_log x) = nu_n (ns_nur s)" "\<And>i. i < length (ss_log x) \<Longrightarrow> sender_ok ch (ss_w x) s (ss_log x) i"
    "w_chans (ss_w x) ch = Some c" "chan_ok c" "distinct (ss_ends x)" "set (ss_ends x) \<subseteq> ns_done s"
    "\<not> ch_closed c \<longrightarrow> set (ss_ends x) = ns_done s"
    "ss_got x @ chan_queue c = spawned_values (ss_log x) (ss_ends x)"
  using assms by (simp_all add: c_inv_at_def)

text \<open>What a task's body, a receive and a close do to the channel.\<close>

lemma send_task_runs:
  assumes "p \<noteq> 0" and "w_args w p = Some (SendArg ch v)" and "ch \<noteq> 0" and "w_chans w ch = Some c" and "chan_ok c"
  obtains (waits) "\<not> ch_closed c" "ch_len c = ch_cap c" "fx_async_send_task p w = Some Waits"
  | (closed) "ch_closed c" "fx_async_send_task p w = Some (Returns () (free_arg p (put_chan ch (Some c) w)))"
  | (sent) c' where "\<not> ch_closed c" "fx_async_send_task p w = Some (Returns () (free_arg p (put_chan ch (Some c') w)))"
      "chan_ok c'" "\<not> ch_closed c'" "chan_queue c' = chan_queue c @ [widen_i32 v]"
  using assms(5)
proof (cases rule: send_cs_cases [where v = "widen_i32 v"])
  case a: closed
  then show ?thesis using closed assms
    by (simp add: fx_async_send_task_def deref_def fx_chan_send_def fx_chan_send_i64_def on_chan_def chan_try_def)
next
  case full
  then show ?thesis using waits assms
    by (simp add: fx_async_send_task_def deref_def fx_chan_send_def fx_chan_send_i64_def on_chan_def chan_try_def)
next
  case (put c')
  with put_tail_ok [OF assms(5) put(2), of "widen_i32 v"] show ?thesis using sent [of c'] assms
    by (simp add: fx_async_send_task_def deref_def fx_chan_send_def fx_chan_send_i64_def on_chan_def chan_try_def)
qed

lemma recv_slot_result:
  assumes "fx_async_chan_recv_i64_slot ch q w = Some (Returns st w')" and "ch \<noteq> 0" and "w_chans w ch = Some c"
    and "chan_ok c"
  obtains (nothing) "st \<noteq> FX_CHAN_OK" "w' = w"
  | (got) v c' where "st = FX_CHAN_OK" "chan_ok c'" "ch_closed c' = ch_closed c" "chan_queue c = v # chan_queue c'"
      "q \<noteq> 0" "w' = w\<lparr>w_chans := (w_chans w)(ch \<mapsto> c'), w_slots := (w_slots w)(q \<mapsto> v)\<rparr>"
proof (cases "q = 0")
  case True
  show ?thesis by (rule nothing) (use assms(1) True in \<open>auto simp: fx_async_chan_recv_i64_slot_def chan_codes\<close>)
next
  case False
  note defs = fx_async_chan_recv_i64_slot_def deref_def fx_chan_recv_i64_def on_chan_def chan_try_def deliver_def
    out_i64_def put_chan_def store_slot_def
  from assms(4) show ?thesis
  proof (cases rule: recv_cs_cases)
    case closed
    show ?thesis by (rule nothing) (use closed assms(1-3) False in \<open>auto simp: defs fun_upd_idem\<close>)
  next
    case empty
    then show ?thesis using assms False by (simp add: defs)
  next
    case a: (got v c')
    from take_head_ok [OF assms(4) a(1)] a(2) have t: "chan_ok c'" "chan_queue c = v # chan_queue c'" by auto
    have "st = FX_CHAN_OK" "w' = w\<lparr>w_chans := (w_chans w)(ch \<mapsto> c'), w_slots := (w_slots w)(q \<mapsto> v)\<rparr>"
      using a(3) assms(1-3) False by (auto simp: defs Let_def bind_iff split: if_splits)
    then show ?thesis using got t a(5) False by blast
  qed
qed

section \<open>Every step keeps it\<close>

text \<open>
  The frame: a step that keeps the blocks, the tasks and the channel of the system, up to what
  the nursery's owner does and to other slots.
\<close>

lemma sender_ok_frame:
  assumes "sender_ok ch w s ts i" and "w_args w' = w_args w" and "ns_done s' = ns_done s"
    and "sl_fn (nu_slots (ns_nur s') ! i) = sl_fn (nu_slots (ns_nur s) ! i)"
    and "sl_arg (nu_slots (ns_nur s') ! i) = sl_arg (nu_slots (ns_nur s) ! i)"
  shows "sender_ok ch w' s' ts i"
  using assms(1) unfolding sender_ok_def assms(2-5) .

lemma c_other_inv:
  assumes "c_inv_at h ch x s c" and "l = LOwner \<or> l = LCancel" and "n_step l s s'"
  shows "c_inv_at h ch (x\<lparr>ss_w := (ss_w x)\<lparr>w_nurs := (w_nurs (ss_w x))(h \<mapsto> s')\<rparr>\<rparr>) s' c"
proof -
  note inv = c_inv_atD [OF assms(1)] and e = other_step_entries [OF assms(3,2)]
  have "sender_ok ch ((ss_w x)\<lparr>w_nurs := nu\<rparr>) s' (ss_log x) i" if "i < length (ss_log x)" for i nu
    by (rule sender_ok_frame [OF inv(5) [OF that]]) (use e [of i] in simp_all)
  then show ?thesis using inv e n_inv_step [OF assms(3) inv(2)] by (simp add: c_inv_at_def)
qed

lemma c_new_inv:
  assumes "c_inv_at h ch x s c" and "p \<noteq> 0" and "fx_async_slot_new p (ss_w x) = (p, w')"
  shows "c_inv_at h ch (x\<lparr>ss_w := w'\<rparr>) s c"
proof -
  note inv = c_inv_atD [OF assms(1)]
  have w': "w' = (ss_w x)\<lparr>w_slots := (w_slots (ss_w x))(p \<mapsto> 0)\<rparr>"
    using assms(2,3) by (simp add: fx_async_slot_new_def)
  have "sender_ok ch w' s (ss_log x) i" if "i < length (ss_log x)" for i
    by (rule sender_ok_frame [OF inv(5) [OF that]]) (simp_all add: w')
  then show ?thesis using inv by (simp add: c_inv_at_def w')
qed

lemma c_close_inv:
  assumes "c_inv_at h ch x s c" and "ch \<noteq> 0" and "fx_async_chan_close ch (ss_w x) = Some (Returns st w')"
  shows "\<exists>c'. c_inv_at h ch (x\<lparr>ss_w := w'\<rparr>) s c'"
proof -
  note inv = c_inv_atD [OF assms(1)]
  let ?c = "c\<lparr>ch_closed := True\<rparr>"
  have w': "w' = (ss_w x)\<lparr>w_chans := (w_chans (ss_w x))(ch \<mapsto> ?c)\<rparr>"
    using assms(2,3) inv(6) by (simp add: fx_async_chan_close_def deref_def fx_chan_close_def on_chan_def
        close_cs_def chan_try_def finish_def put_chan_def)
  have "chan_ok ?c" "chan_queue ?c = chan_queue c"
    using inv(7) by (simp_all add: chan_ok_def chan_queue_def slot_def)
  then have "c_inv_at h ch (x\<lparr>ss_w := w'\<rparr>) s ?c"
    using inv by (simp add: c_inv_at_def w' sender_ok_def)
  then show ?thesis by blast
qed

lemma c_recv_inv:
  assumes "c_inv_at h ch x s c" and "ch \<noteq> 0"
    and run: "fx_async_chan_recv_i64_slot ch q (ss_w x) = Some (Returns st w')"
    and v: "fx_async_slot_get_i64 q w' = Some v"
  shows "\<exists>c'. c_inv_at h ch (x\<lparr>ss_w := w', ss_got := ss_got x @ (if st = FX_CHAN_OK then [v] else [])\<rparr>) s c'"
proof -
  note inv = c_inv_atD [OF assms(1)]
  from run assms(2) inv(6,7) show ?thesis
  proof (cases rule: recv_slot_result)
    case nothing
    then show ?thesis using assms(1) by (auto simp: c_inv_at_def)
  next
    case (got u c')
    then have "u = v" using v by (simp add: fx_async_slot_get_i64_def deref_def)
    then have "c_inv_at h ch (x\<lparr>ss_w := w', ss_got := ss_got x @ (if st = FX_CHAN_OK then [v] else [])\<rparr>) s c'"
      using inv got by (simp add: c_inv_at_def sender_ok_def)
    then show ?thesis by blast
  qed
qed

lemma c_task_inv:
  assumes "c_inv_at h ch x s c" and "ch \<noteq> 0" and i: "i < nu_n (ns_nur s)" "i \<notin> ns_done s"
    and sl: "slot_ref s i = Some sl" and run: "fx_nursery_tramp call_bridge_task sl (ss_w x) = Some (Returns () w')"
  shows "\<exists>c'. c_inv_at h ch (x\<lparr>ss_w := w'\<lparr>w_nurs := (w_nurs w')(h \<mapsto> s\<lparr>ns_done := insert i (ns_done s)\<rparr>)\<rparr>,
    ss_ends := (if chan_open ch (ss_w x) then ss_ends x @ [i] else ss_ends x)\<rparr>)
    (s\<lparr>ns_done := insert i (ns_done s)\<rparr>) c'"
proof -
  note inv = c_inv_atD [OF assms(1)]
  obtain p v where t: "ss_log x ! i = (p, v)" by (cases "ss_log x ! i") auto
  from inv(5) [of i] i inv(4) t have ti: "sl_fn (nu_slots (ns_nur s) ! i) = SEND_TASK"
    "sl_arg (nu_slots (ns_nur s) ! i) = p" "p \<noteq> 0" "w_args (ss_w x) p = Some (SendArg ch v)"
    "\<forall>j < length (ss_log x). j \<notin> ns_done s \<and> j \<noteq> i \<longrightarrow> fst (ss_log x ! j) \<noteq> p"
    by (auto simp: sender_ok_def)
  have "sl = nu_slots (ns_nur s) ! i" using slot_ref_inv [OF inv(2) i(1)] sl by (simp split: if_splits)
  with run ti have run: "fx_async_send_task p (ss_w x) = Some (Returns () w')"
    by (simp add: fx_nursery_tramp_def call_bridge_task_def SEND_TASK_def STORE_TASK_def)
  let ?s = "s\<lparr>ns_done := insert i (ns_done s)\<rparr>"
  have nin: "n_inv ?s" by (rule n_inv_step [OF st_finish inv(2)]) (rule i(1))
  have "\<exists>c'. w' = free_arg p (put_chan ch (Some c') (ss_w x)) \<and> chan_ok c' \<and> ch_closed c' = ch_closed c \<and>
    chan_queue c' = chan_queue c @ (if ch_closed c then [] else [widen_i32 v])"
    using ti(3,4) assms(2) inv(6,7)
    by (cases rule: send_task_runs) (use run inv(7) in auto)
  then obtain c' where c': "w' = free_arg p (put_chan ch (Some c') (ss_w x))" "chan_ok c'"
    "ch_closed c' = ch_closed c" "chan_queue c' = chan_queue c @ (if ch_closed c then [] else [widen_i32 v])" by blast
  have senders: "sender_ok ch (w'\<lparr>w_nurs := nu\<rparr>) ?s (ss_log x) j" if "j < length (ss_log x)" for j nu
    using inv(5) [OF that] ti(5) that t
    by (cases "j = i") (auto simp: sender_ok_def c'(1) free_arg_def put_chan_def ti(1,2,3))
  have "chan_open ch (ss_w x) \<longleftrightarrow> \<not> ch_closed c" using inv(6) by (simp add: chan_open_def)
  moreover have "i \<notin> set (ss_ends x)" using inv(9) i(2) by blast
  ultimately have "c_inv_at h ch (x\<lparr>ss_w := w'\<lparr>w_nurs := (w_nurs w')(h \<mapsto> ?s)\<rparr>,
      ss_ends := (if chan_open ch (ss_w x) then ss_ends x @ [i] else ss_ends x)\<rparr>) ?s c'"
    using inv(3,4,8-11) senders nin i(1) c'(2-4) t
    by (auto simp: c_inv_at_def spawned_values_def c'(1) free_arg_def put_chan_def)
  then show ?thesis by blast
qed

lemma c_spawn_inv:
  assumes "c_inv_at h ch x s c" and "h \<noteq> 0" and "ch \<noteq> 0" and p: "p \<noteq> 0" "w_args (ss_w x) p = None"
    and run: "fx_async_nursery_spawn_send p created h ch v (ss_w x) = Some (rc, w')"
  shows "\<exists>s'. c_inv_at h ch
    (x\<lparr>ss_w := w', ss_log := (if rc = FX_NURSERY_OK then ss_log x @ [(p, v)] else ss_log x)\<rparr>) s' c"
proof -
  note inv = c_inv_atD [OF assms(1)]
  let ?m = "nu_n (ns_nur s)"
  have "spawn_with_arg p (SendArg ch v) h SEND_TASK created (ss_w x) = Some (rc, w')" and f: "SEND_TASK \<noteq> 0"
    using run assms(2,3) by (simp_all add: fx_async_nursery_spawn_send_def SEND_TASK_def)
  from spawn_with_arg_result [OF inv(2,1) p(1) f assms(2) this(1)] obtain n' where
    w': "w' = (ss_w x)\<lparr>w_args := (w_args (ss_w x))(p \<mapsto> SendArg ch v),
      w_nurs := (w_nurs (ss_w x))(h \<mapsto> s\<lparr>ns_nur := n'\<rparr>)\<rparr>" and
    n': "n_ok n' (ns_done s)" "owner_ok (ns_owner s) n'"
    "\<And>i. i < ?m \<Longrightarrow> nu_slots n' ! i = nu_slots (ns_nur s) ! i" and
    rc: "if rc = FX_NURSERY_OK then nu_n n' = ?m + 1 \<and> sl_fn (nu_slots n' ! ?m) = SEND_TASK \<and>
       sl_arg (nu_slots n' ! ?m) = p
     else nu_n n' = ?m" by blast
  let ?s = "s\<lparr>ns_nur := n'\<rparr>"
  have nin: "n_inv ?s" using n' by (simp add: n_inv_def)
  have block: "fst (ss_log x ! i) \<noteq> p" if "i < length (ss_log x)" "i \<notin> ns_done s" for i
    using inv(5) [OF that(1)] that p(2) by (auto simp: sender_ok_def split: prod.splits)
  have old: "sender_ok ch w' ?s (ss_log x @ ys) i" if "i < length (ss_log x)" "ys = [] \<or> ys = [(p, v)]" for i ys
  proof -
    obtain pi vi where ti: "ss_log x ! i = (pi, vi)" by (cases "ss_log x ! i") auto
    show ?thesis
      using inv(5) [OF that(1)] block [OF that(1)] that n'(3) [of i] inv(4) ti
      by (auto simp: sender_ok_def nth_append w')
  qed
  have same: "spawned_values (ss_log x @ ys) (ss_ends x) = spawned_values (ss_log x) (ss_ends x)" for ys
    using inv(3,4,9) by (auto simp: spawned_values_def nth_append)
  show ?thesis
  proof (cases "rc = FX_NURSERY_OK")
    case True
    have "?m \<notin> ns_done s" using inv(3) by auto
    then have "sender_ok ch w' ?s (ss_log x @ [(p, v)]) (length (ss_log x))"
      using True rc inv(4) p block by (auto simp: sender_ok_def nth_append w')
    then have "sender_ok ch w' ?s (ss_log x @ [(p, v)]) i" if "i < Suc (length (ss_log x))" for i
      using old [of i "[(p, v)]"] that by (cases "i = length (ss_log x)") auto
    then have "c_inv_at h ch (x\<lparr>ss_w := w', ss_log := ss_log x @ [(p, v)]\<rparr>) ?s c"
      using True rc inv nin same by (auto simp: c_inv_at_def w')
    then show ?thesis using True by auto
  next
    case False
    then have "c_inv_at h ch (x\<lparr>ss_w := w'\<rparr>) ?s c"
      using old [of _ "[]"] rc inv nin by (auto simp: c_inv_at_def w')
    then show ?thesis using False by auto
  qed
qed

lemma c_inv_step: "c_step h ch x y \<Longrightarrow> c_inv h ch x \<Longrightarrow> c_inv h ch y"
proof (induction rule: c_step.induct)
  case (c_new p x w')
  then show ?case using c_new_inv by (fastforce simp: c_inv_def)
next
  case (c_spawn p x s created v rc w')
  from c_spawn.prems obtain t c where i: "c_inv_at h ch x t c" and n: "h \<noteq> 0" "ch \<noteq> 0" by (rule c_invE)
  from c_spawn_inv [OF i n c_spawn(1,2,4)] n show ?case unfolding c_inv_def by blast
next
  case (c_task x s i sl w')
  from c_task.prems obtain t c where i: "c_inv_at h ch x t c" and n: "h \<noteq> 0" "ch \<noteq> 0" by (rule c_invE)
  with c_task(1) have "t = s" by (simp add: c_inv_at_def)
  with c_task_inv [OF _ n(2) c_task(2-5), of h] i n show ?case unfolding c_inv_def by blast
next
  case (c_recv q x st w' v)
  from c_recv.prems obtain t c where i: "c_inv_at h ch x t c" and n: "h \<noteq> 0" "ch \<noteq> 0" by (rule c_invE)
  from c_recv_inv [OF i n(2) c_recv(1,2)] n show ?case unfolding c_inv_def by blast
next
  case (c_close x st w')
  from c_close.prems obtain t c where i: "c_inv_at h ch x t c" and n: "h \<noteq> 0" "ch \<noteq> 0" by (rule c_invE)
  from c_close_inv [OF i n(2) c_close(1)] n show ?case unfolding c_inv_def by blast
next
  case (c_other x s l s')
  from c_other.prems obtain t c where i: "c_inv_at h ch x t c" and n: "h \<noteq> 0" "ch \<noteq> 0" by (rule c_invE)
  from i c_other(1) have "t = s" by (simp add: c_inv_at_def)
  with c_other_inv [OF _ c_other(2,3), of h ch x c] i n show ?case unfolding c_inv_def by blast
qed

lemma c_inv_reach:
  assumes "c_reach h ch n c x" and "fx_nursery_create_sized a b m k = Some n" and "h \<noteq> 0"
    and "fx_chan_create a' b' m' capacity = Some c" and "sint capacity \<le> 2 ^ 30" and "ch \<noteq> 0"
  shows "c_inv h ch x"
  using assms(1)
proof induction
  case cr_start
  have "nu_n n = 0" using assms(2) by (auto simp: fx_nursery_create_sized_def split: if_splits)
  then have "c_inv_at h ch (c_start h ch n c) (n_init n) c"
    using n_inv_init [OF assms(2)] create_ok [OF assms(4,5)]
    by (simp add: c_inv_at_def c_start_def n_init_def spawned_values_def)
  then show ?case using assms(3,6) by (auto simp: c_inv_def)
next
  case (cr_step x y)
  then show ?case using c_inv_step by blast
qed

section \<open>A run\<close>

definition send_slot :: "bool \<Rightarrow> FxNurserySlot" where
  "send_slot j = \<lparr>sl_fn = SEND_TASK, sl_arg = 32, sl_used = True, sl_joined = j\<rparr>"

definition send_demo :: "FxNurserySlot list \<Rightarrow> nat set \<Rightarrow> owner \<Rightarrow> FxChan \<Rightarrow> (addr \<rightharpoonup> task_arg) \<Rightarrow>
    (addr \<times> i32) list \<Rightarrow> nat list \<Rightarrow> send_sys" where
  "send_demo u dn ow c args ts is = \<lparr>ss_w = \<lparr>w_nurs = [16 \<mapsto> nur_demo True False u dn ow 0], w_slots = Map.empty,
     w_chans = [40 \<mapsto> c], w_mbs = Map.empty, w_args = args\<rparr>, ss_log = ts, ss_ends = is, ss_got = []\<rparr>"

lemmas send_demo_defs = send_demo_def send_slot_def demo_nur_defs SEND_TASK_def STORE_TASK_def

lemma send_demo_spawn: "c_step 16 40 (send_demo [] {} OIdle demo_chan Map.empty [] [])
    (send_demo [send_slot False] {} OIdle demo_chan [32 \<mapsto> SendArg 40 7] [(32, 7)] [])"
proof -
  have "fx_async_nursery_spawn_send 32 True 16 40 7 (ss_w (send_demo [] {} OIdle demo_chan Map.empty [] [])) =
      Some (FX_NURSERY_OK, ss_w (send_demo [send_slot False] {} OIdle demo_chan [32 \<mapsto> SendArg 40 7] [] []))"
    by (simp add: fx_async_nursery_spawn_send_def spawn_with_arg_def nur_spawn_def send_demo_defs)
  from c_spawn [OF _ _ _ this, of "nur_demo True False [] {} OIdle 0"] show ?thesis
    by (simp add: send_demo_def nur_demo_def)
qed

lemma send_demo_task: "c_step 16 40 (send_demo [send_slot False] {} OIdle demo_chan [32 \<mapsto> SendArg 40 7] [(32, 7)] [])
    (send_demo [send_slot False] {0} OIdle full_chan Map.empty [(32, 7)] [0])"
proof -
  let ?x = "send_demo [send_slot False] {} OIdle demo_chan [32 \<mapsto> SendArg 40 7] [(32, 7)] []"
  have cs: "send_cs demo_chan 7 = Some (Ret FX_CHAN_OK None full_chan SignalNotEmpty)"
    by (simp add: send_cs_def put_tail_def demo_chan_def full_chan_def int_add_def int_mod_def INT_MAX_def aset_def)
  have "fx_nursery_tramp call_bridge_task (send_slot False) (ss_w ?x) =
      Some (Returns () (ss_w (send_demo [send_slot False] {} OIdle full_chan Map.empty [(32, 7)] [])))"
    using cs by (simp add: fx_nursery_tramp_def call_bridge_task_def fx_async_send_task_def deref_def
        fx_chan_send_def fx_chan_send_i64_def on_chan_def chan_try_def free_arg_def put_chan_def widen_i32_def
        send_demo_def send_slot_def SEND_TASK_def STORE_TASK_def)
  with c_task [of ?x 16 "nur_demo True False [send_slot False] {} OIdle 0" 0 "send_slot False"
      "ss_w (send_demo [send_slot False] {} OIdle full_chan Map.empty [(32, 7)] [])" 40]
  show ?thesis by (simp add: send_demo_def nur_demo_def demo_nursery_def chan_open_def demo_chan_def
      slot_ref_def array_simps)
qed

lemma send_demo_join: "c_step 16 40 (send_demo [send_slot False] {0} OIdle full_chan Map.empty [(32, 7)] [0])
    (send_demo [send_slot False] {0} (InJoin JoinAll 0) full_chan Map.empty [(32, 7)] [0])"
proof -
  have "n_step LOwner (nur_demo True False [send_slot False] {0} OIdle 0)
      (nur_demo True False [send_slot False] {0} (InJoin JoinAll 0) 0)"
    by (rule st_join [where k = JoinAll]) (simp_all add: send_demo_defs)
  from c_other [OF _ _ this, of "send_demo [send_slot False] {0} OIdle full_chan Map.empty [(32, 7)] [0]" 16 40]
  show ?thesis by (simp add: send_demo_def)
qed

lemma send_demo_joined: "c_step 16 40 (send_demo [send_slot False] {0} (InJoin JoinAll 0) full_chan Map.empty [(32, 7)] [0])
    (send_demo [send_slot True] {0} OIdle full_chan Map.empty [(32, 7)] [0])"
proof -
  have "n_step LOwner (nur_demo True False [send_slot False] {0} (InJoin JoinAll 0) 0)
      (nur_demo True False [send_slot True] {0} OIdle 0)"
    by (rule st_wait [where k = JoinAll and i = 0 and w = Joined]) (simp_all add: send_demo_defs)
  from c_other [OF _ _ this, of "send_demo [send_slot False] {0} (InJoin JoinAll 0) full_chan Map.empty [(32, 7)] [0]" 16 40]
  show ?thesis by (simp add: send_demo_def)
qed

lemma send_demo_reach: "c_reach 16 40 (demo_nursery True False []) demo_chan
    (send_demo [send_slot True] {0} OIdle full_chan Map.empty [(32, 7)] [0])"
proof -
  have "c_start 16 40 (demo_nursery True False []) demo_chan = send_demo [] {} OIdle demo_chan Map.empty [] []"
    by (simp add: c_start_def send_demo_def nur_demo_start)
  then have "c_reach 16 40 (demo_nursery True False []) demo_chan (send_demo [] {} OIdle demo_chan Map.empty [] [])"
    using cr_start [of 16 40 "demo_nursery True False []" demo_chan] by simp
  from cr_step [OF cr_step [OF cr_step [OF cr_step [OF this send_demo_spawn] send_demo_task] send_demo_join]
      send_demo_joined] show ?thesis .
qed

section \<open>The property\<close>

text \<open>
  A task that has not run can run as soon as the channel has room or is closed, and waits
  inside the send as long as it is full and open.
\<close>

lemma sender_can_run:
  assumes "c_inv_at h ch x s c" and "ch \<noteq> 0" and "i < nu_n (ns_nur s)" and "i \<notin> ns_done s"
    and "slot_ref s i = Some sl"
  shows "fx_nursery_tramp call_bridge_task sl (ss_w x) = Some Waits \<longleftrightarrow>
      \<not> ch_closed c \<and> ch_len c = ch_cap c"
    and "fx_nursery_tramp call_bridge_task sl (ss_w x) \<noteq> None"
proof -
  note inv = c_inv_atD [OF assms(1)]
  obtain p v where "ss_log x ! i = (p, v)" by (cases "ss_log x ! i") auto
  with inv(4) inv(5) [of i] assms(3,4) have t: "sl_fn (nu_slots (ns_nur s) ! i) = SEND_TASK"
    "sl_arg (nu_slots (ns_nur s) ! i) = p" "p \<noteq> 0" "w_args (ss_w x) p = Some (SendArg ch v)"
    by (auto simp: sender_ok_def)
  have "sl = nu_slots (ns_nur s) ! i" using slot_ref_inv [OF inv(2) assms(3)] assms(5) by (simp split: if_splits)
  then have e: "fx_nursery_tramp call_bridge_task sl (ss_w x) = fx_async_send_task p (ss_w x)"
    using t(1,2) by (simp add: fx_nursery_tramp_def call_bridge_task_def SEND_TASK_def STORE_TASK_def)
  show "fx_nursery_tramp call_bridge_task sl (ss_w x) = Some Waits \<longleftrightarrow>
      \<not> ch_closed c \<and> ch_len c = ch_cap c"
    unfolding e using inv(7)
    by (cases rule: send_cs_cases [where v = "widen_i32 v"]) (use t(3,4) assms(2) inv(6) in
      \<open>simp_all add: fx_async_send_task_def deref_def fx_chan_send_def fx_chan_send_i64_def on_chan_def chan_try_def\<close>)
  show "fx_nursery_tramp call_bridge_task sl (ss_w x) \<noteq> None"
    unfolding e using t(3,4) assms(2) inv(6,7) by (cases rule: send_task_runs) simp_all
qed

text \<open>
  C30: What the tasks send arrives. In every reachable state, what has been received so far followed
  by what is in the channel is exactly the values of the tasks whose send was accepted, in the
  order in which they ended, each once; while the channel is open these are all tasks that have
  ended, and once a join has left no task unjoined they are all tasks ever spawned.
\<close>

theorem sent_tasks_deliver:
  assumes "fx_nursery_create_sized a b m k = Some n" and "h \<noteq> 0"
    and "fx_chan_create a' b' m' capacity = Some c" and "sint capacity \<le> 2 ^ 30" and "ch \<noteq> 0"
    and "c_reach h ch n c x" and "w_nurs (ss_w x) h = Some s" and "w_chans (ss_w x) ch = Some d"
  shows "ss_got x @ chan_queue d = spawned_values (ss_log x) (ss_ends x) \<and> distinct (ss_ends x) \<and>
    set (ss_ends x) \<subseteq> ns_done s \<and> (\<not> ch_closed d \<longrightarrow> set (ss_ends x) = ns_done s) \<and>
    (all_joined (ns_nur s) \<longrightarrow> ns_done s = {..<length (ss_log x)})"
proof -
  from c_inv_reach [OF assms(6,1-5)] obtain s' d' where i: "c_inv_at h ch x s' d'" by (rule c_invE)
  note inv = c_inv_atD [OF i]
  have e: "s' = s" "d' = d" using inv(1,6) assms(7,8) by simp_all
  have "{..<nu_n (ns_nur s)} \<subseteq> ns_done s" if "all_joined (ns_nur s)"
    using joined_done [OF inv(2) [unfolded e] that] by auto
  then show ?thesis using inv(3,4,8-11) unfolding e by auto
qed

theorem sent_tasks_deliver_witness:
  "c_reach 16 40 (demo_nursery True False []) demo_chan
     (send_demo [send_slot True] {0} OIdle full_chan Map.empty [(32, 7)] [0]) \<and>
   chan_queue full_chan = [7] \<and> all_joined (demo_nursery True False [send_slot True])"
proof -
  let ?x = "send_demo [send_slot True] {0} OIdle full_chan Map.empty [(32, 7)] [0]"
  have c: "sint (1 :: i32) \<le> 2 ^ 30" by simp
  have "w_nurs (ss_w ?x) 16 = Some (nur_demo True False [send_slot True] {0} OIdle 0)"
    "w_chans (ss_w ?x) 40 = Some full_chan" by (simp_all add: send_demo_def)
  from sent_tasks_deliver [OF demo_created _ demo_chan_created c _ send_demo_reach this]
  have "chan_queue full_chan = [7]"
    by (simp add: send_demo_def spawned_values_def widen_i32_def)
  then show ?thesis using send_demo_reach
    by (simp add: all_joined_def joined_upto_def demo_nursery_def send_slot_def)
qed

end
