(* ===== verification/Mutex.thy ===== *)
theory Mutex
  imports FxPrelude
begin

text \<open>
  The mutex table of \<open>host/concur/fx_mutex.c\<close> (the pthread branch): 64 static slots, a handle
  is a slot's number from 1 on and 0 is no mutex. The pthread mutex inside a slot is the C
  library's: it is not initialised, free, or held by a thread, and using it against its rules
  (locking one that is not initialised, initialising it twice, unlocking another thread's,
  destroying a held one) is undefined behaviour, the outer \<open>None\<close>.
\<close>

section \<open>The pthread mutex\<close>

type_synonym thread = nat

datatype pmutex = NoMutex | Free | Held thread

definition pthread_mutex_init :: "bool \<Rightarrow> pmutex \<Rightarrow> (bool \<times> pmutex) option" where
  "pthread_mutex_init ok m = (if m \<noteq> NoMutex then None else Some (ok, if ok then Free else NoMutex))"

text \<open>The inner \<open>None\<close> is a thread that waits.\<close>

fun pthread_mutex_lock :: "thread \<Rightarrow> bool \<Rightarrow> pmutex \<Rightarrow> (bool \<times> pmutex) option option" where
  "pthread_mutex_lock t ok NoMutex = None"
| "pthread_mutex_lock t ok (Held u) = Some None"
| "pthread_mutex_lock t ok Free = Some (Some (ok, if ok then Held t else Free))"

fun pthread_mutex_unlock :: "thread \<Rightarrow> bool \<Rightarrow> pmutex \<Rightarrow> (bool \<times> pmutex) option" where
  "pthread_mutex_unlock t ok (Held u) = (if t = u then Some (ok, if ok then Free else Held u) else None)"
| "pthread_mutex_unlock t ok m = None"

fun pthread_mutex_destroy :: "pmutex \<Rightarrow> pmutex option" where
  "pthread_mutex_destroy Free = Some NoMutex"
| "pthread_mutex_destroy m = None"

section \<open>The code\<close>

definition FX_MUTEX_SLOTS :: int where "FX_MUTEX_SLOTS = 64"

record fx_mutex_body =
  mb_mu :: pmutex
  mb_alive :: bool

record mutex_tab =
  g_slots :: "fx_mutex_body list"
  g_used :: "bool list"

definition zero_body :: fx_mutex_body where
  "zero_body = \<lparr>mb_mu = NoMutex, mb_alive = False\<rparr>"

definition mutex_start :: mutex_tab where
  "mutex_start = \<lparr>g_slots = replicate 64 zero_body, g_used = replicate 64 False\<rparr>"

definition set_slot :: "nat \<Rightarrow> fx_mutex_body \<Rightarrow> bool \<Rightarrow> mutex_tab \<Rightarrow> mutex_tab option" where
  "set_slot i b u t =
     do { slots \<leftarrow> aset (g_slots t) i b; used \<leftarrow> aset (g_used t) i u;
          Some \<lparr>g_slots = slots, g_used = used\<rparr> }"

text \<open>The inner \<open>None\<close> is NULL.\<close>

definition slot_mut :: "i32 \<Rightarrow> mutex_tab \<Rightarrow> nat option option" where
  "slot_mut ident t =
     (if sint ident < 1 \<or> sint ident > FX_MUTEX_SLOTS then Some None
      else let idx = nat (sint ident - 1) in do {
        used \<leftarrow> aget (g_used t) idx;
        m \<leftarrow> aget (g_slots t) idx;
        Some (if \<not> used \<or> \<not> mb_alive m then None else Some idx) })"

text \<open>
  Nothing guards the table, so creating and destroying are each cut where another thread can come
  between: a create first scans for a slot that is not in use (\<open>Some (Some i)\<close>; \<open>Some None\<close> is a
  full table) and then fills it, a destroy first tests the handle and marks the slot dead and then
  clears it.
\<close>

function create_scan :: "nat \<Rightarrow> mutex_tab \<Rightarrow> nat option option" where
  "create_scan i t =
     (if int i < FX_MUTEX_SLOTS then do {
        used \<leftarrow> aget (g_used t) i;
        if \<not> used then Some (Some i) else create_scan (i + 1) t }
      else Some None)"
  by pat_completeness auto
termination by (relation "measure (\<lambda>(i, t). 64 - i)") (auto simp: FX_MUTEX_SLOTS_def)

declare create_scan.simps [simp del]

definition create_fill :: "bool \<Rightarrow> nat \<Rightarrow> mutex_tab \<Rightarrow> (i32 \<times> mutex_tab) option" where
  "create_fill init_ok i t =
     do { m \<leftarrow> aget (g_slots t) i;
          (ok, mu) \<leftarrow> pthread_mutex_init init_ok (mb_mu m);
          if \<not> ok then Some (0, t)
          else do { t \<leftarrow> set_slot i \<lparr>mb_mu = mu, mb_alive = True\<rparr> True t; Some (of_nat (i + 1), t) } }"

definition fx_mutex_create :: "bool \<Rightarrow> mutex_tab \<Rightarrow> (i32 \<times> mutex_tab) option" where
  "fx_mutex_create init_ok t =
     do { p \<leftarrow> create_scan 0 t;
          case p of None \<Rightarrow> Some (0, t) | Some i \<Rightarrow> create_fill init_ok i t }"

text \<open>
  A lock looks its slot up, then waits for the mutex of that slot: \<open>LockWait idx\<close> is a thread
  inside \<open>pthread_mutex_lock\<close>, and \<open>fx_mutex_lock_end\<close> the rest of the call, whose inner
  \<open>None\<close> keeps the thread waiting.
\<close>

datatype lock_out = LockRet i32 | LockWait nat

definition fx_mutex_lock :: "i32 \<Rightarrow> mutex_tab \<Rightarrow> lock_out option" where
  "fx_mutex_lock handle t =
     do { m \<leftarrow> slot_mut handle t;
          case m of None \<Rightarrow> Some (LockRet 1) | Some idx \<Rightarrow> Some (LockWait idx) }"

definition fx_mutex_lock_end ::
  "thread \<Rightarrow> bool \<Rightarrow> nat \<Rightarrow> mutex_tab \<Rightarrow> (i32 \<times> mutex_tab) option option" where
  "fx_mutex_lock_end me ok idx t =
     do { m \<leftarrow> aget (g_slots t) idx;
          r \<leftarrow> pthread_mutex_lock me ok (mb_mu m);
          case r of None \<Rightarrow> Some None
          | Some (ok, mu) \<Rightarrow> do {
              slots \<leftarrow> aset (g_slots t) idx (m\<lparr>mb_mu := mu\<rparr>);
              Some (Some (if ok then 0 else 1, t\<lparr>g_slots := slots\<rparr>)) } }"

definition fx_mutex_unlock :: "thread \<Rightarrow> bool \<Rightarrow> i32 \<Rightarrow> mutex_tab \<Rightarrow> (i32 \<times> mutex_tab) option" where
  "fx_mutex_unlock me ok handle t =
     do { p \<leftarrow> slot_mut handle t;
          case p of None \<Rightarrow> Some (1, t)
          | Some idx \<Rightarrow> do {
              m \<leftarrow> aget (g_slots t) idx;
              (ok, mu) \<leftarrow> pthread_mutex_unlock me ok (mb_mu m);
              slots \<leftarrow> aset (g_slots t) idx (m\<lparr>mb_mu := mu\<rparr>);
              Some (if ok then 0 else 1, t\<lparr>g_slots := slots\<rparr>) } }"

definition destroy_check :: "i32 \<Rightarrow> mutex_tab \<Rightarrow> (nat option \<times> mutex_tab) option" where
  "destroy_check handle t =
     (if sint handle < 1 \<or> sint handle > FX_MUTEX_SLOTS then Some (None, t)
      else let idx = nat (sint handle - 1) in do {
        used \<leftarrow> aget (g_used t) idx;
        if \<not> used then Some (None, t)
        else do {
          m \<leftarrow> aget (g_slots t) idx;
          slots \<leftarrow> aset (g_slots t) idx (m\<lparr>mb_alive := False\<rparr>);
          Some (Some idx, t\<lparr>g_slots := slots\<rparr>) } })"

definition destroy_clear :: "nat \<Rightarrow> mutex_tab \<Rightarrow> (i32 \<times> mutex_tab) option" where
  "destroy_clear idx t =
     do { m \<leftarrow> aget (g_slots t) idx;
          _ \<leftarrow> pthread_mutex_destroy (mb_mu m);
          t \<leftarrow> set_slot idx zero_body False t;
          Some (0, t) }"

definition fx_mutex_destroy :: "i32 \<Rightarrow> mutex_tab \<Rightarrow> (i32 \<times> mutex_tab) option" where
  "fx_mutex_destroy handle t =
     do { (p, t) \<leftarrow> destroy_check handle t;
          case p of None \<Rightarrow> Some (1, t) | Some idx \<Rightarrow> destroy_clear idx t }"

section \<open>The table's invariant\<close>

text \<open>A slot in use has a mutex; it is dead only while a destroy is about to clear it.\<close>

definition mutex_ok :: "mutex_tab \<Rightarrow> bool" where
  "mutex_ok t \<longleftrightarrow> length (g_slots t) = 64 \<and> length (g_used t) = 64 \<and>
     (\<forall>i < 64. (mb_alive (g_slots t ! i) \<longrightarrow> g_used t ! i) \<and>
               (g_used t ! i \<longleftrightarrow> mb_mu (g_slots t ! i) \<noteq> NoMutex))"

text \<open>The slots a destroy has marked and not cleared.\<close>

definition dying :: "mutex_tab \<Rightarrow> nat \<Rightarrow> bool" where
  "dying t i \<longleftrightarrow> i < 64 \<and> g_used t ! i \<and> \<not> mb_alive (g_slots t ! i)"

text \<open>The mutex a handle stands for, \<open>NoMutex\<close> when the handle is not live.\<close>

definition mutex_of :: "mutex_tab \<Rightarrow> i32 \<Rightarrow> pmutex" where
  "mutex_of t h = (if 1 \<le> sint h \<and> sint h \<le> 64 \<and> mb_alive (g_slots t ! nat (sint h - 1))
     then mb_mu (g_slots t ! nat (sint h - 1)) else NoMutex)"

definition slot_of :: "i32 \<Rightarrow> nat" where
  "slot_of h = nat (sint h - 1)"

lemma slot_of_inj: "1 \<le> sint h \<Longrightarrow> 1 \<le> sint h' \<Longrightarrow> slot_of h = slot_of h' \<longleftrightarrow> h = h'"
  unfolding slot_of_def by (metis diff_ge_0_iff_ge eq_nat_nat_iff diff_add_cancel signed_word_eqI)

lemma mutex_ok_start: "mutex_ok mutex_start"
  by (simp add: mutex_ok_def mutex_start_def zero_body_def)

text \<open>Replacing one slot keeps the invariant and touches one handle only.\<close>

lemma set_slot_ok:
  assumes "mutex_ok t" and "i < 64" and "u \<longleftrightarrow> mu \<noteq> NoMutex"
  shows "\<exists>t'. set_slot i \<lparr>mb_mu = mu, mb_alive = u\<rparr> u t = Some t' \<and> mutex_ok t' \<and>
    g_slots t' = (g_slots t)[i := \<lparr>mb_mu = mu, mb_alive = u\<rparr>] \<and> g_used t' = (g_used t)[i := u]"
  using assms by (auto simp: set_slot_def array_simps mutex_ok_def nth_list_update)

lemma slot_mut_eq:
  assumes "mutex_ok t"
  shows "slot_mut h t = Some (if mutex_of t h = NoMutex then None else Some (slot_of h))"
proof (cases "1 \<le> sint h \<and> sint h \<le> 64")
  case True
  then have "nat (sint h - 1) < 64" by linarith
  then show ?thesis using assms True
    by (auto simp: slot_mut_def mutex_of_def slot_of_def FX_MUTEX_SLOTS_def Let_def mutex_ok_def array_simps)
next
  case False
  then show ?thesis by (auto simp: slot_mut_def mutex_of_def FX_MUTEX_SLOTS_def)
qed

lemma mutex_of_live:
  assumes "mutex_ok t" and "mutex_of t h \<noteq> NoMutex"
  shows "slot_of h < 64 \<and> 1 \<le> sint h \<and> g_used t ! slot_of h \<and> mb_alive (g_slots t ! slot_of h) \<and>
    mutex_of t h = mb_mu (g_slots t ! slot_of h)"
proof -
  have h: "1 \<le> sint h" "sint h \<le> 64" using assms(2) by (auto simp: mutex_of_def split: if_splits)
  then have "slot_of h < 64" unfolding slot_of_def by linarith
  with h assms show ?thesis by (auto simp: mutex_of_def slot_of_def mutex_ok_def split: if_splits)
qed

lemma mutex_of_update:
  assumes "mutex_ok t" and "1 \<le> sint h" and "sint h \<le> 64"
  shows "g_slots t' = (g_slots t)[slot_of h := b] \<Longrightarrow>
    mutex_of t' = (mutex_of t)(h := if mb_alive b then mb_mu b else NoMutex)"
  using assms slot_of_inj [of h]
  by (auto simp: mutex_of_def mutex_ok_def slot_of_def nth_list_update fun_eq_iff)

section \<open>The contract of each call\<close>

lemma sint_small: "n < 2 ^ 31 \<Longrightarrow> sint (of_nat n :: i32) = int n"
  by (simp add: signed_of_nat signed_take_bit_int_eq_self)

text \<open>The handle of a slot.\<close>

lemma handle_slot:
  assumes "i < 64"
  shows "slot_of (of_nat (i + 1)) = i \<and> 1 \<le> sint (of_nat (i + 1) :: i32) \<and> sint (of_nat (i + 1) :: i32) \<le> 64 \<and>
    (of_nat (i + 1) :: i32) \<noteq> 0"
proof -
  have s: "sint (of_nat (i + 1) :: i32) = int i + 1" using sint_small [of "i + 1"] assms by simp
  then have "slot_of (of_nat (i + 1)) = i" "1 \<le> sint (of_nat (i + 1) :: i32)" "sint (of_nat (i + 1) :: i32) \<le> 64"
    using assms unfolding slot_of_def by linarith+
  moreover from this have "(of_nat (i + 1) :: i32) \<noteq> 0" by (metis signed_0 not_one_le_zero)
  ultimately show ?thesis by blast
qed

lemma create_scan_spec:
  assumes "mutex_ok t"
  shows "\<exists>p. create_scan i t = Some p \<and>
    (case p of None \<Rightarrow> \<forall>j < 64. i \<le> j \<longrightarrow> g_used t ! j | Some j \<Rightarrow> j < 64 \<and> \<not> g_used t ! j)"
  using assms
proof (induction i t rule: create_scan.induct)
  case (1 i t)
  show ?case
  proof (cases "i < 64 \<and> g_used t ! i")
    case True
    then have a: "int i < FX_MUTEX_SLOTS" "aget (g_used t) i = Some True"
      using "1.prems" by (simp_all add: FX_MUTEX_SLOTS_def mutex_ok_def array_simps)
    from "1.IH" [OF a(1), of True] a(2) "1.prems" obtain p where
      p: "create_scan (i + 1) t = Some p"
        "case p of None \<Rightarrow> \<forall>j < 64. i + 1 \<le> j \<longrightarrow> g_used t ! j | Some j \<Rightarrow> j < 64 \<and> \<not> g_used t ! j" by auto
    have "create_scan i t = Some p" using a p(1) by (subst create_scan.simps) simp
    moreover have "\<forall>j < 64. i + 1 \<le> j \<longrightarrow> g_used t ! j \<Longrightarrow> \<forall>j < 64. i \<le> j \<longrightarrow> g_used t ! j"
      using True by (metis Suc_eq_plus1 Suc_leI le_neq_implies_less)
    ultimately show ?thesis using p(2) by (auto split: option.splits)
  next
    case False
    then show ?thesis using "1.prems"
      by (subst create_scan.simps) (auto simp: FX_MUTEX_SLOTS_def mutex_ok_def array_simps)
  qed
qed

lemma create_fill_spec:
  assumes "mutex_ok t" and "i < 64" and "\<not> g_used t ! i"
  shows "\<exists>t'. create_fill ok i t = Some (if ok then of_nat (i + 1) else 0, t') \<and> mutex_ok t' \<and>
    mutex_of t (of_nat (i + 1)) = NoMutex \<and>
    (if ok then mutex_of t' = (mutex_of t)(of_nat (i + 1) := Free) \<and> (\<forall>j. dying t' j \<longleftrightarrow> dying t j) else t' = t)"
proof -
  let ?h = "of_nat (i + 1) :: i32"
  note h = handle_slot [OF assms(2)]
  have n: "mb_mu (g_slots t ! i) = NoMutex" "\<not> mb_alive (g_slots t ! i)"
    using assms by (auto simp: mutex_ok_def)
  have a: "aget (g_slots t) i = Some (g_slots t ! i)" using assms(1,2) by (simp add: mutex_ok_def array_simps)
  have no: "mutex_of t ?h = NoMutex" using h n by (simp add: mutex_of_def flip: slot_of_def)
  show ?thesis
  proof (cases ok)
    case True
    obtain t' where t': "set_slot i \<lparr>mb_mu = Free, mb_alive = True\<rparr> True t = Some t'" "mutex_ok t'"
      "g_slots t' = (g_slots t)[slot_of ?h := \<lparr>mb_mu = Free, mb_alive = True\<rparr>]" "g_used t' = (g_used t)[i := True]"
      using set_slot_ok [OF assms(1,2), of True Free] h by auto
    have "dying t' j \<longleftrightarrow> dying t j" for j
      using t'(3,4) h n assms by (auto simp: dying_def nth_list_update mutex_ok_def)
    then show ?thesis using True a n t' no mutex_of_update [OF assms(1) _ _ t'(3)] h
      by (simp add: create_fill_def pthread_mutex_init_def)
  qed (use a n no assms(1) in \<open>simp add: create_fill_def pthread_mutex_init_def\<close>)
qed

lemma lock_spec:
  "mutex_ok t \<Longrightarrow> fx_mutex_lock h t = Some (if mutex_of t h = NoMutex then LockRet 1 else LockWait (slot_of h))"
  by (simp add: fx_mutex_lock_def slot_mut_eq)

lemma live_update:
  assumes "mutex_ok t" and "mutex_of t h \<noteq> NoMutex" and "mu \<noteq> NoMutex"
  defines "t' \<equiv> t\<lparr>g_slots := (g_slots t)[slot_of h := (g_slots t ! slot_of h)\<lparr>mb_mu := mu\<rparr>]\<rparr>"
  shows "mutex_ok t' \<and> mutex_of t' = (mutex_of t)(h := mu) \<and> g_used t' = g_used t \<and>
    (\<forall>i. mb_alive (g_slots t' ! i) = mb_alive (g_slots t ! i)) \<and>
    (\<forall>i. dying t i \<longrightarrow> g_slots t' ! i = g_slots t ! i)"
proof -
  note l = mutex_of_live [OF assms(1,2)]
  then have h: "1 \<le> sint h" "sint h \<le> 64" by (auto simp: slot_of_def)
  have "mutex_ok t'" using assms(1,3) l by (auto simp: t'_def mutex_ok_def nth_list_update)
  moreover have "mutex_of t' = (mutex_of t)(h := mu)"
    using mutex_of_update [OF assms(1) h, of t' "(g_slots t ! slot_of h)\<lparr>mb_mu := mu\<rparr>"] l by (simp add: t'_def)
  moreover have "g_slots t' ! i = (if i = slot_of h then (g_slots t ! i)\<lparr>mb_mu := mu\<rparr> else g_slots t ! i)" for i
    using l assms(1) by (auto simp: t'_def nth_list_update mutex_ok_def)
  ultimately show ?thesis using l by (auto simp: t'_def dying_def)
qed

text \<open>
  \<open>same_slots\<close> is what a lock or unlock leaves alone: which slots are in use, which are alive, and
  all of a slot that is being cleared.
\<close>

definition same_slots :: "mutex_tab \<Rightarrow> mutex_tab \<Rightarrow> bool" where
  "same_slots t t' \<longleftrightarrow> g_used t' = g_used t \<and> (\<forall>i. mb_alive (g_slots t' ! i) = mb_alive (g_slots t ! i)) \<and>
     (\<forall>i. dying t i \<longrightarrow> g_slots t' ! i = g_slots t ! i)"

lemma same_slots_dying: "same_slots t t' \<Longrightarrow> dying t' i = dying t i"
  by (simp add: same_slots_def dying_def)

lemmas live_update_slots = live_update [folded same_slots_def]

lemma lock_end_spec:
  assumes "mutex_ok t" and "mutex_of t h \<noteq> NoMutex"
  shows "case mutex_of t h of
      Free \<Rightarrow> \<exists>t'. fx_mutex_lock_end me ok (slot_of h) t = Some (Some (if ok then 0 else 1, t')) \<and> mutex_ok t' \<and>
        mutex_of t' = (mutex_of t)(h := if ok then Held me else Free) \<and> same_slots t t'
    | _ \<Rightarrow> fx_mutex_lock_end me ok (slot_of h) t = Some None"
proof -
  note l = mutex_of_live [OF assms]
  have a: "aget (g_slots t) (slot_of h) = Some (g_slots t ! slot_of h)" "slot_of h < length (g_slots t)"
    using assms(1) l by (simp_all add: mutex_ok_def array_simps)
  show ?thesis
  proof (cases "mutex_of t h")
    case Free
    then show ?thesis using l a live_update_slots [OF assms, of "if ok then Held me else Free"]
      by (simp add: fx_mutex_lock_end_def array_simps)
  qed (use assms(2) l a in \<open>simp_all add: fx_mutex_lock_end_def\<close>)
qed

lemma unlock_spec:
  assumes "mutex_ok t" and "mutex_of t h = Held me"
  shows "\<exists>t'. fx_mutex_unlock me ok h t = Some (if ok then 0 else 1, t') \<and> mutex_ok t' \<and>
    mutex_of t' = (mutex_of t)(h := if ok then Free else Held me) \<and> same_slots t t'"
proof -
  have n: "mutex_of t h \<noteq> NoMutex" using assms(2) by simp
  note l = mutex_of_live [OF assms(1) n]
  have a: "aget (g_slots t) (slot_of h) = Some (g_slots t ! slot_of h)" "slot_of h < length (g_slots t)"
    using assms(1) l by (simp_all add: mutex_ok_def array_simps)
  have m: "mb_mu (g_slots t ! slot_of h) = Held me" using l assms(2) by simp
  show ?thesis
    using a m n live_update_slots [OF assms(1) n, of "if ok then Free else Held me"] slot_mut_eq [OF assms(1), of h]
    by (simp add: fx_mutex_unlock_def array_simps)
qed

text \<open>A destroy of a live handle marks its slot; one of a handle whose slot is not in use is refused.\<close>

lemma destroy_check_spec:
  assumes "mutex_ok t" and "mutex_of t h \<noteq> NoMutex"
  shows "\<exists>t'. destroy_check h t = Some (Some (slot_of h), t') \<and> mutex_ok t' \<and> g_used t' = g_used t \<and>
    mutex_of t' = (mutex_of t)(h := NoMutex) \<and> mb_mu (g_slots t' ! slot_of h) = mutex_of t h \<and>
    (\<forall>i. dying t' i \<longleftrightarrow> i = slot_of h \<or> dying t i)"
proof -
  note l = mutex_of_live [OF assms]
  then have h: "1 \<le> sint h" "sint h \<le> 64" by (auto simp: slot_of_def)
  let ?t = "t\<lparr>g_slots := (g_slots t)[slot_of h := (g_slots t ! slot_of h)\<lparr>mb_alive := False\<rparr>]\<rparr>"
  have a: "aget (g_slots t) (slot_of h) = Some (g_slots t ! slot_of h)" "slot_of h < length (g_slots t)"
    "aget (g_used t) (slot_of h) = Some True"
    using assms(1) l by (simp_all add: mutex_ok_def array_simps)
  have "destroy_check h t = Some (Some (slot_of h), ?t)"
    using h a by (simp add: destroy_check_def FX_MUTEX_SLOTS_def Let_def array_simps flip: slot_of_def)
  moreover have "mutex_ok ?t" using assms(1) l by (auto simp: mutex_ok_def nth_list_update)
  moreover have "mutex_of ?t = (mutex_of t)(h := NoMutex)"
    using mutex_of_update [OF assms(1) h, of ?t "(g_slots t ! slot_of h)\<lparr>mb_alive := False\<rparr>"] by simp
  moreover have "dying ?t i \<longleftrightarrow> i = slot_of h \<or> dying t i" for i
    using l a(2) by (auto simp: dying_def nth_list_update)
  ultimately show ?thesis using l a(2) by (intro exI [of _ ?t]) simp
qed

lemma destroy_check_dead:
  assumes "mutex_ok t" and "mutex_of t h = NoMutex" and "\<forall>i. \<not> dying t i"
  shows "destroy_check h t = Some (None, t)"
proof (cases "1 \<le> sint h \<and> sint h \<le> 64")
  case True
  then have "nat (sint h - 1) < 64" by linarith
  then show ?thesis using assms True
    by (auto simp: destroy_check_def mutex_of_def mutex_ok_def dying_def FX_MUTEX_SLOTS_def Let_def array_simps)
next
  case False
  then show ?thesis by (auto simp: destroy_check_def FX_MUTEX_SLOTS_def)
qed

lemma destroy_clear_spec:
  assumes "mutex_ok t" and "dying t i" and "mb_mu (g_slots t ! i) = Free"
  shows "\<exists>t'. destroy_clear i t = Some (0, t') \<and> mutex_ok t' \<and> mutex_of t' = mutex_of t \<and> \<not> g_used t' ! i \<and>
    (\<forall>j. dying t' j \<longleftrightarrow> j \<noteq> i \<and> dying t j)"
proof -
  have i: "i < 64" "\<not> mb_alive (g_slots t ! i)" using assms(2) by (simp_all add: dying_def)
  let ?h = "of_nat (i + 1) :: i32"
  note h = handle_slot [OF i(1)]
  obtain t' where t': "set_slot i zero_body False t = Some t'" "mutex_ok t'"
    "g_slots t' = (g_slots t)[slot_of ?h := zero_body]" "g_used t' = (g_used t)[i := False]"
    using set_slot_ok [OF assms(1) i(1), of False NoMutex] h by (auto simp: zero_body_def)
  have "aget (g_slots t) i = Some (g_slots t ! i)" using assms(1) i by (simp add: mutex_ok_def array_simps)
  then have "destroy_clear i t = Some (0, t')" using assms(3) t'(1) by (simp add: destroy_clear_def)
  moreover have "mutex_of t ?h = NoMutex" using h i by (simp add: mutex_of_def flip: slot_of_def)
  then have "mutex_of t' = mutex_of t"
    using mutex_of_update [OF assms(1) _ _ t'(3)] h by (simp add: zero_body_def fun_upd_idem)
  moreover have "dying t' j \<longleftrightarrow> j \<noteq> i \<and> dying t j" for j
    using t'(3,4) h i assms(1) by (auto simp: dying_def nth_list_update mutex_ok_def)
  moreover have "\<not> g_used t' ! i" using t'(4) assms(1) i by (simp add: mutex_ok_def)
  ultimately show ?thesis using t'(2) by blast
qed

lemma dead_handle_spec:
  assumes "mutex_ok t" and "mutex_of t h = NoMutex"
  shows "fx_mutex_lock h t = Some (LockRet 1)" and "fx_mutex_unlock me ok h t = Some (1, t)"
  using assms by (simp_all add: lock_spec fx_mutex_unlock_def slot_mut_eq)


end
