(* ===== verification/MutexTheorems.thy ===== *)
theory MutexTheorems
  imports Mutex
begin

text \<open>
  Threads that use the mutex table: each call of \<open>fx_mutex.c\<close> is a step or two. A lock looks its
  slot up and then ends its wait; a create scans and then fills; a destroy checks and then clears.
  Any other thread's steps come between. A scan is one step: what it reads, only creates and destroys
  write. Memory is sequentially consistent: that a call which looks a handle up reads the table
  while a create or destroy writes it, without a lock, is a data race the model does not show.

  The clients keep the rules of pthreads: a thread unlocks what it holds (or a handle that is no
  mutex, which is refused), and a mutex is destroyed when no thread holds it or waits for it.
  Nothing in the code guards the table, so there is one rule more, \<open>serial\<close>: a create or a destroy
  begins when no thread is inside another one. The properties are those of serial runs; the last
  section is a run that is not serial, and goes wrong.
\<close>

section \<open>The system\<close>

text \<open>
  \<open>ms_busy\<close> is where a thread is inside a create or a destroy, \<open>ms_wait\<close> which mutex it waits for,
  and \<open>ms_holds\<close> what the clients know: the handles whose lock has returned 0 to a thread.
\<close>

datatype inside_table = Filling nat | Clearing nat

record msys =
  ms_tab :: mutex_tab
  ms_busy :: "thread \<rightharpoonup> inside_table"
  ms_wait :: "thread \<rightharpoonup> i32 \<times> nat"
  ms_holds :: "thread \<Rightarrow> i32 set"

definition unused :: "msys \<Rightarrow> i32 \<Rightarrow> bool" where
  "unused s h \<longleftrightarrow> (\<forall>t. h \<notin> ms_holds s t) \<and> (\<forall>t idx. ms_wait s t \<noteq> Some (h, idx))"

definition idle :: "msys \<Rightarrow> thread \<Rightarrow> bool" where
  "idle s t \<longleftrightarrow> ms_busy s t = None \<and> ms_wait s t = None"

text \<open>
  A step carries what it shows: the thread, the handle or the slot found, and what the call
  returns when it returns.
\<close>

datatype m_event = Scan thread "nat option" | Fill thread i32 | Wait thread i32 | Locked thread i32 i32
  | Unlocked thread i32 i32 | Check thread i32 "nat option" | Clear thread i32

inductive m_step :: "bool \<Rightarrow> m_event \<Rightarrow> msys \<Rightarrow> msys \<Rightarrow> bool" for serial :: bool where
  m_scan: "idle s t \<Longrightarrow> (serial \<longrightarrow> ms_busy s = Map.empty) \<Longrightarrow> create_scan 0 (ms_tab s) = Some p \<Longrightarrow>
    m_step serial (Scan t p) s (s\<lparr>ms_busy := (ms_busy s)(t := map_option Filling p)\<rparr>)"
| m_fill: "ms_busy s t = Some (Filling i) \<Longrightarrow> create_fill ok i (ms_tab s) = Some (h, tab) \<Longrightarrow>
    m_step serial (Fill t h) s (s\<lparr>ms_tab := tab, ms_busy := (ms_busy s)(t := None)\<rparr>)"
| m_refused: "idle s t \<Longrightarrow> fx_mutex_lock h (ms_tab s) = Some (LockRet rc) \<Longrightarrow>
    m_step serial (Locked t h rc) s s"
| m_lock: "idle s t \<Longrightarrow> fx_mutex_lock h (ms_tab s) = Some (LockWait idx) \<Longrightarrow>
    m_step serial (Wait t h) s (s\<lparr>ms_wait := (ms_wait s)(t \<mapsto> (h, idx))\<rparr>)"
| m_locked: "ms_wait s t = Some (h, idx) \<Longrightarrow>
    fx_mutex_lock_end t ok idx (ms_tab s) = Some (Some (rc, tab)) \<Longrightarrow>
    m_step serial (Locked t h rc) s (s\<lparr>ms_tab := tab, ms_wait := (ms_wait s)(t := None),
      ms_holds := (ms_holds s)(t := (if rc = 0 then insert h (ms_holds s t) else ms_holds s t))\<rparr>)"
| m_unlock: "idle s t \<Longrightarrow> h \<in> ms_holds s t \<or> slot_mut h (ms_tab s) = Some None \<Longrightarrow>
    fx_mutex_unlock t ok h (ms_tab s) = Some (rc, tab) \<Longrightarrow>
    m_step serial (Unlocked t h rc) s (s\<lparr>ms_tab := tab,
      ms_holds := (ms_holds s)(t := (if rc = 0 then ms_holds s t - {h} else ms_holds s t))\<rparr>)"
| m_check: "idle s t \<Longrightarrow> (serial \<longrightarrow> ms_busy s = Map.empty) \<Longrightarrow> unused s h \<Longrightarrow>
    destroy_check h (ms_tab s) = Some (p, tab) \<Longrightarrow>
    m_step serial (Check t h p) s (s\<lparr>ms_tab := tab, ms_busy := (ms_busy s)(t := map_option Clearing p)\<rparr>)"
| m_clear: "ms_busy s t = Some (Clearing i) \<Longrightarrow> destroy_clear i (ms_tab s) = Some (rc, tab) \<Longrightarrow>
    m_step serial (Clear t rc) s (s\<lparr>ms_tab := tab, ms_busy := (ms_busy s)(t := None)\<rparr>)"

definition m_start :: msys where
  "m_start = \<lparr>ms_tab = mutex_start, ms_busy = Map.empty, ms_wait = Map.empty, ms_holds = (\<lambda>t. {})\<rparr>"

inductive m_reach :: "bool \<Rightarrow> msys \<Rightarrow> bool" for serial :: bool where
  mr_start: "m_reach serial m_start"
| mr_step: "m_reach serial s \<Longrightarrow> m_step serial e s s' \<Longrightarrow> m_reach serial s'"

section \<open>The invariant\<close>

text \<open>The clients' view of who holds what is the table's.\<close>

definition m_users :: "msys \<Rightarrow> bool" where
  "m_users s \<longleftrightarrow> (\<forall>t h. h \<in> ms_holds s t \<longleftrightarrow> mutex_of (ms_tab s) h = Held t) \<and>
     (\<forall>t h idx. ms_wait s t = Some (h, idx) \<longrightarrow> mutex_of (ms_tab s) h \<noteq> NoMutex \<and> idx = slot_of h)"

text \<open>
  One thread at most is inside a create or destroy. The slot a create fills is not in use, and the
  slots marked and not cleared are those a destroy is at, whose mutex is free.
\<close>

definition m_table :: "msys \<Rightarrow> bool" where
  "m_table s \<longleftrightarrow> (\<forall>t u. ms_busy s t \<noteq> None \<longrightarrow> ms_busy s u \<noteq> None \<longrightarrow> t = u) \<and>
     (\<forall>t i. ms_busy s t = Some (Filling i) \<longrightarrow> i < 64 \<and> \<not> g_used (ms_tab s) ! i) \<and>
     (\<forall>i. dying (ms_tab s) i \<longrightarrow> mb_mu (g_slots (ms_tab s) ! i) = Free) \<and>
     (\<forall>i. dying (ms_tab s) i \<longleftrightarrow> (\<exists>t. ms_busy s t = Some (Clearing i)))"

definition m_inv :: "msys \<Rightarrow> bool" where
  "m_inv s \<longleftrightarrow> mutex_ok (ms_tab s) \<and> m_users s \<and> m_table s"

lemma m_invD:
  assumes "m_inv s"
  shows "mutex_ok (ms_tab s)" and "h \<in> ms_holds s t \<longleftrightarrow> mutex_of (ms_tab s) h = Held t"
    and "ms_wait s t = Some (h, idx) \<Longrightarrow> mutex_of (ms_tab s) h \<noteq> NoMutex \<and> idx = slot_of h"
    and "ms_busy s t = Some (Filling i) \<Longrightarrow> i < 64 \<and> \<not> g_used (ms_tab s) ! i"
    and "ms_busy s t = Some (Clearing i) \<Longrightarrow> dying (ms_tab s) i \<and> mb_mu (g_slots (ms_tab s) ! i) = Free"
    and "ms_busy s = Map.empty \<Longrightarrow> \<not> dying (ms_tab s) i"
    and "ms_busy s t \<noteq> None \<Longrightarrow> ms_busy s u \<noteq> None \<Longrightarrow> t = u"
  using assms by (auto simp: m_inv_def m_users_def m_table_def)

text \<open>While a thread is inside, the slots marked are those it clears.\<close>

lemma dying_busy:
  assumes "m_inv s" and "ms_busy s t = Some b"
  shows "dying (ms_tab s) i \<longleftrightarrow> b = Clearing i"
proof -
  have "dying (ms_tab s) i \<longleftrightarrow> (\<exists>u. ms_busy s u = Some (Clearing i))"
    using assms(1) by (simp add: m_inv_def m_table_def)
  moreover have "u = t" if "ms_busy s u = Some (Clearing i)" for u
    using m_invD(7) [OF assms(1), of u t] that assms(2) by simp
  ultimately show ?thesis using assms(2) by auto
qed

text \<open>A lock or an unlock leaves what creates and destroys work on alone.\<close>

lemma m_table_same:
  assumes "m_table s" and "same_slots (ms_tab s) (ms_tab s')" and "ms_busy s' = ms_busy s"
  shows "m_table s'"
  using assms same_slots_dying [OF assms(2)] by (auto simp: m_table_def same_slots_def)

lemma m_users_same:
  assumes "m_users s" and "mutex_of (ms_tab s') = mutex_of (ms_tab s)" and "ms_wait s' = ms_wait s"
    and "ms_holds s' = ms_holds s"
  shows "m_users s'"
  using assms by (simp add: m_users_def)

lemma lock_end_result:
  assumes "mutex_ok tb" and "mutex_of tb h \<noteq> NoMutex"
    and "fx_mutex_lock_end t ok (slot_of h) tb = Some (Some (rc, tab))"
  shows "mutex_of tb h = Free \<and> rc = (if ok then 0 else 1) \<and> mutex_ok tab \<and>
    mutex_of tab = (mutex_of tb)(h := if ok then Held t else Free) \<and> same_slots tb tab"
  using lock_end_spec [OF assms(1,2), of t ok] assms(2,3) by (auto split: pmutex.splits)

text \<open>A mutex nobody uses that is not free is no mutex at all.\<close>

lemma unused_free:
  assumes "m_inv s" and "unused s h" and "mutex_of (ms_tab s) h \<noteq> NoMutex"
  shows "mutex_of (ms_tab s) h = Free"
  using assms m_invD(2) [OF assms(1), of h] by (cases "mutex_of (ms_tab s) h") (auto simp: unused_def)

lemma new_unused:
  assumes "m_inv s" and "mutex_of (ms_tab s) h = NoMutex"
  shows "unused s h"
  using assms m_invD(2,3) [OF assms(1)] by (auto simp: unused_def)

section \<open>Every step keeps it\<close>

lemma inv_scan:
  assumes "m_inv s" and "ms_busy s = Map.empty" and "create_scan 0 (ms_tab s) = Some p"
  shows "m_inv (s\<lparr>ms_busy := (ms_busy s)(t := map_option Filling p)\<rparr>)"
  using create_scan_spec [OF m_invD(1) [OF assms(1)], of 0] assms m_invD(6) [OF assms(1,2)]
  by (cases p) (auto simp: m_inv_def m_users_def m_table_def)

lemma inv_fill:
  assumes "m_inv s" and b: "ms_busy s t = Some (Filling i)" and f: "create_fill ok i (ms_tab s) = Some (h, tab)"
  shows "m_inv (s\<lparr>ms_tab := tab, ms_busy := (ms_busy s)(t := None)\<rparr>)" (is "m_inv ?s")
proof -
  note ok = m_invD(1) [OF assms(1)]
  have only: "u = t" if "ms_busy s u \<noteq> None" for u using m_invD(7) [OF assms(1), of u t] b that by simp
  have d: "\<not> dying (ms_tab s) j" for j
    using dying_busy [OF assms(1) b] by simp
  from create_fill_spec [OF ok, of i ok] m_invD(4) [OF assms(1) b] f
  have c: "mutex_ok tab" "mutex_of (ms_tab s) (of_nat (i + 1)) = NoMutex"
    "if ok then mutex_of tab = (mutex_of (ms_tab s))(of_nat (i + 1) := Free) \<and> (\<forall>j. dying tab j \<longleftrightarrow> dying (ms_tab s) j)
     else tab = ms_tab s" by auto
  have dt: "\<not> dying tab j" for j using c(3) d by (simp split: if_splits)
  have "m_table ?s" using only dt by (auto simp: m_table_def split: if_splits)
  moreover have "m_users ?s" using c(2,3) assms(1) by (auto simp: m_inv_def m_users_def split: if_splits)
  ultimately show ?thesis using c(1) by (simp add: m_inv_def)
qed

lemma inv_lock:
  assumes "m_inv s" and "fx_mutex_lock h (ms_tab s) = Some (LockWait idx)"
  shows "m_inv (s\<lparr>ms_wait := (ms_wait s)(t \<mapsto> (h, idx))\<rparr>)"
  using assms lock_spec [OF m_invD(1) [OF assms(1)], of h]
  by (auto simp: m_inv_def m_users_def m_table_def split: if_splits)

lemma inv_locked:
  assumes "m_inv s" and "ms_wait s t = Some (h, idx)"
    and "fx_mutex_lock_end t ok idx (ms_tab s) = Some (Some (rc, tab))"
  shows "m_inv (s\<lparr>ms_tab := tab, ms_wait := (ms_wait s)(t := None),
      ms_holds := (ms_holds s)(t := (if rc = 0 then insert h (ms_holds s t) else ms_holds s t))\<rparr>)" (is "m_inv ?s")
proof -
  note w = m_invD(3) [OF assms(1,2)]
  note r = lock_end_result [OF m_invD(1) [OF assms(1)] conjunct1 [OF w] assms(3) [unfolded conjunct2 [OF w]]]
  have "m_table ?s" by (rule m_table_same [of s]) (use assms(1) r in \<open>simp_all add: m_inv_def\<close>)
  moreover have "m_users ?s" using assms(1) r by (cases ok) (auto simp: m_inv_def m_users_def)
  ultimately show ?thesis using r by (simp add: m_inv_def)
qed

lemma inv_unlock:
  assumes "m_inv s" and "h \<in> ms_holds s t \<or> slot_mut h (ms_tab s) = Some None"
    and "fx_mutex_unlock t ok h (ms_tab s) = Some (rc, tab)"
  shows "m_inv (s\<lparr>ms_tab := tab,
      ms_holds := (ms_holds s)(t := (if rc = 0 then ms_holds s t - {h} else ms_holds s t))\<rparr>)" (is "m_inv ?s")
proof (cases "h \<in> ms_holds s t")
  case True
  note ok = m_invD(1) [OF assms(1)]
  have h: "mutex_of (ms_tab s) h = Held t" using True m_invD(2) [OF assms(1)] by simp
  from unlock_spec [OF ok h, of ok] assms(3) have r: "rc = (if ok then 0 else 1)" "mutex_ok tab"
    "mutex_of tab = (mutex_of (ms_tab s))(h := if ok then Free else Held t)" "same_slots (ms_tab s) tab" by auto
  have "m_table ?s" by (rule m_table_same [of s]) (use assms(1) r in \<open>simp_all add: m_inv_def\<close>)
  moreover have "m_users ?s" using assms(1) h r by (cases ok) (auto simp: m_inv_def m_users_def)
  ultimately show ?thesis using r by (simp add: m_inv_def)
next
  case False
  then have "tab = ms_tab s" "rc = 1" using assms(2,3) by (auto simp: fx_mutex_unlock_def)
  then show ?thesis using assms(1) by simp
qed

lemma inv_check:
  assumes "m_inv s" and b: "ms_busy s = Map.empty" and "unused s h" and c: "destroy_check h (ms_tab s) = Some (p, tab)"
  shows "m_inv (s\<lparr>ms_tab := tab, ms_busy := (ms_busy s)(t := map_option Clearing p)\<rparr>)" (is "m_inv ?s")
proof -
  note ok = m_invD(1) [OF assms(1)]
  note d = m_invD(6) [OF assms(1) b]
  show ?thesis
  proof (cases "mutex_of (ms_tab s) h = NoMutex")
    case True
    have "p = None" "tab = ms_tab s" using destroy_check_dead [OF ok True] d c by auto
    moreover have "s\<lparr>ms_busy := (ms_busy s)(t := None)\<rparr> = s" using b by (cases s) simp
    ultimately show ?thesis using assms(1) by simp
  next
    case False
    note f = unused_free [OF assms(1,3) False]
    from destroy_check_spec [OF ok False] c d f have r: "p = Some (slot_of h)" "mutex_ok tab"
      "mutex_of tab = (mutex_of (ms_tab s))(h := NoMutex)" "mb_mu (g_slots tab ! slot_of h) = Free"
      "\<And>i. dying tab i \<longleftrightarrow> i = slot_of h" by auto
    have "m_table ?s" using b r by (auto simp: m_table_def)
    moreover have "m_users ?s" using assms(1,3) f r(3) by (auto simp: m_inv_def m_users_def unused_def)
    ultimately show ?thesis using r(2) by (simp add: m_inv_def)
  qed
qed

lemma inv_clear:
  assumes "m_inv s" and b: "ms_busy s t = Some (Clearing i)" and c: "destroy_clear i (ms_tab s) = Some (rc, tab)"
  shows "m_inv (s\<lparr>ms_tab := tab, ms_busy := (ms_busy s)(t := None)\<rparr>)" (is "m_inv ?s")
proof -
  note ok = m_invD(1) [OF assms(1)]
  have only: "u = t" if "ms_busy s u \<noteq> None" for u using m_invD(7) [OF assms(1), of u t] b that by simp
  have d: "dying (ms_tab s) j \<longleftrightarrow> j = i" for j
    using dying_busy [OF assms(1) b] by auto
  from destroy_clear_spec [OF ok] m_invD(5) [OF assms(1) b] c d
  have r: "mutex_ok tab" "mutex_of tab = mutex_of (ms_tab s)" "\<And>j. \<not> dying tab j" by auto
  have "m_table ?s" using only r(3) by (auto simp: m_table_def split: if_splits)
  moreover have "m_users ?s" by (rule m_users_same [of s]) (use assms(1) r in \<open>simp_all add: m_inv_def\<close>)
  ultimately show ?thesis using r(1) by (simp add: m_inv_def)
qed

lemma m_inv_step: "m_step True e s s' \<Longrightarrow> m_inv s \<Longrightarrow> m_inv s'"
proof (induction rule: m_step.induct)
  case (m_scan s t p)
  then show ?case by (intro inv_scan) simp_all
next
  case (m_check s t h p tab)
  then show ?case by (intro inv_check) simp_all
qed (simp_all add: inv_fill inv_lock inv_locked inv_unlock inv_clear del: fun_upd_apply)

lemma mutex_of_start: "mutex_of mutex_start h = NoMutex"
  by (auto simp: mutex_of_def mutex_start_def zero_body_def nth_replicate simp flip: nat_less_iff)

lemma m_inv_start: "m_inv m_start"
proof -
  have "\<not> dying mutex_start i" for i by (auto simp: dying_def mutex_start_def)
  then show ?thesis by (simp add: m_inv_def m_users_def m_table_def m_start_def mutex_ok_start mutex_of_start)
qed

lemma m_inv_reach: "m_reach True s \<Longrightarrow> m_inv s"
  by (induction rule: m_reach.induct) (auto intro: m_inv_step m_inv_start)

section \<open>A run\<close>

text \<open>Thread 7 creates a mutex and locks it, thread 8 waits for it.\<close>

definition mutex_demo_tab :: "pmutex \<Rightarrow> mutex_tab" where
  "mutex_demo_tab mu = \<lparr>g_slots = \<lparr>mb_mu = mu, mb_alive = True\<rparr> # replicate 63 zero_body,
     g_used = True # replicate 63 False\<rparr>"

definition mutex_demo ::
  "(thread \<rightharpoonup> inside_table) \<Rightarrow> (thread \<rightharpoonup> i32 \<times> nat) \<Rightarrow> (thread \<Rightarrow> i32 set) \<Rightarrow> pmutex \<Rightarrow> msys" where
  "mutex_demo b w hs mu = \<lparr>ms_tab = mutex_demo_tab mu, ms_busy = b, ms_wait = w, ms_holds = hs\<rparr>"

lemma start_cons: "replicate 64 x = x # replicate 63 x"
  by (simp flip: replicate_Suc)

lemma mutex_demo_scan: "create_scan 0 mutex_start = Some (Some 0)"
  by (subst create_scan.simps) (simp add: FX_MUTEX_SLOTS_def mutex_start_def start_cons aget_def)

lemma mutex_demo_fill: "create_fill True 0 mutex_start = Some (1, mutex_demo_tab Free)"
  by (simp add: create_fill_def mutex_start_def mutex_demo_tab_def start_cons aget_def aset_def set_slot_def
      pthread_mutex_init_def zero_body_def)

lemma mutex_demo_slot: "slot_mut 1 (mutex_demo_tab mu) = Some (Some 0)"
  by (simp add: slot_mut_def mutex_demo_tab_def FX_MUTEX_SLOTS_def aget_def)

lemma mutex_demo_created:
  assumes "m_reach ser \<lparr>ms_tab = mutex_start, ms_busy = b, ms_wait = Map.empty, ms_holds = (\<lambda>t. {})\<rparr>"
    and "b t = Some (Filling 0)"
  shows "m_reach ser (mutex_demo (b(t := None)) Map.empty (\<lambda>t. {}) Free)"
  using mr_step [OF assms(1) m_fill [of _ t 0 True 1 "mutex_demo_tab Free"]] assms(2) mutex_demo_fill
  by (simp add: mutex_demo_def)

lemma mutex_demo_reach:
  "m_reach True (mutex_demo Map.empty [8 \<mapsto> (1, 0)] (\<lambda>t. if t = 7 then {1} else {}) (Held 7))"
proof -
  let ?none = "\<lambda>t :: thread. {} :: i32 set"
  have "m_reach True \<lparr>ms_tab = mutex_start, ms_busy = [7 \<mapsto> Filling 0], ms_wait = Map.empty, ms_holds = ?none\<rparr>"
    using mr_step [OF mr_start m_scan [of m_start 7 True "Some 0"]] mutex_demo_scan
    by (simp add: m_start_def idle_def)
  from mutex_demo_created [OF this, of 7] have a: "m_reach True (mutex_demo Map.empty Map.empty ?none Free)"
    by simp
  have b: "m_reach True (mutex_demo Map.empty [7 \<mapsto> (1, 0)] ?none Free)"
    using mr_step [OF a m_lock [of _ 7 1 0]]
    by (simp add: mutex_demo_def fx_mutex_lock_def mutex_demo_slot idle_def)
  have "m_reach True (mutex_demo Map.empty Map.empty (?none(7 := {1})) (Held 7))"
    using mr_step [OF b m_locked [of _ 7 1 0 True 0 "mutex_demo_tab (Held 7)"]]
    by (simp add: mutex_demo_def fx_mutex_lock_end_def mutex_demo_tab_def aget_def aset_def)
  from mr_step [OF this m_lock [of _ 8 1 0]]
  have "m_reach True (mutex_demo Map.empty [8 \<mapsto> (1, 0)] (?none(7 := {1})) (Held 7))"
    by (simp add: mutex_demo_def fx_mutex_lock_def mutex_demo_slot idle_def)
  moreover have "?none(7 := {1}) = (\<lambda>t. if t = 7 then {1} else {})" by auto
  ultimately show ?thesis by simp
qed

section \<open>The properties\<close>

text \<open>
  C15: mutual exclusion, in every state of a serial run: threads lock, unlock, create and destroy
  in any order and at any time, but no create or destroy begins while another is under way, a
  thread unlocks only what it holds, and only a mutex nobody holds or waits for is destroyed. Two
  threads to which a lock of the same handle has returned 0 and that have not unlocked it since
  are the same thread, and while it holds the handle the table's slot is live and marked with that
  thread. Without the first rule this fails: \<open>unserialised_create_collides\<close>.
\<close>

theorem mutex_exclusion:
  assumes "m_reach True s" and "h \<in> ms_holds s t"
  shows "mutex_of (ms_tab s) h = Held t \<and> slot_mut h (ms_tab s) = Some (Some (slot_of h)) \<and>
    (\<forall>u. h \<in> ms_holds s u \<longrightarrow> u = t)"
proof -
  note inv = m_inv_reach [OF assms(1)]
  show ?thesis using assms(2) m_invD(2) [OF inv] slot_mut_eq [OF m_invD(1) [OF inv], of h] by auto
qed

theorem mutex_exclusion_witness:
  "m_reach True (mutex_demo Map.empty [8 \<mapsto> (1, 0)] (\<lambda>t. if t = 7 then {1} else {}) (Held 7)) \<and>
   mutex_of (mutex_demo_tab (Held 7)) 1 = Held 7"
proof
  have "1 \<in> ms_holds (mutex_demo Map.empty [8 \<mapsto> (1, 0)] (\<lambda>t. if t = 7 then {1} else {}) (Held 7)) 7"
    by (simp add: mutex_demo_def)
  from conjunct1 [OF mutex_exclusion [OF mutex_demo_reach this]] show "mutex_of (mutex_demo_tab (Held 7)) 1 = Held 7"
    by (simp only: mutex_demo_def msys.select_convs)
qed (rule mutex_demo_reach)

lemma scan_all:
  assumes "mutex_ok t"
  shows "\<exists>p. create_scan 0 t = Some p \<and>
    (case p of None \<Rightarrow> \<forall>j < 64. g_used t ! j | Some i \<Rightarrow> i < 64 \<and> \<not> g_used t ! i)"
proof -
  obtain p where p: "create_scan 0 t = Some p"
    "case p of None \<Rightarrow> \<forall>j < 64. 0 \<le> j \<longrightarrow> g_used t ! j | Some i \<Rightarrow> i < 64 \<and> \<not> g_used t ! i"
    using create_scan_spec [OF assms, of 0] by blast
  then show ?thesis by (cases p) auto
qed

text \<open>What one piece of a call does, in the states of a serial run.\<close>

lemma fill_contract:
  assumes "m_inv s" and "ms_busy s t = Some (Filling i)"
  shows "\<exists>tab. create_fill ok i (ms_tab s) = Some (if ok then of_nat (i + 1) else 0, tab) \<and>
    (if ok then mutex_of (ms_tab s) (of_nat (i + 1)) = NoMutex \<and> unused s (of_nat (i + 1)) \<and>
       mutex_of tab = (mutex_of (ms_tab s))(of_nat (i + 1) := Free)
     else tab = ms_tab s)"
  using create_fill_spec [OF m_invD(1) [OF assms(1)], of i ok] m_invD(4) [OF assms] new_unused [OF assms(1)]
  by auto

lemma lock_contract:
  assumes "m_inv s" and "ms_wait s t = Some (h, idx)"
  shows "if \<forall>u. h \<notin> ms_holds s u
    then \<exists>tab. fx_mutex_lock_end t ok idx (ms_tab s) = Some (Some (if ok then 0 else 1, tab)) \<and>
      mutex_of tab = (mutex_of (ms_tab s))(h := if ok then Held t else Free)
    else fx_mutex_lock_end t ok idx (ms_tab s) = Some None"
proof -
  note d = m_invD(3) [OF assms]
  show ?thesis
    using lock_end_spec [OF m_invD(1) [OF assms(1)] conjunct1 [OF d], of t ok] d m_invD(2) [OF assms(1), of h]
    by (cases "mutex_of (ms_tab s) h") auto
qed

lemma check_contract:
  assumes "m_inv s" and "ms_busy s = Map.empty" and "unused s h"
  shows "if mutex_of (ms_tab s) h = NoMutex then destroy_check h (ms_tab s) = Some (None, ms_tab s)
    else \<exists>tab. destroy_check h (ms_tab s) = Some (Some (slot_of h), tab) \<and>
      mutex_of tab = (mutex_of (ms_tab s))(h := NoMutex)"
  using destroy_check_spec [OF m_invD(1) [OF assms(1)], of h]
    destroy_check_dead [OF m_invD(1) [OF assms(1)], of h] m_invD(6) [OF assms(1,2)] by auto

text \<open>
  C39: no call goes wrong, in every state of a serial run (as in C15). Each piece of a call that
  a client may make is defined: it never uses a pthread mutex against its rules, nor the arrays
  out of bounds. A scan finds a slot that is not in use, or all are; filling it makes a handle
  that was no mutex and that nobody used, and changes no other, or, when the initialisation fails,
  returns 0 and changes nothing. A lock and an unlock of what is no mutex return 1. A thread that
  waits goes on waiting while another holds the handle; when nobody does the lock ends, with 0 and the
  handle its own, or with 1 and nothing changed where the pthread call fails. So does the holder's
  unlock. A destroy of a mutex nobody uses ends its handle at once, and then frees its slot.
\<close>

theorem mutex_calls_defined:
  assumes "m_reach True s"
  shows "(\<exists>p. create_scan 0 (ms_tab s) = Some p \<and>
      (case p of None \<Rightarrow> \<forall>j < 64. g_used (ms_tab s) ! j | Some i \<Rightarrow> i < 64 \<and> \<not> g_used (ms_tab s) ! i)) \<and>
    (\<forall>t i ok. ms_busy s t = Some (Filling i) \<longrightarrow>
      (\<exists>tab. create_fill ok i (ms_tab s) = Some (if ok then of_nat (i + 1) else 0, tab) \<and>
        (if ok then mutex_of (ms_tab s) (of_nat (i + 1)) = NoMutex \<and> unused s (of_nat (i + 1)) \<and>
           mutex_of tab = (mutex_of (ms_tab s))(of_nat (i + 1) := Free)
         else tab = ms_tab s))) \<and>
    fx_mutex_lock h (ms_tab s) =
      Some (if mutex_of (ms_tab s) h = NoMutex then LockRet 1 else LockWait (slot_of h)) \<and>
    (mutex_of (ms_tab s) h = NoMutex \<longrightarrow> (\<forall>t ok. fx_mutex_unlock t ok h (ms_tab s) = Some (1, ms_tab s))) \<and>
    (\<forall>t idx ok. ms_wait s t = Some (h, idx) \<longrightarrow>
      (if \<forall>u. h \<notin> ms_holds s u
       then \<exists>tab. fx_mutex_lock_end t ok idx (ms_tab s) = Some (Some (if ok then 0 else 1, tab)) \<and>
         mutex_of tab = (mutex_of (ms_tab s))(h := if ok then Held t else Free)
       else fx_mutex_lock_end t ok idx (ms_tab s) = Some None)) \<and>
    (\<forall>t ok. h \<in> ms_holds s t \<longrightarrow>
      (\<exists>tab. fx_mutex_unlock t ok h (ms_tab s) = Some (if ok then 0 else 1, tab) \<and>
        mutex_of tab = (mutex_of (ms_tab s))(h := if ok then Free else Held t))) \<and>
    (ms_busy s = Map.empty \<longrightarrow> unused s h \<longrightarrow>
      (if mutex_of (ms_tab s) h = NoMutex then destroy_check h (ms_tab s) = Some (None, ms_tab s)
       else \<exists>tab. destroy_check h (ms_tab s) = Some (Some (slot_of h), tab) \<and>
         mutex_of tab = (mutex_of (ms_tab s))(h := NoMutex))) \<and>
    (\<forall>t i. ms_busy s t = Some (Clearing i) \<longrightarrow>
      (\<exists>tab. destroy_clear i (ms_tab s) = Some (0, tab) \<and> mutex_of tab = mutex_of (ms_tab s) \<and>
        \<not> g_used tab ! i))"
proof (intro conjI allI impI)
  note inv = m_inv_reach [OF assms]
  note ok = m_invD(1) [OF inv]
  show "\<exists>p. create_scan 0 (ms_tab s) = Some p \<and>
      (case p of None \<Rightarrow> \<forall>j < 64. g_used (ms_tab s) ! j | Some i \<Rightarrow> i < 64 \<and> \<not> g_used (ms_tab s) ! i)"
    by (rule scan_all [OF ok])
  show "fx_mutex_unlock t k h (ms_tab s) = Some (1, ms_tab s)" if "mutex_of (ms_tab s) h = NoMutex" for t k
    by (rule dead_handle_spec(2) [OF ok that])
  show "\<exists>tab. fx_mutex_unlock t k h (ms_tab s) = Some (if k then 0 else 1, tab) \<and>
        mutex_of tab = (mutex_of (ms_tab s))(h := if k then Free else Held t)" if "h \<in> ms_holds s t" for t k
    using unlock_spec [OF ok, of h t k] that m_invD(2) [OF inv, of h t] by auto
  show "\<exists>tab. destroy_clear i (ms_tab s) = Some (0, tab) \<and> mutex_of tab = mutex_of (ms_tab s) \<and> \<not> g_used tab ! i"
    if "ms_busy s t = Some (Clearing i)" for t i
    using destroy_clear_spec [OF ok] m_invD(5) [OF inv that] by blast
qed (intro fill_contract lock_contract check_contract lock_spec m_invD(1) m_inv_reach [OF assms]; assumption)+

theorem mutex_calls_defined_witness:
  "m_reach True (mutex_demo Map.empty [8 \<mapsto> (1, 0)] (\<lambda>t. if t = 7 then {1} else {}) (Held 7)) \<and>
   fx_mutex_lock_end 8 True 0 (mutex_demo_tab (Held 7)) = Some None \<and>
   (\<exists>tab. fx_mutex_unlock 7 True 1 (mutex_demo_tab (Held 7)) = Some (0, tab) \<and> mutex_of tab 1 = Free)"
proof -
  let ?s = "mutex_demo Map.empty [8 \<mapsto> (1, 0)] (\<lambda>t. if t = 7 then {1} else {}) (Held 7)"
  note calls = mutex_calls_defined [OF mutex_demo_reach, of 1]
  note lock = calls [THEN conjunct2, THEN conjunct2, THEN conjunct2, THEN conjunct2, THEN conjunct1]
  note unlock = calls [THEN conjunct2, THEN conjunct2, THEN conjunct2, THEN conjunct2, THEN conjunct2, THEN conjunct1]
  have tab: "ms_tab ?s = mutex_demo_tab (Held 7)" and w: "ms_wait ?s 8 = Some (1, 0)" and h: "1 \<in> ms_holds ?s 7"
    by (simp_all add: mutex_demo_def)
  have "fx_mutex_lock_end 8 True 0 (mutex_demo_tab (Held 7)) = Some None"
    using lock [rule_format, OF w, of True] h unfolding tab by (simp split: if_splits)
  moreover have "\<exists>tab. fx_mutex_unlock 7 True 1 (mutex_demo_tab (Held 7)) = Some (0, tab) \<and> mutex_of tab 1 = Free"
    using unlock [rule_format, OF h, of True] unfolding tab by auto
  ultimately show ?thesis using mutex_demo_reach by blast
qed

section \<open>A whole create and a whole destroy\<close>

text \<open>
  When no other thread is inside, a create hands out a handle between 1 and 64 that was no mutex
  and changes no other; it answers 0, changing nothing, only when the initialisation fails or all
  64 slots are in use. A destroy of a mutex nobody uses succeeds, and of what is none is refused.
\<close>

lemma mutex_create_fresh:
  assumes "m_reach True s"
  shows "\<exists>h tab. fx_mutex_create ok (ms_tab s) = Some (h, tab) \<and>
    (if h = 0 then tab = ms_tab s \<and> (ok \<longrightarrow> (\<forall>j < 64. g_used (ms_tab s) ! j))
     else 1 \<le> sint h \<and> sint h \<le> 64 \<and> mutex_of (ms_tab s) h = NoMutex \<and> unused s h \<and>
       mutex_of tab = (mutex_of (ms_tab s))(h := Free))"
proof -
  note inv = m_inv_reach [OF assms]
  note tab = m_invD(1) [OF inv]
  obtain p where p: "create_scan 0 (ms_tab s) = Some p"
    "case p of None \<Rightarrow> \<forall>j < 64. g_used (ms_tab s) ! j | Some i \<Rightarrow> i < 64 \<and> \<not> g_used (ms_tab s) ! i"
    using scan_all [OF tab] by blast
  show ?thesis
  proof (cases p)
    case (Some i)
    then show ?thesis
      using p create_fill_spec [OF tab, of i ok] new_unused [OF inv, of "of_nat (i + 1)"] handle_slot [of i]
      by (cases ok) (auto simp: fx_mutex_create_def)
  qed (use p in \<open>simp add: fx_mutex_create_def\<close>)
qed

lemma mutex_destroy_whole:
  assumes "m_reach True s" and "ms_busy s = Map.empty" and "unused s h"
  shows "if mutex_of (ms_tab s) h = NoMutex then fx_mutex_destroy h (ms_tab s) = Some (1, ms_tab s)
    else \<exists>tab. fx_mutex_destroy h (ms_tab s) = Some (0, tab) \<and> mutex_of tab = (mutex_of (ms_tab s))(h := NoMutex)"
proof (cases "mutex_of (ms_tab s) h = NoMutex")
  case True
  then show ?thesis using check_contract [OF m_inv_reach [OF assms(1)] assms(2,3)]
    by (simp add: fx_mutex_destroy_def)
next
  case False
  note inv = m_inv_reach [OF assms(1)]
  obtain tab where t: "destroy_check h (ms_tab s) = Some (Some (slot_of h), tab)" "mutex_ok tab"
    "mutex_of tab = (mutex_of (ms_tab s))(h := NoMutex)" "mb_mu (g_slots tab ! slot_of h) = Free" "dying tab (slot_of h)"
    using destroy_check_spec [OF m_invD(1) [OF inv] False] unused_free [OF inv assms(3) False] by auto
  from destroy_clear_spec [OF t(2,5,4)] t(1,3) False show ?thesis by (auto simp: fx_mutex_destroy_def)
qed

section \<open>Two threads inside create\<close>

text \<open>
  When a create may begin while another thread is between its scan and its fill, both get the
  same slot: one has filled it and handed the handle out, and the other's initialisation of the mutex already
  in use is undefined.
\<close>

lemma unserialised_create_collides:
  "m_reach False (mutex_demo [2 \<mapsto> Filling 0] Map.empty (\<lambda>t. {}) Free) \<and>
   create_fill True 0 (mutex_demo_tab Free) = None"
proof
  let ?s = "\<lambda>b. \<lparr>ms_tab = mutex_start, ms_busy = b, ms_wait = Map.empty, ms_holds = (\<lambda>t. {})\<rparr>"
  have a: "m_reach False (?s [1 \<mapsto> Filling 0])"
    using mr_step [OF mr_start m_scan [of m_start 1 False "Some 0"]] mutex_demo_scan
    by (simp add: m_start_def idle_def)
  have "m_reach False (?s [1 \<mapsto> Filling 0, 2 \<mapsto> Filling 0])"
    using mr_step [OF a m_scan [of _ 2 False "Some 0"]] mutex_demo_scan by (simp add: idle_def)
  from mutex_demo_created [OF this, of 1]
  show "m_reach False (mutex_demo [2 \<mapsto> Filling 0] Map.empty (\<lambda>t. {}) Free)"
    by (simp add: fun_upd_twist)
  show "create_fill True 0 (mutex_demo_tab Free) = None"
    by (simp add: create_fill_def mutex_demo_tab_def aget_def pthread_mutex_init_def)
qed

end
