(* ===== verification/MutexWin.thy ===== *)
theory MutexWin
  imports MutexTheorems
begin

text \<open>
  The Windows branch of \<open>host/concur/fx_mutex.c\<close>: the same table over critical sections, which
  count how often their owner has entered them. A thread that locks a mutex it holds goes on,
  where with pthreads it waits for ever; otherwise the two builds agree, and every serial run on
  Windows is one of the pthread table, step for step, with the inner locks and unlocks left out.
\<close>

section \<open>Critical sections\<close>

datatype csect = NoSection | Unowned | Owned thread nat

definition InitializeCriticalSection :: "csect \<Rightarrow> csect option" where
  "InitializeCriticalSection c = (if c \<noteq> NoSection then None else Some Unowned)"

text \<open>The inner None is a thread that waits.\<close>

fun EnterCriticalSection :: "thread \<Rightarrow> csect \<Rightarrow> csect option option" where
  "EnterCriticalSection t NoSection = None"
| "EnterCriticalSection t Unowned = Some (Some (Owned t 1))"
| "EnterCriticalSection t (Owned u n) = (if t = u then Some (Some (Owned t (n + 1))) else Some None)"

fun LeaveCriticalSection :: "thread \<Rightarrow> csect \<Rightarrow> csect option" where
  "LeaveCriticalSection t (Owned u n) =
     (if t \<noteq> u then None else Some (if n \<le> 1 then Unowned else Owned t (n - 1)))"
| "LeaveCriticalSection t c = None"

fun DeleteCriticalSection :: "csect \<Rightarrow> csect option" where
  "DeleteCriticalSection Unowned = Some NoSection"
| "DeleteCriticalSection c = None"

section \<open>The code\<close>

record win_body =
  wb_cs :: csect
  wb_alive :: bool

record win_tab =
  wt_slots :: "win_body list"
  wt_used :: "bool list"

definition win_zero :: win_body where
  "win_zero = \<lparr>wb_cs = NoSection, wb_alive = False\<rparr>"

definition win_start :: win_tab where
  "win_start = \<lparr>wt_slots = replicate 64 win_zero, wt_used = replicate 64 False\<rparr>"

definition set_slot_win :: "nat \<Rightarrow> win_body \<Rightarrow> bool \<Rightarrow> win_tab \<Rightarrow> win_tab option" where
  "set_slot_win i b u t =
     do { slots \<leftarrow> aset (wt_slots t) i b; used \<leftarrow> aset (wt_used t) i u;
          Some \<lparr>wt_slots = slots, wt_used = used\<rparr> }"

definition slot_mut_win :: "i32 \<Rightarrow> win_tab \<Rightarrow> nat option option" where
  "slot_mut_win ident t =
     (if sint ident < 1 \<or> sint ident > FX_MUTEX_SLOTS then Some None
      else let idx = nat (sint ident - 1) in do {
        used \<leftarrow> aget (wt_used t) idx;
        m \<leftarrow> aget (wt_slots t) idx;
        Some (if \<not> used \<or> \<not> wb_alive m then None else Some idx) })"

function create_scan_win :: "nat \<Rightarrow> win_tab \<Rightarrow> nat option option" where
  "create_scan_win i t =
     (if int i < FX_MUTEX_SLOTS then do {
        used \<leftarrow> aget (wt_used t) i;
        if \<not> used then Some (Some i) else create_scan_win (i + 1) t }
      else Some None)"
  by pat_completeness auto
termination by (relation "measure (\<lambda>(i, t). 64 - i)") (auto simp: FX_MUTEX_SLOTS_def)

declare create_scan_win.simps [simp del]

definition create_fill_win :: "nat \<Rightarrow> win_tab \<Rightarrow> (i32 \<times> win_tab) option" where
  "create_fill_win i t =
     do { m \<leftarrow> aget (wt_slots t) i;
          cs \<leftarrow> InitializeCriticalSection (wb_cs m);
          t \<leftarrow> set_slot_win i \<lparr>wb_cs = cs, wb_alive = True\<rparr> True t;
          Some (of_nat (i + 1), t) }"

definition fx_mutex_create_win :: "win_tab \<Rightarrow> (i32 \<times> win_tab) option" where
  "fx_mutex_create_win t =
     do { p \<leftarrow> create_scan_win 0 t;
          case p of None \<Rightarrow> Some (0, t) | Some i \<Rightarrow> create_fill_win i t }"

definition fx_mutex_lock_win :: "i32 \<Rightarrow> win_tab \<Rightarrow> lock_out option" where
  "fx_mutex_lock_win handle t =
     do { m \<leftarrow> slot_mut_win handle t;
          case m of None \<Rightarrow> Some (LockRet 1) | Some idx \<Rightarrow> Some (LockWait idx) }"

definition fx_mutex_lock_end_win :: "thread \<Rightarrow> nat \<Rightarrow> win_tab \<Rightarrow> (i32 \<times> win_tab) option option" where
  "fx_mutex_lock_end_win me idx t =
     do { m \<leftarrow> aget (wt_slots t) idx;
          r \<leftarrow> EnterCriticalSection me (wb_cs m);
          case r of None \<Rightarrow> Some None
          | Some cs \<Rightarrow> do {
              slots \<leftarrow> aset (wt_slots t) idx (m\<lparr>wb_cs := cs\<rparr>);
              Some (Some (0, t\<lparr>wt_slots := slots\<rparr>)) } }"

definition fx_mutex_unlock_win :: "thread \<Rightarrow> i32 \<Rightarrow> win_tab \<Rightarrow> (i32 \<times> win_tab) option" where
  "fx_mutex_unlock_win me handle t =
     do { p \<leftarrow> slot_mut_win handle t;
          case p of None \<Rightarrow> Some (1, t)
          | Some idx \<Rightarrow> do {
              m \<leftarrow> aget (wt_slots t) idx;
              cs \<leftarrow> LeaveCriticalSection me (wb_cs m);
              slots \<leftarrow> aset (wt_slots t) idx (m\<lparr>wb_cs := cs\<rparr>);
              Some (0, t\<lparr>wt_slots := slots\<rparr>) } }"

definition destroy_check_win :: "i32 \<Rightarrow> win_tab \<Rightarrow> (nat option \<times> win_tab) option" where
  "destroy_check_win handle t =
     (if sint handle < 1 \<or> sint handle > FX_MUTEX_SLOTS then Some (None, t)
      else let idx = nat (sint handle - 1) in do {
        used \<leftarrow> aget (wt_used t) idx;
        if \<not> used then Some (None, t)
        else do {
          m \<leftarrow> aget (wt_slots t) idx;
          slots \<leftarrow> aset (wt_slots t) idx (m\<lparr>wb_alive := False\<rparr>);
          Some (Some idx, t\<lparr>wt_slots := slots\<rparr>) } })"

definition destroy_clear_win :: "nat \<Rightarrow> win_tab \<Rightarrow> (i32 \<times> win_tab) option" where
  "destroy_clear_win idx t =
     do { m \<leftarrow> aget (wt_slots t) idx;
          _ \<leftarrow> DeleteCriticalSection (wb_cs m);
          t \<leftarrow> set_slot_win idx win_zero False t;
          Some (0, t) }"

definition fx_mutex_destroy_win :: "i32 \<Rightarrow> win_tab \<Rightarrow> (i32 \<times> win_tab) option" where
  "fx_mutex_destroy_win handle t =
     do { (p, t) \<leftarrow> destroy_check_win handle t;
          case p of None \<Rightarrow> Some (1, t) | Some idx \<Rightarrow> destroy_clear_win idx t }"

section \<open>The table as one of pthread mutexes\<close>

fun mu_of :: "csect \<Rightarrow> pmutex" where
  "mu_of NoSection = NoMutex"
| "mu_of Unowned = Free"
| "mu_of (Owned t n) = Held t"

definition abs_body :: "win_body \<Rightarrow> fx_mutex_body" where
  "abs_body b = \<lparr>mb_mu = mu_of (wb_cs b), mb_alive = wb_alive b\<rparr>"

definition abs_tab :: "win_tab \<Rightarrow> mutex_tab" where
  "abs_tab t = \<lparr>g_slots = map abs_body (wt_slots t), g_used = wt_used t\<rparr>"

lemma abs_tab_simps [simp]:
  "g_slots (abs_tab t) = map abs_body (wt_slots t)" "g_used (abs_tab t) = wt_used t"
  "mb_mu (abs_body b) = mu_of (wb_cs b)" "mb_alive (abs_body b) = wb_alive b"
  "abs_body (b\<lparr>wb_cs := c\<rparr>) = (abs_body b)\<lparr>mb_mu := mu_of c\<rparr>"
  "abs_body (b\<lparr>wb_alive := a\<rparr>) = (abs_body b)\<lparr>mb_alive := a\<rparr>" "abs_body win_zero = zero_body"
  "abs_body \<lparr>wb_cs = c, wb_alive = a\<rparr> = \<lparr>mb_mu = mu_of c, mb_alive = a\<rparr>"
  by (simp_all add: abs_tab_def abs_body_def win_zero_def zero_body_def)

lemma aget_map: "aget (map f xs) i = map_option f (aget xs i)"
  by (simp add: aget_def)

lemma aset_map: "aset (map f xs) i (f v) = map_option (map f) (aset xs i v)"
  by (simp add: aset_def map_update)

lemma mu_of_none [simp]: "mu_of c = NoMutex \<longleftrightarrow> c = NoSection" "mu_of c = Free \<longleftrightarrow> c = Unowned"
  by (cases c; simp)+

lemma slot_mut_win_eq: "slot_mut_win h t = slot_mut h (abs_tab t)"
  by (simp add: slot_mut_win_def slot_mut_def aget_def Let_def)

lemma set_slot_abs: "set_slot i (abs_body b) u (abs_tab t) = map_option abs_tab (set_slot_win i b u t)"
  by (auto simp: set_slot_win_def set_slot_def aset_def abs_tab_def map_update)

lemma init_abs: "pthread_mutex_init True (mu_of c) = map_option (\<lambda>c. (True, mu_of c)) (InitializeCriticalSection c)"
  by (simp add: pthread_mutex_init_def InitializeCriticalSection_def)

lemma delete_abs: "pthread_mutex_destroy (mu_of c) = map_option mu_of (DeleteCriticalSection c)"
  by (cases c) simp_all

definition abs_result :: "'a \<times> win_tab \<Rightarrow> 'a \<times> mutex_tab" where
  "abs_result r = (fst r, abs_tab (snd r))"

lemma abs_result_simp [simp]: "abs_result (rc, t) = (rc, abs_tab t)"
  by (simp add: abs_result_def)

text \<open>Creating, looking up and destroying are the same on both; initialising never fails here.\<close>

lemma create_scan_win_eq: "create_scan_win i t = create_scan i (abs_tab t)"
proof (induction i t rule: create_scan_win.induct)
  case (1 i t)
  show ?case
    by (subst create_scan.simps, subst create_scan_win.simps) (use 1 in \<open>auto simp: aget_def\<close>)
qed

lemma create_fill_win_eq: "map_option abs_result (create_fill_win i t) = create_fill True i (abs_tab t)"
proof -
  have s: "set_slot i \<lparr>mb_mu = mu_of c, mb_alive = True\<rparr> True (abs_tab t) =
    map_option abs_tab (set_slot_win i \<lparr>wb_cs = c, wb_alive = True\<rparr> True t)" for c
    using set_slot_abs [of i "\<lparr>wb_cs = c, wb_alive = True\<rparr>" True t] by simp
  show ?thesis
    by (auto simp: create_fill_def create_fill_win_def aget_map init_abs s split: Option.bind_splits)
qed

lemma lock_win_eq: "fx_mutex_lock_win h t = fx_mutex_lock h (abs_tab t)"
  by (simp add: fx_mutex_lock_win_def fx_mutex_lock_def slot_mut_win_eq)

lemma destroy_check_win_eq: "map_option abs_result (destroy_check_win h t) = destroy_check h (abs_tab t)"
  using aset_map [of abs_body "wt_slots t" "nat (sint h - 1)"]
  by (auto simp: destroy_check_def destroy_check_win_def Let_def aget_def aset_def abs_tab_def map_update)

lemma destroy_clear_win_eq: "map_option abs_result (destroy_clear_win i t) = destroy_clear i (abs_tab t)"
  using set_slot_abs [of _ win_zero False t]
  by (auto simp: destroy_clear_def destroy_clear_win_def aget_map delete_abs split: Option.bind_splits)

lemma whole_win_eq:
  "map_option abs_result (fx_mutex_create_win t) = fx_mutex_create True (abs_tab t)"
  "map_option abs_result (fx_mutex_destroy_win h t) = fx_mutex_destroy h (abs_tab t)"
proof -
  show "map_option abs_result (fx_mutex_create_win t) = fx_mutex_create True (abs_tab t)"
    by (auto simp: fx_mutex_create_def fx_mutex_create_win_def create_scan_win_eq create_fill_win_eq
        split: Option.bind_splits option.splits)
  show "map_option abs_result (fx_mutex_destroy_win h t) = fx_mutex_destroy h (abs_tab t)"
    by (auto simp: fx_mutex_destroy_def fx_mutex_destroy_win_def destroy_clear_win_eq
        split: Option.bind_splits option.splits simp flip: destroy_check_win_eq)
qed

section \<open>The section of a handle\<close>

definition cs_of :: "win_tab \<Rightarrow> i32 \<Rightarrow> csect" where
  "cs_of t h = (if 1 \<le> sint h \<and> sint h \<le> 64 \<and> wb_alive (wt_slots t ! slot_of h)
     then wb_cs (wt_slots t ! slot_of h) else NoSection)"

text \<open>How often a thread is inside a section.\<close>

definition times_in :: "thread \<Rightarrow> csect \<Rightarrow> nat" where
  "times_in t c = (case c of Owned u n \<Rightarrow> if u = t then n else 0 | _ \<Rightarrow> 0)"

lemma times_in_simps [simp]:
  "times_in t NoSection = 0" "times_in t Unowned = 0" "times_in t (Owned u n) = (if u = t then n else 0)"
  by (simp_all add: times_in_def)

definition put_cs :: "i32 \<Rightarrow> csect \<Rightarrow> win_tab \<Rightarrow> win_tab" where
  "put_cs h c t = t\<lparr>wt_slots := (wt_slots t)[slot_of h := (wt_slots t ! slot_of h)\<lparr>wb_cs := c\<rparr>]\<rparr>"

lemma mutex_of_abs: "mutex_ok (abs_tab t) \<Longrightarrow> mutex_of (abs_tab t) h = mu_of (cs_of t h)"
  by (auto simp: mutex_of_def cs_of_def slot_of_def mutex_ok_def)

lemma live_cs:
  assumes "mutex_ok (abs_tab t)" and "cs_of t h \<noteq> NoSection"
  shows "1 \<le> sint h" and "sint h \<le> 64" and "slot_of h < length (wt_slots t)"
    and "aget (wt_slots t) (slot_of h) = Some (wt_slots t ! slot_of h)"
    and "wb_cs (wt_slots t ! slot_of h) = cs_of t h" and "slot_mut_win h t = Some (Some (slot_of h))"
proof -
  show h: "1 \<le> sint h" "sint h \<le> 64" using assms(2) by (auto simp: cs_of_def split: if_splits)
  then show l: "slot_of h < length (wt_slots t)" using assms(1) by (auto simp: mutex_ok_def slot_of_def)
  show "aget (wt_slots t) (slot_of h) = Some (wt_slots t ! slot_of h)" using l by (simp add: array_simps)
  show "wb_cs (wt_slots t ! slot_of h) = cs_of t h" using assms(2) by (auto simp: cs_of_def split: if_splits)
  show "slot_mut_win h t = Some (Some (slot_of h))"
    using assms by (simp add: slot_mut_win_eq slot_mut_eq mutex_of_abs)
qed

lemma put_cs_of:
  assumes "mutex_ok (abs_tab t)" and "cs_of t h \<noteq> NoSection"
  shows "cs_of (put_cs h c t) = (cs_of t)(h := c)"
proof -
  have "wb_alive (wt_slots t ! slot_of h)" using assms(2) by (auto simp: cs_of_def split: if_splits)
  then show ?thesis using live_cs [OF assms] slot_of_inj [of h]
    by (auto simp: cs_of_def put_cs_def fun_eq_iff nth_list_update)
qed

lemma put_cs_abs:
  "slot_of h < length (wt_slots t) \<Longrightarrow> abs_tab (put_cs h c t) =
    (abs_tab t)\<lparr>g_slots := (g_slots (abs_tab t))[slot_of h := (g_slots (abs_tab t) ! slot_of h)\<lparr>mb_mu := mu_of c\<rparr>]\<rparr>"
  by (simp add: put_cs_def abs_tab_def map_update abs_body_def)

text \<open>An inner entry or exit does not show.\<close>

lemma put_cs_same:
  assumes "slot_of h < length (wt_slots t)" and "mu_of c = mu_of (wb_cs (wt_slots t ! slot_of h))"
  shows "abs_tab (put_cs h c t) = abs_tab t"
proof -
  have "(g_slots (abs_tab t) ! slot_of h)\<lparr>mb_mu := mu_of c\<rparr> = g_slots (abs_tab t) ! slot_of h"
    using assms by (simp add: abs_body_def)
  then show ?thesis using assms(1) by (simp only: put_cs_abs list_update_id) simp
qed

section \<open>Locking and unlocking a live handle\<close>

lemma lock_end_win:
  assumes "mutex_ok (abs_tab t)" and "cs_of t h \<noteq> NoSection"
  shows "fx_mutex_lock_end_win me (slot_of h) t =
    map_option (map_option (\<lambda>c. (0, put_cs h c t))) (EnterCriticalSection me (cs_of t h))"
  using live_cs [OF assms]
  by (auto simp: fx_mutex_lock_end_win_def put_cs_def array_simps split: option.splits Option.bind_splits)

lemma unlock_win:
  assumes "mutex_ok (abs_tab t)" and "cs_of t h \<noteq> NoSection"
  shows "fx_mutex_unlock_win me h t = map_option (\<lambda>c. (0, put_cs h c t)) (LeaveCriticalSection me (cs_of t h))"
  using live_cs [OF assms]
  by (auto simp: fx_mutex_unlock_win_def put_cs_def array_simps split: option.splits Option.bind_splits)

lemma lock_end_abs:
  assumes "mutex_ok (abs_tab t)" and "cs_of t h = Unowned"
  shows "fx_mutex_lock_end me True (slot_of h) (abs_tab t) = Some (Some (0, abs_tab (put_cs h (Owned me 1) t)))"
  using live_cs [OF assms(1)] assms(2)
  by (simp add: fx_mutex_lock_end_def put_cs_abs array_simps abs_body_def)

lemma unlock_abs:
  assumes "mutex_ok (abs_tab t)" and "cs_of t h = Owned me n"
  shows "fx_mutex_unlock me True h (abs_tab t) = Some (0, abs_tab (put_cs h Unowned t))"
  using live_cs [OF assms(1)] assms(2)
  by (simp add: fx_mutex_unlock_def slot_mut_win_eq put_cs_abs array_simps abs_body_def)

text \<open>Replacing a slot nobody is in leaves every section's threads alone.\<close>

lemma slot_quiet:
  assumes "wt_slots t' = (wt_slots t)[i := b]" and "wb_alive b \<Longrightarrow> wb_cs b \<in> {NoSection, Unowned}"
    and "wb_alive (wt_slots t ! i) \<Longrightarrow> wb_cs (wt_slots t ! i) \<in> {NoSection, Unowned}"
  shows "times_in u (cs_of t' k) = times_in u (cs_of t k) \<and> (cs_of t' k = Owned v n \<longrightarrow> cs_of t k = Owned v n)"
proof (cases "1 \<le> sint k \<and> sint k \<le> 64 \<and> slot_of k = i \<and> i < length (wt_slots t)")
  case True
  then have "cs_of t' k = (if wb_alive b then wb_cs b else NoSection)"
    "cs_of t k = (if wb_alive (wt_slots t ! i) then wb_cs (wt_slots t ! i) else NoSection)"
    using assms(1) by (auto simp: cs_of_def)
  then show ?thesis using assms(2,3) by (auto split: if_splits)
next
  case False
  then have "cs_of t' k = cs_of t k" using assms(1) by (auto simp: cs_of_def nth_list_update not_less list_update_beyond)
  then show ?thesis by simp
qed

lemma set_slot_win_slots: "set_slot_win i b u t = Some t' \<Longrightarrow> wt_slots t' = (wt_slots t)[i := b]"
  by (auto simp: set_slot_win_def bind_iff)

lemma create_fill_win_quiet:
  assumes "create_fill_win i t = Some (h, t')"
  shows "times_in u (cs_of t' k) = times_in u (cs_of t k) \<and> (cs_of t' k = Owned v n \<longrightarrow> cs_of t k = Owned v n)"
proof -
  have "wb_cs (wt_slots t ! i) = NoSection" "set_slot_win i \<lparr>wb_cs = Unowned, wb_alive = True\<rparr> True t = Some t'"
    using assms by (auto simp: create_fill_win_def bind_iff InitializeCriticalSection_def split: if_splits)
  then show ?thesis by (intro slot_quiet [OF set_slot_win_slots]) auto
qed

lemma destroy_clear_win_quiet:
  assumes "destroy_clear_win i t = Some (rc, t')"
  shows "times_in u (cs_of t' k) = times_in u (cs_of t k) \<and> (cs_of t' k = Owned v n \<longrightarrow> cs_of t k = Owned v n)"
proof -
  have "wb_cs (wt_slots t ! i) = Unowned" "set_slot_win i win_zero False t = Some t'"
    using assms by (auto simp: destroy_clear_win_def bind_iff elim!: DeleteCriticalSection.elims)
  then show ?thesis by (intro slot_quiet [OF set_slot_win_slots]) (auto simp: win_zero_def)
qed

lemma destroy_check_win_quiet:
  assumes "destroy_check_win h t = Some (p, t')" and "cs_of t h \<in> {NoSection, Unowned}"
  shows "times_in u (cs_of t' k) = times_in u (cs_of t k) \<and> (cs_of t' k = Owned v n \<longrightarrow> cs_of t k = Owned v n)"
proof -
  consider "t' = t" | "1 \<le> sint h" "sint h \<le> 64"
      "wt_slots t' = (wt_slots t)[slot_of h := (wt_slots t ! slot_of h)\<lparr>wb_alive := False\<rparr>]"
    using assms(1)
    by (auto simp: destroy_check_win_def Let_def bind_iff slot_of_def FX_MUTEX_SLOTS_def split: if_splits)
  then show ?thesis
  proof cases
    case 2
    then show ?thesis using assms(2) by (intro slot_quiet [OF 2(3)]) (auto simp: cs_of_def split: if_splits)
  qed simp
qed

section \<open>Threads that use it\<close>

text \<open>
  The clients keep the rules of critical sections: a thread leaves what it is in, a section
  is deleted when no thread is in it or waits for it, and a create or a destroy begins when no
  thread is inside another. \<open>ws_depth\<close> is what a thread knows: the locks that have returned 0 less
  the unlocks that have.
\<close>

record wsys =
  ws_tab :: win_tab
  ws_busy :: "thread \<rightharpoonup> inside_table"
  ws_wait :: "thread \<rightharpoonup> i32 \<times> nat"
  ws_depth :: "thread \<Rightarrow> i32 \<Rightarrow> nat"

definition bump :: "thread \<Rightarrow> i32 \<Rightarrow> (nat \<Rightarrow> nat) \<Rightarrow> (thread \<Rightarrow> i32 \<Rightarrow> nat) \<Rightarrow> thread \<Rightarrow> i32 \<Rightarrow> nat" where
  "bump t h f d = d(t := (d t)(h := f (d t h)))"

definition unused_win :: "wsys \<Rightarrow> i32 \<Rightarrow> bool" where
  "unused_win s h \<longleftrightarrow> (\<forall>t. ws_depth s t h = 0) \<and> (\<forall>t idx. ws_wait s t \<noteq> Some (h, idx))"

definition idle_win :: "wsys \<Rightarrow> thread \<Rightarrow> bool" where
  "idle_win s t \<longleftrightarrow> ws_busy s t = None \<and> ws_wait s t = None"

inductive w_step :: "m_event \<Rightarrow> wsys \<Rightarrow> wsys \<Rightarrow> bool" where
  w_scan: "idle_win s t \<Longrightarrow> ws_busy s = Map.empty \<Longrightarrow> create_scan_win 0 (ws_tab s) = Some p \<Longrightarrow>
    w_step (Scan t p) s (s\<lparr>ws_busy := (ws_busy s)(t := map_option Filling p)\<rparr>)"
| w_fill: "ws_busy s t = Some (Filling i) \<Longrightarrow> create_fill_win i (ws_tab s) = Some (h, tab) \<Longrightarrow>
    w_step (Fill t h) s (s\<lparr>ws_tab := tab, ws_busy := (ws_busy s)(t := None)\<rparr>)"
| w_refused: "idle_win s t \<Longrightarrow> fx_mutex_lock_win h (ws_tab s) = Some (LockRet rc) \<Longrightarrow>
    w_step (Locked t h rc) s s"
| w_lock: "idle_win s t \<Longrightarrow> fx_mutex_lock_win h (ws_tab s) = Some (LockWait idx) \<Longrightarrow>
    w_step (Wait t h) s (s\<lparr>ws_wait := (ws_wait s)(t \<mapsto> (h, idx))\<rparr>)"
| w_locked: "ws_wait s t = Some (h, idx) \<Longrightarrow>
    fx_mutex_lock_end_win t idx (ws_tab s) = Some (Some (rc, tab)) \<Longrightarrow>
    w_step (Locked t h rc) s (s\<lparr>ws_tab := tab, ws_wait := (ws_wait s)(t := None),
      ws_depth := bump t h (\<lambda>n. if rc = 0 then n + 1 else n) (ws_depth s)\<rparr>)"
| w_unlock: "idle_win s t \<Longrightarrow> 0 < ws_depth s t h \<or> slot_mut_win h (ws_tab s) = Some None \<Longrightarrow>
    fx_mutex_unlock_win t h (ws_tab s) = Some (rc, tab) \<Longrightarrow>
    w_step (Unlocked t h rc) s (s\<lparr>ws_tab := tab,
      ws_depth := bump t h (\<lambda>n. if rc = 0 then n - 1 else n) (ws_depth s)\<rparr>)"
| w_check: "idle_win s t \<Longrightarrow> ws_busy s = Map.empty \<Longrightarrow> unused_win s h \<Longrightarrow>
    destroy_check_win h (ws_tab s) = Some (p, tab) \<Longrightarrow>
    w_step (Check t h p) s (s\<lparr>ws_tab := tab, ws_busy := (ws_busy s)(t := map_option Clearing p)\<rparr>)"
| w_clear: "ws_busy s t = Some (Clearing i) \<Longrightarrow> destroy_clear_win i (ws_tab s) = Some (rc, tab) \<Longrightarrow>
    w_step (Clear t rc) s (s\<lparr>ws_tab := tab, ws_busy := (ws_busy s)(t := None)\<rparr>)"

definition w_start :: wsys where
  "w_start = \<lparr>ws_tab = win_start, ws_busy = Map.empty, ws_wait = Map.empty, ws_depth = (\<lambda>t h. 0)\<rparr>"

inductive w_reach :: "wsys \<Rightarrow> bool" where
  wr_start: "w_reach w_start"
| wr_step: "w_reach s \<Longrightarrow> w_step e s s' \<Longrightarrow> w_reach s'"

text \<open>
  The pthread state it stands for: a thread holds what it is in at all, and one that comes in
  again does not wait.
\<close>

definition abs_wait :: "(thread \<rightharpoonup> i32 \<times> nat) \<Rightarrow> (thread \<Rightarrow> i32 \<Rightarrow> nat) \<Rightarrow> thread \<rightharpoonup> i32 \<times> nat" where
  "abs_wait w d t = (case w t of None \<Rightarrow> None | Some (h, idx) \<Rightarrow> if 0 < d t h then None else Some (h, idx))"

definition mutex_abs :: "wsys \<Rightarrow> msys" where
  "mutex_abs s = \<lparr>ms_tab = abs_tab (ws_tab s), ms_busy = ws_busy s,
     ms_wait = abs_wait (ws_wait s) (ws_depth s), ms_holds = (\<lambda>t. {h. 0 < ws_depth s t h})\<rparr>"

lemma mutex_abs_simps [simp]:
  "ms_tab (mutex_abs s) = abs_tab (ws_tab s)" "ms_wait (mutex_abs s) = abs_wait (ws_wait s) (ws_depth s)"
  "ms_busy (mutex_abs s) = ws_busy s" "ms_holds (mutex_abs s) t = {h. 0 < ws_depth s t h}"
  by (simp_all add: mutex_abs_def)

text \<open>The steps that do not show: a thread comes into a section it is in, or leaves one but stays in it.\<close>

fun inner :: "wsys \<Rightarrow> m_event \<Rightarrow> bool" where
  "inner s (Wait t h) = (0 < ws_depth s t h)"
| "inner s (Locked t h rc) = (0 < ws_depth s t h \<and> rc = 0)"
| "inner s (Unlocked t h rc) = (1 < ws_depth s t h \<and> rc = 0)"
| "inner s e = False"

definition w_inv :: "wsys \<Rightarrow> bool" where
  "w_inv s \<longleftrightarrow> (\<forall>t h. ws_depth s t h = times_in t (cs_of (ws_tab s) h)) \<and>
     (\<forall>h t n. cs_of (ws_tab s) h = Owned t n \<longrightarrow> 0 < n) \<and>
     (\<forall>t h idx. ws_wait s t = Some (h, idx) \<longrightarrow> idx = slot_of h)"

lemma w_invD:
  assumes "w_inv s"
  shows "ws_depth s t h = times_in t (cs_of (ws_tab s) h)" and "cs_of (ws_tab s) h = Owned t n \<Longrightarrow> 0 < n"
    and "ws_wait s t = Some (h, idx) \<Longrightarrow> idx = slot_of h"
  using assms by (auto simp: w_inv_def)

lemma w_invI:
  assumes "\<And>t h. ws_depth s t h = times_in t (cs_of (ws_tab s) h)"
    and "\<And>h t n. cs_of (ws_tab s) h = Owned t n \<Longrightarrow> 0 < n"
    and "\<And>t h idx. ws_wait s t = Some (h, idx) \<Longrightarrow> idx = slot_of h"
  shows "w_inv s"
  using assms by (auto simp: w_inv_def)

lemma in_section:
  assumes "w_inv s" and "0 < ws_depth s t h"
  shows "cs_of (ws_tab s) h = Owned t (ws_depth s t h)"
  using assms(2) unfolding w_invD(1) [OF assms(1)] by (cases "cs_of (ws_tab s) h") (auto split: if_splits)


text \<open>What a step does to the waiting threads, as the pthread table has them.\<close>

lemma abs_wait_idle [simp]: "w t = None \<Longrightarrow> abs_wait w d t = None"
  by (simp add: abs_wait_def)

lemma abs_wait_lock:
  "w t = None \<Longrightarrow> abs_wait (w(t \<mapsto> (h, idx))) d =
     (if 0 < d t h then abs_wait w d else (abs_wait w d)(t \<mapsto> (h, idx)))"
  by (auto simp: abs_wait_def fun_eq_iff)

lemma abs_wait_locked: "abs_wait (w(t := None)) (bump t h f d) = (abs_wait w d)(t := None)"
  by (auto simp: abs_wait_def bump_def fun_eq_iff split: option.splits)

lemma abs_wait_unlock: "w t = None \<Longrightarrow> abs_wait w (bump t h f d) = abs_wait w d"
  by (auto simp: abs_wait_def bump_def fun_eq_iff split: option.splits)

lemma holds_bump:
  "{k. 0 < bump t h f d u k} =
     (if u \<noteq> t then {k. 0 < d u k} else if 0 < f (d t h) then insert h {k. 0 < d t k} else {k. 0 < d t k} - {h})"
  by (auto simp: bump_def)

lemma w_inv_put:
  assumes "w_inv s" and "mutex_ok (abs_tab (ws_tab s))" and "cs_of (ws_tab s) h \<noteq> NoSection"
    and "f (ws_depth s t h) = times_in t c" and "\<And>u. u \<noteq> t \<Longrightarrow> times_in u c = times_in u (cs_of (ws_tab s) h)"
    and "\<And>u n. c = Owned u n \<Longrightarrow> 0 < n" and "\<And>u k i. w u = Some (k, i) \<Longrightarrow> i = slot_of k"
  shows "w_inv (s\<lparr>ws_tab := put_cs h c (ws_tab s), ws_wait := w, ws_depth := bump t h f (ws_depth s)\<rparr>)"
  using assms(4-7) w_invD(1,2) [OF assms(1)] put_cs_of [OF assms(2,3), of c]
  by (intro w_invI) (auto simp: bump_def split: if_splits)

lemma idle_abs: "idle_win s t \<Longrightarrow> idle (mutex_abs s) t"
  by (simp add: idle_win_def idle_def)

lemma unused_abs: "unused_win s h \<Longrightarrow> unused (mutex_abs s) h"
  by (auto simp: unused_def unused_win_def abs_wait_def split: option.splits)

lemma w_inv_quiet:
  assumes "w_inv s" and "\<And>u v k n. times_in u (cs_of (ws_tab s') k) = times_in u (cs_of (ws_tab s) k) \<and>
    (cs_of (ws_tab s') k = Owned v n \<longrightarrow> cs_of (ws_tab s) k = Owned v n)"
    and "ws_wait s' = ws_wait s" and "ws_depth s' = ws_depth s"
  shows "w_inv s'"
proof (rule w_invI)
  note i = w_invD [OF assms(1)]
  show "ws_depth s' t h = times_in t (cs_of (ws_tab s') h)" for t h
    unfolding assms(4) conjunct1 [OF assms(2)] by (rule i(1))
  show "0 < n" if "cs_of (ws_tab s') h = Owned t n" for t h n
    by (rule i(2) [OF mp [OF conjunct2 [OF assms(2)] that]])
  show "idx = slot_of h" if "ws_wait s' t = Some (h, idx)" for t h idx
    by (rule i(3) [OF that [unfolded assms(3)]])
qed

text \<open>What a step of the Windows table is to the pthread one.\<close>

definition matches :: "m_event \<Rightarrow> wsys \<Rightarrow> wsys \<Rightarrow> bool" where
  "matches e s s' \<longleftrightarrow> w_inv s' \<and>
     (if inner s e then mutex_abs s' = mutex_abs s else m_step True e (mutex_abs s) (mutex_abs s'))"

text \<open>A create or a destroy is the same step of both.\<close>

lemma same_step:
  assumes "w_inv s'" and "m_step True e (mutex_abs s) a" and "a = mutex_abs s'" and "\<not> inner s e"
  shows "matches e s s'"
  using assms by (simp add: matches_def)

lemma sim_scan:
  assumes "idle_win s t" and "ws_busy s = Map.empty" and "create_scan_win 0 (ws_tab s) = Some p" and "w_inv s"
  shows "matches (Scan t p) s (s\<lparr>ws_busy := (ws_busy s)(t := map_option Filling p)\<rparr>)"
proof (rule same_step)
  show "w_inv (s\<lparr>ws_busy := (ws_busy s)(t := map_option Filling p)\<rparr>)" using assms(4) by (rule w_inv_quiet) simp_all
  show "m_step True (Scan t p) (mutex_abs s) (mutex_abs s\<lparr>ms_busy := (ms_busy (mutex_abs s))(t := map_option Filling p)\<rparr>)"
    by (rule m_scan) (use assms(2,3) idle_abs [OF assms(1)] in \<open>simp_all add: create_scan_win_eq\<close>)
qed (simp_all add: mutex_abs_def)

lemma sim_fill:
  assumes "ws_busy s t = Some (Filling i)" and f: "create_fill_win i (ws_tab s) = Some (h, tab)" and "w_inv s"
  shows "matches (Fill t h) s (s\<lparr>ws_tab := tab, ws_busy := (ws_busy s)(t := None)\<rparr>)"
proof (rule same_step)
  show "w_inv (s\<lparr>ws_tab := tab, ws_busy := (ws_busy s)(t := None)\<rparr>)"
    using assms(3) by (rule w_inv_quiet) (use create_fill_win_quiet [OF f] in simp_all)
  show "m_step True (Fill t h) (mutex_abs s)
      (mutex_abs s\<lparr>ms_tab := abs_tab tab, ms_busy := (ms_busy (mutex_abs s))(t := None)\<rparr>)"
    by (rule m_fill [where ok = True]) (use assms(1) f in \<open>auto simp flip: create_fill_win_eq\<close>)
qed (simp_all add: mutex_abs_def)

lemma not_owned:
  assumes "w_inv s" and "unused_win s h"
  shows "cs_of (ws_tab s) h \<in> {NoSection, Unowned}"
proof (cases "cs_of (ws_tab s) h")
  case (Owned u n)
  then have "ws_depth s u h = n" "0 < n" using w_invD(1,2) [OF assms(1)] by simp_all
  then show ?thesis using assms(2) by (simp add: unused_win_def)
qed simp_all

lemma sim_check:
  assumes "idle_win s t" and "ws_busy s = Map.empty" and "unused_win s h"
    and c: "destroy_check_win h (ws_tab s) = Some (p, tab)" and "w_inv s"
  shows "matches (Check t h p) s (s\<lparr>ws_tab := tab, ws_busy := (ws_busy s)(t := map_option Clearing p)\<rparr>)"
proof (rule same_step)
  show "w_inv (s\<lparr>ws_tab := tab, ws_busy := (ws_busy s)(t := map_option Clearing p)\<rparr>)"
    using assms(5) by (rule w_inv_quiet) (use destroy_check_win_quiet [OF c not_owned [OF assms(5,3)]] in simp_all)
  show "m_step True (Check t h p) (mutex_abs s)
      (mutex_abs s\<lparr>ms_tab := abs_tab tab, ms_busy := (ms_busy (mutex_abs s))(t := map_option Clearing p)\<rparr>)"
    by (rule m_check)
      (use assms(2) c idle_abs [OF assms(1)] unused_abs [OF assms(3)] in \<open>simp_all flip: destroy_check_win_eq\<close>)
qed (simp_all add: mutex_abs_def)

lemma sim_clear:
  assumes "ws_busy s t = Some (Clearing i)" and c: "destroy_clear_win i (ws_tab s) = Some (rc, tab)" and "w_inv s"
  shows "matches (Clear t rc) s (s\<lparr>ws_tab := tab, ws_busy := (ws_busy s)(t := None)\<rparr>)"
proof (rule same_step)
  show "w_inv (s\<lparr>ws_tab := tab, ws_busy := (ws_busy s)(t := None)\<rparr>)"
    using assms(3) by (rule w_inv_quiet) (use destroy_clear_win_quiet [OF c] in simp_all)
  show "m_step True (Clear t rc) (mutex_abs s)
      (mutex_abs s\<lparr>ms_tab := abs_tab tab, ms_busy := (ms_busy (mutex_abs s))(t := None)\<rparr>)"
    by (rule m_clear) (use assms(1) c in \<open>auto simp flip: destroy_clear_win_eq\<close>)
qed (simp_all add: mutex_abs_def)

lemma sim_refused:
  assumes "idle_win s t" and "fx_mutex_lock_win h (ws_tab s) = Some (LockRet rc)" and "w_inv s"
  shows "matches (Locked t h rc) s s"
proof (rule same_step)
  show "m_step True (Locked t h rc) (mutex_abs s) (mutex_abs s)"
    by (rule m_refused) (use assms(2) idle_abs [OF assms(1)] in \<open>simp_all add: lock_win_eq\<close>)
  have "rc = 1" using assms(2) by (auto simp: fx_mutex_lock_win_def bind_iff split: option.splits)
  then show "\<not> inner s (Locked t h rc)" by simp
qed (use assms(3) in simp_all)

lemma sim_lock:
  assumes "idle_win s t" and "fx_mutex_lock_win h (ws_tab s) = Some (LockWait idx)"
    and "w_inv s" and "m_reach True (mutex_abs s)"
  shows "matches (Wait t h) s (s\<lparr>ws_wait := (ws_wait s)(t \<mapsto> (h, idx))\<rparr>)" (is "matches _ s ?s")
proof -
  have ok: "mutex_ok (abs_tab (ws_tab s))" using m_invD(1) [OF m_inv_reach [OF assms(4)]] by simp
  have w: "ws_wait s t = None" using assms(1) by (simp add: idle_win_def)
  have "idx = slot_of h" using assms(2) lock_spec [OF ok, of h] by (simp add: lock_win_eq split: if_splits)
  then have inv: "w_inv ?s" using w_invD [OF assms(3)] by (intro w_invI) (auto split: if_splits)
  show ?thesis
  proof (cases "0 < ws_depth s t h")
    case True
    then show ?thesis using w inv by (simp add: matches_def mutex_abs_def abs_wait_lock)
  next
    case False
    show ?thesis
    proof (rule same_step [OF inv])
      show "m_step True (Wait t h) (mutex_abs s) (mutex_abs s\<lparr>ms_wait := (ms_wait (mutex_abs s))(t \<mapsto> (h, idx))\<rparr>)"
        by (rule m_lock) (use assms(2) idle_abs [OF assms(1)] in \<open>simp_all add: lock_win_eq\<close>)
    qed (use False w in \<open>simp_all add: mutex_abs_def abs_wait_lock\<close>)
  qed
qed

lemma live_wait:
  assumes "ws_wait s t = Some (h, idx)" and "w_inv s" and "m_reach True (mutex_abs s)"
  shows "cs_of (ws_tab s) h \<noteq> NoSection"
proof (cases "0 < ws_depth s t h")
  case False
  note inv = m_inv_reach [OF assms(3)]
  have "ms_wait (mutex_abs s) t = Some (h, idx)" using assms(1) False by (simp add: abs_wait_def)
  from m_invD(3) [OF inv this] show ?thesis using m_invD(1) [OF inv] by (simp add: mutex_of_abs)
qed (use in_section [OF assms(2)] in auto)

lemma sim_locked:
  assumes "ws_wait s t = Some (h, idx)" and "fx_mutex_lock_end_win t idx (ws_tab s) = Some (Some (rc, tab))"
    and "w_inv s" and "m_reach True (mutex_abs s)"
  shows "matches (Locked t h rc) s (s\<lparr>ws_tab := tab, ws_wait := (ws_wait s)(t := None),
    ws_depth := bump t h (\<lambda>n. if rc = 0 then n + 1 else n) (ws_depth s)\<rparr>)" (is "matches _ s ?s")
proof -
  have ok: "mutex_ok (abs_tab (ws_tab s))" using m_invD(1) [OF m_inv_reach [OF assms(4)]] by simp
  have i: "idx = slot_of h" using w_invD(3) [OF assms(3,1)] .
  note live = live_wait [OF assms(1,3,4)]
  note rest = live_cs(3,5) [OF ok live] w_invD(3) [OF assms(3)]
  note run = assms(2) [unfolded i lock_end_win [OF ok live]]
  then have rc: "rc = 0" by auto
  show ?thesis
  proof (cases "cs_of (ws_tab s) h")
    case (Owned u n)
    then have u: "u = t" and tab: "tab = put_cs h (Owned t (n + 1)) (ws_tab s)" using run by (auto split: if_splits)
    have d: "ws_depth s t h = n" "0 < n" using w_invD(1,2) [OF assms(3)] Owned u by auto
    have "abs_tab tab = abs_tab (ws_tab s)" unfolding tab using rest(1,2) Owned u by (intro put_cs_same) auto
    moreover have "abs_wait (ws_wait s) (ws_depth s) t = None" using d assms(1) by (simp add: abs_wait_def)
    ultimately have "mutex_abs ?s = mutex_abs s"
      using d rc by (auto simp: mutex_abs_def abs_wait_locked holds_bump fun_eq_iff)
    moreover have "w_inv ?s" unfolding tab
      by (rule w_inv_put [OF assms(3) ok live]) (use d rc Owned u rest(3) in \<open>auto split: if_splits\<close>)
    ultimately show ?thesis using d rc by (simp add: matches_def)
  next
    case Unowned
    then have tab: "tab = put_cs h (Owned t 1) (ws_tab s)" using run by auto
    have d: "ws_depth s t h = 0" using w_invD(1) [OF assms(3)] Unowned by simp
    show ?thesis
    proof (rule same_step)
      show "w_inv ?s" unfolding tab
        by (rule w_inv_put [OF assms(3) ok live]) (use d rc Unowned rest(3) in \<open>auto split: if_splits\<close>)
      show "m_step True (Locked t h rc) (mutex_abs s) (mutex_abs s\<lparr>ms_tab := abs_tab tab,
          ms_wait := (ms_wait (mutex_abs s))(t := None), ms_holds := (ms_holds (mutex_abs s))
            (t := (if rc = 0 then insert h (ms_holds (mutex_abs s) t) else ms_holds (mutex_abs s) t))\<rparr>)"
        using assms(1) d lock_end_abs [OF ok Unowned] unfolding tab i rc
        by (intro m_locked [where idx = "slot_of h" and ok = True]) (simp_all add: abs_wait_def)
    qed (use d rc in \<open>auto simp: mutex_abs_def abs_wait_locked holds_bump fun_eq_iff\<close>)
  qed (use live in simp)
qed

text \<open>A thread inside a section leaves it; \<open>c\<close> is what is left.\<close>

lemma sim_leave:
  assumes "idle_win s t" and d: "0 < ws_depth s t h"
    and "fx_mutex_unlock_win t h (ws_tab s) = Some (rc, tab)"
    and "w_inv s" and "m_reach True (mutex_abs s)"
  shows "matches (Unlocked t h rc) s (s\<lparr>ws_tab := tab,
    ws_depth := bump t h (\<lambda>n. if rc = 0 then n - 1 else n) (ws_depth s)\<rparr>)" (is "matches _ s ?s")
proof -
  let ?n = "ws_depth s t h"
  let ?c = "if ?n \<le> 1 then Unowned else Owned t (?n - 1)"
  have ok: "mutex_ok (abs_tab (ws_tab s))" using m_invD(1) [OF m_inv_reach [OF assms(5)]] by simp
  have w: "ws_wait s t = None" using assms(1) by (simp add: idle_win_def)
  note own = in_section [OF assms(4) d]
  have live: "cs_of (ws_tab s) h \<noteq> NoSection" using own by simp
  have tab: "tab = put_cs h ?c (ws_tab s)" and rc: "rc = 0"
    using assms(3) [unfolded unlock_win [OF ok live] own] by simp_all
  have s: "?s = s\<lparr>ws_tab := put_cs h ?c (ws_tab s), ws_wait := ws_wait s, ws_depth := bump t h (\<lambda>n. n - 1) (ws_depth s)\<rparr>"
    by (simp add: tab rc)
  have inv: "w_inv ?s" unfolding s
    by (rule w_inv_put [OF assms(4) ok live]) (use own w_invD(3) [OF assms(4)] in \<open>auto split: if_splits\<close>)
  show ?thesis
  proof (cases "?n \<le> 1")
    case True
    show ?thesis
    proof (rule same_step [OF inv])
      show "m_step True (Unlocked t h rc) (mutex_abs s) (mutex_abs s\<lparr>ms_tab := abs_tab tab, ms_holds := (ms_holds (mutex_abs s))
          (t := (if rc = 0 then ms_holds (mutex_abs s) t - {h} else ms_holds (mutex_abs s) t))\<rparr>)"
        using idle_abs [OF assms(1)] d unlock_abs [OF ok own] True unfolding tab rc
        by (intro m_unlock [where ok = True]) simp_all
    qed (use True w rc in \<open>auto simp: mutex_abs_def abs_wait_unlock holds_bump fun_eq_iff\<close>)
  next
    case False
    have "abs_tab tab = abs_tab (ws_tab s)"
      unfolding tab using live_cs(3,5) [OF ok live] own False by (intro put_cs_same) auto
    then have "mutex_abs ?s = mutex_abs s"
      using False w rc by (auto simp: mutex_abs_def abs_wait_unlock holds_bump fun_eq_iff)
    then show ?thesis using False rc inv by (simp add: matches_def)
  qed
qed

lemma sim_unlock:
  assumes "idle_win s t" and "0 < ws_depth s t h \<or> slot_mut_win h (ws_tab s) = Some None"
    and "fx_mutex_unlock_win t h (ws_tab s) = Some (rc, tab)"
    and "w_inv s" and "m_reach True (mutex_abs s)"
  shows "matches (Unlocked t h rc) s (s\<lparr>ws_tab := tab,
    ws_depth := bump t h (\<lambda>n. if rc = 0 then n - 1 else n) (ws_depth s)\<rparr>)" (is "matches _ s ?s")
proof (cases "0 < ws_depth s t h")
  case True
  then show ?thesis using sim_leave assms by blast
next
  case False
  with assms(2) have dead: "slot_mut_win h (ws_tab s) = Some None" by simp
  then have rc: "rc = 1" "tab = ws_tab s" using assms(3) by (auto simp: fx_mutex_unlock_win_def)
  have s: "?s = s" using rc by (simp add: bump_def)
  show ?thesis unfolding s
  proof (rule same_step [OF assms(4)])
    have "fx_mutex_unlock t True h (abs_tab (ws_tab s)) = Some (1, abs_tab (ws_tab s))"
      using dead by (simp add: fx_mutex_unlock_def slot_mut_win_eq)
    then show "m_step True (Unlocked t h rc) (mutex_abs s) (mutex_abs s\<lparr>ms_tab := ms_tab (mutex_abs s),
        ms_holds := (ms_holds (mutex_abs s))(t := (if (1 :: i32) = 0 then ms_holds (mutex_abs s) t - {h} else ms_holds (mutex_abs s) t))\<rparr>)"
      unfolding rc by (intro m_unlock [where ok = True] idle_abs [OF assms(1)] disjI2)
        (use dead in \<open>simp_all add: slot_mut_win_eq\<close>)
  qed (use rc in \<open>auto simp: mutex_abs_def fun_eq_iff\<close>)
qed

lemma w_sim: "w_step e s s' \<Longrightarrow> w_inv s \<Longrightarrow> m_reach True (mutex_abs s) \<Longrightarrow> matches e s s'"
  by (induction rule: w_step.induct)
    (rule sim_scan sim_fill sim_refused sim_lock sim_locked sim_unlock sim_check sim_clear; assumption)+

lemma matches_reach: "matches e s s' \<Longrightarrow> m_reach True (mutex_abs s) \<Longrightarrow> w_inv s' \<and> m_reach True (mutex_abs s')"
  by (auto simp: matches_def intro: mr_step split: if_splits)

lemma w_start_abs: "w_inv w_start \<and> mutex_abs w_start = m_start"
proof
  have c: "cs_of win_start h = NoSection" for h
    by (auto simp: cs_of_def win_start_def slot_of_def win_zero_def nth_replicate simp flip: nat_less_iff)
  show "w_inv w_start" by (simp add: w_inv_def w_start_def c)
  show "mutex_abs w_start = m_start"
    by (simp add: mutex_abs_def w_start_def m_start_def abs_tab_def win_start_def mutex_start_def abs_wait_def fun_eq_iff)
qed

lemma w_reach_abs: "w_reach s \<Longrightarrow> w_inv s \<and> m_reach True (mutex_abs s)"
proof (induction rule: w_reach.induct)
  case wr_start
  then show ?case using w_start_abs mr_start by simp
next
  case (wr_step s e s')
  then show ?case using w_sim matches_reach by blast
qed

section \<open>The property\<close>

text \<open>A lock whose thread is not inside yet, and the unlock that leaves, answer as with pthreads.\<close>

lemma outer_lock_eq:
  assumes "w_reach s" and "ws_wait s t = Some (h, idx)" and "ws_depth s t h = 0"
  shows "map_option (map_option abs_result) (fx_mutex_lock_end_win t idx (ws_tab s)) =
    fx_mutex_lock_end t True idx (abs_tab (ws_tab s))"
proof -
  note r = w_reach_abs [OF assms(1)]
  have ok: "mutex_ok (abs_tab (ws_tab s))" using m_invD(1) [OF m_inv_reach [OF conjunct2 [OF r]]] by simp
  note live = live_wait [OF assms(2) r [THEN conjunct1] r [THEN conjunct2]]
  have i: "idx = slot_of h" using w_invD(3) [OF conjunct1 [OF r] assms(2)] .
  have m: "mutex_of (abs_tab (ws_tab s)) h = mu_of (cs_of (ws_tab s) h)" by (rule mutex_of_abs [OF ok])
  show ?thesis
  proof (cases "cs_of (ws_tab s) h")
    case (Owned u n)
    have "times_in t (Owned u n) = 0" "0 < n"
      using w_invD(1) [OF conjunct1 [OF r], of t h] w_invD(2) [OF conjunct1 [OF r] Owned] assms(3) Owned by simp_all
    then have "u \<noteq> t" by auto
    then show ?thesis using lock_end_spec [OF ok, of h t True] m Owned
      by (simp add: i lock_end_win [OF ok live])
  qed (use live lock_end_abs [OF ok] in \<open>simp_all add: i lock_end_win [OF ok live]\<close>)
qed

lemma last_unlock_eq:
  assumes "w_reach s" and "ws_depth s t h = 1"
  shows "map_option abs_result (fx_mutex_unlock_win t h (ws_tab s)) = fx_mutex_unlock t True h (abs_tab (ws_tab s))"
proof -
  note r = w_reach_abs [OF assms(1)]
  have ok: "mutex_ok (abs_tab (ws_tab s))" using m_invD(1) [OF m_inv_reach [OF conjunct2 [OF r]]] by simp
  have own: "cs_of (ws_tab s) h = Owned t 1" using in_section [OF conjunct1 [OF r], of t h] assms(2) by simp
  then show ?thesis using unlock_abs [OF ok own] unlock_win [OF ok, of h t] by simp
qed

text \<open>A thread that is inside: it alone, and an inner lock or unlock returns 0 and does not show.\<close>

lemma inside_section:
  assumes "w_reach s" and "0 < ws_depth s t h"
  shows "(\<forall>u. 0 < ws_depth s u h \<longrightarrow> u = t) \<and>
    (\<exists>tab. fx_mutex_lock_end_win t (slot_of h) (ws_tab s) = Some (Some (0, tab)) \<and> abs_tab tab = abs_tab (ws_tab s)) \<and>
    (\<forall>ok. fx_mutex_lock_end t ok (slot_of h) (abs_tab (ws_tab s)) = Some None) \<and>
    (\<forall>u. u \<noteq> t \<longrightarrow> fx_mutex_lock_end_win u (slot_of h) (ws_tab s) = Some None) \<and>
    (1 < ws_depth s t h \<longrightarrow>
      (\<exists>tab. fx_mutex_unlock_win t h (ws_tab s) = Some (0, tab) \<and> abs_tab tab = abs_tab (ws_tab s)))"
proof -
  note r = w_reach_abs [OF assms(1)]
  note own = in_section [OF conjunct1 [OF r] assms(2)]
  have ok: "mutex_ok (abs_tab (ws_tab s))" using m_invD(1) [OF m_inv_reach [OF conjunct2 [OF r]]] by simp
  have live: "cs_of (ws_tab s) h \<noteq> NoSection" "mutex_of (abs_tab (ws_tab s)) h \<noteq> NoMutex"
    using own by (simp_all add: mutex_of_abs [OF ok])
  note slot = live_cs [OF ok live(1)]
  have "0 < ws_depth s u h \<Longrightarrow> u = t" for u using in_section [OF conjunct1 [OF r], of u h] own by simp
  moreover have "fx_mutex_lock_end t k (slot_of h) (abs_tab (ws_tab s)) = Some None" for k
    using lock_end_spec [OF ok live(2), of t k] own by (simp add: mutex_of_abs [OF ok])
  ultimately show ?thesis using slot(3,5) own
    by (auto simp: lock_end_win [OF ok live(1)] unlock_win [OF ok live(1)] intro!: put_cs_same)
qed

text \<open>
  C16: the Windows table refines the pthread one, in every state of a serial run. Each step a
  thread takes there, with what it returns, is the same step of the pthread table, between the
  states the two stand for, or it is an inner lock or unlock of a section its thread is in, which
  returns 0 and does not show. Each call is defined where the pthread one is, and answers the
  same: scanning, filling, looking a handle up, checking and clearing always, a lock of a thread
  that is not inside yet and the unlock that leaves in the states reached. A thread that is inside
  is alone there: it gets in again at once, where with pthreads it waits for ever, and every other
  thread waits.
\<close>

theorem windows_mutex_refines:
  assumes "w_reach s"
  shows "m_reach True (mutex_abs s) \<and>
    (\<forall>e s'. w_step e s s' \<longrightarrow>
      (if inner s e then mutex_abs s' = mutex_abs s else m_step True e (mutex_abs s) (mutex_abs s'))) \<and>
    (create_scan_win 0 (ws_tab s) = create_scan 0 (abs_tab (ws_tab s)) \<and>
     (\<forall>i. map_option abs_result (create_fill_win i (ws_tab s)) = create_fill True i (abs_tab (ws_tab s))) \<and>
     (\<forall>h. fx_mutex_lock_win h (ws_tab s) = fx_mutex_lock h (abs_tab (ws_tab s))) \<and>
     (\<forall>h. map_option abs_result (destroy_check_win h (ws_tab s)) = destroy_check h (abs_tab (ws_tab s))) \<and>
     (\<forall>i. map_option abs_result (destroy_clear_win i (ws_tab s)) = destroy_clear i (abs_tab (ws_tab s))) \<and>
     (\<forall>t h idx. ws_wait s t = Some (h, idx) \<longrightarrow> ws_depth s t h = 0 \<longrightarrow>
        map_option (map_option abs_result) (fx_mutex_lock_end_win t idx (ws_tab s)) =
          fx_mutex_lock_end t True idx (abs_tab (ws_tab s))) \<and>
     (\<forall>t h. ws_depth s t h = 1 \<longrightarrow>
        map_option abs_result (fx_mutex_unlock_win t h (ws_tab s)) =
          fx_mutex_unlock t True h (abs_tab (ws_tab s)))) \<and>
    (\<forall>t h. 0 < ws_depth s t h \<longrightarrow>
      (\<forall>u. 0 < ws_depth s u h \<longrightarrow> u = t) \<and>
      (\<exists>tab. fx_mutex_lock_end_win t (slot_of h) (ws_tab s) = Some (Some (0, tab)) \<and> abs_tab tab = abs_tab (ws_tab s)) \<and>
      (\<forall>ok. fx_mutex_lock_end t ok (slot_of h) (abs_tab (ws_tab s)) = Some None) \<and>
      (\<forall>u. u \<noteq> t \<longrightarrow> fx_mutex_lock_end_win u (slot_of h) (ws_tab s) = Some None) \<and>
      (1 < ws_depth s t h \<longrightarrow>
        (\<exists>tab. fx_mutex_unlock_win t h (ws_tab s) = Some (0, tab) \<and> abs_tab tab = abs_tab (ws_tab s))))"
proof (rule conjI [OF _ conjI [OF _ conjI]])
  note r = w_reach_abs [OF assms]
  show "m_reach True (mutex_abs s)" using r by simp
  show "\<forall>e s'. w_step e s s' \<longrightarrow>
      (if inner s e then mutex_abs s' = mutex_abs s else m_step True e (mutex_abs s) (mutex_abs s'))"
    using w_sim r by (auto simp: matches_def)
qed (use create_scan_win_eq create_fill_win_eq lock_win_eq destroy_check_win_eq destroy_clear_win_eq
      outer_lock_eq [OF assms] last_unlock_eq [OF assms] inside_section [OF assms] in blast)+

definition win_demo :: "(thread \<rightharpoonup> inside_table) \<Rightarrow> (thread \<rightharpoonup> i32 \<times> nat) \<Rightarrow> nat \<Rightarrow> csect \<Rightarrow> wsys" where
  "win_demo b w n c = \<lparr>ws_tab = \<lparr>wt_slots = \<lparr>wb_cs = c, wb_alive = True\<rparr> # replicate 63 win_zero,
     wt_used = True # replicate 63 False\<rparr>, ws_busy = b,
     ws_wait = w, ws_depth = (\<lambda>t h. if t = 7 \<and> h = 1 then n else 0)\<rparr>"

lemma bump_demo:
  "bump 7 1 Suc (\<lambda>t h. if t = 7 \<and> h = 1 then n else 0) = (\<lambda>t h. if t = 7 \<and> h = 1 then Suc n else 0)"
  by (auto simp: bump_def fun_eq_iff)

lemma win_demo_create: "w_reach (win_demo Map.empty Map.empty 0 Unowned)"
proof -
  have "create_scan_win 0 win_start = Some (Some 0)"
    by (subst create_scan_win.simps) (simp add: win_start_def start_cons FX_MUTEX_SLOTS_def aget_def)
  then have "w_reach (w_start\<lparr>ws_busy := [7 \<mapsto> Filling 0]\<rparr>)"
    using wr_step [OF wr_start w_scan [of w_start 7 "Some 0"]] by (simp add: w_start_def idle_win_def)
  moreover have "create_fill_win 0 win_start = Some (1, ws_tab (win_demo Map.empty Map.empty 0 Unowned))"
    by (simp add: create_fill_win_def win_start_def win_demo_def start_cons aget_def aset_def set_slot_win_def
        InitializeCriticalSection_def win_zero_def)
  ultimately show ?thesis
    using wr_step [OF _ w_fill [of "w_start\<lparr>ws_busy := [7 \<mapsto> Filling 0]\<rparr>" 7 0]]
    by (fastforce simp: w_start_def win_demo_def)
qed

lemma win_demo_lock:
  assumes "w_reach (win_demo Map.empty Map.empty n c)" and "EnterCriticalSection 7 c = Some (Some c')"
  shows "w_reach (win_demo Map.empty Map.empty (Suc n) c')"
proof -
  have "w_reach (win_demo Map.empty [7 \<mapsto> (1, 0)] n c)"
    using wr_step [OF assms(1) w_lock [of _ 7 1 0]]
    by (simp add: win_demo_def idle_win_def fx_mutex_lock_win_def slot_mut_win_def FX_MUTEX_SLOTS_def aget_def)
  from wr_step [OF this w_locked [of _ 7 1 0 0 "ws_tab (win_demo Map.empty Map.empty n c')"]] assms(2) show ?thesis
    by (simp add: win_demo_def fx_mutex_lock_end_win_def aget_def aset_def bump_demo)
qed

lemma win_demo_reach: "w_reach (win_demo Map.empty Map.empty 2 (Owned 7 2))"
proof -
  have "w_reach (win_demo Map.empty Map.empty (Suc 0) (Owned 7 1))"
    by (rule win_demo_lock [OF win_demo_create]) simp
  then have "w_reach (win_demo Map.empty Map.empty (Suc (Suc 0)) (Owned 7 2))"
    by (rule win_demo_lock) simp
  then show ?thesis by (simp add: numeral_2_eq_2)
qed

text \<open>Thread 7 locks the mutex twice: the second call returned, and thread 8 would wait.\<close>

theorem windows_mutex_refines_witness:
  "w_reach (win_demo Map.empty Map.empty 2 (Owned 7 2)) \<and>
   m_reach True (mutex_abs (win_demo Map.empty Map.empty 2 (Owned 7 2))) \<and>
   fx_mutex_lock_end_win 8 (slot_of 1) (ws_tab (win_demo Map.empty Map.empty 2 (Owned 7 2))) = Some None"
proof -
  note r = windows_mutex_refines [OF win_demo_reach]
  have "0 < ws_depth (win_demo Map.empty Map.empty 2 (Owned 7 2)) 7 1" by (simp add: win_demo_def)
  from r [THEN conjunct2, THEN conjunct2, THEN conjunct2, rule_format, OF this]
  have "fx_mutex_lock_end_win 8 (slot_of 1) (ws_tab (win_demo Map.empty Map.empty 2 (Owned 7 2))) = Some None"
    by simp
  with conjunct1 [OF r] win_demo_reach show ?thesis by blast
qed

end
