(* ===== verification/FsWalk.thy ===== *)
theory FsWalk
  imports FxPrelude
begin

text \<open>
  Directory listing (\<open>host/std_fs_walk/ref.c\<close>, the POSIX branch): the names of a directory
  are appended, each with a newline, to one buffer that is kept between calls and grows by
  doubling. What \<open>opendir\<close> and \<open>readdir\<close> deliver and how \<open>realloc\<close> fares are parameters
  of a call.
\<close>

section \<open>The buffer and the C library\<close>

record listbuf =
  lb_buf :: "char list option"
  lb_cap :: usize

text \<open>
  Whether a request for a size is granted, and the content of bytes never written. Within one
  call every request is larger than those before, so a function of the size is general.
\<close>

record realloc_env =
  rl_ok :: "usize \<Rightarrow> bool"
  rl_junk :: "nat \<Rightarrow> char"

definition realloc :: "realloc_env \<Rightarrow> char list option \<Rightarrow> usize \<Rightarrow> char list option" where
  "realloc e p n =
     (if \<not> rl_ok e n then None
      else let old = (case p of None \<Rightarrow> [] | Some buf \<Rightarrow> buf) in
        Some (take (unat n) old @ map (rl_junk e) [length old..<unat n]))"

text \<open>The string a client reads at a buffer: up to the first NUL, which has to be there.\<close>

definition read_cstr :: "char list \<Rightarrow> string option" where
  "read_cstr buf = (if NUL \<in> set buf then Some (takeWhile (\<lambda>c. c \<noteq> NUL) buf) else None)"

section \<open>The code\<close>

partial_function (option) grow :: "usize \<Rightarrow> usize \<Rightarrow> usize option" where
  "grow ncap need = (if ncap < need then grow (ncap * 2) need else Some ncap)"

definition ensure_cap :: "realloc_env \<Rightarrow> usize \<Rightarrow> listbuf \<Rightarrow> (bool \<times> listbuf) option" where
  "ensure_cap e need b =
     (if need \<le> lb_cap b then Some (True, b)
      else do {
        ncap \<leftarrow> grow (if lb_cap b = 0 then 4096 else lb_cap b) need;
        case realloc e (lb_buf b) ncap of
          None \<Rightarrow> Some (False, b)
        | Some nbuf \<Rightarrow> Some (True, \<lparr>lb_buf = Some nbuf, lb_cap = ncap\<rparr>) })"

definition put_char :: "usize \<Rightarrow> char \<Rightarrow> listbuf \<Rightarrow> listbuf option" where
  "put_char i c b = do { buf \<leftarrow> lb_buf b; buf \<leftarrow> aset buf (unat i) c; Some (b\<lparr>lb_buf := Some buf\<rparr>) }"

definition append_name :: "realloc_env \<Rightarrow> cptr \<Rightarrow> usize \<Rightarrow> listbuf \<Rightarrow> (bool \<times> usize \<times> listbuf) option" where
  "append_name e name len b =
     (case name of None \<Rightarrow> Some (True, len, b) | Some s \<Rightarrow>
      if chd s = NUL then Some (True, len, b)
      else if strcmp s ''.'' = 0 \<or> strcmp s ''..'' = 0 then Some (True, len, b)
      else let n = strlen s in do {
        (ok, b) \<leftarrow> ensure_cap e (len + of_nat n + 2) b;
        if \<not> ok then Some (False, len, b)
        else do {
          buf \<leftarrow> lb_buf b;
          buf \<leftarrow> memcpy_at buf (unat len) (take n s);
          b \<leftarrow> Some (b\<lparr>lb_buf := Some buf\<rparr>);
          len \<leftarrow> Some (len + of_nat n);
          b \<leftarrow> put_char len CHR 0x0A b;
          len \<leftarrow> Some (len + 1);
          b \<leftarrow> put_char len NUL b;
          Some (True, len, b) } })"

text \<open>The loop over \<open>readdir\<close>: \<open>False\<close> when an append failed.\<close>

fun append_all :: "realloc_env \<Rightarrow> string list \<Rightarrow> usize \<Rightarrow> listbuf \<Rightarrow> (bool \<times> listbuf) option" where
  "append_all e [] len b = Some (True, b)"
| "append_all e (d_name # ents) len b =
     do { (ok, len, b) \<leftarrow> append_name e (Some d_name) len b;
          if ok then append_all e ents len b else Some (False, b) }"

definition as_result :: "listbuf \<Rightarrow> (string \<times> listbuf) option" where
  "as_result b = do { buf \<leftarrow> lb_buf b; r \<leftarrow> read_cstr buf; Some (r, b) }"

definition fx_fs_list_names ::
  "realloc_env \<Rightarrow> (string \<Rightarrow> string list option) \<Rightarrow> cptr \<Rightarrow> listbuf \<Rightarrow> (string \<times> listbuf) option" where
  "fx_fs_list_names e opendir path b =
     do { (ok, b) \<leftarrow> ensure_cap e 1 b;
          if \<not> ok then Some ('''', b)
          else do {
            b \<leftarrow> put_char 0 NUL b;
            case path of None \<Rightarrow> as_result b | Some p \<Rightarrow>
              if chd p = NUL then as_result b
              else case opendir p of None \<Rightarrow> as_result b | Some ents \<Rightarrow> do {
                (ok, b) \<leftarrow> append_all e ents 0 b;
                if ok then as_result b else do { b \<leftarrow> put_char 0 NUL b; as_result b } } } }"

definition fx_fs_list_ok :: "(string \<Rightarrow> string list option) \<Rightarrow> cptr \<Rightarrow> i32" where
  "fx_fs_list_ok opendir path =
     (case path of None \<Rightarrow> 0 | Some p \<Rightarrow>
      if chd p = NUL then 0 else case opendir p of None \<Rightarrow> 0 | Some _ \<Rightarrow> 1)"

section \<open>What the listing is\<close>

definition shown :: "string \<Rightarrow> bool" where
  "shown s \<longleftrightarrow> s \<noteq> '''' \<and> s \<noteq> ''.'' \<and> s \<noteq> ''..''"

definition listing :: "string list \<Rightarrow> string" where
  "listing ents = concat (map (\<lambda>s. s @ [CHR 0x0A]) (filter shown ents))"

lemma listing_simps [simp]:
  "listing [] = []"
  "listing (s # ents) = (if shown s then s @ CHR 0x0A # listing ents else listing ents)"
  by (simp_all add: listing_def)

text \<open>What a client does with the result: cut it at the newlines.\<close>

fun split_lines :: "string \<Rightarrow> string \<Rightarrow> string list" where
  "split_lines acc [] = []"
| "split_lines acc (c # s) =
     (if c = CHR 0x0A then acc # split_lines [] s else split_lines (acc @ [c]) s)"

lemma split_lines_line:
  "CHR 0x0A \<notin> set s \<Longrightarrow> split_lines acc (s @ CHR 0x0A # rest) = (acc @ s) # split_lines [] rest"
  by (induction s arbitrary: acc) auto

lemma split_listing:
  "\<forall>s \<in> set ents. CHR 0x0A \<notin> set s \<Longrightarrow> split_lines [] (listing ents) = filter shown ents"
  by (induction ents) (auto simp: split_lines_line)

section \<open>The buffer's invariant\<close>

definition lb_ok :: "listbuf \<Rightarrow> bool" where
  "lb_ok b \<longleftrightarrow> (case lb_buf b of None \<Rightarrow> lb_cap b = 0
     | Some buf \<Rightarrow> lb_cap b \<noteq> 0 \<and> length buf = unat (lb_cap b))"

text \<open>The first \<open>length out\<close> bytes hold \<open>out\<close>, then the terminator.\<close>

definition holds_text :: "listbuf \<Rightarrow> string \<Rightarrow> bool" where
  "holds_text b out \<longleftrightarrow> (\<exists>buf. lb_buf b = Some buf \<and> length out < length buf \<and>
     take (Suc (length out)) buf = out @ [NUL])"

lemma grow_spec:
  assumes "1 \<le> unat ncap" and "unat need \<le> 2 ^ 63"
  shows "\<exists>r. grow ncap need = Some r \<and> unat need \<le> unat r \<and> unat ncap \<le> unat r \<and>
    (r = ncap \<or> unat r < 2 * unat need)"
  using assms(1)
proof (induction "2 ^ 64 - unat ncap" arbitrary: ncap rule: less_induct)
  case less
  show ?case
  proof (cases "ncap < need")
    case True
    then have lt: "unat ncap < unat need" by (simp add: word_less_nat_alt)
    then have "2 * unat ncap < 2 ^ 64" using assms(2) by simp
    then have u: "unat (ncap * 2) = 2 * unat ncap" by (simp add: unat_word_ariths)
    then have "2 ^ 64 - unat (ncap * 2) < 2 ^ 64 - unat ncap"
      using less.prems \<open>2 * unat ncap < 2 ^ 64\<close> by simp
    from less.hyps [OF this] u less.prems obtain r where r: "grow (ncap * 2) need = Some r"
      "unat need \<le> unat r" "2 * unat ncap \<le> unat r" "r = ncap * 2 \<or> unat r < 2 * unat need" by auto
    then show ?thesis using True lt u by (subst grow.simps) auto
  next
    case False
    then show ?thesis by (subst grow.simps) (auto simp: word_less_nat_alt)
  qed
qed

lemma realloc_Some:
  assumes "realloc e p n = Some buf" and "length (case p of None \<Rightarrow> [] | Some old \<Rightarrow> old) \<le> unat n"
  shows "length buf = unat n \<and> (\<forall>old. p = Some old \<longrightarrow> take (length old) buf = old)"
  using assms by (auto simp: realloc_def Let_def split: if_splits option.splits)

text \<open>
  Making room: the call returns, a granted request leaves a buffer of at least the size asked
  for with the old content in front, a refused one leaves everything as it was.
\<close>

lemma ensure_cap_spec:
  assumes "lb_ok b" and "unat need \<le> 2 ^ 63" and "1 \<le> unat need"
  shows "(ensure_cap e need b = Some (False, b) \<and> (\<exists>n. \<not> rl_ok e n)) \<or>
    (\<exists>b'. ensure_cap e need b = Some (True, b') \<and> lb_ok b' \<and> unat need \<le> unat (lb_cap b') \<and>
      unat (lb_cap b) \<le> unat (lb_cap b') \<and>
      unat (lb_cap b') \<le> max (unat (lb_cap b)) (max 4096 (2 * unat need)) \<and>
      (\<forall>out. holds_text b out \<longrightarrow> holds_text b' out))"
proof (cases "need \<le> lb_cap b")
  case True
  then show ?thesis using assms(1) by (auto simp: ensure_cap_def word_le_nat_alt)
next
  case False
  let ?c = "if lb_cap b = 0 then 4096 else lb_cap b"
  have "1 \<le> unat ?c" by (auto simp: Suc_le_eq unat_gt_0)
  from grow_spec [OF this assms(2)] obtain r where r: "grow ?c need = Some r" "unat need \<le> unat r"
    "unat ?c \<le> unat r" "r = ?c \<or> unat r < 2 * unat need" by blast
  have cap: "unat (lb_cap b) \<le> unat ?c" by simp
  have old: "length (case lb_buf b of None \<Rightarrow> [] | Some old \<Rightarrow> old) \<le> unat r"
    using assms(1) cap r(3) by (auto simp: lb_ok_def split: option.splits)
  show ?thesis
  proof (cases "realloc e (lb_buf b) r")
    case None
    then show ?thesis using False r(1) by (auto simp: ensure_cap_def realloc_def Let_def split: if_splits)
  next
    case (Some nbuf)
    note n = realloc_Some [OF Some old]
    let ?b = "\<lparr>lb_buf = Some nbuf, lb_cap = r\<rparr>"
    have "ensure_cap e need b = Some (True, ?b)"
      using False r(1) Some by (simp add: ensure_cap_def)
    moreover have "lb_ok ?b" using n r(2) assms(3) by (auto simp: lb_ok_def)
    moreover have "unat r \<le> max (unat (lb_cap b)) (max 4096 (2 * unat need))"
      using r(4) by auto
    moreover have "holds_text b out \<longrightarrow> holds_text ?b out" for out
    proof
      assume "holds_text b out"
      then obtain buf where buf: "lb_buf b = Some buf" "length out < length buf"
        "take (Suc (length out)) buf = out @ [NUL]" by (auto simp: holds_text_def)
      then have t: "take (length buf) nbuf = buf" "length buf \<le> length nbuf"
        using n old by (auto simp: lb_ok_def)
      have "take (Suc (length out)) nbuf = take (Suc (length out)) (take (length buf) nbuf)"
        using buf(2) by (simp add: min_def)
      then show "holds_text ?b out" using buf t by (simp add: holds_text_def)
    qed
    ultimately show ?thesis using r(2,3) cap by auto
  qed
qed

section \<open>Appending names\<close>

text \<open>Copying a name, the newline and the terminator behind the text that is there.\<close>

lemma write_line:
  assumes "holds_text b out" and "lb_buf b = Some buf" and "length out + length s + 2 \<le> length buf"
  shows "\<exists>buf'. memcpy_at buf (length out) s = Some buf' \<and> length buf' = length buf \<and>
    (let m = length out + length s; f = buf'[m := CHR 0x0A, Suc m := NUL] in
     take (Suc (Suc m)) f = (out @ s @ [CHR 0x0A]) @ [NUL])"
proof -
  let ?m = "length out + length s"
  let ?buf = "take (length out) buf @ s @ drop ?m buf"
  have o: "take (length out) buf = out"
  proof -
    have "take (length out) (take (Suc (length out)) buf) = take (length out) (out @ [NUL])"
      using assms(1,2) by (auto simp: holds_text_def)
    then show ?thesis by (simp add: min_def)
  qed
  have m: "memcpy_at buf (length out) s = Some ?buf" using assms(3) by (simp add: memcpy_at_def)
  have l: "length ?buf = length buf" using assms(3) by simp
  have t: "take ?m ?buf = out @ s" using o assms(3) by simp
  have "take (Suc ?m) (?buf[?m := CHR 0x0A]) = (out @ s) @ [CHR 0x0A]"
    using take_update_last [of ?m ?buf "CHR 0x0A"] t l assms(3) by simp
  then have "take (Suc (Suc ?m)) (?buf[?m := CHR 0x0A, Suc ?m := NUL]) = ((out @ s) @ [CHR 0x0A]) @ [NUL]"
    using take_update_last [of "Suc ?m" "?buf[?m := CHR 0x0A]" NUL] l assms(3) by simp
  then show ?thesis using m l by (simp add: Let_def)
qed

lemma unat_add_small:
  fixes x :: usize
  shows "unat x + n < 2 ^ 64 \<Longrightarrow> unat (x + of_nat n) = unat x + n"
  by (simp add: unat_word_ariths unat_of_nat)

lemma strcmp_dots: "cstr s \<Longrightarrow> strcmp s ''.'' = 0 \<longleftrightarrow> s = ''.''" "cstr s \<Longrightarrow> strcmp s ''..'' = 0 \<longleftrightarrow> s = ''..''"
  by (simp_all add: strcmp_eq)

lemma append_name_hidden:
  "cstr s \<Longrightarrow> \<not> shown s \<Longrightarrow> append_name e (Some s) len b = Some (True, len, b)"
  by (auto simp: append_name_def shown_def strcmp_dots)

lemma append_name_shown:
  assumes "cstr s" and "shown s" and "lb_ok b" and "holds_text b out" and "unat len = length out"
    and "length out + length s + 2 \<le> 2 ^ 63"
  shows "(append_name e (Some s) len b = Some (False, len, b) \<and> (\<exists>n. \<not> rl_ok e n)) \<or>
    (\<exists>len' b'. append_name e (Some s) len b = Some (True, len', b') \<and> lb_ok b' \<and>
      unat len' = length out + length s + 1 \<and> holds_text b' (out @ s @ [CHR 0x0A]) \<and>
      unat (lb_cap b) \<le> unat (lb_cap b') \<and>
      unat (lb_cap b') \<le> max (unat (lb_cap b)) (max 4096 (2 * (length out + length s + 2))))"
proof -
  let ?need = "len + of_nat (length s) + 2 :: usize"
  have len: "unat (len + of_nat (length s)) = length out + length s"
    using assms(5,6) by (simp add: unat_add_small)
  have need: "unat ?need = length out + length s + 2"
    using unat_add_small [of "len + of_nat (length s)" 2] len assms(6) by simp
  have len1: "unat (len + of_nat (length s) + 1) = length out + length s + 1"
    using unat_add_small [of "len + of_nat (length s)" 1] len assms(6) by simp
  obtain c t where s: "s = c # t" using assms(2) by (cases s) (simp_all add: shown_def)
  have c: "c \<noteq> NUL" using assms(1) s by simp
  have dots: "strcmp s ''.'' \<noteq> 0" "strcmp s ''..'' \<noteq> 0"
    using assms(1,2) by (simp_all add: strcmp_dots shown_def)
  have sl: "strlen s = length s" "chd s \<noteq> NUL" using assms(1) s by simp_all
  from ensure_cap_spec [OF assms(3), of ?need e] need assms(6) consider
    (no) "ensure_cap e ?need b = Some (False, b)" "\<exists>n. \<not> rl_ok e n"
  | (yes) b1 where "ensure_cap e ?need b = Some (True, b1)" "lb_ok b1" "unat ?need \<le> unat (lb_cap b1)"
      "unat (lb_cap b) \<le> unat (lb_cap b1)"
      "unat (lb_cap b1) \<le> max (unat (lb_cap b)) (max 4096 (2 * unat ?need))" "holds_text b1 out"
    using assms(4) by auto
  then show ?thesis
  proof cases
    case no
    then show ?thesis using sl dots by (simp add: append_name_def Let_def)
  next
    case yes
    then obtain buf where buf: "lb_buf b1 = Some buf" "length buf = unat (lb_cap b1)"
      by (auto simp: lb_ok_def holds_text_def)
    then have room: "length out + length s + 2 \<le> length buf" using yes(3) need by simp
    from write_line [OF yes(6) buf(1) room] obtain buf' where b': "memcpy_at buf (length out) s = Some buf'"
      "length buf' = length buf"
      "take (Suc (Suc (length out + length s))) (buf'[length out + length s := CHR 0x0A,
         Suc (length out + length s) := NUL]) = (out @ s @ [CHR 0x0A]) @ [NUL]"
      by (auto simp: Let_def)
    let ?f = "buf'[length out + length s := CHR 0x0A, Suc (length out + length s) := NUL]"
    have run: "append_name e (Some s) len b = Some (True, len + of_nat (length s) + 1, b1\<lparr>lb_buf := Some ?f\<rparr>)"
      using yes(1) sl dots buf b'(1,2) room len len1 assms(5)
      by (simp add: append_name_def Let_def put_char_def array_simps)
    have "lb_ok (b1\<lparr>lb_buf := Some ?f\<rparr>)" using yes(2) buf b'(2) by (auto simp: lb_ok_def)
    moreover have "holds_text (b1\<lparr>lb_buf := Some ?f\<rparr>) (out @ s @ [CHR 0x0A])"
      using b' room by (simp add: holds_text_def)
    ultimately show ?thesis using run len1 yes(4,5) need by simp
  qed
qed

lemma append_all_spec:
  assumes "\<forall>s \<in> set ents. cstr s" and "lb_ok b" and "holds_text b out" and "unat len = length out"
    and "length out + length (listing ents) + 1 \<le> 2 ^ 63"
  shows "\<exists>ok b'. append_all e ents len b = Some (ok, b') \<and> lb_ok b' \<and> lb_buf b' \<noteq> None \<and>
    (if ok then holds_text b' (out @ listing ents) else \<exists>n. \<not> rl_ok e n) \<and>
    unat (lb_cap b') \<le> max (unat (lb_cap b)) (max 4096 (2 * (length out + length (listing ents) + 1)))"
  using assms
proof (induction ents arbitrary: b out len)
  case Nil
  then show ?case by (auto simp: holds_text_def)
next
  case (Cons s ents)
  show ?case
  proof (cases "shown s")
    case False
    have same: "append_all e (s # ents) len b = append_all e ents len b" "listing (s # ents) = listing ents"
      using False Cons.prems(1) by (simp_all add: append_name_hidden)
    show ?thesis unfolding same
      by (rule Cons.IH [OF _ Cons.prems(2,3,4)]) (use Cons.prems(1,5) False in simp_all)
  next
    case True
    have small: "length out + length s + 2 \<le> 2 ^ 63" "length out + length s + 2 \<le>
      length out + length (listing (s # ents)) + 1" using Cons.prems(5) True by simp_all
    from append_name_shown [OF _ True Cons.prems(2,3,4) small(1), of e] Cons.prems(1) consider
      (no) "append_name e (Some s) len b = Some (False, len, b)" "\<exists>n. \<not> rl_ok e n"
    | (yes) len' b' where "append_name e (Some s) len b = Some (True, len', b')" "lb_ok b'"
        "unat len' = length (out @ s @ [CHR 0x0A])" "holds_text b' (out @ s @ [CHR 0x0A])"
        "unat (lb_cap b') \<le> max (unat (lb_cap b)) (max 4096 (2 * (length out + length s + 2)))"
      by auto
    then show ?thesis
    proof cases
      case no
      then show ?thesis using Cons.prems(2,3) by (auto simp: holds_text_def)
    next
      case yes
      have "\<forall>s \<in> set ents. cstr s" using Cons.prems(1) by simp
      from Cons.IH [OF this yes(2,4,3)] Cons.prems(5) True obtain ok b2 where b2:
        "append_all e ents len' b' = Some (ok, b2)" "lb_ok b2" "lb_buf b2 \<noteq> None"
        "if ok then holds_text b2 ((out @ s @ [CHR 0x0A]) @ listing ents) else \<exists>n. \<not> rl_ok e n"
        "unat (lb_cap b2) \<le> max (unat (lb_cap b')) (max 4096 (2 * (length (out @ s @ [CHR 0x0A]) +
           length (listing ents) + 1)))"
        by auto
      have "unat (lb_cap b2) \<le> max (unat (lb_cap b)) (max 4096 (2 * (length out + length (listing (s # ents)) + 1)))"
        using b2(5) yes(5) small(2) True by auto
      then show ?thesis using b2 yes(1) True by auto
    qed
  qed
qed

section \<open>The two operations\<close>

lemma cstr_listing: "\<forall>s \<in> set ents. cstr s \<Longrightarrow> cstr (listing ents)"
  by (induction ents) auto

lemma as_result_text:
  assumes "holds_text b out" and "cstr out"
  shows "as_result b = Some (out, b)"
proof -
  obtain buf where buf: "lb_buf b = Some buf" "take (Suc (length out)) buf = out @ [NUL]"
    using assms(1) by (auto simp: holds_text_def)
  then have "buf = (out @ [NUL]) @ drop (Suc (length out)) buf"
    by (metis append_take_drop_id)
  then obtain rest where b: "buf = out @ NUL # rest" by simp
  have "\<forall>c \<in> set out. c \<noteq> NUL" using assms(2) by (auto simp: cstr_def)
  then show ?thesis using buf(1) by (simp add: as_result_def read_cstr_def b)
qed

lemma clear_text:
  assumes "lb_ok b" and "lb_buf b \<noteq> None"
  shows "\<exists>b'. put_char 0 NUL b = Some b' \<and> lb_ok b' \<and> holds_text b' [] \<and> lb_cap b' = lb_cap b"
proof -
  obtain buf where buf: "lb_buf b = Some buf" "length buf = unat (lb_cap b)" "lb_cap b \<noteq> 0"
    using assms by (auto simp: lb_ok_def)
  then have l: "0 < length buf" by (simp add: unat_gt_0)
  then have "take (Suc 0) (buf[0 := NUL]) = [NUL]" by (cases buf) simp_all
  moreover have "buf \<noteq> []" using l by auto
  ultimately show ?thesis using buf l by (simp add: put_char_def array_simps lb_ok_def holds_text_def)
qed

text \<open>The names the path stands for, None where there is no directory to read.\<close>

definition dir_of :: "(string \<Rightarrow> string list option) \<Rightarrow> cptr \<Rightarrow> string list option" where
  "dir_of opendir path =
     (case path of None \<Rightarrow> None | Some p \<Rightarrow> if p = '''' then None else opendir p)"

definition listed :: "string list option \<Rightarrow> string" where
  "listed d = (case d of None \<Rightarrow> '''' | Some ents \<Rightarrow> listing ents)"

definition dir_fits :: "string list option \<Rightarrow> bool" where
  "dir_fits d \<longleftrightarrow> (case d of None \<Rightarrow> True
     | Some ents \<Rightarrow> (\<forall>s \<in> set ents. cstr s) \<and> length (listing ents) < 2 ^ 63)"

text \<open>The directory part of a listing, on a cleared buffer.\<close>

lemma list_dir_result:
  assumes "\<forall>s \<in> set ents. cstr s" and "length (listing ents) < 2 ^ 63" and "lb_ok b" and "holds_text b []"
  shows "\<exists>r b'. do { (ok, b) \<leftarrow> append_all e ents 0 b;
                     if ok then as_result b else do { b \<leftarrow> put_char 0 NUL b; as_result b } } = Some (r, b') \<and>
    lb_ok b' \<and> (r = listing ents \<or> r = '''' \<and> (\<exists>n. \<not> rl_ok e n)) \<and>
    unat (lb_cap b') \<le> max (unat (lb_cap b)) (max 4096 (2 * (length (listing ents) + 1)))"
proof -
  have "unat (0 :: usize) = length ([] :: string)" "length ([] :: string) + length (listing ents) + 1 \<le> 2 ^ 63"
    using assms(2) by simp_all
  from append_all_spec [OF assms(1,3,4) this, of e, unfolded append_Nil list.size(3) add_0] obtain ok b3 where b3:
    "append_all e ents 0 b = Some (ok, b3)" "lb_ok b3" "lb_buf b3 \<noteq> None"
    "if ok then holds_text b3 (listing ents) else \<exists>n. \<not> rl_ok e n"
    "unat (lb_cap b3) \<le> max (unat (lb_cap b)) (max 4096 (2 * (length (listing ents) + 1)))"
    by blast
  obtain b4 where b4: "put_char 0 NUL b3 = Some b4" "lb_ok b4" "holds_text b4 []" "lb_cap b4 = lb_cap b3"
    using clear_text [OF b3(2,3)] by blast
  show ?thesis
  proof (cases ok)
    case True
    then show ?thesis using b3 as_result_text [OF _ cstr_listing [OF assms(1)], of b3] by simp
  next
    case False
    then show ?thesis using b3 b4 as_result_text [OF b4(3)] by simp
  qed
qed

lemma list_names_result:
  assumes "lb_ok b" and "\<And>p. path = Some p \<Longrightarrow> cstr p" and "dir_fits (dir_of opendir path)"
  shows "\<exists>r b'. fx_fs_list_names e opendir path b = Some (r, b') \<and> lb_ok b' \<and>
    (r = listed (dir_of opendir path) \<or> r = '''' \<and> (\<exists>n. \<not> rl_ok e n)) \<and>
    unat (lb_cap b') \<le> max (unat (lb_cap b)) (max 4096 (2 * (length (listed (dir_of opendir path)) + 1)))"
proof -
  have "unat (1 :: usize) \<le> 2 ^ 63" by simp
  from ensure_cap_spec [OF assms(1) this, of e] consider
    (no) "ensure_cap e 1 b = Some (False, b)" "\<exists>n. \<not> rl_ok e n"
  | (yes) b1 where "ensure_cap e 1 b = Some (True, b1)" "lb_ok b1" "1 \<le> unat (lb_cap b1)"
      "unat (lb_cap b1) \<le> max (unat (lb_cap b)) 4096" by auto
  then show ?thesis
  proof cases
    case no
    then show ?thesis using assms(1) by (simp add: fx_fs_list_names_def)
  next
    case yes
    then have "lb_buf b1 \<noteq> None" by (auto simp: lb_ok_def split: option.splits)
    from clear_text [OF yes(2) this] obtain b2 where b2: "put_char 0 NUL b1 = Some b2" "lb_ok b2"
      "holds_text b2 []" "lb_cap b2 = lb_cap b1" by blast
    have empty: "as_result b2 = Some ('''', b2)" using as_result_text [OF b2(3)] by simp
    have nul: "\<And>p. path = Some p \<Longrightarrow> chd p = NUL \<longleftrightarrow> p = ''''"
      using assms(2) by (auto simp: chd_def cstr_def split: list.splits)
    show ?thesis
    proof (cases "dir_of opendir path")
      case None
      then have "fx_fs_list_names e opendir path b = Some ('''', b2)"
        using yes(1) b2(1) empty nul
        by (auto simp: fx_fs_list_names_def dir_of_def split: option.splits if_splits)
      then show ?thesis using None b2 yes(4) by (simp add: listed_def)
    next
      case (Some ents)
      then obtain p where p: "path = Some p" "chd p \<noteq> NUL" "opendir p = Some ents"
        using nul by (auto simp: dir_of_def split: option.splits if_splits)
      have fits: "\<forall>s \<in> set ents. cstr s" "length (listing ents) < 2 ^ 63"
        using assms(3) Some by (simp_all add: dir_fits_def)
      from list_dir_result [OF fits b2(2,3), of e] obtain r b' where r:
        "fx_fs_list_names e opendir path b = Some (r, b')" "lb_ok b'"
        "r = listing ents \<or> r = '''' \<and> (\<exists>n. \<not> rl_ok e n)"
        "unat (lb_cap b') \<le> max (unat (lb_cap b2)) (max 4096 (2 * (length (listing ents) + 1)))"
        using yes(1) b2(1) p by (auto simp: fx_fs_list_names_def)
      have "unat (lb_cap b') \<le> max (unat (lb_cap b)) (max 4096 (2 * (length (listing ents) + 1)))"
        using r(4) b2(4) yes(4) by auto
      then show ?thesis using r(1-3) Some by (auto simp: listed_def)
    qed
  qed
qed

lemma listed_split:
  assumes "\<And>ents s. d = Some ents \<Longrightarrow> s \<in> set ents \<Longrightarrow> CHR 0x0A \<notin> set s"
  shows "split_lines [] (listed d) = (case d of None \<Rightarrow> [] | Some ents \<Rightarrow> filter shown ents)"
  using assms by (auto simp: listed_def split_listing split: option.splits)

text \<open>
  C17: \<open>fx_fs_list_names\<close> returns on every input whose listing fits the address space, without touching a byte outside its buffer,
  and the buffer's capacity stays the size of the block it points to. The text returned is the
  listing of the directory, each name but the two dot entries followed by a newline; it is
  empty for a missing path or directory, and where \<open>realloc\<close> has refused a request it may be
  empty instead, never cut off. The buffer grows to at most twice what the listing needs.
\<close>

theorem fs_listing_exact:
  assumes "lb_ok b" and "\<And>p. path = Some p \<Longrightarrow> cstr p" and "dir_fits (dir_of opendir path)"
  shows "\<exists>r b'. fx_fs_list_names e opendir path b = Some (r, b') \<and> lb_ok b' \<and>
    (r = listed (dir_of opendir path) \<or> r = '''' \<and> (\<exists>n. \<not> rl_ok e n)) \<and>
    unat (lb_cap b') \<le> max (unat (lb_cap b)) (max 4096 (2 * (length (listed (dir_of opendir path)) + 1)))"
  by (rule list_names_result [OF assms])

definition demo_dir :: "string \<Rightarrow> string list option" where
  "demo_dir p = (if p = ''src'' then Some [''.'', ''a.fx'', ''..'', ''lib''] else None)"

definition demo_env :: realloc_env where
  "demo_env = \<lparr>rl_ok = (\<lambda>n. True), rl_junk = (\<lambda>i. CHR ''x'')\<rparr>"

lemma demo_dir_of: "dir_of demo_dir (Some ''src'') = Some [''.'', ''a.fx'', ''..'', ''lib'']"
  by (simp add: dir_of_def demo_dir_def)

theorem fs_listing_exact_witness:
  "\<exists>b'. fx_fs_list_names demo_env demo_dir (Some ''src'') \<lparr>lb_buf = None, lb_cap = 0\<rparr> =
     Some (''a.fx'' @ [CHR 0x0A] @ ''lib'' @ [CHR 0x0A], b') \<and> lb_ok b'"
  using fs_listing_exact [of "\<lparr>lb_buf = None, lb_cap = 0\<rparr>" "Some ''src''" demo_dir demo_env]
  by (auto simp: lb_ok_def dir_fits_def demo_dir_of listed_def shown_def demo_env_def)

text \<open>
  C40: reading back a listing. For a directory that can be opened and whose listing fits the address
  space, where no name contains a newline and no request for memory is refused, cutting the text
  at the newlines gives the names of the directory again, in the order the directory delivers
  them, without the dot entries. Without the first condition on names it fails, as
  \<open>newline_name_ambiguous\<close> shows.
\<close>

theorem fs_listing_roundtrip:
  assumes "lb_ok b" and "\<And>p. path = Some p \<Longrightarrow> cstr p" and "dir_fits (dir_of opendir path)"
    and "dir_of opendir path = Some ents" and "\<forall>s \<in> set ents. CHR 0x0A \<notin> set s" and "\<forall>n. rl_ok e n"
  shows "\<exists>r b'. fx_fs_list_names e opendir path b = Some (r, b') \<and>
    split_lines [] r = filter shown ents \<and> fx_fs_list_ok opendir path = 1"
proof -
  have "fx_fs_list_ok opendir path = 1"
    using assms(2,4)
    by (auto simp: fx_fs_list_ok_def dir_of_def chd_def cstr_def split: option.splits if_splits list.splits)
  then show ?thesis
    using list_names_result [OF assms(1-3), of e] assms(4-6) listed_split [of "Some ents"] by auto
qed

theorem fs_listing_roundtrip_witness:
  "\<exists>r b'. fx_fs_list_names demo_env demo_dir (Some ''src'') \<lparr>lb_buf = None, lb_cap = 0\<rparr> = Some (r, b') \<and>
     split_lines [] r = [''a.fx'', ''lib'']"
  using fs_listing_roundtrip [of "\<lparr>lb_buf = None, lb_cap = 0\<rparr>" "Some ''src''" demo_dir
      "[''.'', ''a.fx'', ''..'', ''lib'']" demo_env]
  by (auto simp: lb_ok_def dir_fits_def demo_dir_of shown_def demo_env_def)

text \<open>A newline in a name, which POSIX allows, cannot be told from two names.\<close>

lemma newline_name_ambiguous:
  "listing [''a'' @ [CHR 0x0A] @ ''b''] = listing [''a'', ''b'']"
  by (simp add: shown_def)

end
