(* ===== verification/FsWalkWin.thy ===== *)
theory FsWalkWin
  imports FsWalk
begin

text \<open>
  The Windows branch of \<open>host/std_fs_walk/ref.c\<close>: the search pattern is built in an array of
  \<open>MAX_PATH\<close> characters on the stack, whose content before is arbitrary, and the names come
  from \<open>FindFirstFileA\<close> and \<open>FindNextFileA\<close>, a parameter: None where the first call answers
  \<open>INVALID_HANDLE_VALUE\<close>, else the first name and the ones that follow.
\<close>

section \<open>The code\<close>

definition MAX_PATH :: nat where "MAX_PATH = 260"

type_synonym find_files = "string \<Rightarrow> (string \<times> string list) option"

text \<open>The inner None is a path the caller refuses; the pattern is read as a C string.\<close>

definition win_pattern :: "(nat \<Rightarrow> char) \<Rightarrow> string \<Rightarrow> string option option" where
  "win_pattern junk path =
     (let plen = strlen path in
      if plen + 3 \<ge> MAX_PATH then Some None
      else do {
        pattern \<leftarrow> memcpy_at (map junk [0..<MAX_PATH]) 0 (take plen path);
        final \<leftarrow> (if plen > 0 then char_at path (plen - 1) else Some CHR ''/'');
        (pattern, plen) \<leftarrow>
          (if plen > 0 \<and> final \<noteq> CHR 0x5C \<and> final \<noteq> CHR ''/''
           then do { pattern \<leftarrow> aset pattern plen CHR 0x5C; Some (pattern, plen + 1) }
           else Some (pattern, plen));
        pattern \<leftarrow> aset pattern plen CHR ''*'';
        pattern \<leftarrow> aset pattern (plen + 1) NUL;
        s \<leftarrow> read_cstr pattern;
        Some (Some s) })"

definition fx_fs_list_names_win ::
  "(nat \<Rightarrow> char) \<Rightarrow> realloc_env \<Rightarrow> find_files \<Rightarrow> cptr \<Rightarrow> listbuf \<Rightarrow> (string \<times> listbuf) option" where
  "fx_fs_list_names_win junk e ff path b =
     do { (ok, b) \<leftarrow> ensure_cap e 1 b;
          if \<not> ok then Some ('''', b)
          else do {
            b \<leftarrow> put_char 0 NUL b;
            case path of None \<Rightarrow> as_result b | Some p \<Rightarrow>
              if chd p = NUL then as_result b
              else do {
                pattern \<leftarrow> win_pattern junk p;
                case pattern of None \<Rightarrow> as_result b | Some pat \<Rightarrow>
                  case ff pat of None \<Rightarrow> as_result b | Some (f1, rest) \<Rightarrow> do {
                    (ok, b) \<leftarrow> append_all e (f1 # rest) 0 b;
                    if ok then as_result b else do { b \<leftarrow> put_char 0 NUL b; as_result b } } } } }"

definition fx_fs_list_ok_win :: "(nat \<Rightarrow> char) \<Rightarrow> find_files \<Rightarrow> cptr \<Rightarrow> i32 option" where
  "fx_fs_list_ok_win junk ff path =
     (case path of None \<Rightarrow> Some 0 | Some p \<Rightarrow>
      if chd p = NUL then Some 0
      else do {
        pattern \<leftarrow> win_pattern junk p;
        Some (case pattern of None \<Rightarrow> 0 | Some pat \<Rightarrow> (case ff pat of None \<Rightarrow> 0 | Some _ \<Rightarrow> 1)) })"

section \<open>The pattern\<close>

text \<open>The directory as the code names it to the system, with a separator only where one is missing.\<close>

definition star :: "string \<Rightarrow> string" where
  "star p = p @ (if last p = CHR 0x5C \<or> last p = CHR ''/'' then ''*'' else [CHR 0x5C, CHR ''*''])"

lemma memcpy_start:
  assumes "length xs \<le> length buf"
  shows "memcpy_at buf 0 xs = Some (xs @ drop (length xs) buf)"
  using assms by (simp add: memcpy_at_def)

lemma aset_append: "aset (xs @ y # ys) (length xs) v = Some (xs @ v # ys)"
  by (simp add: aset_def)

lemma read_cstr_append: "cstr s \<Longrightarrow> read_cstr (s @ NUL # rest) = Some s"
  by (auto simp: read_cstr_def cstr_def takeWhile_append)

lemma win_pattern_eq:
  assumes p: "cstr p" and ne: "p \<noteq> []"
  shows "win_pattern junk p = Some (if length p + 3 \<ge> MAX_PATH then None else Some (star p))"
proof (cases "length p + 3 \<ge> MAX_PATH")
  case True
  then show ?thesis using p by (simp add: win_pattern_def Let_def)
next
  case False
  let ?buf = "map junk [0..<MAX_PATH]"
  have room: "length p + 3 < length ?buf" using False by simp
  obtain x y z rest where d: "drop (length p) ?buf = x # y # z # rest"
  proof -
    have "3 \<le> length (drop (length p) ?buf)" using room by simp
    then show ?thesis using that
      by (metis (no_types, lifting) Suc_le_length_iff numeral_3_eq_3)
  qed
  have m: "memcpy_at ?buf 0 p = Some (p @ x # y # z # rest)"
    using memcpy_start [of p ?buf] room by (simp add: d)
  have l: "char_at p (length p - 1) = Some (last p)"
    using ne by (simp add: char_at_def last_conv_nth)
  show ?thesis
  proof (cases "last p = CHR 0x5C \<or> last p = CHR ''/''")
    case True
    have "aset (p @ x # y # z # rest) (length p) CHR ''*'' = Some (p @ CHR ''*'' # y # z # rest)"
      by (rule aset_append)
    moreover have "aset (p @ CHR ''*'' # y # z # rest) (length p + 1) NUL = Some (p @ CHR ''*'' # NUL # z # rest)"
      using aset_append [of "p @ ''*''" y "z # rest" NUL] by simp
    moreover have "read_cstr (p @ CHR ''*'' # NUL # z # rest) = Some (p @ ''*'')"
      using read_cstr_append [of "p @ ''*''"] p by simp
    ultimately show ?thesis using False True p m l ne by (auto simp: win_pattern_def Let_def star_def)
  next
    case sep: False
    have "aset (p @ x # y # z # rest) (length p) CHR 0x5C = Some (p @ CHR 0x5C # y # z # rest)"
      by (rule aset_append)
    moreover have "aset (p @ CHR 0x5C # y # z # rest) (length p + 1) CHR ''*'' = Some (p @ CHR 0x5C # CHR ''*'' # z # rest)"
      using aset_append [of "p @ [CHR 0x5C]" y "z # rest"] by simp
    moreover have "aset (p @ CHR 0x5C # CHR ''*'' # z # rest) (length p + 2) NUL = Some (p @ CHR 0x5C # CHR ''*'' # NUL # rest)"
      using aset_append [of "p @ [CHR 0x5C, CHR ''*'']" z rest] by simp
    moreover have "read_cstr (p @ CHR 0x5C # CHR ''*'' # NUL # rest) = Some (p @ [CHR 0x5C, CHR ''*''])"
      using read_cstr_append [of "p @ [CHR 0x5C, CHR ''*'']"] p by simp
    ultimately show ?thesis using False sep p m l ne by (simp add: win_pattern_def Let_def star_def)
  qed
qed

text \<open>The directory the Windows branch reads, as a function like \<open>opendir\<close>.\<close>

definition win_dir :: "find_files \<Rightarrow> string \<Rightarrow> string list option" where
  "win_dir ff p = (if length p + 3 \<ge> MAX_PATH then None
     else map_option (\<lambda>(f1, rest). f1 # rest) (ff (star p)))"

section \<open>The property\<close>

text \<open>
  C18: the Windows branch is the other branch over another directory. For every path the
  Windows listing never writes outside its pattern array nor reads past the path, whatever
  the array held before, and is, with the buffer it leaves, exactly the listing of the other
  branch for the directory that \<open>FindFirstFileA\<close> and \<open>FindNextFileA\<close> deliver for the path
  followed by a separator, if it lacks one, and a star; a path of 257 characters or more has
  no directory. So it is the names in order, and the test agrees with it.
\<close>

theorem windows_listing_equiv:
  assumes "\<And>p. path = Some p \<Longrightarrow> cstr p"
  shows "fx_fs_list_names_win junk e ff path b = fx_fs_list_names e (win_dir ff) path b \<and>
    fx_fs_list_ok_win junk ff path = Some (fx_fs_list_ok (win_dir ff) path) \<and>
    (lb_ok b \<longrightarrow> dir_fits (dir_of (win_dir ff) path) \<longrightarrow>
       (\<exists>r b'. fx_fs_list_names_win junk e ff path b = Some (r, b') \<and> lb_ok b' \<and>
          (r = listed (dir_of (win_dir ff) path) \<or> r = '''' \<and> (\<exists>n. \<not> rl_ok e n))))"
proof -
  have pat: "win_pattern junk p = Some (if length p + 3 \<ge> MAX_PATH then None else Some (star p))"
    if "path = Some p" "chd p \<noteq> NUL" for p
  proof -
    have "p \<noteq> []" using that(2) by auto
    from win_pattern_eq [OF assms [OF that(1)] this] show ?thesis .
  qed
  have eq: "fx_fs_list_names_win junk e ff path b = fx_fs_list_names e (win_dir ff) path b"
  proof (cases path)
    case None
    then show ?thesis by (simp add: fx_fs_list_names_win_def fx_fs_list_names_def cong: if_cong)
  next
    case (Some p)
    then show ?thesis
      using pat [OF Some]
      by (cases "chd p = NUL"; cases "ff (star p)")
        (auto simp: fx_fs_list_names_win_def fx_fs_list_names_def win_dir_def intro!: bind_option_cong)
  qed
  have ok: "fx_fs_list_ok_win junk ff path = Some (fx_fs_list_ok (win_dir ff) path)"
  proof (cases path)
    case (Some p)
    then show ?thesis using pat [OF Some]
      by (cases "chd p = NUL"; cases "ff (star p)") (simp_all add: fx_fs_list_ok_win_def fx_fs_list_ok_def win_dir_def)
  qed (simp add: fx_fs_list_ok_win_def fx_fs_list_ok_def)
  show ?thesis using eq ok list_names_result [of b path "win_dir ff" e] assms by auto
qed

definition demo_find :: find_files where
  "demo_find s = (if s = ''src'' @ [CHR 0x5C, CHR ''*''] then Some (''.'', [''..'', ''a.fx'']) else None)"

theorem windows_listing_equiv_witness:
  "\<exists>b'. fx_fs_list_names_win (\<lambda>_. CHR ''x'') demo_env demo_find (Some ''src'') \<lparr>lb_buf = None, lb_cap = 0\<rparr> =
     Some (''a.fx'' @ [CHR 0x0A], b')"
proof -
  let ?b = "\<lparr>lb_buf = None, lb_cap = 0\<rparr>"
  have d: "dir_of (win_dir demo_find) (Some ''src'') = Some [''.'', ''..'', ''a.fx'']"
    by (simp add: dir_of_def win_dir_def demo_find_def star_def MAX_PATH_def)
  have f: "lb_ok ?b" "dir_fits (dir_of (win_dir demo_find) (Some ''src''))" "\<not> (\<exists>n. \<not> rl_ok demo_env n)"
    "listed (dir_of (win_dir demo_find) (Some ''src'')) = ''a.fx'' @ [CHR 0x0A]"
    by (simp_all add: d lb_ok_def dir_fits_def listed_def shown_def demo_env_def)
  have "\<And>p. Some ''src'' = Some p \<Longrightarrow> cstr p" by auto
  from windows_listing_equiv [of "Some ''src''" "\<lambda>_. CHR ''x''" demo_env demo_find ?b, OF this] f(1-3) obtain r b'
    where "fx_fs_list_names_win (\<lambda>_. CHR ''x'') demo_env demo_find (Some ''src'') ?b = Some (r, b')"
      "r = listed (dir_of (win_dir demo_find) (Some ''src''))" by blast
  then show ?thesis unfolding f(4) by blast
qed

end
