(* ===== verification/CoreErr.thy ===== *)
theory CoreErr
  imports FxPrelude
begin

text \<open>
  The error codes of the zspec library (\<open>zspec/core_error.h\<close>) and what the host code does with
  the answer of its string copies, a code and a pointer that may still be NULL.
\<close>

datatype core_Err = CORE_OK | CORE_ERR_OUT_OF_MEMORY | CORE_ERR_INVALID_ARG | CORE_ERR_OVERFLOW
  | CORE_ERR_UNSUPPORTED

definition core_err_is_ok :: "core_Err \<Rightarrow> bool" where
  "core_err_is_ok err \<longleftrightarrow> err = CORE_OK"

definition core_err_is_err :: "core_Err \<Rightarrow> bool" where
  "core_err_is_err err \<longleftrightarrow> err \<noteq> CORE_OK"

lemma core_err_cases: "core_err_is_err err \<longleftrightarrow> \<not> core_err_is_ok err"
  by (simp add: core_err_is_ok_def core_err_is_err_def)

section \<open>Copying a string\<close>

text \<open>
  \<open>core_str_dup\<close> and \<open>core_str_dup_cstr\<close> answer an error code and set an out-pointer. Every
  caller takes the copy only if the code is OK and the pointer is not NULL.
\<close>

type_synonym str_dup = "string \<Rightarrow> core_Err \<times> string option"

definition dup_or :: "core_Err \<times> string option \<Rightarrow> string \<Rightarrow> string" where
  "dup_or r alt = (if fst r \<noteq> CORE_OK \<or> snd r = None then alt else the (snd r))"

text \<open>What is documented of the copies: one that succeeds has the text it was given.\<close>

definition dup_copies :: "str_dup \<Rightarrow> bool" where
  "dup_copies dup \<longleftrightarrow> (\<forall>v r. dup v = (CORE_OK, Some r) \<longrightarrow> r = v)"

definition dup_fails :: "str_dup \<Rightarrow> string \<Rightarrow> bool" where
  "dup_fails dup v \<longleftrightarrow> core_err_is_err (fst (dup v)) \<or> snd (dup v) = None"

text \<open>A copy that never fails.\<close>

definition dup_fine :: str_dup where "dup_fine v = (CORE_OK, Some v)"

lemma dup_or_cases:
  assumes "dup_copies dup"
  shows "dup_or (dup v) alt = (if dup_fails dup v then alt else v)"
  using assms
  by (cases "dup v") (auto simp: dup_or_def dup_copies_def dup_fails_def core_err_is_err_def)

lemma dup_fine [simp]: "dup_copies dup_fine" "\<not> dup_fails dup_fine v"
  by (simp_all add: dup_copies_def dup_fails_def dup_fine_def core_err_is_err_def)

end
