(* ===== verification/Process.thy ===== *)
theory Process
  imports Decimal CoreErr
begin

text \<open>
  The process edge (\<open>host/process/fx_process.c\<close>, the POSIX branch). The file system is a map
  from paths to kinds of node, the working directory is a string, and what the system calls
  answer is a parameter of each call. The string copies belong to a library outside the
  repository and are parameters too, answering an error code and a pointer (\<open>CoreErr\<close>).
\<close>

section \<open>Files and directories\<close>

datatype node = RegularFile | Directory | OtherNode

type_synonym fs = "string \<rightharpoonup> node"

definition no_path :: "cptr \<Rightarrow> bool" where
  "no_path path = (case path of None \<Rightarrow> True | Some p \<Rightarrow> chd p = NUL)"

definition fx_proc_file_exists :: "fs \<Rightarrow> cptr \<Rightarrow> int" where
  "fx_proc_file_exists fs path =
     (if no_path path then 0
      else case fs (the path) of None \<Rightarrow> 0 | Some st \<Rightarrow> if st = RegularFile then 1 else 0)"

text \<open>\<open>allowed p\<close> is whether \<open>mkdir\<close> can make \<open>p\<close> where nothing has that name.\<close>

datatype errno = EEXIST | EOTHER

definition mkdir :: "(string \<Rightarrow> bool) \<Rightarrow> string \<Rightarrow> fs \<Rightarrow> errno option \<times> fs" where
  "mkdir allowed p fs =
     (if fs p \<noteq> None then (Some EEXIST, fs)
      else if allowed p then (None, fs(p \<mapsto> Directory)) else (Some EOTHER, fs))"

definition fx_proc_ensure_dir :: "(string \<Rightarrow> bool) \<Rightarrow> cptr \<Rightarrow> fs \<Rightarrow> int \<times> fs" where
  "fx_proc_ensure_dir allowed path fs =
     (if no_path path then (1, fs)
      else let (err, fs) = mkdir allowed (the path) fs in
        if err = None \<or> err = Some EEXIST then (0, fs) else (1, fs))"

definition fx_proc_chdir :: "(string \<Rightarrow> string option) \<Rightarrow> cptr \<Rightarrow> string \<Rightarrow> int \<times> string" where
  "fx_proc_chdir chdir path cwd =
     (if no_path path then (1, cwd)
      else case chdir (the path) of None \<Rightarrow> (1, cwd) | Some d \<Rightarrow> (0, d))"

text \<open>
  \<open>getcwd\<close> gets the length through an \<open>int\<close>. The outer None is a write outside the buffer,
  the inner one the NULL result; \<open>ok\<close> is whether the call can succeed at all.
\<close>

definition getcwd_size :: "usize \<Rightarrow> usize" where
  "getcwd_size buflen = scast (ucast buflen :: i32)"

definition getcwd :: "bool \<Rightarrow> string \<Rightarrow> char list \<Rightarrow> usize \<Rightarrow> char list option option" where
  "getcwd ok cwd buf n =
     (if \<not> ok \<or> unat n < length cwd + 1 then Some None
      else if length buf < length cwd + 1 then None
      else Some (Some (cwd @ NUL # drop (length cwd + 1) buf)))"

definition fx_proc_getcwd ::
  "bool \<Rightarrow> string \<Rightarrow> char list option \<Rightarrow> usize \<Rightarrow> char list option option" where
  "fx_proc_getcwd ok cwd buf buflen =
     (case buf of None \<Rightarrow> Some None | Some b \<Rightarrow>
      if buflen = 0 then Some None else getcwd ok cwd b (getcwd_size buflen))"

section \<open>Commands\<close>

text \<open>The wait status of \<open>system\<close>: the low seven bits are the signal, the next byte the code.\<close>

definition WIFEXITED :: "i32 \<Rightarrow> bool" where
  "WIFEXITED st \<longleftrightarrow> st AND 0x7F = 0"

definition WEXITSTATUS :: "i32 \<Rightarrow> i32" where
  "WEXITSTATUS st = drop_bit 8 (st AND 0xFF00)"

definition fx_proc_run_cmd :: "(string \<Rightarrow> i32) \<Rightarrow> cptr \<Rightarrow> i32" where
  "fx_proc_run_cmd system cmd =
     (case cmd of None \<Rightarrow> 1 | Some c \<Rightarrow>
      if chd c = NUL then 1
      else let st = system c in
        if st = - 1 then 127 else if WIFEXITED st then WEXITSTATUS st else 1)"

section \<open>Strings\<close>

definition sub_view :: "string \<Rightarrow> int \<Rightarrow> int \<Rightarrow> string option" where
  "sub_view s lo n =
     (if 0 \<le> lo \<and> 0 \<le> n \<and> lo + n \<le> int (length s) then Some (take (nat n) (drop (nat lo) s)) else None)"

definition fx_proc_slice :: "str_dup \<Rightarrow> cptr \<Rightarrow> i32 \<Rightarrow> i32 \<Rightarrow> string option" where
  "fx_proc_slice core_str_dup s lo hi =
     (case s of None \<Rightarrow> Some '''' | Some str \<Rightarrow>
      if sint lo < 0 \<or> sint hi < sint lo then Some ''''
      else let slen = int (strlen str); hi' = (if sint hi > slen then slen else sint hi) in
        if sint lo > slen \<or> sint lo = hi' then Some ''''
        else do {
          v \<leftarrow> sub_view str (sint lo) (hi' - sint lo);
          Some (dup_or (core_str_dup v) '''') })"

text \<open>\<open>snprintf\<close> with a buffer of \<open>n\<close> bytes writes at most \<open>n - 1\<close> characters and the terminator.\<close>

definition snprintf_d :: "nat \<Rightarrow> int \<Rightarrow> string" where
  "snprintf_d n i = take (n - 1) (dec_int i)"

definition fx_proc_i32_dec :: "str_dup \<Rightarrow> bool \<Rightarrow> i32 \<Rightarrow> string" where
  "fx_proc_i32_dec core_str_dup_cstr format_ok n =
     (if \<not> format_ok then ''0''
      else dup_or (core_str_dup_cstr (snprintf_d 16 (sint n))) ''0'')"

definition fx_proc_getcwd_alloc ::
  "str_dup \<Rightarrow> bool \<Rightarrow> string \<Rightarrow> char list \<Rightarrow> string option" where
  "fx_proc_getcwd_alloc core_str_dup_cstr ok cwd buf =
     do { r \<leftarrow> fx_proc_getcwd ok cwd (Some buf) 4096;
          case r of None \<Rightarrow> Some ''''
          | Some b \<Rightarrow> Some (dup_or (core_str_dup_cstr (takeWhile (\<lambda>c. c \<noteq> NUL) b)) '''') }"

section \<open>What the operations do\<close>

lemma ensure_dir_spec:
  assumes "fx_proc_ensure_dir allowed path fs = (rc, fs')"
  shows "(rc = 0 \<longrightarrow> (\<exists>p. path = Some p \<and> fs' p \<noteq> None)) \<and> (rc \<noteq> 0 \<longrightarrow> rc = 1 \<and> fs' = fs) \<and>
    fs \<subseteq>\<^sub>m fs'"
  using assms
  by (auto simp: fx_proc_ensure_dir_def mkdir_def no_path_def map_le_def split: option.splits if_splits)

text \<open>A regular file of that name is taken for the directory.\<close>

lemma ensure_dir_accepts_file:
  "fx_proc_ensure_dir allowed (Some ''out'') [''out'' \<mapsto> RegularFile] = (0, [''out'' \<mapsto> RegularFile])"
  by (simp add: fx_proc_ensure_dir_def mkdir_def no_path_def)

lemma exit_code:
  assumes "code < 256"
  shows "fx_proc_run_cmd (\<lambda>_. of_nat (256 * code)) (Some ''make'') = of_nat code"
proof -
  have e: "(of_nat (256 * code) :: i32) = push_bit 8 (of_nat code)"
    by (simp add: push_bit_eq_mult)
  have z: "push_bit 8 (of_nat code :: i32) AND 0x7F = 0"
  proof (rule bit_word_eqI)
    fix i assume "i < LENGTH(32)"
    have f: "0x7F = (mask 7 :: i32)" by (simp add: mask_eq_exp_minus_1)
    show "bit (push_bit 8 (of_nat code :: i32) AND 0x7F) i \<longleftrightarrow> bit (0 :: i32) i"
      unfolding f by (auto simp: bit_simps)
  qed
  have m: "drop_bit 8 (push_bit 8 (of_nat code :: i32) AND 0xFF00) = of_nat code"
  proof (rule bit_word_eqI)
    fix i assume i: "i < LENGTH(32)"
    have f: "(0xFF00 :: i32) = push_bit 8 (mask 8)" by (simp add: mask_eq_exp_minus_1)
    have "take_bit 8 code = code" using assms by (simp add: take_bit_nat_eq_self)
    then have c: "bit code i \<Longrightarrow> i < 8" by (metis bit_take_bit_iff)
    show "bit (drop_bit 8 (push_bit 8 (of_nat code :: i32) AND 0xFF00)) i \<longleftrightarrow> bit (of_nat code :: i32) i"
      unfolding f using i c by (auto simp: bit_simps)
  qed
  have n: "push_bit 8 (of_nat code :: i32) \<noteq> - 1"
  proof
    assume "push_bit 8 (of_nat code :: i32) = - 1"
    with z show False by simp
  qed
  show ?thesis unfolding fx_proc_run_cmd_def Let_def e WIFEXITED_def WEXITSTATUS_def m using z n by simp
qed

text \<open>\<open>fx_proc_getcwd\<close> stays inside a buffer whose size is told truthfully and is an \<open>int\<close>.\<close>

lemma getcwd_size_small:
  assumes "unat n < 2 ^ 31"
  shows "getcwd_size n = n"
proof -
  have "int (unat n) < int (2 ^ 31)" using assms by (simp only: of_nat_less_iff)
  then have "uint n < 2 ^ 31" by simp
  moreover have "0 \<le> uint n" by simp
  ultimately have "signed_take_bit 31 (uint n) = uint n"
    by (intro signed_take_bit_int_eq_self) linarith+
  then have "sint (ucast n :: i32) = uint n" by (simp add: signed_ucast_eq)
  moreover have "scast (ucast n :: i32) = (word_of_int (sint (ucast n :: i32)) :: usize)" by simp
  ultimately show ?thesis by (simp add: getcwd_size_def)
qed

lemma getcwd_result:
  assumes "length buf = unat n" and "unat n < 2 ^ 31" and "cstr cwd"
  shows "\<exists>r. fx_proc_getcwd ok cwd (Some buf) n = Some r \<and>
    (case r of None \<Rightarrow> \<not> ok \<or> length buf \<le> length cwd
     | Some b \<Rightarrow> length b = length buf \<and> takeWhile (\<lambda>c. c \<noteq> NUL) b = cwd)"
proof -
  have "\<forall>c \<in> set cwd. c \<noteq> NUL" using assms(3) by (auto simp: cstr_def)
  then have t: "takeWhile (\<lambda>c. c \<noteq> NUL) (cwd @ NUL # xs) = cwd" for xs by simp
  show ?thesis
    using assms(1) t by (auto simp: fx_proc_getcwd_def getcwd_def getcwd_size_small [OF assms(2)])
qed

lemma getcwd_alloc_result:
  assumes "length buf = 4096" and "cstr cwd" and "dup_copies dup"
  shows "\<exists>r. fx_proc_getcwd_alloc dup ok cwd buf = Some r \<and>
    (r = cwd \<or> r = '''' \<and> (\<not> ok \<or> 4096 \<le> length cwd \<or> dup_fails dup cwd))"
proof -
  have u: "length buf = unat (4096 :: usize)" "unat (4096 :: usize) < 2 ^ 31" using assms(1) by simp_all
  from getcwd_result [OF u assms(2), of ok] show ?thesis
    using assms(1) by (auto simp: fx_proc_getcwd_alloc_def dup_or_cases [OF assms(3)] split: option.splits)
qed

section \<open>The properties\<close>

text \<open>
  \<open>fx_proc_slice\<close> never reads outside its string and never returns NULL. For bounds with
  \<open>0 \<le> lo \<le> hi\<close> it is the part of the string from \<open>lo\<close> to before \<open>hi\<close>, cut at the end of the
  string, or empty when the copy could not be made; for other bounds and for NULL it is empty.
\<close>

theorem slice_exact:
  assumes "dup_copies dup" and "cstr s"
  shows "fx_proc_slice dup None lo hi = Some '''' \<and>
    (\<exists>r. fx_proc_slice dup (Some s) lo hi = Some r \<and>
      (r = (if 0 \<le> sint lo \<and> sint lo \<le> sint hi then drop (nat (sint lo)) (take (nat (sint hi)) s) else '''')
       \<or> r = '''' \<and> dup_fails dup (drop (nat (sint lo)) (take (nat (sint hi)) s))))"
proof -
  let ?lo = "nat (sint lo)" and ?hi = "nat (sint hi)"
  consider (bad) "sint lo < 0 \<or> sint hi < sint lo"
    | (past) "0 \<le> sint lo" "sint lo \<le> sint hi" "length s \<le> ?lo"
    | (nothing) "0 \<le> sint lo" "sint lo = sint hi"
    | (part) "0 \<le> sint lo" "sint lo < sint hi" "?lo < length s"
    by linarith
  then have "\<exists>r. fx_proc_slice dup (Some s) lo hi = Some r \<and>
      (r = (if 0 \<le> sint lo \<and> sint lo \<le> sint hi then drop ?lo (take ?hi s) else '''')
       \<or> r = '''' \<and> dup_fails dup (drop ?lo (take ?hi s)))"
  proof cases
    case bad
    then show ?thesis by (auto simp: fx_proc_slice_def)
  next
    case past
    then have "int (length s) \<le> sint lo" by linarith
    with past assms(2) show ?thesis by (auto simp: fx_proc_slice_def Let_def)
  next
    case nothing
    then show ?thesis using assms(2) by (auto simp: fx_proc_slice_def Let_def)
  next
    case part
    define n where "n = (if sint hi > int (length s) then int (length s) else sint hi) - sint lo"
    have n: "0 < n" "sint lo + n \<le> int (length s)" using part by (auto simp: n_def)
    have "take (nat n) (drop ?lo s) = drop ?lo (take ?hi s)"
    proof (cases "sint hi > int (length s)")
      case True
      then have "n = int (length s) - sint lo" "length s \<le> ?hi" using n_def by auto
      then have "nat n = length s - ?lo" "length s \<le> ?hi" using part by linarith+
      then show ?thesis by simp
    next
      case False
      then have "nat n = ?hi - ?lo" using part n_def by (simp add: nat_diff_distrib)
      then show ?thesis by (simp add: drop_take)
    qed
    then have v: "sub_view s (sint lo) n = Some (drop ?lo (take ?hi s))"
      using part n by (simp add: sub_view_def)
    have "fx_proc_slice dup (Some s) lo hi = Some (dup_or (dup (drop ?lo (take ?hi s))) '''')"
      using part n(1) v assms(2) by (auto simp: fx_proc_slice_def Let_def n_def)
    then show ?thesis using part by (simp add: dup_or_cases [OF assms(1)])
  qed
  then show ?thesis by (simp add: fx_proc_slice_def)
qed

theorem slice_exact_witness:
  "fx_proc_slice dup_fine (Some ''fxlang'') 2 4 = Some ''la'' \<and> cstr ''fxlang''"
  using slice_exact [of dup_fine "''fxlang''" 2 4] by simp

text \<open>
  Numbers survive printing. The text of \<open>fx_proc_i32_dec\<close> always fits the 16-byte buffer,
  and reading it as a decimal number gives the number back, for every 32-bit value, the
  smallest included; where the copy fails the text is that of 0.
\<close>

theorem i32_dec_roundtrip:
  assumes "dup_copies dup"
  shows "snprintf_d 16 (sint n) = dec_int (sint n) \<and>
    (read_int (fx_proc_i32_dec dup True n) = sint n \<or> dup_fails dup (dec_int (sint n)) \<and> fx_proc_i32_dec dup True n = ''0'')"
proof -
  have "- (2 ^ 31) \<le> sint n" "sint n < 2 ^ 31" using sint_range_size [of n] by (simp_all add: word_size)
  then have "\<bar>sint n\<bar> < 10 ^ 10" by simp
  from dec_int_length [OF this] have f: "snprintf_d 16 (sint n) = dec_int (sint n)"
    by (simp add: snprintf_d_def)
  then show ?thesis
    using dec_int_read by (simp add: fx_proc_i32_dec_def dup_or_cases [OF assms])
qed

theorem i32_dec_roundtrip_witness:
  "read_int (fx_proc_i32_dec dup_fine True 0x80000000) = - 2147483648"
  using i32_dec_roundtrip [of dup_fine "0x80000000"] by simp

end
