(* ===== verification/ShimsWin.thy ===== *)
theory ShimsWin
  imports Process HostStd
begin

text \<open>
  The Windows branches of \<open>process/fx_process.c\<close> and \<open>std_time/ref.c\<close>, and how far they give
  a program what the POSIX branches give it. What \<open>GetFileAttributesA\<close>, \<open>system\<close> and the
  clock answer are parameters; the slices and decimal texts have no branches.
\<close>

section \<open>The code\<close>

definition INVALID_FILE_ATTRIBUTES :: u32 where "INVALID_FILE_ATTRIBUTES = 0xFFFFFFFF"

definition FILE_ATTRIBUTE_DIRECTORY :: u32 where "FILE_ATTRIBUTE_DIRECTORY = 0x10"

definition fx_proc_file_exists_win :: "(string \<Rightarrow> u32) \<Rightarrow> cptr \<Rightarrow> int" where
  "fx_proc_file_exists_win GetFileAttributesA path =
     (if no_path path then 0
      else let a = GetFileAttributesA (the path) in
        if a \<noteq> INVALID_FILE_ATTRIBUTES \<and> a AND FILE_ATTRIBUTE_DIRECTORY = 0 then 1 else 0)"

definition fx_proc_run_cmd_win :: "(string \<Rightarrow> i32) \<Rightarrow> cptr \<Rightarrow> i32" where
  "fx_proc_run_cmd_win system cmd =
     (case cmd of None \<Rightarrow> 1 | Some c \<Rightarrow>
      if chd c = NUL then 1 else let st = system c in if st = - 1 then 127 else st)"

text \<open>The error is read only when the call has failed.\<close>

datatype win_error = ERROR_ALREADY_EXISTS | ERROR_OTHER

definition CreateDirectoryA :: "(string \<Rightarrow> bool) \<Rightarrow> string \<Rightarrow> fs \<Rightarrow> bool \<times> win_error \<times> fs" where
  "CreateDirectoryA allowed p fs =
     (if fs p \<noteq> None then (False, ERROR_ALREADY_EXISTS, fs)
      else if allowed p then (True, ERROR_OTHER, fs(p \<mapsto> Directory)) else (False, ERROR_OTHER, fs))"

definition fx_proc_ensure_dir_win :: "(string \<Rightarrow> bool) \<Rightarrow> cptr \<Rightarrow> fs \<Rightarrow> int \<times> fs" where
  "fx_proc_ensure_dir_win allowed path fs =
     (if no_path path then (1, fs)
      else let (ok, last_error, fs) = CreateDirectoryA allowed (the path) fs in
        if ok \<or> last_error = ERROR_ALREADY_EXISTS then (0, fs) else (1, fs))"

text \<open>The clock is in ticks of 100 ns since 1601, as two halves.\<close>

definition fx_time_now_ms_win :: "u32 \<times> u32 \<Rightarrow> i64" where
  "fx_time_now_ms_win ft =
     (let (low, high) = ft; QuadPart = push_bit 32 (ucast high) OR ucast low :: 64 word in
      QuadPart div 10000 - 11644473600000)"

text \<open>The time given to \<open>Sleep\<close>, None where it is not called.\<close>

definition fx_time_sleep_ms_win :: "i32 \<Rightarrow> u32 option" where
  "fx_time_sleep_ms_win ms = (if sint ms \<le> 0 then None else Some ms)"

section \<open>What the system promises\<close>

definition attributes_of :: "fs \<Rightarrow> (string \<Rightarrow> u32) \<Rightarrow> bool" where
  "attributes_of fs attrs \<longleftrightarrow> (\<forall>p. case fs p of None \<Rightarrow> attrs p = INVALID_FILE_ATTRIBUTES
     | Some st \<Rightarrow> attrs p \<noteq> INVALID_FILE_ATTRIBUTES \<and> (attrs p AND FILE_ATTRIBUTE_DIRECTORY \<noteq> 0 \<longleftrightarrow> st = Directory))"

text \<open>One instant on both clocks.\<close>

definition same_instant :: "int \<times> int \<Rightarrow> 64 word \<Rightarrow> bool" where
  "same_instant ts ticks \<longleftrightarrow>
     0 \<le> snd ts \<and> snd ts < 1000000000 \<and> uint ticks = (fst ts + 11644473600) * 10000000 + snd ts div 100"

section \<open>The two builds\<close>

lemma ensure_dir_win_eq: "fx_proc_ensure_dir_win allowed path fs = fx_proc_ensure_dir allowed path fs"
  by (simp add: fx_proc_ensure_dir_win_def fx_proc_ensure_dir_def CreateDirectoryA_def mkdir_def)

lemma attributes_ofD:
  assumes "attributes_of fs attrs"
  shows "fs p = None \<Longrightarrow> attrs p = INVALID_FILE_ATTRIBUTES"
    and "fs p = Some st \<Longrightarrow> attrs p \<noteq> INVALID_FILE_ATTRIBUTES \<and>
      (attrs p AND FILE_ATTRIBUTE_DIRECTORY = 0 \<longleftrightarrow> st \<noteq> Directory)"
  using assms by (force simp: attributes_of_def dest: spec [of _ p] split: option.splits)+

text \<open>Where POSIX asks for a regular file, Windows asks for no directory: a device is a file.\<close>

lemma file_exists_win_eq:
  assumes "attributes_of fs attrs"
  shows "fx_proc_file_exists_win attrs (Some p) =
     (if chd p \<noteq> NUL \<and> fs p = Some OtherNode then 1 else fx_proc_file_exists fs (Some p))"
proof (cases "fs p")
  case None
  then show ?thesis using attributes_ofD(1) [OF assms]
    by (simp add: fx_proc_file_exists_win_def fx_proc_file_exists_def no_path_def)
next
  case (Some st)
  then show ?thesis using attributes_ofD(2) [OF assms Some]
    by (cases st) (simp_all add: fx_proc_file_exists_win_def fx_proc_file_exists_def no_path_def Let_def)
qed

text \<open>The process code a command ends with, as \<open>system\<close> reports it on either.\<close>

lemma run_cmd_win_code:
  assumes "code < 256"
  shows "fx_proc_run_cmd_win (\<lambda>_. of_nat code) (Some ''make'') = of_nat code"
proof -
  have "sint (of_nat code :: i32) = int code"
    using assms by (simp add: signed_of_nat signed_take_bit_int_eq_self)
  then have "(of_nat code :: i32) \<noteq> - 1" by auto
  then show ?thesis by (simp add: fx_proc_run_cmd_win_def)
qed

lemma halves: "push_bit 32 (ucast (ucast (drop_bit 32 (q :: 64 word)) :: u32)) OR ucast (ucast q :: u32) = q"
  by (rule bit_word_eqI) (auto simp: bit_simps)

lemma ticks_ms:
  assumes "same_instant (sec, nsec) q"
  shows "uint (q div 10000) = (sec + 11644473600) * 1000 + nsec div 1000000"
proof -
  have "uint (q div 10000) = ((sec + 11644473600) * 10000000 + nsec div 100) div 10000"
    using assms by (simp add: same_instant_def uint_div)
  also have "\<dots> = (nsec div 100 + ((sec + 11644473600) * 1000) * 10000) div 10000" by simp
  also have "\<dots> = (sec + 11644473600) * 1000 + nsec div 100 div 10000" by (subst div_mult_self1) simp_all
  finally show ?thesis by (simp add: div_mult2_eq [symmetric])
qed

lemma seconds_bound:
  "0 \<le> (s + 11644473600) * 10000000 + d \<Longrightarrow> d < 10000000 \<Longrightarrow> - 11644473601 \<le> s"
  "(s + 11644473600) * 10000000 + d < 18446744073709551616 \<Longrightarrow> 0 \<le> d \<Longrightarrow> s < 4398046511104" for s d :: int
  by simp_all

lemma clock_win_eq:
  assumes "same_instant (sec, nsec) q"
  shows "fx_time_now_ms (Some (sec, nsec)) = Some (fx_time_now_ms_win (ucast q, ucast (drop_bit 32 q)))"
proof -
  let ?ms = "sec * 1000 + nsec div 1000000"
  have n: "0 \<le> nsec" "nsec < 1000000000" using assms by (simp_all add: same_instant_def)
  then have d: "0 \<le> nsec div 1000000" "nsec div 1000000 < 1000" by simp_all
  have "0 \<le> uint q" "uint q < 18446744073709551616" using uint_lt2p [of q] by simp_all
  then have r: "0 \<le> (sec + 11644473600) * 10000000 + nsec div 100"
    "(sec + 11644473600) * 10000000 + nsec div 100 < 18446744073709551616"
    using assms unfolding same_instant_def fst_conv snd_conv by argo+
  have "0 \<le> nsec div 100" "nsec div 100 < 10000000" using n by simp_all
  then have s: "- 11644473601 \<le> sec" "sec < 4398046511104" using r seconds_bound by blast+
  then have b: "- (2 ^ 63) \<le> sec * 1000" "sec * 1000 < 2 ^ 63" "- (2 ^ 63) \<le> ?ms" "?ms < 2 ^ 63"
    using d by simp_all
  have "q div 10000 = word_of_int (uint (q div 10000))" by simp
  also have "\<dots> = word_of_int (?ms + 11644473600000)" by (simp add: ticks_ms [OF assms])
  finally have "fx_time_now_ms_win (ucast q, ucast (drop_bit 32 q)) = word_of_int ?ms"
    by (simp add: fx_time_now_ms_win_def Let_def halves)
  then show ?thesis using b by (simp add: fx_time_now_ms_def i64_of_def)
qed

lemma sleep_win_eq:
  "fx_time_sleep_ms ms = map_option (\<lambda>d. (uint d div 1000, (uint d mod 1000) * 1000000)) (fx_time_sleep_ms_win ms)"
proof (cases "sint ms \<le> 0")
  case False
  have "sint ms < 2 ^ 32" using sint_range_size [of ms] by (simp add: word_size)
  then have "uint ms = sint ms" using False by (simp add: uint_sint take_bit_int_eq_self)
  then show ?thesis using False by (simp add: fx_time_sleep_ms_def fx_time_sleep_ms_win_def)
qed (simp add: fx_time_sleep_ms_def fx_time_sleep_ms_win_def)

section \<open>The property\<close>

text \<open>
  one contract on two systems. Making a directory and the test for a path's being there
  answer the same on Windows and on POSIX, except that Windows takes what is neither file nor
  directory for a file; a command that ends with a code below 256 gives that code; at one
  instant both clocks give the same milliseconds; and both sleep for the same time.
\<close>

theorem windows_shims_agree:
  assumes "attributes_of fs attrs" and "code < 256" and "same_instant (sec, nsec) q"
  shows "fx_proc_ensure_dir_win allowed path fs = fx_proc_ensure_dir allowed path fs \<and>
    fx_proc_file_exists_win attrs path =
      (if \<not> no_path path \<and> fs (the path) = Some OtherNode then 1 else fx_proc_file_exists fs path) \<and>
    fx_proc_run_cmd_win (\<lambda>_. of_nat code) (Some ''make'') = fx_proc_run_cmd (\<lambda>_. of_nat (256 * code)) (Some ''make'') \<and>
    Some (fx_time_now_ms_win (ucast q, ucast (drop_bit 32 q))) = fx_time_now_ms (Some (sec, nsec)) \<and>
    fx_time_sleep_ms ms = map_option (\<lambda>d. (uint d div 1000, (uint d mod 1000) * 1000000)) (fx_time_sleep_ms_win ms)"
proof (intro conjI)
  show "fx_proc_file_exists_win attrs path =
      (if \<not> no_path path \<and> fs (the path) = Some OtherNode then 1 else fx_proc_file_exists fs path)"
    using file_exists_win_eq [OF assms(1)]
    by (cases path) (simp_all add: no_path_def fx_proc_file_exists_win_def fx_proc_file_exists_def)
  show "fx_proc_run_cmd_win (\<lambda>_. of_nat code) (Some ''make'') = fx_proc_run_cmd (\<lambda>_. of_nat (256 * code)) (Some ''make'')"
    by (simp only: run_cmd_win_code [OF assms(2)] exit_code [OF assms(2)])
qed (simp_all add: ensure_dir_win_eq clock_win_eq [OF assms(3)] sleep_win_eq)

text \<open>The start of 2000, a directory and a device.\<close>

definition demo_attrs :: "string \<Rightarrow> u32" where
  "demo_attrs p = (if p = ''out'' then 0x10 else if p = ''NUL'' then 0x40 else 0xFFFFFFFF)"

theorem windows_shims_agree_witness:
  "fx_proc_file_exists_win demo_attrs (Some ''NUL'') = 1 \<and>
   fx_proc_file_exists [''out'' \<mapsto> Directory, ''NUL'' \<mapsto> OtherNode] (Some ''NUL'') = 0 \<and>
   fx_time_now_ms (Some (946684800, 500000000)) =
     Some (fx_time_now_ms_win (ucast (125911584005000000 :: 64 word), ucast (drop_bit 32 (125911584005000000 :: 64 word))))"
proof -
  have "attributes_of [''out'' \<mapsto> Directory, ''NUL'' \<mapsto> OtherNode] demo_attrs"
    by (simp add: attributes_of_def demo_attrs_def INVALID_FILE_ATTRIBUTES_def FILE_ATTRIBUTE_DIRECTORY_def)
  moreover have "same_instant (946684800, 500000000) 125911584005000000" by (simp add: same_instant_def)
  moreover have "(3 :: nat) < 256" by simp
  ultimately show ?thesis
    using windows_shims_agree [of "[''out'' \<mapsto> Directory, ''NUL'' \<mapsto> OtherNode]" demo_attrs 3 946684800 500000000
        125911584005000000 "\<lambda>_. True" "Some ''NUL''" 5]
    by (simp add: no_path_def fx_proc_file_exists_def)
qed

end
