(* ===== verification/TlsProbe.thy ===== *)
theory TlsProbe
  imports FxPrelude
begin

text \<open>
  The HTTP probe over an open connection (\<open>host/cap/fx_net_tls_probe.c\<close>). Writing to and
  reading from the connection are not part of the repository: what the write returns and what
  each read delivers are parameters. A read that delivers more bytes than it was asked for
  would write outside the buffer, which is \<open>None\<close>.
\<close>

section \<open>The code\<close>

definition req :: string where
  "req = ''GET / HTTP/1.0'' @ [CHR 0x0D, CHR 0x0A] @ ''Host: localhost'' @
     [CHR 0x0D, CHR 0x0A, CHR 0x0D, CHR 0x0A]"

definition buf_size :: nat where "buf_size = 512"

definition looks_http :: "nat \<Rightarrow> char list \<Rightarrow> bool" where
  "looks_http got buf \<longleftrightarrow> got \<ge> 4 \<and> take 4 buf = ''HTTP''"

text \<open>One tls_answer per read: what it returns and the bytes it writes; then the end of input.\<close>

type_synonym tls_answer = "int \<times> string"

fun probe_loop :: "tls_answer list \<Rightarrow> nat \<Rightarrow> char list \<Rightarrow> int option" where
  "probe_loop [] got buf = Some (if looks_http got buf then 42 else 0)"
| "probe_loop ((n, bytes) # as) got buf =
     (if got < buf_size - 1 then
        if n < 0 then Some 0
        else if n = 0 then Some (if looks_http got buf then 42 else 0)
        else do {
          buf \<leftarrow> memcpy_at buf got bytes;
          got \<leftarrow> Some (got + nat n);
          if looks_http got buf then Some 42 else probe_loop as got buf }
      else Some (if looks_http got buf then 42 else 0))"

definition fx_net_tls_http_get_smoke :: "(string \<Rightarrow> int) \<Rightarrow> tls_answer list \<Rightarrow> int option" where
  "fx_net_tls_http_get_smoke netcap_write answers =
     (if netcap_write req \<noteq> int (length req) then Some 0
      else probe_loop answers 0 (replicate buf_size NUL))"

section \<open>What it answers\<close>

text \<open>A read returns how many bytes it has written, at most as many as there is room for.\<close>

fun answers_fit :: "nat \<Rightarrow> tls_answer list \<Rightarrow> bool" where
  "answers_fit got [] \<longleftrightarrow> True"
| "answers_fit got ((n, bytes) # as) \<longleftrightarrow>
     (n > 0 \<longrightarrow> nat n = length bytes \<and> got + length bytes \<le> buf_size - 1 \<and> answers_fit (got + length bytes) as)"

text \<open>The bytes that arrive before an error or the end.\<close>

fun received :: "tls_answer list \<Rightarrow> string" where
  "received [] = ''''"
| "received ((n, bytes) # as) = (if n > 0 then bytes @ received as else '''')"

lemma buf_prefix:
  assumes "take got buf = out" and "length out = got" and "got + length bytes \<le> length buf"
    and "memcpy_at buf got bytes = Some buf'"
  shows "take (got + length bytes) buf' = out @ bytes \<and> length buf' = length buf"
  using assms by (auto simp: memcpy_at_def split: if_splits)

lemma looks_http_prefix:
  "take got buf = out \<Longrightarrow> length out = got \<Longrightarrow> looks_http got buf \<longleftrightarrow> prefix ''HTTP'' out"
proof -
  assume a: "take got buf = out" "length out = got"
  show ?thesis
  proof (cases "4 \<le> got")
    case True
    then have "take 4 buf = take 4 out" using a by (metis min.absorb1 take_take)
    moreover have "prefix ''HTTP'' out \<longleftrightarrow> take 4 out = ''HTTP''"
      using take_is_prefix [of 4 out] by (auto simp: prefix_def) 
    ultimately show ?thesis using True by (simp add: looks_http_def)
  next
    case False
    then show ?thesis using a by (auto simp: looks_http_def prefix_def)
  qed
qed

lemma probe_loop_exact:
  assumes "answers_fit got as" and "take got buf = out" and "length out = got" and "length buf = buf_size"
    and "got \<le> buf_size - 1" and "\<not> prefix ''HTTP'' out \<or> as = []"
  shows "probe_loop as got buf = Some (if prefix ''HTTP'' (out @ received as) then 42 else 0)"
  using assms
proof (induction as got buf arbitrary: out rule: probe_loop.induct)
  case (1 got buf)
  then show ?case using looks_http_prefix [of got buf out] by simp
next
  case (2 n bytes as got buf)
  then have no: "\<not> prefix ''HTTP'' out" by simp
  then have nl: "\<not> looks_http got buf" using looks_http_prefix [OF 2(3,4)] by simp
  show ?case
  proof (cases "n > 0 \<and> bytes \<noteq> []")
    case False
    then have "n \<le> 0" using 2(2) by auto
    then show ?thesis using no nl by auto
  next
    case True
    have fit: "nat n = length bytes" "got + length bytes \<le> buf_size - 1" "answers_fit (got + length bytes) as"
      using 2(2) True by simp_all
    have "0 < length bytes" using True by simp
    then have lt: "got < buf_size - 1" using fit(2) by linarith
    have room: "got + length bytes \<le> length buf" using fit(2) 2(5) by simp
    then obtain buf' where b: "memcpy_at buf got bytes = Some buf'" by (simp add: memcpy_at_def)
    note b' = buf_prefix [OF 2(3,4) room b]
    have http: "looks_http (got + length bytes) buf' \<longleftrightarrow> prefix ''HTTP'' (out @ bytes)"
      using looks_http_prefix [of "got + length bytes" buf' "out @ bytes"] b' 2(4) by simp
    show ?thesis
    proof (cases "prefix ''HTTP'' (out @ bytes)")
      case True
      then have "prefix ''HTTP'' ((out @ bytes) @ received as)" by (rule prefix_prefix)
      then have "prefix ''HTTP'' (out @ bytes @ received as)" by simp
      then show ?thesis using True http b lt fit \<open>n > 0 \<and> bytes \<noteq> []\<close> by simp
    next
      case False
      from 2(1) [OF lt _ _ b, of "got + length bytes" "out @ bytes"] False http fit b' 2(4,5) \<open>n > 0 \<and> bytes \<noteq> []\<close>
      have "probe_loop as (got + length bytes) buf' =
        Some (if prefix ''HTTP'' ((out @ bytes) @ received as) then 42 else 0)" by simp
      then show ?thesis using False http b lt fit \<open>n > 0 \<and> bytes \<noteq> []\<close> by simp
    qed
  qed
qed

text \<open>
  With reads that keep their contract the probe stays inside its buffer and returns, and it
  answers 42 exactly when the whole request was written and the bytes that arrive begin with
  \<open>HTTP\<close>.
\<close>

theorem tls_probe_exact:
  assumes "answers_fit 0 as"
  shows "fx_net_tls_http_get_smoke w as =
    Some (if w req = int (length req) \<and> prefix ''HTTP'' (received as) then 42 else 0)"
proof -
  have "\<not> prefix ''HTTP'' ''''" by (simp add: prefix_def)
  from probe_loop_exact [OF assms, of "replicate buf_size NUL" "''''"] this show ?thesis
    by (simp add: fx_net_tls_http_get_smoke_def)
qed

theorem tls_probe_exact_witness:
  "fx_net_tls_http_get_smoke (\<lambda>r. int (length r)) [(2, ''HT''), (6, ''TP/1.0''), (0, '''')] = Some 42"
  using tls_probe_exact [of "[(2, ''HT''), (6, ''TP/1.0''), (0, '''')]" "\<lambda>r. int (length r)"]
  by (simp add: buf_size_def)

end
