(* ===== verification/SmokeHost.thy ===== *)
theory SmokeHost
  imports CapIO HostStd
begin

text \<open>
  The host of \<open>examples/cap_host_smoke\<close>: a guard of its own with the root \<open>fixtures\<close> written
  into it, a \<open>read_all\<close> of its own, and a \<open>main\<close> that reads one admitted file and hands its
  bytes to the guest. The guest is compiled from fx and is a parameter.
\<close>

section \<open>The code\<close>

definition CAP_DENIED :: int where "CAP_DENIED = 5"

function no_dotdot_from :: "string \<Rightarrow> nat \<Rightarrow> bool option" where
  "no_dotdot_from path i =
     do { c \<leftarrow> char_at path i;
          if c = NUL then Some True
          else if c = CHR ''.'' then
            do { d \<leftarrow> char_at path (i + 1);
                 if d = CHR ''.'' then Some False else no_dotdot_from path (i + 1) }
          else no_dotdot_from path (i + 1) }"
  by pat_completeness auto
termination
  by (relation "measure (\<lambda>(p, i). length p - i)") (auto simp: char_at_def split: if_splits)

declare no_dotdot_from.simps [simp del]

definition smoke_path_allowed :: "cptr \<Rightarrow> bool option" where
  "smoke_path_allowed path =
     (case path of None \<Rightarrow> Some False | Some p \<Rightarrow> do {
        c0 \<leftarrow> char_at p 0;
        if c0 = NUL then Some False
        else if is_sep c0 then Some False
        else do {
          c1 \<leftarrow> char_at p 1;
          if c1 = CHR '':'' then Some False
          else if strncmp p ''fixtures/'' 9 \<noteq> 0 \<and> strncmp p (''fixtures'' @ [CHR 0x5C]) 9 \<noteq> 0 then Some False
          else no_dotdot_from p 0 } })"

text \<open>
  The result is the text and what is stored through \<open>out_len\<close>, None when that is NULL; the
  outer option is undefined behaviour, the inner one the NULL result.
\<close>

definition smoke_read_all ::
  "io_env \<Rightarrow> disk \<Rightarrow> string \<Rightarrow> usize option \<Rightarrow> (string \<times> usize option) option option" where
  "smoke_read_all e d path out_len =
     (if \<not> io_open e then Some None
      else case d path of None \<Rightarrow> Some None | Some bytes \<Rightarrow>
        if \<not> io_seek_end e then Some None
        else let sz = sint (io_tell e) in
          if sz < 0 then Some None
          else if \<not> io_seek_set e then Some None
          else if \<not> io_malloc e then Some None
          else let n = fread_n e (nat sz) bytes;
                   raw = take n bytes @ replicate (nat sz + 1 - n) NUL in
            do { buf \<leftarrow> aset raw n NUL;
                 Some (Some (take n buf, if out_len \<noteq> None then Some (of_nat n) else out_len)) })"

text \<open>The process code, what stderr shows, and the texts the guest has been given.\<close>

definition smoke_main ::
  "io_env \<Rightarrow> disk \<Rightarrow> (string \<Rightarrow> Result_i32) \<Rightarrow> i32 \<Rightarrow> cptr list \<Rightarrow> (int \<times> string \<times> string list) option" where
  "smoke_main e d guest argc argv =
     (let quit = (\<lambda>r seen. Some (fst r, snd r, seen)) in
      if argc \<noteq> 2 then quit (fx_cli_usage ''usage: cap_host_smoke <file>'') []
      else do {
        file \<leftarrow> aget argv 1;
        allowed \<leftarrow> smoke_path_allowed file;
        if \<not> allowed then quit (fx_cli_fail ''cap_host_smoke'' ''denied (cap)'' CAP_DENIED) []
        else case file of None \<Rightarrow> None | Some path \<Rightarrow> do {
          r \<leftarrow> smoke_read_all e d path None;
          case r of
            None \<Rightarrow> quit (fx_cli_fail ''cap_host_smoke'' ''io error'' 2) []
          | Some (bytes, _) \<Rightarrow>
              let r = guest bytes in
              if r_tag r \<noteq> 0 then quit (fx_cli_fail ''cap_host_smoke'' ''guest rejected payload'' (sint (r_err_val r))) [bytes]
              else if r_ok_val r \<noteq> 42 then quit (fx_cli_fail ''cap_host_smoke'' ''unexpected score'' 1) [bytes]
              else quit (0, '''') [bytes] } })"

section \<open>The guard and the read are the runtime's\<close>

lemma smoke_read_all_eq:
  "smoke_read_all e d path out_len = map_option (map_option (\<lambda>t.
     (t, map_option (\<lambda>_. of_nat (length t)) out_len))) (read_all e d path)"
proof -
  have "fread_n e sz b \<le> sz" "fread_n e sz b \<le> length b" for sz b by (auto simp: fread_n_def)
  then have "min (length b) (fread_n e sz b) = fread_n e sz b" for sz b by (simp add: min_absorb2)
  then show ?thesis
    by (auto simp: smoke_read_all_def read_all_def Let_def aset_def split: option.splits)
qed

lemma no_dotdot_from_eq: "no_dotdot_from p i = map_option Not (has_dotdot_from p i)"
proof (induction p i rule: no_dotdot_from.induct)
  case (1 p i)
  show ?case
  proof (cases "char_at p i")
    case None
    then show ?thesis by (subst no_dotdot_from.simps, subst has_dotdot_from.simps) simp
  next
    case (Some c)
    show ?thesis
    proof (cases "char_at p (i + 1)")
      case None
      with Some 1 show ?thesis
        by (subst no_dotdot_from.simps, subst has_dotdot_from.simps) auto
    next
      case (Some d)
      with \<open>char_at p i = Some c\<close> 1 show ?thesis
        by (subst no_dotdot_from.simps, subst has_dotdot_from.simps) auto
    qed
  qed
qed

lemma strncmp_prefix_n: "length r = n \<Longrightarrow> cstr r \<Longrightarrow> cstr p \<Longrightarrow> strncmp p r n = 0 \<longleftrightarrow> (\<exists>t. p = r @ t)"
  using strncmp_prefix by blast

lemma fixtures_prefix:
  assumes "cstr p"
  shows "strncmp p ''fixtures/'' 9 = 0 \<longleftrightarrow> (\<exists>t. p = ''fixtures/'' @ t)"
    and "strncmp p (''fixtures'' @ [CHR 0x5C]) 9 = 0 \<longleftrightarrow> (\<exists>t. p = (''fixtures'' @ [CHR 0x5C]) @ t)"
  by (rule strncmp_prefix_n; simp add: assms)+

lemma smoke_allowed_eq:
  assumes "cstr p"
  shows "smoke_path_allowed (Some p) = Some (path_under_root ''fixtures'' p)"
proof -
  have u: "path_under_root ''fixtures'' p \<longleftrightarrow> dotdot_free p \<and>
      ((\<exists>t. p = ''fixtures/'' @ t) \<or> (\<exists>t. p = (''fixtures'' @ [CHR 0x5C]) @ t))"
    by (auto simp: path_under_root_def is_sep_def neq_Nil_conv)
  have n: "no_dotdot_from p 0 = Some (dotdot_free p)"
    using has_dotdot_eq [OF assms] by (simp add: no_dotdot_from_eq has_dotdot_def)
  show ?thesis
  proof (cases "(\<exists>t. p = ''fixtures/'' @ t) \<or> (\<exists>t. p = (''fixtures'' @ [CHR 0x5C]) @ t)")
    case True
    then have "chd p = CHR ''f''" "char_at p 1 = Some (CHR ''i'')" by (auto simp: char_at_def)
    then show ?thesis using True u n fixtures_prefix [OF assms] by (auto simp: smoke_path_allowed_def is_sep_def)
  next
    case False
    then show ?thesis using u fixtures_prefix [OF assms]
      by (cases p) (auto simp: smoke_path_allowed_def char_at_1)
  qed
qed

interpretation smoke: path_guard smoke_path_allowed "''fixtures''"
  by unfold_locales (simp add: smoke_path_allowed_def, rule smoke_allowed_eq)

interpretation fixtures: path_guard "path_allowed (Some ''fixtures'') True" "''fixtures''"
  by (rule runtime_path_guard) simp

text \<open>
  two guards, one decision. The guard written into the smoke host answers, for every
  argument, NULL included, what the runtime's guard answers for a live capability with the root
  \<open>fixtures\<close>; neither reads past its string.
\<close>

theorem smoke_guard_equivalent:
  assumes "\<And>p. path = Some p \<Longrightarrow> cstr p"
  shows "smoke_path_allowed path = path_allowed (Some ''fixtures'') True path \<and> smoke_path_allowed path \<noteq> None"
  using smoke.answers [of path] assms
  by (cases path) (simp_all add: smoke.denies_null fixtures.denies_null smoke.decides fixtures.decides)

theorem smoke_guard_equivalent_witness:
  "smoke_path_allowed (Some ''fixtures/a..b'') = Some False \<and>
   path_allowed (Some ''fixtures'') True (Some ''fixtures/a..b'') = Some False"
  using smoke_guard_equivalent [of "Some ''fixtures/a..b''"] smoke_allowed_eq [of "''fixtures/a..b''"]
  by (simp add: path_under_root_def dotdot_free_def sublist_code)

lemma smoke_main_seen:
  assumes "smoke_main e d guest argc argv = Some (code, err, seen)" and "bytes \<in> set seen"
  shows "\<exists>path. 1 < length argv \<and> argv ! 1 = Some path \<and> smoke_path_allowed (Some path) = Some True \<and>
    read_all e d path = Some (Some bytes) \<and> seen = [bytes] \<and>
    code = (let r = guest bytes in if r_tag r \<noteq> 0 then sint (r_err_val r) else if r_ok_val r \<noteq> 42 then 1 else 0)"
proof -
  have code: "fst (fx_cli_fail t m c) = c" for t m c by (simp add: fx_cli_fail_def)
  have "seen \<noteq> []" using assms(2) by auto
  with assms(1) have 2: "argc = 2" by (auto simp: smoke_main_def Let_def split: if_splits)
  with assms(1) obtain fl allowed where f: "aget argv 1 = Some fl" "smoke_path_allowed fl = Some allowed"
    by (auto simp: smoke_main_def Let_def bind_iff)
  with assms(1) 2 \<open>seen \<noteq> []\<close> have a: allowed by (cases allowed) (auto simp: smoke_main_def Let_def)
  then obtain path where p: "fl = Some path" using f(2) by (auto simp: smoke_path_allowed_def split: option.splits)
  obtain r where r: "read_all e d path = Some r" using read_all_total(1) by blast
  have same: "smoke_read_all e d path None = Some (map_option (\<lambda>t. (t, None)) r)" by (simp add: smoke_read_all_eq r)
  with assms(1) 2 f a p \<open>seen \<noteq> []\<close> obtain bs where b: "r = Some bs"
    by (cases r) (auto simp: smoke_main_def Let_def same)
  have "1 < length argv" "argv ! 1 = Some path" using f(1) p by (simp_all add: bind_iff)
  with assms 2 f a p r b show ?thesis
    by (auto simp: smoke_main_def Let_def code same split: if_splits)
qed

text \<open>
  C19: what the guest sees. Whatever the arguments, the disk and the C library do, the guest of
  the smoke host is run at most once, on an admitted path only: a text it is given is a prefix
  of the one file that was named, and the process code is then decided by the guest's result
  alone. That file lies under \<open>fixtures\<close> where both slashes separate components, as on Windows;
  on POSIX it does unless the path goes on after \<open>fixtures\<close> with a backslash, which this guard
  too takes for a separator.
\<close>

theorem smoke_guest_confined:
  assumes "\<And>a. Some a \<in> set argv \<Longrightarrow> cstr a" and "smoke_main e d guest argc argv = Some (code, err, seen)"
    and "bytes \<in> set seen"
  shows "seen = [bytes] \<and> (\<exists>path whole. argv ! 1 = Some path \<and> d path = Some whole \<and> prefix bytes whole \<and>
      lies_under is_sep ''fixtures'' path \<and>
      (lies_under is_slash ''fixtures'' path \<or> prefix (''fixtures'' @ [CHR 0x5C]) path)) \<and>
    code = (let r = guest bytes in if r_tag r \<noteq> 0 then sint (r_err_val r) else if r_ok_val r \<noteq> 42 then 1 else 0)"
proof -
  from smoke_main_seen [OF assms(2,3)] obtain path where l: "1 < length argv" and p: "argv ! 1 = Some path"
    "smoke_path_allowed (Some path) = Some True" "read_all e d path = Some (Some bytes)" "seen = [bytes]"
    "code = (let r = guest bytes in if r_tag r \<noteq> 0 then sint (r_err_val r) else if r_ok_val r \<noteq> 42 then 1 else 0)"
    by blast
  have c: "cstr path" using assms(1) [of path] p(1) l by (metis nth_mem)
  have "path_under_root ''fixtures'' path" using smoke_allowed_eq [OF c] p(2) by simp
  then obtain t where "path = ''fixtures'' @ t" "t \<noteq> []" by (auto simp: path_under_root_def)
  then have "backslash_cut ''fixtures'' path \<Longrightarrow> prefix (''fixtures'' @ [CHR 0x5C]) path"
    by (cases t) (auto simp: backslash_cut_def)
  with smoke.admits_inside [OF c p(2)] have "lies_under is_sep ''fixtures'' path"
    "lies_under is_slash ''fixtures'' path \<or> prefix (''fixtures'' @ [CHR 0x5C]) path" by auto
  moreover obtain whole where "d path = Some whole" "prefix bytes whole"
    using read_all_total(2) [OF p(3)] by blast
  ultimately show ?thesis using p by blast
qed

definition demo_result :: "string \<Rightarrow> Result_i32" where
  "demo_result t = \<lparr>r_tag = 0, r_ok_val = (if t = ''hi'' then 42 else 7), r_err_val = 0\<rparr>"

lemma demo_smoke_run:
  "smoke_main (io_fine 2) [''fixtures/a'' \<mapsto> ''hi''] demo_result 2 [Some ''smoke'', Some ''fixtures/a''] =
     Some (0, '''', [''hi''])"
proof -
  have "smoke_path_allowed (Some ''fixtures/a'') = Some True"
    by (simp add: smoke_allowed_eq path_under_root_def dotdot_free_def sublist_code is_sep_def)
  moreover have "read_all (io_fine 2) [''fixtures/a'' \<mapsto> ''hi''] ''fixtures/a'' = Some (Some ''hi'')"
    using read_all_fine [of "[''fixtures/a'' \<mapsto> ''hi'']" "''fixtures/a''" "''hi''"]
    by (simp flip: numeral_2_eq_2)
  ultimately show ?thesis by (simp add: smoke_main_def demo_result_def aget_def smoke_read_all_eq)
qed

theorem smoke_guest_confined_witness:
  "smoke_main (io_fine 2) [''fixtures/a'' \<mapsto> ''hi''] demo_result 2 [Some ''smoke'', Some ''fixtures/a''] =
     Some (0, '''', [''hi'']) \<and> lies_under is_slash ''fixtures'' ''fixtures/a''"
proof
  have args: "cstr a" if "Some a \<in> set [Some ''smoke'', Some ''fixtures/a'']" for a
    using that by auto
  from smoke_guest_confined [OF args demo_smoke_run, of "''hi''"]
  show "lies_under is_slash ''fixtures'' ''fixtures/a''" by auto
qed (rule demo_smoke_run)

end
