(* ===== verification/SmallHosts.thy ===== *)
theory SmallHosts
  imports FxPrelude
begin

text \<open>
  Two hosts of a few lines: \<open>examples/showcase_wrap/host.c\<close>, whose \<open>main\<close> calls the compiled
  \<open>compute.fx\<close> (a parameter), and \<open>examples/bind_smoke/host.c\<close>, a C function for a compiled
  \<open>main\<close>. Signed addition outside 32 bits is undefined.
\<close>

definition smoke_add :: "i32 \<Rightarrow> i32 \<Rightarrow> i32 option" where
  "smoke_add a b =
     (let r = sint a + sint b in if - (2 ^ 31) \<le> r \<and> r < 2 ^ 31 then Some (a + b) else None)"

definition showcase_main :: "(i32 \<Rightarrow> i32 \<Rightarrow> i32) \<Rightarrow> (i32 \<Rightarrow> i32) \<Rightarrow> i32" where
  "showcase_main fx_compute_score fx_compute_clamp01 =
     (let s = fx_compute_score 20 2; c = fx_compute_clamp01 s in if c \<noteq> 42 then 1 else c)"

text \<open>Where it is defined the sum is that of the numbers.\<close>

lemma smoke_add_exact: "smoke_add a b = Some r \<Longrightarrow> sint r = sint a + sint b"
  by (auto simp: smoke_add_def Let_def sint_word_ariths signed_take_bit_int_eq_self split: if_splits)

lemma smoke_add_demo: "smoke_add 10 32 = Some 42" "smoke_add 0x7FFFFFFF 1 = None"
  by (simp_all add: smoke_add_def)

lemma showcase_exit: "showcase_main score clamp = (if clamp (score 20 2) = 42 then 42 else 1)"
  by (simp add: showcase_main_def Let_def)

text \<open>With the functions of \<open>compute.fx\<close> the process code is the 42 that the README expects.\<close>

lemma showcase_42:
  "showcase_main (\<lambda>x y. x * 2 + y) (\<lambda>n. if sint n < 0 then 0 else if sint n > 100 then 100 else n) = 42"
  by (simp add: showcase_exit)

end
