(* ===== verification/Spec2Isabelle.thy ===== *)
theory Spec2Isabelle
  imports MonitorLog NetDialWin ChanDestroy GuestHost NurseryLive NurseryPlatforms NurserySmokeTheorems
    ChanPool AsyncSend MutexWin FsWalkWin ShimsWin TlsProbe SmokeHost SmallHosts
begin

text \<open>
  The C host runtime of fxlang (\<open>src/host\<close>) and five of the host programs around it. The compiler is
  shipped as a binary and the rest of the repository is written in fx; the C code is what a
  compiled program is linked with: the capabilities that confine a guest, the concurrency
  primitives, and thin shims over the operating system.

  \<^bold>\<open>Parts and how they interact.\<close> A host program opens a guest session, mints capabilities in
  it, runs the compiled guest with their handles and ends the session
  (\<open>cap/fx_cap_runtime.c\<close>); every guarded operation asks the path guard or the allowlist of
  its capability first, the dial (\<open>cap/fx_net_dial.c\<close>) included. The concurrency half stands on
  its own: a bounded channel (\<open>concur/fx_chan.c\<close>), the mailbox around it, the wait on two
  channels, a nursery of tasks with its supervision policies, a table of mutexes, and the
  bridge (\<open>concur/fx_async_bridge.c\<close>) that gives compiled code all of these behind 64-bit
  handles. The shims list directories, run commands, read the environment, the clock and the
  command line.

  \<^bold>\<open>Conventions.\<close> \<open>FxPrelude\<close> holds what all parts share. Integers are words of the width of
  the C code, read with \<open>sint\<close> where the type is signed; C strings are character lists
  (\<open>cstr\<close>: no NUL inside) whose terminator is at the index of their length; \<open>cptr\<close> adds NULL;
  arrays are lists with checked access (\<open>aget\<close>, \<open>aset\<close>). A function into \<open>option\<close> answers None
  for undefined behaviour: a dereference of NULL or of freed memory, an index outside an
  array, an overflow of a signed integer, a misuse of a pthread object. That an operation is
  never None is a claim and is proved as one. Where failure to return is possible it is
  visible: blocking calls end in a \<open>Wait\<close> of their own, and the wait on two channels takes fuel.

  \<^bold>\<open>Theories, in the order of the code.\<close>
  \<^item> \<open>PathGuard\<close>: \<open>mint_root\<close>, \<open>has_dotdot\<close>, \<open>path_allowed\<close>, and \<open>resolve\<close>, the lexical
    resolution of a path they are measured by; the locale of a path guard, interpreted in
    \<open>SmokeHost\<close> for both guards of that program. \<open>GuardTheorems\<close>: their properties.
  \<^item> \<open>CapHeap\<close>, \<open>CapRuntime\<close>, \<open>GuestEnd\<close>: the structs of \<open>fx_cap_runtime.h\<close> as records in one
    heap of typed objects addressed by handles, over any allocator; minting, sessions, nested
    sessions, the arena, budgets, fuel and the allowlist; the recursive teardown.
    A pointer is the 64-bit word it is passed around as, so each conversion between handle and
    pointer (\<open>fx_fscap_to_handle\<close> and the eleven others) is a definition that changes nothing.
  \<^item> \<open>CapIO\<close>: \<open>read_all\<close>, the guarded read and write; each call comes with the outcomes of the
    C library (\<open>io_env\<close>). A path is the caller's own string or the runtime's last text
    (\<open>text_ptr\<close>), whose pointer dies with the next read.
  \<^item> \<open>GuestInv\<close>, \<open>GuestTeardown\<close>, \<open>GuestForest\<close>, \<open>GuestOps\<close>, \<open>GuestSteps\<close>, \<open>GuestMints\<close>,
    \<open>GuestAlloc\<close>, \<open>GuestBegin\<close>: the invariant of the session graph (a ranked forest of live
    sessions, tables in bounds, one arena each, dead sessions with dead capabilities) and one
    step lemma per operation; what the five mints share is the locale \<open>minting\<close>, with an
    interpretation for each. \<open>CapSession\<close> and \<open>CapRuns\<close>: runs of any admissible calls
    (\<open>exec_call\<close>, \<open>calls\<close>, \<open>reachable\<close>); \<open>SessionTheorems\<close>, \<open>BudgetTheorems\<close>, \<open>CapTheorems\<close>,
    \<open>CapTyped\<close>: the properties over all runs.
  \<^item> \<open>Budget\<close>: the locale of a state that steps move, extended to a budgeted capability
    (interpreted in \<open>BudgetTheorems\<close> for FuelCap and for AllocCap, whose conservation theorems
    it gives) and to a monitored state (interpreted in \<open>Monitor\<close> for the runtime).
  \<^item> \<open>Monitor\<close>: the abstract specification of the capability runtime, a reference monitor
    that sees only calls and answers (\<open>mon_ok\<close>, \<open>mon_next\<close>), and the refinement of it by the
    heap (\<open>represents\<close>); \<open>MonitorLog\<close>: what a log the monitor has accepted shows by itself.
  \<^item> \<open>NetDial\<close>, \<open>DialTheorems\<close>: \<open>fx_netcap_dial\<close> and \<open>fx_netcap_close\<close>, with the set of open
    descriptors and a log of what was resolved and connected; \<open>NetDialWin\<close>: with Windows
    sockets. \<open>TlsProbe\<close>: the read loop of \<open>fx_net_tls_probe.c\<close>.
  \<^item> \<open>Fifo\<close>: the locale of a bounded queue, interpreted in \<open>Chan\<close> on the ring buffer. \<open>Chan\<close>:
    the critical sections of \<open>fx_chan.c\<close> as functions that end waiting or return with what they
    wake; \<open>ChanSync\<close>: any number of threads on one channel (\<open>sys_step\<close>), spurious wake-ups
    included; \<open>ChanDestroy\<close>: the blocks of memory a channel and a mailbox are made of, allocated and
    freed. \<open>Mailbox\<close>, \<open>Select\<close>: \<open>fx_mailbox.c\<close>, \<open>fx_select.c\<close>,
    where other threads act between any two polls and in the sleeps;
    \<open>ChanTheorems\<close>: their properties; \<open>ChanPool\<close>: one producer and any number of consumers
    (\<open>pool_step\<close>), which are served completely and come to an end.
  \<^item> \<open>Nursery\<close>: \<open>fx_task_nursery.c\<close> and \<open>fx_supervise.c\<close>; one owner and any number of other
    threads (\<open>n_step\<close>), where the owner's calls are cut at the places the code drops the lock; what
    a join returns (\<open>join_returns\<close>), the memory of a slot, gone once the nursery is freed
    (\<open>slot_ref\<close>), and the trampoline that a thread starts in;
    \<open>NurseryTheorems\<close>, \<open>NurseryLive\<close> (runs under a fair scheduler); \<open>NurseryPlatforms\<close>: the
    builds for Windows, Linux and other systems, with the threads they start and release
    (\<open>p_step\<close>), each a refinement of \<open>n_step\<close>.
  \<^item> \<open>AsyncBridge\<close>, \<open>AsyncTheorems\<close>: the bridge over the three previous groups, with result
    slots, argument blocks and the task bodies (\<open>b_step\<close> ties a task's end to its body, called
    through the trampoline); \<open>AsyncSend\<close>: a nursery of sending tasks on one channel (\<open>c_step\<close>), from the
    bridge's calls down to the ring buffer.
  \<^item> \<open>Mutex\<close>, \<open>MutexTheorems\<close>: \<open>fx_mutex.c\<close>, with pthread mutexes as free or held by a thread and
    the threads' calls as steps (\<open>m_step\<close>): two for a lock, and two for a create or a destroy, which
    nothing in the code guards against each other; \<open>MutexWin\<close>: the same over critical sections, which
    count (\<open>w_step\<close>).
  \<^item> \<open>CoreErr\<close>, \<open>Decimal\<close>, \<open>FsWalk\<close>, \<open>Process\<close>, \<open>HostStd\<close>: the error codes of zspec with the
    test of a string copy, decimal printing, \<open>std_fs_walk/ref.c\<close>,
    \<open>process/fx_process.c\<close>, and \<open>std_env\<close>, \<open>std_time\<close> and \<open>cli\<close>; \<open>FsWalkWin\<close> and \<open>ShimsWin\<close>: their
    Windows branches, each compared with the other branch.
  \<^item> \<open>NurserySmoke\<close>, \<open>NurserySmokeCalls\<close>, \<open>NurserySmokeTheorems\<close>:
    \<open>examples/concur_nursery_smoke/host.c\<close>, the probes as straight lines of calls on the
    nursery, in the Windows and the POSIX build, against any schedule of its tasks, which run one
    after the other.
  \<^item> \<open>GuestHost\<close>, \<open>SmokeHost\<close>: the \<open>main\<close> of \<open>scaffolds/guest\<close> over the model of the runtime, and
    of \<open>examples/cap_host_smoke\<close> with its own guard and read. \<open>SmallHosts\<close>: two hosts of a few
    lines.

  \<^bold>\<open>What the properties show.\<close> Confinement: an admitted path resolves under its root (on POSIX, if it does not go on
  after the root with a backslash, which the guard takes for a separator), reads
  and writes reach only what a live capability grants, a dial only its allowlist, and both
  hosts of a guest contain it. Authority: the runtime answers as the monitor does, so every
  use of a capability is justified by the log of calls and answers before it. Sessions: ending
  one ends its tree and nothing else, revocation is permanent, handles keep their type, and
  no call meets undefined behaviour, but for a read whose path is the runtime's own last text. Arithmetic: arena blocks are aligned and disjoint, budgets and
  fuel are never overspent. Channels: under any interleaving a bounded first-in first-out
  queue, no wake-up lost, drained after a close, and a pool of consumers gets the whole of
  what is sent in boundedly many steps. Nurseries: shutdown ends and leaves no task
  behind, a join that says OK is complete, and results and messages arrive. Mutexes exclude, on
  either system, as long as creates and destroys do not overlap; a run in which two creates
  do goes wrong (\<open>unserialised_create_collides\<close>). Listings of names without newlines can be read back.

  \<^bold>\<open>Bounds and fuel.\<close> \<open>select_loop\<close> takes as fuel the number of rounds and is None when it runs
  out; the timeout theorem gives the number that is enough, the timeout plus two, for every
  timeout below the largest, and the lemma beside it shows that no number is enough for the
  largest. The growth of the listing buffer is a \<open>partial_function\<close>, shown to return
  for every listing below \<open>2^63\<close> bytes (\<open>dir_fits\<close>). Channel
  capacities are bounded by \<open>2^30\<close> in every property of the channel that says an operation returns, because beyond it the
  index computed can overflow (\<open>chan_index_overflow\<close>). The recursion of \<open>fx_guest_end\<close> is a \<open>partial_function\<close>,
  and its return is a theorem about well-formed graphs.

  \<^bold>\<open>Parameters.\<close> The allocator (any list of addresses, usable or not), \<open>realloc\<close>, the outcomes
  of the C library's file calls, \<open>getenv\<close>, the clock, \<open>opendir\<close> and \<open>FindFirstFileA\<close>,
  \<open>mkdir\<close>, \<open>system\<close>, \<open>getaddrinfo\<close> and the sockets, \<open>WSAStartup\<close>, how \<open>WaitForSingleObject\<close>
  and the timed \<open>pthread_join\<close> end (as documented, \<open>wait_may\<close>), \<open>core_str_dup\<close> of the zspec
  library (any error code with any pointer; where a text matters, a copy that succeeds has the
  text it was given), the answers of a TLS connection, whether a thread can be created, and the compiled
  guest.

  \<^bold>\<open>Rules of the callers.\<close> Where a property needs the client of a component to keep a rule, it is a
  premise or a condition of the step relation, and stated with the property: handles are NULL
  or were handed out; a thread unlocks only the mutex it holds, and destroys only one nobody
  uses, with no other create or destroy under way; no thread spawns into a nursery while it is
  being shut down; a channel is destroyed when nobody is inside.

  \<^bold>\<open>Not modelled.\<close> Memory is sequentially consistent: that unsynchronised accesses are data
  races in C (the table of mutexes, the one result the tasks of the smoke program store to) is a
  finding, not a part of the model. The synchronisation primitives below a critical section: the Windows
  branches of channel and select stand one for one where the pthread calls and the sleep
  stand, with a contract that \<open>wakes\<close> and the waits of the model allow, so both builds are the
  same definitions. The stand-alone \<open>fx_fscap_free\<close> and \<open>fx_outcap_free\<close> are modelled, but
  are not among the calls of a run: they give memory back that handles still name. Of zspec, a
  library present only as a binary archive, everything but its error codes. The compiler, its
  standard library and the guests, which are fx or binaries.
\<close>

end
